(* ===== verification/Prelude.thy ===== *)
theory Prelude
  imports Main "HOL-Library.Word"
begin

text \<open>
  Shared material of the gemOS development: the C integer types as machine words, the
  collections of rewrite rules the component theories feed, and the facts on aligned
  addresses and page frames that every proof about the kernel's raw memory rests on.

  An address is split at bit 12 (\<open>PAGE_SHIFT\<close>): \<open>drop_bit 12 a\<close> is the page frame number and
  \<open>take_bit 12 a\<close> the offset. \<open>aligned n a\<close> says that the low \<open>n\<close> bits of \<open>a\<close> are zero, so
  adding a value below \<open>2 ^ n\<close> changes neither the bits above nor overflows.
\<close>

unbundle bit_operations_syntax

subsection \<open>C types (\<open>include/types.h\<close>)\<close>

type_synonym u8 = "8 word"
type_synonym u16 = "16 word"
type_synonym u32 = "32 word"
type_synonym u64 = "64 word"
type_synonym s32 = "32 word" \<comment> \<open>read with \<open>sint\<close> where the sign matters\<close>
type_synonym memory = "u64 \<Rightarrow> u8" \<comment> \<open>physical memory, one byte per address\<close>

named_theorems frame_simps \<open>which part of the state an operation leaves alone\<close>
named_theorems mem_simps \<open>reads over writes of physical memory\<close>
named_theorems word_facts \<open>arithmetic of the model's words\<close>

subsection \<open>Aligned addresses\<close>

definition aligned :: "nat \<Rightarrow> u64 \<Rightarrow> bool" where
  "aligned n a \<longleftrightarrow> take_bit n a = 0"

lemma aligned_dvd: "aligned n a \<longleftrightarrow> 2 ^ n dvd a"
  by (simp add: aligned_def take_bit_eq_0_iff)

lemma aligned_mono: "aligned n a \<Longrightarrow> k \<le> n \<Longrightarrow> aligned k a"
  unfolding aligned_dvd by (rule power_le_dvd)

lemma aligned_plus: "aligned n a \<Longrightarrow> aligned n b \<Longrightarrow> aligned n (a + b)"
  unfolding aligned_dvd by (rule dvd_add)

lemma aligned_mult: "aligned n a \<Longrightarrow> aligned n (a * b)"
  unfolding aligned_dvd by (rule dvd_mult2)

lemma aligned_push_bit [simp]: "k \<le> n \<Longrightarrow> aligned k (push_bit n a)"
  by (simp add: aligned_dvd push_bit_eq_mult dvd_mult le_imp_power_dvd)

lemma aligned_numerals [simp]: "aligned 2 4" "aligned 3 8" "aligned 2 8" "aligned 2 0" "aligned 3 0"
  by (simp_all add: aligned_def)

lemma aligned_disjoint:
  assumes "aligned n a" "drop_bit n k = 0"
  shows "a AND k = 0"
proof (rule bit_word_eqI)
  fix i
  have "\<not> bit (take_bit n a) i" "\<not> bit (drop_bit n k) (i - n)"
    using assms by (simp_all add: aligned_def)
  then show "bit (a AND k) i \<longleftrightarrow> bit (0::u64) i"
    by (cases "i < n") (auto simp: bit_simps)
qed

lemma drop_bit_eq_0_iff_less: "drop_bit n (k::u64) = 0 \<longleftrightarrow> unat k < 2 ^ n"
proof -
  have "drop_bit n k = 0 \<longleftrightarrow> unat (drop_bit n k) = 0" by (simp add: unat_eq_zero)
  also have "\<dots> \<longleftrightarrow> drop_bit n (unat k) = 0" by (simp add: unat_drop_bit_eq)
  also have "\<dots> \<longleftrightarrow> unat k < 2 ^ n" by (simp add: drop_bit_eq_div div_eq_0_iff)
  finally show ?thesis .
qed

lemma aligned_add:
  assumes "aligned n a" "unat k < 2 ^ n"
  shows "drop_bit n (a + k) = drop_bit n a" "take_bit n (a + k) = k"
proof -
  have k: "drop_bit n k = 0" using assms(2) by (simp add: drop_bit_eq_0_iff_less)
  have *: "a + k = a OR k"
    by (rule disjunctive_add_eq_or) (rule aligned_disjoint [OF assms(1) k])
  show "drop_bit n (a + k) = drop_bit n a" by (simp add: * drop_bit_or k)
  have "take_bit n k = k" using k
    by (metis add.right_neutral bits_ident push_bit_of_0 add_0)
  then show "take_bit n (a + k) = k" using assms(1) by (simp add: * aligned_def)
qed

lemma aligned_inj:
  assumes "aligned n a" "aligned n b" "unat j < 2 ^ n" "unat k < 2 ^ n" "a + j = b + k"
  shows "a = b \<and> j = k"
proof -
  have "j = k"
    using aligned_add(2) [OF assms(1,3)] aligned_add(2) [OF assms(2,4)] assms(5) by simp
  with assms(5) show ?thesis by simp
qed

lemma aligned_add_ne:
  "\<lbrakk>aligned n a; aligned n b; a \<noteq> b; unat j < 2 ^ n; unat k < 2 ^ n\<rbrakk> \<Longrightarrow> a + j \<noteq> b + k"
  using aligned_inj by blast

lemma drop_bit_add_small:
  assumes "aligned k a" "k \<le> n" "unat j < 2 ^ k"
  shows "drop_bit n (a + j) = drop_bit n a"
proof -
  have "drop_bit n (a + j) = drop_bit (n - k) (drop_bit k (a + j))" using assms(2) by simp
  also have "\<dots> = drop_bit (n - k) (drop_bit k a)"
    by (simp only: aligned_add(1) [OF assms(1,3)])
  also have "\<dots> = drop_bit n a" using assms(2) by simp
  finally show ?thesis .
qed

lemma aligned_drop_bit_inj:
  assumes "aligned n a" "aligned n b" "drop_bit n a = drop_bit n b"
  shows "a = b"
proof -
  have "a = push_bit n (drop_bit n a)" "b = push_bit n (drop_bit n b)"
    using bits_ident [of n a] bits_ident [of n b] assms(1,2) by (simp_all add: aligned_def)
  with assms(3) show ?thesis by metis
qed

subsection \<open>Zero extension from 32 to 64 bits\<close>

lemma unat_ucast_u64 [simp, word_facts]: "unat (ucast (p :: u32) :: u64) = unat p"
proof -
  have "unat p < 2 ^ 64" using unsigned_less [of p, where ?'a = nat] by simp
  then show ?thesis by (simp add: unsigned_ucast_eq take_bit_nat_eq_self)
qed

lemma ucast_u64_inject [simp, word_facts]: "(ucast (p :: u32) :: u64) = ucast q \<longleftrightarrow> p = q"
  by (simp add: word_unat_eq_iff)

lemma unat_drop [word_facts]: "unat (drop_bit n (a :: 'a::len word)) = unat a div 2 ^ n"
  by (simp only: unat_drop_bit_eq) (simp only: drop_bit_eq_div)

lemma unat_of_nat_small [word_facts]:
  "k < 2 ^ LENGTH('a) \<Longrightarrow> unat (of_nat k :: 'a::len word) = k"
  by (simp add: unat_of_nat)

subsection \<open>Loop counters\<close>

lemma unat_inc:
  fixes i n :: "'a::len word"
  assumes "i < n"
  shows "unat (i + 1) = Suc (unat i)"
proof -
  have "1 + i \<noteq> 0" using assms by (metis add.commute add.right_neutral add_diff_cancel_left'
      max_word_max not_le diff_0 add_diff_cancel_right')
  then show ?thesis by (simp add: unatSuc add.commute)
qed

lemma counter_measure:
  fixes i n :: "'a::len word"
  assumes "i < n"
  shows "unat n - unat (i + 1) < unat n - unat i"
  using assms unat_inc [OF assms] by (simp add: word_less_nat_alt)

subsection \<open>Blocks\<close>

text \<open>The offset of an address in its block, and membership in the block of an aligned base.\<close>

lemma in_block_iff:
  assumes "aligned n p" "n < 64"
  shows "unat (a - p) < 2 ^ n \<longleftrightarrow> drop_bit n a = drop_bit n p"
proof
  assume "unat (a - p) < 2 ^ n"
  from aligned_add(1) [OF assms(1) this] show "drop_bit n a = drop_bit n p" by simp
next
  assume eq: "drop_bit n a = drop_bit n p"
  have "p = push_bit n (drop_bit n p)"
    using bits_ident [of n p] assms(1) by (simp add: aligned_def)
  then have "a = p + take_bit n a" using bits_ident [of n a] eq by simp
  then have "a - p = take_bit n a" by (metis add_diff_cancel_left')
  moreover have "unat (take_bit n a) < 2 ^ n" by (simp add: unsigned_take_bit_eq)
  ultimately show "unat (a - p) < 2 ^ n" by simp
qed

lemma block_offset:
  assumes "aligned n p" "drop_bit n a = drop_bit n p"
  shows "a = p + take_bit n a"
proof -
  have "p = push_bit n (drop_bit n p)"
    using bits_ident [of n p] assms(1) by (simp add: aligned_def)
  then show ?thesis using bits_ident [of n a] assms(2) by simp
qed

end
