(* ===== verification/Phys_Mem.thy ===== *)
theory Phys_Mem
  imports Prelude
begin

text \<open>
  Physical memory as the kernel uses it: bytes, and little-endian 32- and 64-bit accesses
  through pointers. The routines \<open>bzero\<close> and \<open>memcpy\<close> of \<open>lib.c\<close> are the byte loops of the
  source; the lemmas give their effect in closed form, so that later theories never reason
  about the loops again. \<open>osmap\<close> (\<open>memory.c\<close>) is the kernel's identity map of page frames.
\<close>

subsection \<open>Typed accesses\<close>

definition rd32 :: "memory \<Rightarrow> u64 \<Rightarrow> u32" where
  "rd32 m a = ucast (m a) OR push_bit 8 (ucast (m (a + 1))) OR
     push_bit 16 (ucast (m (a + 2))) OR push_bit 24 (ucast (m (a + 3)))"

definition wr32 :: "memory \<Rightarrow> u64 \<Rightarrow> u32 \<Rightarrow> memory" where
  "wr32 m a v = m(a := ucast v, a + 1 := ucast (drop_bit 8 v),
     a + 2 := ucast (drop_bit 16 v), a + 3 := ucast (drop_bit 24 v))"

definition rd64 :: "memory \<Rightarrow> u64 \<Rightarrow> u64" where
  "rd64 m a = ucast (rd32 m a) OR push_bit 32 (ucast (rd32 m (a + 4)))"

definition wr64 :: "memory \<Rightarrow> u64 \<Rightarrow> u64 \<Rightarrow> memory" where
  "wr64 m a v = wr32 (wr32 m a (ucast v)) (a + 4) (ucast (drop_bit 32 v))"

lemma u32_of_bytes:
  "ucast (ucast v :: u8) OR push_bit 8 (ucast (ucast (drop_bit 8 v) :: u8)) OR
     push_bit 16 (ucast (ucast (drop_bit 16 v) :: u8)) OR
     push_bit 24 (ucast (ucast (drop_bit 24 v) :: u8)) = (v :: u32)" (is "?w = v")
proof (rule bit_word_eqI)
  fix n assume "n < LENGTH(32)"
  then consider "n < 8" | "8 \<le> n" "n < 16" | "16 \<le> n" "n < 24" | "24 \<le> n" "n < 32"
    by fastforce
  then show "bit ?w n = bit v n"
    by cases (auto simp: bit_simps)
qed

lemma u64_of_halves:
  "ucast (ucast v :: u32) OR push_bit 32 (ucast (ucast (drop_bit 32 v) :: u32)) = (v :: u64)"
  by (rule bit_word_eqI) (auto simp: bit_simps)

lemma rd32_wr32 [simp, mem_simps]: "rd32 (wr32 m a v) a = v"
  by (simp add: rd32_def wr32_def u32_of_bytes)

lemma aligned2_ne:
  assumes "aligned 2 a" "aligned 2 b" "a \<noteq> b"
  shows "a + 1 \<noteq> b" "a + 2 \<noteq> b" "a + 3 \<noteq> b" "a + 1 \<noteq> b + 2" "a + 1 \<noteq> b + 3" "a + 2 \<noteq> b + 3"
    "a + 2 \<noteq> b + 1" "a + 3 \<noteq> b + 1" "a + 3 \<noteq> b + 2" "a \<noteq> b + 1" "a \<noteq> b + 2" "a \<noteq> b + 3"
  using aligned_add_ne [OF assms, of 1 0] aligned_add_ne [OF assms, of 2 0]
    aligned_add_ne [OF assms, of 3 0] aligned_add_ne [OF assms, of 1 2]
    aligned_add_ne [OF assms, of 1 3] aligned_add_ne [OF assms, of 2 3]
    aligned_add_ne [OF assms, of 2 1] aligned_add_ne [OF assms, of 3 1]
    aligned_add_ne [OF assms, of 3 2] aligned_add_ne [OF assms, of 0 1]
    aligned_add_ne [OF assms, of 0 2] aligned_add_ne [OF assms, of 0 3]
  by simp_all

lemma rd32_wr32_other [mem_simps]:
  assumes "aligned 2 a" "aligned 2 b" "a \<noteq> b"
  shows "rd32 (wr32 m a v) b = rd32 m b"
  using aligned2_ne [OF assms] aligned2_ne [OF assms(2,1)] assms(3)
  by (auto simp: rd32_def wr32_def)

lemma aligned3_4: "aligned 3 a \<Longrightarrow> aligned 2 (a + 4)"
  by (rule aligned_plus) (erule aligned_mono, simp, simp)

lemma aligned3_2: "aligned 3 a \<Longrightarrow> aligned 2 a"
  by (erule aligned_mono) simp

lemma rd64_wr64 [simp, mem_simps]:
  assumes "aligned 3 a"
  shows "rd64 (wr64 m a v) a = v"
proof -
  have "rd32 (wr64 m a v) a = ucast v"
    using rd32_wr32_other [OF aligned3_4 [OF assms] aligned3_2 [OF assms]]
    by (simp add: wr64_def)
  moreover have "rd32 (wr64 m a v) (a + 4) = ucast (drop_bit 32 v)" by (simp add: wr64_def)
  ultimately show ?thesis by (simp add: rd64_def u64_of_halves)
qed

lemma rd64_wr64_other [mem_simps]:
  assumes "aligned 3 a" "aligned 3 b" "a \<noteq> b"
  shows "rd64 (wr64 m a v) b = rd64 m b"
proof -
  have "a + 4 \<noteq> b" "a \<noteq> b + 4"
    using aligned_add_ne [OF assms, of 4 0] aligned_add_ne [OF assms, of 0 4] by simp_all
  then show ?thesis
    using assms by (simp add: rd64_def wr64_def rd32_wr32_other aligned3_4 aligned3_2)
qed

subsection \<open>Accesses stay in the block of their address\<close>

lemma wr32_frame:
  assumes "aligned 2 a" "2 \<le> n" "drop_bit n b \<noteq> drop_bit n a"
  shows "wr32 m a v b = m b"
  using drop_bit_add_small [OF assms(1,2), of 1] drop_bit_add_small [OF assms(1,2), of 2]
    drop_bit_add_small [OF assms(1,2), of 3] assms(3) by (auto simp: wr32_def)

lemma rd32_cong:
  assumes "aligned 2 a" "2 \<le> n" "\<And>b. drop_bit n b = drop_bit n a \<Longrightarrow> m b = m' b"
  shows "rd32 m a = rd32 m' a"
  using drop_bit_add_small [OF assms(1,2), of 1] drop_bit_add_small [OF assms(1,2), of 2]
    drop_bit_add_small [OF assms(1,2), of 3] by (simp add: rd32_def assms(3))

lemma wr64_frame:
  assumes "aligned 3 a" "3 \<le> n" "drop_bit n b \<noteq> drop_bit n a"
  shows "wr64 m a v b = m b"
proof -
  have "drop_bit n (a + 4) = drop_bit n a" by (rule drop_bit_add_small [OF assms(1,2)]) simp
  then show ?thesis
    using assms by (simp add: wr64_def wr32_frame [where n = n] aligned3_4 aligned3_2)
qed

lemma rd64_cong:
  assumes "aligned 3 a" "3 \<le> n" "\<And>b. drop_bit n b = drop_bit n a \<Longrightarrow> m b = m' b"
  shows "rd64 m a = rd64 m' a"
proof -
  have *: "drop_bit n (a + 4) = drop_bit n a" by (rule drop_bit_add_small [OF assms(1,2)]) simp
  have "rd32 m a = rd32 m' a"
    by (rule rd32_cong [where n = n]) (use assms aligned3_2 in auto)
  moreover have "rd32 m (a + 4) = rd32 m' (a + 4)"
    by (rule rd32_cong [where n = n]) (use assms aligned3_4 * in auto)
  ultimately show ?thesis by (simp add: rd64_def)
qed

subsection \<open>Page frames (\<open>osmap\<close>) and table entries\<close>

definition osmap :: "u64 \<Rightarrow> u64" where
  "osmap pfn = push_bit 12 pfn"

abbreviation PAGE_SHIFT :: nat where "PAGE_SHIFT \<equiv> 12"
abbreviation PAGE_SIZE :: int where "PAGE_SIZE \<equiv> 4096"

abbreviation frame_of :: "u64 \<Rightarrow> u64" where "frame_of a \<equiv> drop_bit 12 a"

lemma aligned_osmap [simp]: "k \<le> 12 \<Longrightarrow> aligned k (osmap p)"
  by (simp add: osmap_def)

lemma frame_of_osmap_u32 [simp]: "frame_of (osmap (ucast (p :: u32))) = ucast p"
  unfolding osmap_def by (rule bit_word_eqI) (auto simp: bit_simps dest: bit_imp_le_length)

lemma osmap_u32_inj [simp]:
  "osmap (ucast (p :: u32)) = osmap (ucast (q :: u32)) \<longleftrightarrow> p = q"
proof
  assume "osmap (ucast p) = osmap (ucast q)"
  then have "frame_of (osmap (ucast p)) = frame_of (osmap (ucast q))" by simp
  then show "p = q" by simp
qed simp

text \<open>\<open>(u64 *) base + i\<close>: the address of an entry of a table of 8-byte entries.\<close>

definition entry_addr :: "u64 \<Rightarrow> u64 \<Rightarrow> u64" where
  "entry_addr base i = base + 8 * i"

lemma unat_8_times:
  fixes i :: u64
  assumes "unat i < 512"
  shows "unat (8 * i) = 8 * unat i"
  using assms by (simp add: unat_word_ariths)

lemma entry_addr_frame:
  "aligned 12 base \<Longrightarrow> unat i < 512 \<Longrightarrow> frame_of (entry_addr base i) = frame_of base"
  unfolding entry_addr_def by (rule aligned_add) (simp_all add: unat_8_times)

lemma entry_addr_aligned: "aligned 12 base \<Longrightarrow> aligned 3 (entry_addr base i)"
  unfolding entry_addr_def
  by (rule aligned_plus) (erule aligned_mono, simp, rule aligned_mult, simp)

lemma entry_addr_inj:
  assumes "aligned 12 a" "aligned 12 b" "unat i < 512" "unat j < 512"
    "entry_addr a i = entry_addr b j"
  shows "a = b \<and> i = j"
proof -
  have "a = b \<and> 8 * i = 8 * j"
    by (rule aligned_inj [where n = 12]) (use assms in \<open>simp_all add: entry_addr_def unat_8_times\<close>)
  moreover have "8 * unat i = 8 * unat j" if "8 * i = 8 * j"
    using that unat_8_times assms(3,4) by metis
  ultimately show ?thesis by (simp add: word_unat_eq_iff)
qed

subsection \<open>\<open>bzero\<close> (\<open>lib.c\<close>)\<close>

function bzero_loop :: "memory \<Rightarrow> u64 \<Rightarrow> int \<Rightarrow> int \<Rightarrow> memory" where
  "bzero_loop m ptr i len =
     (if i < len then bzero_loop (m(ptr + word_of_int i := 0)) ptr (i + 1) len else m)"
  by pat_completeness auto
termination by (relation "measure (\<lambda>(m, ptr, i, len). nat (len - i))") auto

declare bzero_loop.simps [simp del]

definition bzero :: "memory \<Rightarrow> u64 \<Rightarrow> int \<Rightarrow> memory" where
  "bzero m ptr len = bzero_loop m ptr 0 len"

lemma bzero_loop_apply:
  "bzero_loop m ptr i len a =
     (if \<exists>k. i \<le> k \<and> k < len \<and> a = ptr + word_of_int k then 0 else m a)"
proof (induction m ptr i len rule: bzero_loop.induct)
  case (1 m ptr i len)
  show ?case
  proof (cases "i < len")
    case True
    have split: "(\<exists>k. i \<le> k \<and> k < len \<and> a = ptr + word_of_int k) \<longleftrightarrow>
        a = ptr + word_of_int i \<or> (\<exists>k. i + 1 \<le> k \<and> k < len \<and> a = ptr + word_of_int k)"
    proof
      assume "\<exists>k. i \<le> k \<and> k < len \<and> a = ptr + word_of_int k"
      then obtain k where "i \<le> k" "k < len" "a = ptr + word_of_int k" by blast
      then show "a = ptr + word_of_int i \<or> (\<exists>k. i + 1 \<le> k \<and> k < len \<and> a = ptr + word_of_int k)"
        by (cases "k = i") (simp, intro disjI2 exI [of _ k], simp)
        next
      assume "a = ptr + word_of_int i \<or> (\<exists>k. i + 1 \<le> k \<and> k < len \<and> a = ptr + word_of_int k)"
      then show "\<exists>k. i \<le> k \<and> k < len \<and> a = ptr + word_of_int k"
      proof
        assume "\<exists>k. i + 1 \<le> k \<and> k < len \<and> a = ptr + word_of_int k"
        then obtain k where "i + 1 \<le> k" "k < len" "a = ptr + word_of_int k" by blast
        then show ?thesis by (intro exI [of _ k]) simp
      qed (use True in auto)
    qed
    show ?thesis
      by (simp only: bzero_loop.simps [of m ptr i len] True if_True "1.IH" [OF True] split) auto
  next
    case False
    then show ?thesis by (subst bzero_loop.simps) auto
  qed
qed

lemma bzero_apply:
  assumes "len \<le> 2 ^ 64"
  shows "bzero m p len a = (if uint (a - p) < len then 0 else m a)"
proof -
  have "(\<exists>k\<ge>0. k < len \<and> a = p + word_of_int k) \<longleftrightarrow> uint (a - p) < len"
  proof
    assume "\<exists>k\<ge>0. k < len \<and> a = p + word_of_int k"
    then obtain k where k: "0 \<le> k" "k < len" "a = p + word_of_int k" by blast
    then have "uint (a - p) = k" using assms
      by (simp add: uint_word_of_int_eq take_bit_int_eq_self_iff)
    with k show "uint (a - p) < len" by simp
  next
    assume "uint (a - p) < len"
    then show "\<exists>k\<ge>0. k < len \<and> a = p + word_of_int k"
      by (intro exI [of _ "uint (a - p)"]) simp
  qed
  then show ?thesis by (simp add: bzero_def bzero_loop_apply)
qed

lemma bzero_page:
  assumes "aligned 12 p"
  shows "bzero m p PAGE_SIZE = (\<lambda>a. if frame_of a = frame_of p then 0 else m a)"
proof
  fix a
  have "uint (a - p) = int (unat (a - p))" by simp
  then have "uint (a - p) < PAGE_SIZE \<longleftrightarrow> unat (a - p) < 2 ^ 12"
    by (simp only: of_nat_less_numeral_iff) simp
  moreover have "unat (a - p) < 2 ^ 12 \<longleftrightarrow> frame_of a = frame_of p" by (rule in_block_iff [OF assms]) simp
  moreover have "bzero m p PAGE_SIZE a = (if uint (a - p) < PAGE_SIZE then 0 else m a)"
    by (rule bzero_apply) simp
  ultimately show "bzero m p PAGE_SIZE a = (if frame_of a = frame_of p then 0 else m a)"
    by (simp only:)
qed

subsection \<open>\<open>memcpy\<close> (\<open>lib.c\<close>)\<close>

fun memcpy_loop :: "memory \<Rightarrow> u64 \<Rightarrow> u64 \<Rightarrow> nat \<Rightarrow> memory" where
  "memcpy_loop m d s 0 = m"
| "memcpy_loop m d s (Suc n) = memcpy_loop (m(d := m s)) (d + 1) (s + 1) n"

definition memcpy :: "memory \<Rightarrow> u64 \<Rightarrow> u64 \<Rightarrow> u32 \<Rightarrow> memory" where
  "memcpy m d s len = memcpy_loop m d s (unat len)"

lemma memcpy_loop_apply:
  assumes "n \<le> 2 ^ 63" "\<And>i j. i < n \<Longrightarrow> j < n \<Longrightarrow> d + of_nat i \<noteq> s + of_nat j"
  shows "memcpy_loop m d s n a = (if unat (a - d) < n then m (s + (a - d)) else m a)"
  using assms
proof (induction n arbitrary: m d s)
  case (Suc n)
  let ?m = "m(d := m s)"
  have ne: "d + 1 + of_nat i \<noteq> s + 1 + of_nat j" if "i < n" "j < n" for i j
    using Suc.prems(2) [of "Suc i" "Suc j"] that by (simp add: add_ac)
  have IH: "memcpy_loop ?m (d + 1) (s + 1) n a =
      (if unat (a - (d + 1)) < n then ?m (s + 1 + (a - (d + 1))) else ?m a)"
    by (rule Suc.IH) (use Suc.prems(1) ne in auto)
  show ?case
  proof (cases "a = d")
    case True
    then show ?thesis using IH Suc.prems(1) by simp
  next
    case False
    then have pos: "0 < unat (a - d)" by (simp add: unat_gt_0)
    have pred: "unat (a - (d + 1)) = unat (a - d) - 1"
      using pos by (metis One_nat_def diff_diff_eq less_Suc0 not_less unat_minus_one unat_eq_zero gr_implies_not0)
    have "s + (a - d) \<noteq> d" if "unat (a - d) < Suc n"
      using Suc.prems(2) [of 0 "unat (a - d)"] that by simp
    then show ?thesis using IH False pos pred by (auto simp: algebra_simps)
  qed
qed simp

lemma memcpy_page:
  assumes "aligned 12 d" "aligned 12 s" "d \<noteq> s"
  shows "memcpy m d s 4096 =
    (\<lambda>a. if frame_of a = frame_of d then m (s + take_bit 12 a) else m a)"
proof
  fix a
  have disj: "d + of_nat i \<noteq> s + of_nat j" if "i < 4096" "j < 4096" for i j
    by (rule aligned_add_ne [OF assms]) (use that in \<open>simp_all add: unat_of_nat\<close>)
  have "memcpy m d s 4096 a = (if unat (a - d) < 4096 then m (s + (a - d)) else m a)"
    unfolding memcpy_def by (subst memcpy_loop_apply) (use disj in auto)
  moreover have "unat (a - d) < 4096 \<longleftrightarrow> frame_of a = frame_of d"
    using in_block_iff [OF assms(1), of a] by simp
  moreover have "a - d = take_bit 12 a" if "frame_of a = frame_of d"
    using block_offset [OF assms(1) that] by (metis add_diff_cancel_left')
  ultimately show "memcpy m d s 4096 a =
      (if frame_of a = frame_of d then m (s + take_bit 12 a) else m a)" by simp
qed

end
