(* ===== verification/Console.thy ===== *)
theory Console
  imports Phys_Mem "HOL-Library.Signed_Division"
begin

text \<open>
  The kernel's output path: \<open>vprintf\<close>, \<open>printf\<close> (\<open>lib.c\<close>) and the byte stream that
  \<open>serial_write\<close> (\<open>serial.c\<close>) puts on the UART. A \<open>va_list\<close> is the list of its arguments;
  an argument that is missing or of the wrong kind for its directive is undefined behaviour in
  C and \<open>None\<close> here. \<open>machine\<close> is the part of the state every kernel component shares:
  physical memory and the bytes sent to the console.
\<close>

datatype va_arg = Num u64 | Str "u8 list option" \<comment> \<open>\<open>None\<close> is the null pointer\<close>

abbreviation str :: "string \<Rightarrow> u8 list" where "str s \<equiv> map of_char s"

subsection \<open>Number formatting\<close>

lemma abs_sdiv_less:
  fixes t b :: int
  assumes "t \<noteq> 0" "1 < b"
  shows "nat \<bar>t sdiv b\<bar> < nat \<bar>t\<bar>"
proof -
  have "\<bar>t\<bar> div b < \<bar>t\<bar>" by (rule int_div_less_self) (use assms in auto)
  moreover have "\<bar>t sdiv b\<bar> = \<bar>t\<bar> div b"
    using assms by (simp add: signed_divide_int_def abs_mult pos_imp_zdiv_nonneg_iff)
  ultimately show ?thesis using assms(1) by simp
qed

text \<open>\<open>while(tmp)\<close>: the digits least significant first, with C's truncating division.\<close>

function dec_chars :: "int \<Rightarrow> u8 list" where
  "dec_chars tmp = (if tmp = 0 then []
     else word_of_int (48 + tmp smod 10) # dec_chars (tmp sdiv 10))"
  by pat_completeness auto
termination
  by (relation "measure (\<lambda>t. nat \<bar>t\<bar>)") (use abs_sdiv_less in auto)

declare dec_chars.simps [simp del]

function hex_chars :: "int \<Rightarrow> u8 list" where
  "hex_chars tmp = (if tmp = 0 then []
     else (if tmp smod 16 > 9 then word_of_int (65 + (tmp smod 16 - 10))
           else word_of_int (48 + tmp smod 16)) # hex_chars (tmp sdiv 16))"
  by pat_completeness auto
termination
  by (relation "measure (\<lambda>t. nat \<bar>t\<bar>)") (use abs_sdiv_less in auto)

declare hex_chars.simps [simp del]

text \<open>\<open>case 'd'\<close> and \<open>case 'u'\<close>: both read an \<open>int\<close>; the negation wraps at the most negative one.\<close>

definition format_d :: "u64 \<Rightarrow> u8 list" where
  "format_d v =
     (let num = (ucast v :: s32) in
      if num = 0 then str ''0''
      else if sint num < 0 then str ''-'' @ rev (dec_chars (sint (- num)))
      else rev (dec_chars (sint num)))"

definition format_x :: "u64 \<Rightarrow> u8 list" where
  "format_x num =
     (let tmp = (if sint num < 0 then - num else num) in
      (if sint num < 0 then str ''-'' else []) @ str ''0x'' @
      (if num = 0 then str ''0'' else rev (hex_chars (sint tmp))))"

subsection \<open>\<open>vprintf\<close>\<close>

fun vprintf :: "string \<Rightarrow> va_arg list \<Rightarrow> u8 list option" where
  "vprintf [] args = Some []"
| "vprintf (ch # fmt) args =
     (if ch \<noteq> CHR ''%'' then map_option ((#) (of_char ch)) (vprintf fmt args)
      else case fmt of
        [] \<Rightarrow> None
      | d # fmt' \<Rightarrow>
          (if d = CHR ''c'' then
             (case args of Num v # as \<Rightarrow> map_option ((#) (ucast v)) (vprintf fmt' as) | _ \<Rightarrow> None)
           else if d = CHR ''d'' \<or> d = CHR ''u'' then
             (case args of Num v # as \<Rightarrow> map_option ((@) (format_d v)) (vprintf fmt' as) | _ \<Rightarrow> None)
           else if d = CHR ''x'' then
             (case args of Num v # as \<Rightarrow> map_option ((@) (format_x v)) (vprintf fmt' as) | _ \<Rightarrow> None)
           else if d = CHR ''s'' then
             (case args of
                Str None # as \<Rightarrow> vprintf fmt' as
              | Str (Some s) # as \<Rightarrow> map_option ((@) (takeWhile (\<lambda>p. p \<noteq> 0) s)) (vprintf fmt' as)
              | _ \<Rightarrow> None)
           else map_option ((#) (of_char d)) (vprintf fmt' args)))"

subsection \<open>\<open>serial_write\<close> and \<open>printf\<close>\<close>

fun serial_write :: "u8 list \<Rightarrow> u8 list" where
  "serial_write [] = []"
| "serial_write (ch # buf) =
     (if ch = 0 then [] else ch # (if ch = 10 then [13] else []) @ serial_write buf)"

record machine =
  mem :: memory
  console :: "u8 list"

definition printf :: "string \<Rightarrow> va_arg list \<Rightarrow> 'a machine_scheme \<Rightarrow> 'a machine_scheme" where
  "printf format args s =
     (case vprintf format args of
        None \<Rightarrow> s
      | Some buff \<Rightarrow> s\<lparr>console := console s @ serial_write buff\<rparr>)"

lemma mem_printf [simp, frame_simps]: "mem (printf f as s) = mem s"
  by (simp add: printf_def split: option.split)

lemma printf_upd_mem [simp]: "printf f as (s\<lparr>mem := m\<rparr>) = (printf f as s)\<lparr>mem := m\<rparr>"
  by (simp add: printf_def split: option.split)

lemma printf_more [simp, frame_simps]: "machine.more (printf f as s) = machine.more s"
  by (simp add: printf_def split: option.split)

end
