(* ===== verification/Page_Alloc.thy ===== *)
theory Page_Alloc
  imports Console
begin

text \<open>
  The physical page allocator (\<open>memory.c\<close>, \<open>include/memory.h\<close>, the bit macros of
  \<open>include/lib.h\<close>). Each of the three regions has a \<open>struct page_list\<close> whose bitmap lives in
  the first pages of the region itself, so the model keeps the bitmaps in physical memory and
  reads them with 32-bit accesses, as the code does.
\<close>

subsection \<open>Bit macros (\<open>include/lib.h\<close>)\<close>

definition set_bit_c :: "u32 \<Rightarrow> nat \<Rightarrow> u32" where
  "set_bit_c x pos = x OR push_bit pos 1"

definition flip_bit_c :: "u32 \<Rightarrow> nat \<Rightarrow> u32" where
  "flip_bit_c x pos = x XOR push_bit pos 1"

definition clear_bit_c :: "u32 \<Rightarrow> nat \<Rightarrow> u32" where
  "clear_bit_c x pos = x XOR push_bit pos (drop_bit pos x AND 1)"

definition is_set_c :: "u32 \<Rightarrow> nat \<Rightarrow> u32" where
  "is_set_c x pos = drop_bit pos x AND 1"

subsection \<open>State\<close>

datatype region = OS_DS_REG | OS_PT_REG | USER_REG

text \<open>Statements about every region are executable.\<close>

instantiation region :: enum
begin

definition enum_region :: "region list" where
  "enum_region = [OS_DS_REG, OS_PT_REG, USER_REG]"

definition enum_all_region :: "(region \<Rightarrow> bool) \<Rightarrow> bool" where
  "enum_all_region P \<longleftrightarrow> P OS_DS_REG \<and> P OS_PT_REG \<and> P USER_REG"

definition enum_ex_region :: "(region \<Rightarrow> bool) \<Rightarrow> bool" where
  "enum_ex_region P \<longleftrightarrow> P OS_DS_REG \<or> P OS_PT_REG \<or> P USER_REG"

instance
proof
  have cases: "r \<in> {OS_DS_REG, OS_PT_REG, USER_REG}" for r
    by (cases r) simp_all
  then show U: "(UNIV :: region set) = set enum_class.enum"
    by (auto simp: enum_region_def)
  show "distinct (enum_class.enum :: region list)" by (simp add: enum_region_def)
  show "enum_class.enum_all P = Ball UNIV P" for P :: "region \<Rightarrow> bool"
    unfolding U by (simp add: enum_all_region_def enum_region_def)
  show "enum_class.enum_ex P = Bex UNIV P" for P :: "region \<Rightarrow> bool"
    unfolding U by (simp add: enum_ex_region_def enum_region_def)
qed

end

fun region_num :: "region \<Rightarrow> u32" where
  "region_num OS_DS_REG = 0"
| "region_num OS_PT_REG = 1"
| "region_num USER_REG = 2"

abbreviation REGION_OS_DS_START :: u64 where "REGION_OS_DS_START \<equiv> 0x800000"
abbreviation REGION_OS_PT_START :: u64 where "REGION_OS_PT_START \<equiv> 0x2000000"
abbreviation REGION_USER_START :: u64 where "REGION_USER_START \<equiv> 0x6400000"
abbreviation ENDMEM :: u64 where "ENDMEM \<equiv> 0x20000000"

record page_list =
  pgl_type :: u32
  pgl_size :: u32
  free_pages :: u32
  last_free_pos :: u32
  start_address :: u64
  bitmap :: u64

record page_state = machine +
  pglists :: "region \<Rightarrow> page_list"

text \<open>\<open>get_mem_region\<close> (\<open>include/memory.h\<close>); the result is the C \<open>int\<close>.\<close>

definition get_mem_region :: "u32 \<Rightarrow> int" where
  "get_mem_region pfn =
     (let address = push_bit PAGE_SHIFT (ucast pfn) :: u64 in
      if address < REGION_OS_DS_START \<or> address > ENDMEM then -1
      else if address \<ge> REGION_OS_DS_START \<and> address < REGION_OS_PT_START then 0
      else if address \<ge> REGION_OS_PT_START \<and> address < REGION_USER_START then 1
      else 2)"

subsection \<open>Bitmap macros and \<open>init_pagelist\<close>\<close>

definition bmap_word :: "page_list \<Rightarrow> u32 \<Rightarrow> u64" where
  "bmap_word pgl lword = bitmap pgl + ucast (push_bit 2 lword)"

definition pgl_bmap_set :: "page_list \<Rightarrow> u32 \<Rightarrow> memory \<Rightarrow> memory" where
  "pgl_bmap_set pgl i m =
     (let lword = drop_bit 5 i; b = i - push_bit 5 lword; p = bmap_word pgl lword
      in wr32 m p (set_bit_c (rd32 m p) (unat b)))"

definition pgl_bmap_clear :: "page_list \<Rightarrow> u32 \<Rightarrow> memory \<Rightarrow> memory" where
  "pgl_bmap_clear pgl i m =
     (let lword = drop_bit 5 i; b = i - push_bit 5 lword; p = bmap_word pgl lword
      in wr32 m p (clear_bit_c (rd32 m p) (unat b)))"

function reserve_pages :: "page_list \<Rightarrow> u32 \<Rightarrow> u32 \<Rightarrow> memory \<Rightarrow> memory" where
  "reserve_pages pgl i n m =
     (if i < n then reserve_pages pgl (i + 1) n (pgl_bmap_set pgl i m) else m)"
  by pat_completeness auto
termination
  by (relation "measure (\<lambda>(pgl, i, n, m). unat n - unat i)") (auto simp: counter_measure)

declare reserve_pages.simps [simp del]

definition pages_to_reserve :: "u32 \<Rightarrow> u32" where
  "pages_to_reserve sz =
     (let r = drop_bit 3 sz in
      if push_bit PAGE_SHIFT (drop_bit PAGE_SHIFT r) = r then drop_bit PAGE_SHIFT r
      else drop_bit PAGE_SHIFT r + 1)"

definition init_pagelist ::
  "region \<Rightarrow> u64 \<Rightarrow> u64 \<Rightarrow> 'a page_state_scheme \<Rightarrow> 'a page_state_scheme" where
  "init_pagelist ty st en s =
     (let sz = ucast (drop_bit PAGE_SHIFT (en - st)) :: u32;
          n = pages_to_reserve sz;
          pgl = \<lparr>pgl_type = region_num ty, pgl_size = sz, free_pages = sz - n,
                 last_free_pos = drop_bit 5 n, start_address = st, bitmap = st\<rparr>
      in s\<lparr>mem := reserve_pages pgl 0 n (mem s), pglists := (pglists s)(ty := pgl)\<rparr>)"

definition init_pagelists :: "'a page_state_scheme \<Rightarrow> 'a page_state_scheme" where
  "init_pagelists s =
     init_pagelist USER_REG REGION_USER_START ENDMEM
       (init_pagelist OS_PT_REG REGION_OS_PT_START REGION_USER_START
         (init_pagelist OS_DS_REG REGION_OS_DS_START REGION_OS_PT_START s))"

subsection \<open>\<open>get_free_page\<close>\<close>

text \<open>The \<open>while\<close> loop over full bitmap words; the result is \<open>last_free_pos\<close> and \<open>scanner\<close>.\<close>

function scan_words :: "memory \<Rightarrow> u32 \<Rightarrow> u32 \<Rightarrow> u64 \<Rightarrow> u32 \<times> u64" where
  "scan_words m size_in_u32 pos scanner =
     (if rd32 m scanner = 0xffffffff \<and> pos < size_in_u32
      then scan_words m size_in_u32 (pos + 1) (scanner + 4) else (pos, scanner))"
  by pat_completeness auto
termination
  by (relation "measure (\<lambda>(m, n, i, sc). unat n - unat i)") (auto simp: counter_measure)

declare scan_words.simps [simp del]

text \<open>The \<open>for\<close> loop over the bits of one word; 32 when every bit is set.\<close>

function first_clear :: "u32 \<Rightarrow> nat \<Rightarrow> nat" where
  "first_clear w b = (if b < 32 \<and> is_set_c w b \<noteq> 0 then first_clear w (Suc b) else b)"
  by pat_completeness auto
termination by (relation "measure (\<lambda>(w, b). 32 - b)") auto

declare first_clear.simps [simp del]

definition get_free_page :: "page_list \<Rightarrow> memory \<Rightarrow> u32 \<times> page_list \<times> memory" where
  "get_free_page pgl m =
     (let size_in_u32 = drop_bit 8 (pgl_size pgl);
          (pos1, scanner1) = scan_words m size_in_u32 (last_free_pos pgl)
             (bitmap pgl + 4 * ucast (last_free_pos pgl));
          (pos, scanner) = (if pos1 \<ge> size_in_u32 then (0, bitmap pgl + 0) else (pos1, scanner1));
          b = first_clear (rd32 m scanner) 0;
          pfn = push_bit 5 pos + of_nat b;
          m' = pgl_bmap_set pgl pfn m
      in (pfn + ucast (drop_bit PAGE_SHIFT (start_address pgl)),
          pgl\<lparr>last_free_pos := pos, free_pages := free_pages pgl - 1\<rparr>, m'))"

subsection \<open>Allocation and release\<close>

definition os_pfn_alloc :: "region \<Rightarrow> 'a page_state_scheme \<Rightarrow> u32 \<times> 'a page_state_scheme" where
  "os_pfn_alloc reg s =
     (let pgl = pglists s reg in
      if free_pages pgl \<le> 0
      then (0, printf ''Opps.. out of memory for region %d\<newline>'' [Num (ucast (region_num reg))] s)
      else
        let (pfn, pgl', m) = get_free_page pgl (mem s);
            m' = (if reg = OS_PT_REG then bzero m (push_bit PAGE_SHIFT (ucast pfn)) PAGE_SIZE else m)
        in (pfn, s\<lparr>mem := m', pglists := (pglists s)(reg := pgl')\<rparr>))"

definition os_page_alloc :: "region \<Rightarrow> 'a page_state_scheme \<Rightarrow> u64 \<times> 'a page_state_scheme" where
  "os_page_alloc reg s = (let (pfn, s') = os_pfn_alloc reg s in (push_bit PAGE_SHIFT (ucast pfn), s'))"

definition os_page_free :: "region \<Rightarrow> u64 \<Rightarrow> 'a page_state_scheme \<Rightarrow> 'a page_state_scheme" where
  "os_page_free reg paddress s =
     (let pgl = pglists s reg;
          pfn = ucast (drop_bit PAGE_SHIFT (paddress - start_address pgl)) :: u32
      in if paddress \<le> start_address pgl \<or>
            paddress \<ge> start_address pgl + ucast (push_bit 12 (pgl_size pgl))
         then printf ''Opps.. free address not in region %d\<newline>'' [Num (ucast (region_num reg))] s
         else s\<lparr>mem := pgl_bmap_clear pgl pfn (mem s),
                pglists := (pglists s)(reg := pgl\<lparr>free_pages := free_pages pgl + 1\<rparr>)\<rparr>)"

definition os_pfn_free :: "region \<Rightarrow> u64 \<Rightarrow> 'a page_state_scheme \<Rightarrow> 'a page_state_scheme" where
  "os_pfn_free reg pfn s = os_page_free reg (push_bit PAGE_SHIFT pfn) s"

definition get_free_pages_region :: "u32 \<Rightarrow> 'a page_state_scheme \<Rightarrow> s32" where
  "get_free_pages_region reg s =
     (if reg \<ge> 3 then - 1
      else free_pages (pglists s
        (if reg = 0 then OS_DS_REG else if reg = 1 then OS_PT_REG else USER_REG)))"

end
