(* ===== verification/Os_Alloc.thy ===== *)
theory Os_Alloc
  imports Page_Alloc
begin

text \<open>
  The small-object side of \<open>memory.c\<close>: the pool of list nodes (\<open>node_alloc\<close>, \<open>node_free\<close>), the
  list of \<open>lib.c\<close> built from them (\<open>enqueue_tail\<close>, \<open>dequeue_front\<close>), and the size-class
  allocator (\<open>os_alloc\<close>, \<open>os_free\<close>). Nodes live in physical memory: the value at offset 0, the
  union of \<open>next\<close> and \<open>prev\<close> at offset 8; pointers are addresses and 0 is \<open>NULL\<close>. A null
  pointer that the code dereferences reads and writes physical address 0 onward, as it does in
  the identity-mapped kernel.
\<close>

subsection \<open>State\<close>

record list_hdr = \<comment> \<open>\<open>struct list\<close>\<close>
  head :: u64
  tail :: u64
  list_size :: u64

record osalloc_chunk =
  chunk_size :: u16
  free_position :: u16
  current_pfn :: u32
  freelist :: list_hdr
  ck_bitmap :: "u8 list"

record nodealloc_memory =
  nm_next_free :: u32
  num_free :: u32
  nodes :: u64
  nm_end :: u64

record alloc_state = page_state +
  osalloc_base :: u64
  osalloc_chunks :: "osalloc_chunk list" \<comment> \<open>the array at \<open>osalloc_base\<close>\<close>
  nodemem :: nodealloc_memory

abbreviation node_value :: "memory \<Rightarrow> u64 \<Rightarrow> u64" where "node_value m n \<equiv> rd64 m n"
abbreviation node_next :: "memory \<Rightarrow> u64 \<Rightarrow> u64" where "node_next m n \<equiv> rd64 m (n + 8)"
abbreviation set_next :: "memory \<Rightarrow> u64 \<Rightarrow> u64 \<Rightarrow> memory" where "set_next m n v \<equiv> wr64 m (n + 8) v"

definition init_list :: list_hdr where
  "init_list = \<lparr>head = 0, tail = 0, list_size = 0\<rparr>"

definition is_empty :: "list_hdr \<Rightarrow> bool" where
  "is_empty l \<longleftrightarrow> list_size l = 0"

subsection \<open>The node pool\<close>

abbreviation NODE_MEM_PAGES :: nat where "NODE_MEM_PAGES \<equiv> 100"

text \<open>The \<open>for\<close> loop of \<open>init_nodealloc_memory\<close>; \<open>n\<close> is the number of rounds left. A node has 16
  bytes, a page 256 nodes.\<close>

fun nodealloc_pages :: "nat \<Rightarrow> u32 \<Rightarrow> 'a alloc_state_scheme \<Rightarrow> 'a alloc_state_scheme" where
  "nodealloc_pages 0 prevpfn s = s"
| "nodealloc_pages (Suc n) prevpfn s =
     (let (currentpfn, s1) = os_pfn_alloc OS_DS_REG s;
          s2 = (if currentpfn \<noteq> prevpfn + 1
                then printf ''Error in initmem %s\<newline>'' [Str (Some (str ''init_nodealloc_memory''))] s1
                else s1)
      in nodealloc_pages n currentpfn
           (s2\<lparr>nodemem := (nodemem s2)\<lparr>num_free := num_free (nodemem s2) + 256\<rparr>\<rparr>))"

definition init_nodealloc_memory :: "'a alloc_state_scheme \<Rightarrow> 'a alloc_state_scheme" where
  "init_nodealloc_memory s =
     (let (startpfn, s1) = os_pfn_alloc OS_DS_REG s;
          s2 = nodealloc_pages (NODE_MEM_PAGES - 1) startpfn s1;
          base = push_bit PAGE_SHIFT (ucast startpfn)
      in s2\<lparr>nodemem := (nodemem s2)\<lparr>nodes := base, nm_next_free := 0,
              nm_end := base + push_bit PAGE_SHIFT (of_nat NODE_MEM_PAGES)\<rparr>\<rparr>)"

text \<open>The first \<open>while\<close> loop of \<open>node_alloc\<close>: it stops at a free node or at the end of the pool,
  and does not count the step that reaches the end. \<open>None\<close> is a search that never ends.\<close>

partial_function (option) scan_nodes :: "memory \<Rightarrow> u64 \<Rightarrow> u64 \<Rightarrow> u32 \<Rightarrow> (u64 \<times> u32) option" where
  "scan_nodes m en n next_free =
     (if node_next m n \<noteq> 0
      then if n + 16 \<ge> en then Some (n + 16, next_free)
           else scan_nodes m en (n + 16) (next_free + 1)
      else Some (n, next_free))"

text \<open>The second \<open>while\<close> loop has no bound at all.\<close>

partial_function (option) scan_nodes_again :: "memory \<Rightarrow> u64 \<Rightarrow> u32 \<Rightarrow> (u64 \<times> u32) option" where
  "scan_nodes_again m n next_free =
     (if node_next m n \<noteq> 0 then scan_nodes_again m (n + 16) (next_free + 1) else Some (n, next_free))"

definition node_alloc :: "'a alloc_state_scheme \<Rightarrow> (u64 \<times> 'a alloc_state_scheme) option" where
  "node_alloc s =
     (let nm = nodemem s; m = mem s; n = nodes nm + 16 * ucast (nm_next_free nm) in
      if num_free nm = 0 then Some (0, printf ''node memory full\<newline>'' [] s)
      else
        let found = (\<lambda>(n, k). (n, s\<lparr>nodemem := nm\<lparr>num_free := num_free nm - 1, nm_next_free := k + 1\<rparr>\<rparr>))
        in if node_next m n = 0 then Some (found (n, nm_next_free nm))
           else case scan_nodes m (nm_end nm) n (nm_next_free nm) of
             None \<Rightarrow> None
           | Some (n1, k1) \<Rightarrow>
               if n1 \<ge> nm_end nm then map_option found (scan_nodes_again m (nodes nm) 0)
               else Some (found (n1, k1)))"

definition node_free :: "u64 \<Rightarrow> 'a alloc_state_scheme \<Rightarrow> 'a alloc_state_scheme" where
  "node_free n s =
     s\<lparr>mem := set_next (mem s) n 0, nodemem := (nodemem s)\<lparr>num_free := num_free (nodemem s) + 1\<rparr>\<rparr>"

subsection \<open>Lists (\<open>lib.c\<close>)\<close>

definition enqueue_tail ::
  "list_hdr \<Rightarrow> u64 \<Rightarrow> 'a alloc_state_scheme \<Rightarrow> (s32 \<times> list_hdr \<times> 'a alloc_state_scheme) option" where
  "enqueue_tail l item s =
     (case node_alloc s of None \<Rightarrow> None | Some (n, s1) \<Rightarrow>
      let s2 = s1\<lparr>mem := wr64 (set_next (mem s1) n 0) n item\<rparr>;
          link = (\<lambda>l s. (let m1 = set_next (mem s) (head l) n;
                             m2 = set_next m1 (tail l) n
                         in s\<lparr>mem := set_next m2 n (tail l)\<rparr>));
          inc = (\<lambda>l s. (ucast (list_size l + 1), l\<lparr>list_size := list_size l + 1\<rparr>, s))
      in if is_empty l then
           if head l = 0 then
             (case node_alloc s2 of None \<Rightarrow> None | Some (h, s3) \<Rightarrow>
              case node_alloc s3 of None \<Rightarrow> None | Some (t, s4) \<Rightarrow>
              let l' = l\<lparr>head := h, tail := t\<rparr> in Some (inc l' (link l' s4)))
           else Some (inc l (link l s2))
         else
           let m1 = set_next (mem s2) (node_next (mem s2) (tail l)) n;
               m2 = set_next m1 (tail l) n
           in Some (inc l (s2\<lparr>mem := m2\<rparr>)))"

definition dequeue_front ::
  "list_hdr \<Rightarrow> 'a alloc_state_scheme \<Rightarrow> u64 \<times> list_hdr \<times> 'a alloc_state_scheme" where
  "dequeue_front l s =
     (if is_empty l then (0, l, s)
      else let n = node_next (mem s) (head l)
           in (n, l\<lparr>list_size := list_size l - 1\<rparr>, s\<lparr>mem := set_next (mem s) (head l) (node_next (mem s) n)\<rparr>))"

subsection \<open>Size classes\<close>

abbreviation OSALLOC_MAX :: nat where "OSALLOC_MAX \<equiv> 7"

fun osalloc_chunk_loop ::
  "nat \<Rightarrow> nat \<Rightarrow> 'a alloc_state_scheme \<Rightarrow> osalloc_chunk list \<times> 'a alloc_state_scheme" where
  "osalloc_chunk_loop 0 shift s = ([], s)"
| "osalloc_chunk_loop (Suc n) shift s =
     (let (pfn, s1) = os_pfn_alloc OS_DS_REG s;
          ck = \<lparr>chunk_size = push_bit shift 1, free_position = 0, current_pfn = pfn,
                freelist = init_list, ck_bitmap = replicate 16 0\<rparr>;
          (cks, s2) = osalloc_chunk_loop n (shift + 1) s1
      in (ck # cks, s2))"

text \<open>The guard on the size of the array is decided at compile time: seven chunks of 48 bytes fit
  in a page.\<close>

definition init_osalloc_chunks :: "'a alloc_state_scheme \<Rightarrow> 'a alloc_state_scheme" where
  "init_osalloc_chunks s =
     (let (ck, s1) = os_page_alloc OS_DS_REG s;
          (cks, s2) = osalloc_chunk_loop OSALLOC_MAX 5 s1
      in s2\<lparr>osalloc_base := ck, osalloc_chunks := cks\<rparr>)"

text \<open>\<open>for(i=11; i>5; --i) if(is_set(size, i)) break;\<close>\<close>

function top_bit :: "u32 \<Rightarrow> nat \<Rightarrow> nat" where
  "top_bit sz i = (if i > 5 \<and> is_set_c sz i = 0 then top_bit sz (i - 1) else i)"
  by pat_completeness auto
termination by (relation "measure (\<lambda>(sz, i). i)") auto

declare top_bit.simps [simp del]

definition alloc_class :: "u32 \<Rightarrow> nat" where
  "alloc_class sz = (let i = top_bit sz 11 in if push_bit i 1 \<noteq> sz then i + 1 else i)"

text \<open>\<open>set_bit(*ptr, pos)\<close> on the 32 bits at byte offset \<open>off\<close> of the chunk's bitmap; the processor
  takes the shift count modulo 32.\<close>

definition set_bitmap_bit :: "u8 list \<Rightarrow> nat \<Rightarrow> nat \<Rightarrow> u8 list" where
  "set_bitmap_bit bm off pos =
     (let b = pos mod 32; j = off + b div 8 in bm[j := bm ! j OR push_bit (b mod 8) 1])"

definition os_alloc :: "u32 \<Rightarrow> 'a alloc_state_scheme \<Rightarrow> u64 \<times> 'a alloc_state_scheme" where
  "os_alloc sz s =
     (if sz = 0 \<or> sz > 2048 then (0, s)
      else
        let i = alloc_class sz; ck = osalloc_chunks s ! (i - 5) in
        if \<not> is_empty (freelist ck) then
          let (n, l, s1) = dequeue_front (freelist ck) s;
              retval = node_value (mem s1) n
          in (retval, (node_free n s1)\<lparr>osalloc_chunks :=
                (osalloc_chunks s)[i - 5 := ck\<lparr>freelist := l\<rparr>]\<rparr>)
        else
          let (ck1, s1) =
                (if unat (free_position ck) > 4096 div 2 ^ i
                 then let (pfn, s1) = os_pfn_alloc OS_DS_REG s
                      in (ck\<lparr>current_pfn := pfn, free_position := 0\<rparr>, s1)
                 else (ck, s));
              retval = push_bit PAGE_SHIFT (ucast (current_pfn ck1)) + ucast (drop_bit i (free_position ck1));
              ck2 = ck1\<lparr>ck_bitmap := set_bitmap_bit (ck_bitmap ck1)
                         (unat (drop_bit 5 (free_position ck1))) (unat (free_position ck1)),
                        free_position := free_position ck1 + 1\<rparr>
          in (retval, s1\<lparr>osalloc_chunks := (osalloc_chunks s)[i - 5 := ck2]\<rparr>))"

definition os_free :: "u64 \<Rightarrow> u32 \<Rightarrow> 'a alloc_state_scheme \<Rightarrow> 'a alloc_state_scheme option" where
  "os_free ptr sz s =
     (if sz = 0 \<or> sz > 2048 then Some s
      else
        let i = top_bit sz 11; ck = osalloc_chunks s ! (i - 5) in
        (case enqueue_tail (freelist ck) ptr s of
           None \<Rightarrow> None
         | Some (_, l, s1) \<Rightarrow>
             Some (s1\<lparr>osalloc_chunks := (osalloc_chunks s1)[i - 5 := ck\<lparr>freelist := l\<rparr>]\<rparr>)))"

definition init_mems :: "'a alloc_state_scheme \<Rightarrow> 'a alloc_state_scheme" where
  "init_mems s = init_nodealloc_memory (init_osalloc_chunks (init_pagelists s))"

end
