(* ===== verification/Context.thy ===== *)
theory Context
  imports Os_Alloc
begin

text \<open>
  Execution contexts (\<open>include/context.h\<close>, \<open>include/schedule.h\<close>, \<open>include/entry.h\<close>) and the
  process table of \<open>context.c\<close>: \<open>get_new_ctx\<close>, \<open>create_context\<close>, \<open>init_swapper\<close>,
  \<open>setup_child_context\<close> and the accessors. A pointer to a context is its index in \<open>ctx_list\<close>;
  \<open>None\<close> is \<open>NULL\<close>. \<open>kernel\<close> is the state of the whole kernel: the allocators, the process
  table, the current context, statistics, configuration, and the processor state that kernel
  code writes (\<open>cr3\<close> and the stack pointer in the task state segment).
\<close>

subsection \<open>Data\<close>

datatype process_state = UNUSED | NEW | READY | RUNNING | WAITING | EXITING

datatype signal = SIGSEGV | SIGFPE | SIGALRM

datatype mm_seg = MM_SEG_CODE | MM_SEG_RODATA | MM_SEG_DATA | MM_SEG_STACK

abbreviation MAX_PROCESSES :: nat where "MAX_PROCESSES \<equiv> 16"
abbreviation CNAME_MAX :: nat where "CNAME_MAX \<equiv> 64"
abbreviation EXEC_CTX_USER :: u8 where "EXEC_CTX_USER \<equiv> 2"
abbreviation MM_RD :: u32 where "MM_RD \<equiv> 1"
abbreviation MM_WR :: u32 where "MM_WR \<equiv> 2"
abbreviation MM_EX :: u32 where "MM_EX \<equiv> 4"
abbreviation CODE_START :: u64 where "CODE_START \<equiv> 0x100000000"
abbreviation RODATA_START :: u64 where "RODATA_START \<equiv> 0x140000000"
abbreviation DATA_START :: u64 where "DATA_START \<equiv> 0x180000000"
abbreviation STACK_START :: u64 where "STACK_START \<equiv> 0x800000000"
abbreviation MAX_STACK_SIZE :: u64 where "MAX_STACK_SIZE \<equiv> 0x1000000"

record mm_segment =
  seg_start :: u64
  seg_end :: u64
  next_free :: u64
  access_flags :: u32

record user_regs =
  r15 :: u64
  r14 :: u64
  r13 :: u64
  r12 :: u64
  r11 :: u64
  r10 :: u64
  r9 :: u64
  r8 :: u64
  rbp :: u64
  rdi :: u64
  rsi :: u64
  rdx :: u64
  rcx :: u64
  rbx :: u64
  rax :: u64
  entry_rip :: u64
  entry_cs :: u64
  entry_rflags :: u64
  entry_rsp :: u64
  entry_ss :: u64

record exec_context =
  pid :: u32
  ppid :: u32
  ctx_type :: u8
  state :: process_state
  used_mem :: u16
  pgd :: u32
  os_stack_pfn :: u32
  os_rsp :: u64
  mms :: "mm_seg \<Rightarrow> mm_segment"
  ctx_name :: "u8 list"
  regs :: user_regs
  pending_signal_bitmap :: u32
  sighandlers :: "signal \<Rightarrow> u64"
  ticks_to_sleep :: u32
  alarm_config_time :: u32
  ticks_to_alarm :: u32

record os_stats =
  swapper_invocations :: u64
  context_switches :: u64
  lw_context_switches :: u64
  ticks :: u64
  page_faults :: u64
  syscalls :: u64
  used_memory :: u64
  num_processes :: u64

record os_configs =
  global_mapping :: u64
  apic_tick_interval :: u64
  debug :: u64
  adv_global :: u64

record kernel = alloc_state +
  ctx_list_addr :: u64
  ctx_list :: "exec_context list"
  current :: "nat option"
  os_pmd_pfn :: u64
  stats :: os_stats
  config :: os_configs
  apic_base :: u64
  tss_rsp0 :: u64
  cr3 :: u64

text \<open>Where the C program goes wrong and the model stops: a null context pointer is dereferenced, or
  kernel code touches a virtual address that is not mapped (the nested fault is not modelled),
  an uninitialised variable is used, or the name of a context outgrows its array.
  \<open>NoReturn\<close> is the value of a loop that has used up the fuel the model gives it, or whose
  address variable wraps around; the lemmas on each loop say when it is not produced.\<close>

datatype kerror = NullContext | KernelPageFault | Uninitialised | NameOverflow | NoReturn

text \<open>How kernel code ends: it returns a value to its caller, it leaves through \<open>iretq\<close> into a
  context whose registers are given, or it jumps back to the shell through \<open>ret_from_user\<close>.\<close>

datatype 'v flow = Return 'v | Iret user_regs | Shell

type_synonym ('v, 's) result = "kerror + ('v flow \<times> 's)"

text \<open>Sequencing: only a call that returns reaches the statement after it.\<close>

fun bind_result :: "('v, 's) result \<Rightarrow> ('v \<Rightarrow> 's \<Rightarrow> ('w, 's) result) \<Rightarrow> ('w, 's) result" where
  "bind_result (Inl e) f = Inl e"
| "bind_result (Inr (Return v, s)) f = f v s"
| "bind_result (Inr (Iret r, s)) f = Inr (Iret r, s)"
| "bind_result (Inr (Shell, s)) f = Inr (Shell, s)"

definition zero_regs :: user_regs where
  "zero_regs = \<lparr>r15 = 0, r14 = 0, r13 = 0, r12 = 0, r11 = 0, r10 = 0, r9 = 0, r8 = 0, rbp = 0, rdi = 0,
     rsi = 0, rdx = 0, rcx = 0, rbx = 0, rax = 0, entry_rip = 0, entry_cs = 0, entry_rflags = 0,
     entry_rsp = 0, entry_ss = 0\<rparr>"

definition zero_seg :: mm_segment where
  "zero_seg = \<lparr>seg_start = 0, seg_end = 0, next_free = 0, access_flags = 0\<rparr>"

definition zero_ctx :: exec_context where
  "zero_ctx = \<lparr>pid = 0, ppid = 0, ctx_type = 0, state = UNUSED, used_mem = 0, pgd = 0, os_stack_pfn = 0,
     os_rsp = 0, mms = (\<lambda>_. zero_seg), ctx_name = replicate CNAME_MAX 0, regs = zero_regs,
     pending_signal_bitmap = 0, sighandlers = (\<lambda>_. 0), ticks_to_sleep = 0, alarm_config_time = 0,
     ticks_to_alarm = 0\<rparr>"

subsection \<open>Access to the process table\<close>

definition the_ctx :: "'a kernel_scheme \<Rightarrow> nat \<Rightarrow> exec_context" where
  "the_ctx s c = ctx_list s ! c"

definition upd_ctx :: "nat \<Rightarrow> (exec_context \<Rightarrow> exec_context) \<Rightarrow> 'a kernel_scheme \<Rightarrow> 'a kernel_scheme" where
  "upd_ctx c f s = s\<lparr>ctx_list := (ctx_list s)[c := f (ctx_list s ! c)]\<rparr>"

definition get_current_ctx :: "'a kernel_scheme \<Rightarrow> nat option" where
  "get_current_ctx s = current s"

definition set_current_ctx :: "nat option \<Rightarrow> 'a kernel_scheme \<Rightarrow> 'a kernel_scheme" where
  "set_current_ctx c s = s\<lparr>current := c\<rparr>"

definition get_ctx_by_pid :: "u32 \<Rightarrow> 'a kernel_scheme \<Rightarrow> nat option \<times> 'a kernel_scheme" where
  "get_ctx_by_pid p s =
     (if p \<ge> of_nat MAX_PROCESSES
      then (None, printf ''%s: invalid pid %d\<newline>'' [Str (Some (str ''get_ctx_by_pid'')), Num (ucast p)] s)
      else (Some (unat p), s))"

fun process_state_of :: "nat \<Rightarrow> process_state" where
  "process_state_of n = [UNUSED, NEW, READY, RUNNING, WAITING, EXITING] ! n"

definition set_process_state :: "nat \<Rightarrow> u32 \<Rightarrow> 'a kernel_scheme \<Rightarrow> int \<times> 'a kernel_scheme" where
  "set_process_state c st s =
     (if st \<ge> 6
      then (-1, printf ''%s: invalid state %d\<newline>'' [Str (Some (str ''set_process_state'')), Num (ucast st)] s)
      else (0, upd_ctx c (state_update (\<lambda>_. process_state_of (unat st))) s))"

text \<open>\<open>for(ctr=0; ctr < MAX_PROCESSES; ++ctr) if(ctx->state == UNUSED)\<close>\<close>

fun find_unused :: "exec_context list \<Rightarrow> nat \<Rightarrow> nat option" where
  "find_unused [] ctr = None"
| "find_unused (ctx # cs) ctr = (if state ctx = UNUSED then Some ctr else find_unused cs (Suc ctr))"

definition get_new_ctx :: "'a kernel_scheme \<Rightarrow> nat option \<times> 'a kernel_scheme" where
  "get_new_ctx s =
     (case find_unused (take MAX_PROCESSES (ctx_list s)) 0 of
        Some ctr \<Rightarrow> (Some ctr, upd_ctx ctr (\<lambda>ctx. ctx\<lparr>pid := of_nat ctr, state := NEW\<rparr>) s)
      | None \<Rightarrow> (None, printf ''%s: System limit on processes reached\<newline>''
                        [Str (Some (str ''get_new_ctx''))] s))"

subsection \<open>\<open>create_context\<close>, \<open>init_swapper\<close>, \<open>setup_child_context\<close>\<close>

text \<open>\<open>memcpy(ctx->name, name, len)\<close> into the 64-byte array.\<close>

definition copy_name :: "u8 list \<Rightarrow> u8 list \<Rightarrow> u8 list" where
  "copy_name name old = name @ drop (length name) old"

fun user_segments :: "(mm_seg \<Rightarrow> mm_segment) \<Rightarrow> mm_seg \<Rightarrow> mm_segment" where
  "user_segments old MM_SEG_CODE = (old MM_SEG_CODE)
     \<lparr>seg_start := CODE_START, seg_end := RODATA_START - 1, access_flags := MM_RD OR MM_EX\<rparr>"
| "user_segments old MM_SEG_RODATA = (old MM_SEG_RODATA)
     \<lparr>seg_start := RODATA_START, next_free := RODATA_START, seg_end := DATA_START - 1,
      access_flags := MM_RD\<rparr>"
| "user_segments old MM_SEG_DATA = (old MM_SEG_DATA)
     \<lparr>seg_start := DATA_START, seg_end := STACK_START - MAX_STACK_SIZE - 1,
      access_flags := MM_RD OR MM_WR\<rparr>"
| "user_segments old MM_SEG_STACK = (old MM_SEG_STACK)
     \<lparr>seg_start := STACK_START - MAX_STACK_SIZE, seg_end := STACK_START, access_flags := MM_RD OR MM_WR\<rparr>"

definition create_context ::
  "u8 list \<Rightarrow> u8 \<Rightarrow> 'a kernel_scheme \<Rightarrow> kerror + (nat \<times> 'a kernel_scheme)" where
  "create_context name type s =
     (case get_new_ctx s of
        (None, _) \<Rightarrow> Inl NullContext
      | (Some c, s1) \<Rightarrow>
          let (pfn, s2) = os_pfn_alloc OS_PT_REG s1
          in Inr (c, upd_ctx c (\<lambda>ctx. ctx\<lparr>state := NEW, ctx_type := type, used_mem := 0, pgd := 0,
                os_stack_pfn := pfn, os_rsp := osmap (ucast (pfn + 1)),
                ctx_name := copy_name name (ctx_name ctx), mms := user_segments (mms ctx)\<rparr>) s2))"

text \<open>\<open>swapper_task\<close>'s address and the segment and flags registers the assembly reads are inputs.\<close>

definition init_swapper :: "u64 \<Rightarrow> u64 \<Rightarrow> u64 \<Rightarrow> u64 \<Rightarrow> 'a kernel_scheme \<Rightarrow> 'a kernel_scheme" where
  "init_swapper swapper_task ss cs rflags s =
     (let (ctx_l, s1) = os_pfn_alloc OS_PT_REG s;
          addr = push_bit PAGE_SHIFT (ucast ctx_l);
          s2 = s1\<lparr>mem := bzero (mem s1) addr PAGE_SIZE\<rparr>;
          (stack, s3) = os_pfn_alloc OS_PT_REG s2;
          rsp = push_bit PAGE_SHIFT (ucast stack) + 4096;
          swapper = zero_ctx\<lparr>state := READY, pgd := 0x70, ctx_name := copy_name (str ''swapper'' @ [0]) (replicate CNAME_MAX 0),
            os_stack_pfn := stack, os_rsp := rsp,
            regs := zero_regs\<lparr>entry_rip := swapper_task, entry_rsp := rsp, entry_ss := ss,
                              entry_rflags := rflags, entry_cs := cs\<rparr>\<rparr>
      in s3\<lparr>ctx_list_addr := addr, ctx_list := swapper # replicate (MAX_PROCESSES - 1) zero_ctx\<rparr>)"

definition setup_child_context :: "nat \<Rightarrow> 'a kernel_scheme \<Rightarrow> 'a kernel_scheme" where
  "setup_child_context child s =
     (let (pfn, s1) = os_pfn_alloc OS_PT_REG s
      in (upd_ctx child (\<lambda>ctx. ctx\<lparr>os_stack_pfn := pfn,
             os_rsp := push_bit PAGE_SHIFT (ucast pfn) + 4096, state := READY\<rparr>) s1)
           \<lparr>stats := (stats s)\<lparr>num_processes := num_processes (stats s) + 1\<rparr>\<rparr>)"

definition swapper_task :: "'a kernel_scheme \<Rightarrow> 'a kernel_scheme" where \<comment> \<open>then \<open>sti; hlt\<close> for ever\<close>
  "swapper_task s = s\<lparr>stats := (stats s)\<lparr>swapper_invocations := swapper_invocations (stats s) + 1\<rparr>\<rparr>"

subsection \<open>Task state segment (\<open>set_tss_stack_ptr\<close>, \<open>idt.c\<close>)\<close>

definition set_tss_stack_ptr :: "nat \<Rightarrow> 'a kernel_scheme \<Rightarrow> 'a kernel_scheme" where
  "set_tss_stack_ptr c s = s\<lparr>tss_rsp0 := push_bit PAGE_SHIFT (ucast (os_stack_pfn (the_ctx s c) + 1))\<rparr>"

subsection \<open>A concrete state\<close>

text \<open>The kernel's variables before initialisation, all zero; the concrete runs of the other
  theories start from it.\<close>

definition zero_kernel :: kernel where
  "zero_kernel = \<lparr>mem = (\<lambda>_. 0), console = [],
     pglists = (\<lambda>_. \<lparr>pgl_type = 0, pgl_size = 0, free_pages = 0, last_free_pos = 0, start_address = 0, bitmap = 0\<rparr>),
     osalloc_base = 0, osalloc_chunks = [], nodemem = \<lparr>nm_next_free = 0, num_free = 0, nodes = 0, nm_end = 0\<rparr>,
     ctx_list_addr = 0, ctx_list = replicate MAX_PROCESSES zero_ctx, current = None, os_pmd_pfn = 0,
     stats = \<lparr>swapper_invocations = 0, context_switches = 0, lw_context_switches = 0, ticks = 0,
       page_faults = 0, syscalls = 0, used_memory = 0, num_processes = 0\<rparr>,
     config = \<lparr>global_mapping = 0, apic_tick_interval = 0, debug = 0, adv_global = 0\<rparr>,
     apic_base = 0xfee00000, tss_rsp0 = 0, cr3 = 0\<rparr>"

end
