(* ===== verification/Schedule.thy ===== *)
theory Schedule
  imports Context
begin

text \<open>
  The scheduler of \<open>schedule.c\<close>: the choice of the next context (\<open>pick_next_context\<close>) and the
  switch to it (\<open>schedule\<close>), with the part of \<open>return_from_os\<close> that reloads the registers. The
  specification of the choice is a round robin over the process identifiers: the first ready one
  after the current, wrapping from 15 to 1 and trying the current process last, and the swapper
  (identifier 0) when there is none.
\<close>

subsection \<open>\<open>pick_next_context\<close>\<close>

text \<open>The \<open>while(pid)\<close> loop; \<open>p\<close> is \<open>ctx->pid\<close> and \<open>q\<close> the loop variable.\<close>

fun pick_loop :: "nat \<Rightarrow> u32 \<Rightarrow> u32 \<Rightarrow> 'a kernel_scheme \<Rightarrow> kerror + (nat \<times> 'a kernel_scheme)" where
  "pick_loop 0 p q s = Inl NoReturn"
| "pick_loop (Suc fuel) p q s =
     (if q = 0 then Inr (0, s)
      else case get_ctx_by_pid q s of
        (None, _) \<Rightarrow> Inl NullContext
      | (Some c, s') \<Rightarrow>
          if state (the_ctx s' c) = READY then Inr (c, s')
          else
            let q1 = (if q + 1 = p + 1 then 0 else q + 1)
            in if q1 = of_nat MAX_PROCESSES
               then (if p = 0 then Inr (0, s') else pick_loop fuel p 1 s')
               else pick_loop fuel p q1 s')"

definition pick_next_context :: "nat \<Rightarrow> 'a kernel_scheme \<Rightarrow> kerror + (nat \<times> 'a kernel_scheme)" where
  "pick_next_context ctx s =
     (let p = pid (the_ctx s ctx)
      in pick_loop (Suc MAX_PROCESSES) p (if p + 1 = of_nat MAX_PROCESSES then 1 else p + 1) s)"

subsection \<open>\<open>schedule\<close>\<close>

text \<open>The words of \<open>struct user_regs\<close> in memory order.\<close>

definition reg_words :: "user_regs \<Rightarrow> u64 list" where
  "reg_words r = [r15 r, r14 r, r13 r, r12 r, r11 r, r10 r, r9 r, r8 r, rbp r, rdi r, rsi r, rdx r,
     rcx r, rbx r, rax r, entry_rip r, entry_cs r, entry_rflags r, entry_rsp r, entry_ss r]"

definition regs_of_words :: "u64 list \<Rightarrow> user_regs" where
  "regs_of_words w = \<lparr>r15 = w ! 0, r14 = w ! 1, r13 = w ! 2, r12 = w ! 3, r11 = w ! 4, r10 = w ! 5,
     r9 = w ! 6, r8 = w ! 7, rbp = w ! 8, rdi = w ! 9, rsi = w ! 10, rdx = w ! 11, rcx = w ! 12,
     rbx = w ! 13, rax = w ! 14, entry_rip = w ! 15, entry_cs = w ! 16, entry_rflags = w ! 17,
     entry_rsp = w ! 18, entry_ss = w ! 19\<rparr>"

fun store_words :: "memory \<Rightarrow> u64 \<Rightarrow> u64 list \<Rightarrow> memory" where
  "store_words m a [] = m"
| "store_words m a (w # ws) = store_words (wr64 m a w) (a + 8) ws"

fun load_words :: "memory \<Rightarrow> u64 \<Rightarrow> nat \<Rightarrow> u64 list" where
  "load_words m a 0 = []"
| "load_words m a (Suc n) = rd64 m a # load_words m (a + 8) n"

text \<open>The 15 \<open>pop\<close>s and the \<open>iretq\<close> of \<open>return_from_os\<close>, with the stack pointer at \<open>rsp\<close>.\<close>

definition return_from_os :: "u64 \<Rightarrow> 'a kernel_scheme \<Rightarrow> user_regs" where
  "return_from_os rsp s = regs_of_words (load_words (mem s) rsp 20)"

definition schedule :: "nat \<Rightarrow> 'a kernel_scheme \<Rightarrow> ('v, 'a kernel_scheme) result" where
  "schedule new_ctx s =
     (let rsp_stack = os_rsp (the_ctx s new_ctx) - 160;
          s1 = s\<lparr>mem := store_words (mem s) rsp_stack (reg_words (regs (the_ctx s new_ctx)))\<rparr>;
          s2 = set_tss_stack_ptr new_ctx s1;
          s3 = set_current_ctx (Some new_ctx) s2;
          s4 = upd_ctx new_ctx (state_update (\<lambda>_. RUNNING)) s3;
          s5 = s4\<lparr>cr3 := ucast (push_bit PAGE_SHIFT (pgd (the_ctx s4 new_ctx)))\<rparr>
      in Inr (Iret (return_from_os rsp_stack s5), s5))"

subsection \<open>The choice is a round robin\<close>

definition round_robin :: "nat \<Rightarrow> nat list" where
  "round_robin p = [p + 1..<MAX_PROCESSES] @ [1..<p + 1]"

definition is_ready :: "'a kernel_scheme \<Rightarrow> nat \<Rightarrow> bool" where
  "is_ready s i \<longleftrightarrow> state (the_ctx s i) = READY"

definition next_ready :: "nat \<Rightarrow> 'a kernel_scheme \<Rightarrow> nat" where
  "next_ready p s = (case find (is_ready s) (round_robin p) of None \<Rightarrow> 0 | Some i \<Rightarrow> i)"

lemma get_ctx_by_pid_small:
  "0 < i \<Longrightarrow> i < MAX_PROCESSES \<Longrightarrow> get_ctx_by_pid (of_nat i) s = (Some i, s)"
  by (simp add: get_ctx_by_pid_def word_le_nat_alt unat_of_nat_small)

lemma pid_eq_iff [word_facts]:
  "i < 2 ^ 32 \<Longrightarrow> j < 2 ^ 32 \<Longrightarrow> (of_nat i :: u32) = of_nat j \<longleftrightarrow> i = j"
  by (rule iffI, drule arg_cong [where f = unat], simp_all add: unat_of_nat_small)

lemma pick_loop_zero: "pick_loop (Suc fuel) p 0 s = Inr (0, s)"
  by simp

lemma pick_loop_step:
  assumes "0 < i" "i < MAX_PROCESSES" "p < MAX_PROCESSES"
  shows "pick_loop (Suc fuel) (of_nat p) (of_nat i) s =
    (if is_ready s i then Inr (i, s)
     else if i = p then pick_loop fuel (of_nat p) 0 s
     else if Suc i = MAX_PROCESSES then (if p = 0 then Inr (0, s) else pick_loop fuel (of_nat p) 1 s)
     else pick_loop fuel (of_nat p) (of_nat (Suc i)) s)"
proof -
  define q :: u32 where "q = of_nat i"
  define w :: u32 where "w = of_nat p"
  have q: "q \<noteq> 0" "q + 1 = w + 1 \<longleftrightarrow> i = p" "q + 1 = of_nat MAX_PROCESSES \<longleftrightarrow> Suc i = MAX_PROCESSES" "w = 0 \<longleftrightarrow> p = 0"
    unfolding q_def w_def
    using pid_eq_iff [of i 0] pid_eq_iff [of i p] pid_eq_iff [of "Suc i" 16] pid_eq_iff [of p 0] assms
    by (simp_all add: add.commute)
  have c: "get_ctx_by_pid q s = (Some i, s)"
    using assms by (simp only: q_def get_ctx_by_pid_small)
  have n: "of_nat (Suc i) = q + 1" "0 \<noteq> (of_nat MAX_PROCESSES :: u32)"
    using pid_eq_iff [of 0 16] by (simp_all add: q_def)
  show ?thesis
    unfolding n(1) q_def [symmetric] w_def [symmetric]
    by (cases "state (the_ctx s i) = READY"; cases "i = p"; cases "Suc i = MAX_PROCESSES")
      (simp_all only: pick_loop.simps q c n(2) is_ready_def Let_def prod.case option.case if_False if_True
        simp_thms)
qed

declare pick_loop.simps(2) [simp del]

abbreviation found :: "nat option \<Rightarrow> nat" where "found x \<equiv> (case x of None \<Rightarrow> 0 | Some i \<Rightarrow> i)"

text \<open>From an identifier not above the current one, the loop tries the rest of the wrapped part.\<close>

lemma pick_loop_low:
  assumes "0 < i" "i \<le> p" "p < MAX_PROCESSES" "Suc p - i < fuel"
  shows "pick_loop fuel (of_nat p) (of_nat i) s = Inr (found (find (is_ready s) [i..<p + 1]), s)"
  using assms
proof (induction "p - i" arbitrary: i fuel)
  case 0
  then obtain f where "fuel = Suc (Suc f)" by (cases fuel; cases "fuel - 1") auto
  moreover from 0 have "i = p" by simp
  ultimately show ?case using 0 by (simp add: pick_loop_step pick_loop_zero)
next
  case (Suc k)
  then obtain f where f: "fuel = Suc f" by (cases fuel) auto
  with Suc have "pick_loop f (of_nat p) (of_nat (Suc i)) s =
    Inr (found (find (is_ready s) [Suc i..<p + 1]), s)" by (intro Suc.hyps) auto
  moreover have "[i..<p + 1] = i # [Suc i..<p + 1]" using Suc.prems by (intro upt_conv_Cons) simp
  moreover from Suc have "i \<noteq> p" by auto
  ultimately show ?case using Suc f by (simp add: pick_loop_step del: of_nat_Suc upt_Suc)
qed

lemma pick_loop_high:
  assumes "p < i" "i < MAX_PROCESSES" "MAX_PROCESSES - i + p + 1 < fuel"
  shows "pick_loop fuel (of_nat p) (of_nat i) s =
    Inr (found (find (is_ready s) ([i..<MAX_PROCESSES] @ [1..<p + 1])), s)"
  using assms
proof (induction "MAX_PROCESSES - Suc i" arbitrary: i fuel)
  case 0
  then obtain f where f: "fuel = Suc f" by (cases fuel) auto
  from 0 have i: "Suc i = MAX_PROCESSES" by simp
  have "p \<noteq> 0 \<Longrightarrow> pick_loop f (of_nat p) 1 s = Inr (found (find (is_ready s) [1..<p + 1]), s)"
    using pick_loop_low [of 1 p f s] 0 f by simp
  then show ?case
    using pick_loop_step [of i p f s] 0 f i by (cases "p = 0") (simp_all add: upt_conv_Cons del: upt_Suc)
next
  case (Suc k)
  then obtain f where f: "fuel = Suc f" by (cases fuel) auto
  with Suc have "pick_loop f (of_nat p) (of_nat (Suc i)) s =
    Inr (found (find (is_ready s) ([Suc i..<MAX_PROCESSES] @ [1..<p + 1])), s)" by (intro Suc.hyps) auto
  moreover have "[i..<MAX_PROCESSES] = i # [Suc i..<MAX_PROCESSES]"
    using Suc.prems by (intro upt_conv_Cons) simp
  moreover from Suc have "i \<noteq> 15" "0 < i" by auto
  ultimately show ?case using Suc f by (simp add: pick_loop_step del: of_nat_Suc upt_Suc)
qed

lemma pick_next_context_eq:
  assumes "pid (the_ctx s ctx) = of_nat p" "p < MAX_PROCESSES"
  shows "pick_next_context ctx s = Inr (next_ready p s, s)"
proof (cases "p = 15")
  case True
  with assms show ?thesis
    using pick_loop_low [of 1 15 17 s]
    by (simp add: pick_next_context_def next_ready_def round_robin_def)
next
  case False
  have "of_nat p + 1 \<noteq> (16 :: u32)" using pid_eq_iff [of "Suc p" 16] False assms(2)
    by (simp add: add.commute)
  then show ?thesis
    using assms False pick_loop_high [of p "Suc p" 17 s]
    by (simp add: pick_next_context_def next_ready_def round_robin_def add.commute)
qed

end
