(* ===== verification/Page_Table.thy ===== *)
theory Page_Table
  imports Context
begin

text \<open>
  The four-level page tables: \<open>get_user_pte\<close>, \<open>do_unmap_user\<close>, \<open>install_page_table\<close> of
  \<open>entry.c\<close>; \<open>install_ptable\<close>, \<open>install_ptable_multi\<close>, \<open>install_os_pts\<close>, \<open>pt_walk\<close>,
  \<open>pt_cleanup\<close> and \<open>copy_mm\<close> of \<open>context.c\<close>; the mapping of the interrupt controller of
  \<open>apic.c\<close>. Tables are pages of physical memory with 512 entries of 8 bytes; every function
  reads and writes them there. A pointer to an entry is its address, and 0 is \<open>NULL\<close>.
\<close>

subsection \<open>Constants and indices (\<open>include/memory.h\<close>)\<close>

abbreviation FLAG_MASK :: u64 where "FLAG_MASK \<equiv> 0x3ffffffff000"
abbreviation OS_PT_MAPS :: nat where "OS_PT_MAPS \<equiv> 64"
abbreviation CODE_PAGES :: nat where "CODE_PAGES \<equiv> 8"

definition pgd_index :: "u64 \<Rightarrow> u64" where "pgd_index addr = drop_bit 39 (addr AND 0xff8000000000)"
definition pud_index :: "u64 \<Rightarrow> u64" where "pud_index addr = drop_bit 30 (addr AND 0x7fc0000000)"
definition pmd_index :: "u64 \<Rightarrow> u64" where "pmd_index addr = drop_bit 21 (addr AND 0x3fe00000)"
definition pte_index :: "u64 \<Rightarrow> u64" where "pte_index addr = drop_bit 12 (addr AND 0x1ff000)"

text \<open>\<open>(*entry >> PTE_SHIFT) & 0xFFFFFFFF\<close>, and the tests of \<open>get_user_pte\<close> on an entry.\<close>

definition entry_pfn :: "u64 \<Rightarrow> u32" where "entry_pfn e = ucast (drop_bit 12 e AND 0xFFFFFFFF)"

definition user_entry :: "u64 \<Rightarrow> bool" where "user_entry e \<longleftrightarrow> \<not> (e AND 1 = 0 \<or> e AND 4 = 0)"

subsection \<open>\<open>get_user_pte\<close> and \<open>do_unmap_user\<close> (\<open>entry.c\<close>)\<close>

definition get_user_pte :: "memory \<Rightarrow> exec_context \<Rightarrow> u64 \<Rightarrow> u64" where
  "get_user_pte m ctx addr =
     (let vaddr_base = osmap (ucast (pgd ctx));
          entry = entry_addr vaddr_base (pgd_index addr)
      in if \<not> user_entry (rd64 m entry) then 0 else
      let vaddr_base = osmap (ucast (entry_pfn (rd64 m entry)));
          entry = entry_addr vaddr_base (pud_index addr)
      in if \<not> user_entry (rd64 m entry) then 0 else
      let vaddr_base = osmap (ucast (entry_pfn (rd64 m entry)));
          entry = entry_addr vaddr_base (pmd_index addr)
      in if \<not> user_entry (rd64 m entry) \<or> rd64 m entry AND 0x80 = 1 then 0 else
      let vaddr_base = osmap (ucast (entry_pfn (rd64 m entry)));
          entry = entry_addr vaddr_base (pte_index addr)
      in if \<not> user_entry (rd64 m entry) then 0 else entry)"

definition do_unmap_user :: "exec_context \<Rightarrow> u64 \<Rightarrow> 'a kernel_scheme \<Rightarrow> int \<times> 'a kernel_scheme" where
  "do_unmap_user ctx addr s =
     (let pte_entry = get_user_pte (mem s) ctx addr
      in if pte_entry = 0 then (-1, s)
         else let s1 = os_pfn_free USER_REG (ucast (entry_pfn (rd64 (mem s) pte_entry))) s
              in (0, s1\<lparr>mem := wr64 (mem s1) pte_entry 0\<rparr>))"

subsection \<open>One level of an installation\<close>

text \<open>Each level of the installing functions has the same shape: follow the entry when it is
  present, else allocate a table and write its entry. They differ in the test of the entry, in how
  the address of the next table is read from it, in the flags, and in whether the new page is
  cleared once more.\<close>

definition table_level ::
  "(u64 \<Rightarrow> bool) \<Rightarrow> (u64 \<Rightarrow> u64) \<Rightarrow> u64 \<Rightarrow> (memory \<Rightarrow> u64 \<Rightarrow> memory) \<Rightarrow> u64 \<Rightarrow> u64 \<Rightarrow>
     'a kernel_scheme \<Rightarrow> u64 \<times> 'a kernel_scheme" where
  "table_level present next_tab flags clear base i s =
     (let entry = entry_addr base i
      in if present (rd64 (mem s) entry) then (next_tab (rd64 (mem s) entry), s)
         else let (pfn, s1) = os_pfn_alloc OS_PT_REG s;
                  tab = osmap (ucast pfn)
              in (tab, s1\<lparr>mem := clear (wr64 (mem s1) entry (tab OR flags)) tab\<rparr>))"

subsection \<open>\<open>install_page_table\<close> (\<open>entry.c\<close>)\<close>

definition fault_level :: "u64 \<Rightarrow> u64 \<Rightarrow> u64 \<Rightarrow> 'a kernel_scheme \<Rightarrow> u64 \<times> 'a kernel_scheme" where
  "fault_level ac_flags = table_level (\<lambda>e. e AND 1 \<noteq> 0) (\<lambda>e. osmap (ucast (entry_pfn e))) ac_flags (\<lambda>m _. m)"

definition install_page_table :: "exec_context \<Rightarrow> u64 \<Rightarrow> u64 \<Rightarrow> 'a kernel_scheme \<Rightarrow> 'a kernel_scheme" where
  "install_page_table ctx addr error_code s =
     (let ac_flags = 0x5 OR (error_code AND 0x2);
          (b1, s1) = fault_level ac_flags (osmap (ucast (pgd ctx))) (pgd_index addr) s;
          (b2, s2) = fault_level ac_flags b1 (pud_index addr) s1;
          (b3, s3) = fault_level ac_flags b2 (pmd_index addr) s2;
          (pfn, s4) = os_pfn_alloc USER_REG s3
      in s4\<lparr>mem := wr64 (mem s4) (entry_addr b3 (pte_index addr)) (osmap (ucast pfn) OR ac_flags)\<rparr>)"

subsection \<open>\<open>install_ptable\<close> and \<open>install_ptable_multi\<close> (\<open>context.c\<close>)\<close>

definition ptable_level :: "u64 \<Rightarrow> u64 \<Rightarrow> 'a kernel_scheme \<Rightarrow> u64 \<times> 'a kernel_scheme" where
  "ptable_level = table_level (\<lambda>e. e \<noteq> 0) (\<lambda>e. e AND FLAG_MASK) 0x7 (\<lambda>m tab. bzero m tab PAGE_SIZE)"

definition ptable_levels :: "u64 \<Rightarrow> u64 \<Rightarrow> 'a kernel_scheme \<Rightarrow> u64 \<times> 'a kernel_scheme" where
  "ptable_levels base address s =
     (let (b1, s1) = ptable_level base (pgd_index address) s;
          (b2, s2) = ptable_level b1 (pud_index address) s1;
          (b3, s3) = ptable_level b2 (pmd_index address) s2
      in (entry_addr b3 (pte_index address), s3))"

definition install_ptable ::
  "u64 \<Rightarrow> mm_segment \<Rightarrow> u64 \<Rightarrow> u32 \<Rightarrow> 'a kernel_scheme \<Rightarrow> u32 \<times> 'a kernel_scheme" where
  "install_ptable base mm address upfn s =
     (let address = (if address = 0 then seg_start mm else address);
          (ptep, s1) = ptable_levels base address s;
          (upfn, s2) = (if upfn = 0 then os_pfn_alloc USER_REG s1 else (upfn, s1));
          m = wr64 (mem s2) ptep (osmap (ucast upfn) OR 0x5);
          m = (if access_flags mm AND MM_WR \<noteq> 0 then wr64 m ptep (rd64 m ptep OR 0x2) else m)
      in (upfn, s2\<lparr>mem := m\<rparr>))"

text \<open>The \<open>for\<close> loop of \<open>install_ptable_multi\<close>; \<open>last_pfn\<close> is \<open>None\<close> before the first round.\<close>

fun ptable_multi_loop ::
  "u64 \<Rightarrow> int \<Rightarrow> u64 \<Rightarrow> u64 option \<Rightarrow> nat \<Rightarrow> 'a kernel_scheme \<Rightarrow> 'a kernel_scheme" where
  "ptable_multi_loop start_pfn write ptep last_pfn 0 s = s"
| "ptable_multi_loop start_pfn write ptep last_pfn (Suc n) s =
     (let (pfn, s2) = (case last_pfn of
            None \<Rightarrow> (start_pfn, s)
          | Some l \<Rightarrow>
              let (p, s1) = os_pfn_alloc USER_REG s
              in (ucast p, if l \<noteq> ucast p - 1 then printf ''BUG! PFN not in sequence\<newline>'' [] s1 else s1));
          m = wr64 (mem s2) ptep (push_bit 12 pfn OR 0x5);
          m = (if write \<noteq> 0 then wr64 m ptep (rd64 m ptep OR 0x2) else m)
      in ptable_multi_loop start_pfn write (ptep + 8) (Some pfn) n (s2\<lparr>mem := m\<rparr>))"

definition install_ptable_multi ::
  "u64 \<Rightarrow> u64 \<Rightarrow> nat \<Rightarrow> int \<Rightarrow> 'a kernel_scheme \<Rightarrow> u32 \<times> 'a kernel_scheme" where
  "install_ptable_multi pgd_base start count write s =
     (let (ptep, s1) = ptable_levels pgd_base start s;
          (start_pfn, s2) = os_pfn_alloc USER_REG s1
      in (start_pfn, ptable_multi_loop (ucast start_pfn) write ptep None count s2))"

subsection \<open>The mapping of the interrupt controller (\<open>apic.c\<close>)\<close>

definition is_apic_base :: "u64 \<Rightarrow> 'a kernel_scheme \<Rightarrow> bool" where
  "is_apic_base pfn s \<longleftrightarrow> pfn = drop_bit PAGE_SHIFT (apic_base s)"

definition apic_level :: "u64 \<Rightarrow> u64 \<Rightarrow> 'a kernel_scheme \<Rightarrow> u64 \<times> 'a kernel_scheme" where
  "apic_level = table_level (\<lambda>e. e AND 1 \<noteq> 0) (\<lambda>e. push_bit 12 (drop_bit 12 e)) 0x3 (\<lambda>m _. m)"

definition install_apic_mapping :: "u64 \<Rightarrow> 'a kernel_scheme \<Rightarrow> 'a kernel_scheme" where
  "install_apic_mapping pl4 s =
     (let address = push_bit 21 (drop_bit 21 (apic_base s));
          (b1, s1) = apic_level (push_bit 12 pl4) (pgd_index address) s;
          (b2, s2) = apic_level b1 (pud_index address) s1;
          pmd = entry_addr b2 (pmd_index address);
          s3 = (if rd64 (mem s2) pmd AND 1 \<noteq> 0 then printf ''BUG!\<newline>'' [] s2 else s2);
          v = (if global_mapping (config s) \<noteq> 0 \<and> adv_global (config s) \<noteq> 0
               then address OR 0x183 OR push_bit 52 1
               else if global_mapping (config s) \<noteq> 0 then address OR 0x183
               else address OR 0x83)
      in s3\<lparr>mem := wr64 (mem s3) pmd v\<rparr>)"

text \<open>When the first entry is not present the code goes on with an uninitialised pointer.\<close>

definition remove_apic_mapping :: "u64 \<Rightarrow> 'a kernel_scheme \<Rightarrow> kerror + 'a kernel_scheme" where
  "remove_apic_mapping pl4 s =
     (let address = push_bit 21 (drop_bit 21 (apic_base s));
          pgde = rd64 (mem s) (entry_addr (push_bit 12 pl4) (pgd_index address))
      in if pgde AND 1 = 0 then Inl Uninitialised
         else
           let b1 = push_bit 12 (drop_bit 12 pgde);
               pude = rd64 (mem s) (entry_addr b1 (pud_index address));
               (b2, s1) = (if pude AND 1 = 0 then (b1, printf ''APIC free BUG! pud\<newline>'' [] s)
                           else (push_bit 12 (drop_bit 12 pude), s));
               pmd = entry_addr b2 (pmd_index address);
               s2 = (if rd64 (mem s1) pmd AND 1 \<noteq> 1 then printf ''APIC free BUG!\<newline>'' [] s1 else s1)
           in Inr (s2\<lparr>mem := wr64 (mem s2) pmd 0\<rparr>))"

subsection \<open>\<open>install_os_pts\<close> and \<open>pt_walk\<close> (\<open>context.c\<close>)\<close>

definition os_map_loop :: "u64 \<Rightarrow> u64 \<Rightarrow> nat \<Rightarrow> memory \<Rightarrow> memory" where
  "os_map_loop entry flags n m =
     fold (\<lambda>i m. wr64 m (entry_addr entry (of_nat i)) (push_bit 21 (of_nat i) OR flags)) [0..<n] m"

definition install_os_pts :: "u32 \<Rightarrow> 'a kernel_scheme \<Rightarrow> int \<times> 'a kernel_scheme" where
  "install_os_pts pl4 s =
     (let (b1, s1) = table_level (\<lambda>e. e \<noteq> 0) (\<lambda>e. e AND FLAG_MASK) 0x3 (\<lambda>m _. m)
            (push_bit 12 (ucast pl4)) 0 s;
          e = rd64 (mem s1) b1;
          (b2, s2) = (if e \<noteq> 0 then (e AND FLAG_MASK, s1)
            else let (pfn, s') = os_pfn_alloc OS_PT_REG s1
                 in (osmap (ucast pfn), s'\<lparr>os_pmd_pfn := ucast pfn,
                       mem := wr64 (mem s') b1 (osmap (ucast pfn) OR 0x3)\<rparr>));
          s3 = s2\<lparr>mem := os_map_loop b2 (if global_mapping (config s) \<noteq> 0 then 0x183 else 0x83)
                           OS_PT_MAPS (mem s2)\<rparr>
      in (0, install_apic_mapping (ucast pl4) s3))"

text \<open>The first access adds the index to the byte address, without scaling; the others scale it.\<close>

definition pt_walk :: "memory \<Rightarrow> exec_context \<Rightarrow> mm_seg \<Rightarrow> u32 \<Rightarrow> u32" where
  "pt_walk m ctx segment stack =
     (let mm = mms ctx segment;
          start = (if stack \<noteq> 0 then seg_end mm - 4096 else seg_start mm);
          entry = rd64 m (push_bit 12 (ucast (pgd ctx)) + pgd_index start)
      in if entry AND 1 = 0 then - 1 else
      let entry = rd64 m (entry_addr (entry AND FLAG_MASK) (pud_index start))
      in if entry AND 1 = 0 then - 1 else
      let entry = rd64 m (entry_addr (entry AND FLAG_MASK) (pmd_index start))
      in if entry AND 1 = 0 then - 1 else
      let entry = rd64 m (entry_addr (entry AND FLAG_MASK) (pte_index start))
      in if entry AND 1 = 0 then - 1 else ucast (drop_bit 12 entry))"

end
