(* ===== verification/Process.thy ===== *)
theory Process
  imports Schedule Page_Table
begin

text \<open>
  The life of a process: \<open>exec_init\<close>, \<open>copy_mm\<close>, \<open>pt_cleanup\<close> and \<open>do_cleanup\<close> of
  \<open>context.c\<close>; \<open>do_exit\<close>, \<open>do_sleep\<close>, \<open>do_fork\<close> and \<open>do_clone\<close> of \<open>entry.c\<close>.
\<close>

subsection \<open>Loops over the pages of a range\<close>

text \<open>\<open>for(vaddr = from; vaddr < lim; vaddr += PAGE_SIZE)\<close> and its downward counterpart.\<close>

function up_loop :: "(u64 \<Rightarrow> 's \<Rightarrow> 's) \<Rightarrow> u64 \<Rightarrow> u64 \<Rightarrow> 's \<Rightarrow> kerror + 's" where
  "up_loop body lim vaddr s =
     (if vaddr < lim then
        if vaddr + 4096 < vaddr then Inl NoReturn else up_loop body lim (vaddr + 4096) (body vaddr s)
      else Inr s)"
  by pat_completeness auto

lemma unat_up:
  fixes v :: u64
  assumes "\<not> v + 4096 < v"
  shows "unat (v + 4096) = unat v + 4096"
  using assms unsigned_less [of v]
  by (simp add: unat_plus_if_size word_less_nat_alt word_size split: if_splits)

termination up_loop
  by (relation "measure (\<lambda>(body, lim, v, s). unat lim - unat v)")
    (auto simp: unat_up word_less_nat_alt)

declare up_loop.simps [simp del]

function down_loop :: "(u64 \<Rightarrow> 's \<Rightarrow> 's) \<Rightarrow> u64 \<Rightarrow> u64 \<Rightarrow> 's \<Rightarrow> kerror + 's" where
  "down_loop body lim vaddr s =
     (if vaddr \<ge> lim then
        if vaddr < 4096 then Inl NoReturn else down_loop body lim (vaddr - 4096) (body vaddr s)
      else Inr s)"
  by pat_completeness auto

termination
  by (relation "measure (\<lambda>(body, lim, v, s). unat v)")
    (auto simp: word_less_nat_alt word_le_nat_alt not_less unat_sub)

declare down_loop.simps [simp del]

subsection \<open>\<open>copy_mm\<close>\<close>

definition copy_shared_page ::
  "u64 \<Rightarrow> exec_context \<Rightarrow> mm_segment \<Rightarrow> u64 \<Rightarrow> 'a kernel_scheme \<Rightarrow> 'a kernel_scheme" where
  "copy_shared_page os_addr parent seg vaddr s =
     (let parent_pte = get_user_pte (mem s) parent vaddr
      in if parent_pte = 0 then s
         else snd (install_ptable os_addr seg vaddr
                (ucast (drop_bit 12 (rd64 (mem s) parent_pte AND FLAG_MASK))) s))"

definition copy_private_page ::
  "u64 \<Rightarrow> exec_context \<Rightarrow> mm_segment \<Rightarrow> u64 \<Rightarrow> 'a kernel_scheme \<Rightarrow> 'a kernel_scheme" where
  "copy_private_page os_addr parent seg vaddr s =
     (let parent_pte = get_user_pte (mem s) parent vaddr
      in if parent_pte = 0 then s
         else let (pfn, s1) = install_ptable os_addr seg vaddr 0 s
              in s1\<lparr>mem := memcpy (mem s1) (osmap (ucast pfn)) (rd64 (mem s1) parent_pte AND FLAG_MASK) 4096\<rparr>)"

fun bind_err :: "kerror + 's \<Rightarrow> ('s \<Rightarrow> kerror + 't) \<Rightarrow> kerror + 't" where
  "bind_err (Inl e) f = Inl e"
| "bind_err (Inr s) f = f s"

text \<open>The four segment loops of \<open>copy_mm\<close>.\<close>

definition copy_segments :: "u64 \<Rightarrow> exec_context \<Rightarrow> 'a kernel_scheme \<Rightarrow> kerror + 'a kernel_scheme" where
  "copy_segments os_addr parent s =
     (let code = mms parent MM_SEG_CODE; rodata = mms parent MM_SEG_RODATA;
          data = mms parent MM_SEG_DATA; stack = mms parent MM_SEG_STACK
      in bind_err (up_loop (copy_shared_page os_addr parent code) (next_free code) (seg_start code) s)
       (\<lambda>s. bind_err (up_loop (copy_shared_page os_addr parent rodata) (next_free rodata) (seg_start rodata) s)
       (\<lambda>s. bind_err (up_loop (copy_private_page os_addr parent data) (next_free data) (seg_start data) s)
       (\<lambda>s. down_loop (copy_private_page os_addr parent stack) (next_free stack) (seg_end stack - 4096) s))))"

definition copy_mm :: "nat \<Rightarrow> nat \<Rightarrow> 'a kernel_scheme \<Rightarrow> kerror + 'a kernel_scheme" where
  "copy_mm child parent s =
     (let (new_pgd, s1) = os_pfn_alloc OS_PT_REG s;
          s2 = upd_ctx child (pgd_update (\<lambda>_. new_pgd)) s1;
          os_addr = osmap (ucast new_pgd);
          s3 = s2\<lparr>mem := bzero (mem s2) os_addr PAGE_SIZE\<rparr>
      in bind_err (copy_segments os_addr (the_ctx s3 parent) s3)
           (\<lambda>s4. Inr (snd (install_os_pts (pgd (the_ctx s4 child)) s4))))"

subsection \<open>\<open>exec_init\<close>\<close>

record init_args =
  arg_rdi :: u64
  arg_rsi :: u64
  arg_rcx :: u64
  arg_rdx :: u64
  arg_r8 :: u64

abbreviation upd_seg :: "mm_seg \<Rightarrow> (mm_segment \<Rightarrow> mm_segment) \<Rightarrow> exec_context \<Rightarrow> exec_context" where
  "upd_seg k f ctx \<equiv> ctx\<lparr>mms := (mms ctx)(k := f (mms ctx k))\<rparr>"

text \<open>The three segments that \<open>exec_init\<close> maps: code (with the new top-level table), data and stack.\<close>

definition exec_code :: "nat \<Rightarrow> 'a kernel_scheme \<Rightarrow> u64 \<times> u32 \<times> 'a kernel_scheme" where
  "exec_code ctx s =
     (let (new_pgd, s1) = os_pfn_alloc OS_PT_REG s;
          s2 = upd_ctx ctx (pgd_update (\<lambda>_. new_pgd)) s1;
          os_addr = osmap (ucast new_pgd);
          s3 = s2\<lparr>mem := bzero (mem s2) os_addr PAGE_SIZE\<rparr>;
          (textpfn, s4) = install_ptable_multi os_addr (seg_start (mms (the_ctx s3 ctx) MM_SEG_CODE)) CODE_PAGES 0 s3
      in (os_addr, textpfn,
          upd_ctx ctx (upd_seg MM_SEG_CODE (\<lambda>g. g\<lparr>next_free := seg_start g + push_bit 12 (of_nat CODE_PAGES)\<rparr>)) s4))"

definition exec_data :: "u64 \<Rightarrow> nat \<Rightarrow> 'a kernel_scheme \<Rightarrow> 'a kernel_scheme" where
  "exec_data os_addr ctx s =
     (let (_, s1) = install_ptable os_addr (mms (the_ctx s ctx) MM_SEG_DATA) 0 0 s
      in upd_ctx ctx (upd_seg MM_SEG_DATA (\<lambda>g. g\<lparr>next_free := seg_start g + 4096\<rparr>)) s1)"

definition exec_stack :: "u64 \<Rightarrow> nat \<Rightarrow> 'a kernel_scheme \<Rightarrow> 'a kernel_scheme" where
  "exec_stack os_addr ctx s =
     (let stack_start = seg_start (mms (the_ctx s ctx) MM_SEG_STACK);
          s1 = upd_ctx ctx (upd_seg MM_SEG_STACK (\<lambda>g. g\<lparr>seg_start := seg_end g - 4096\<rparr>)) s;
          (_, s2) = install_ptable os_addr (mms (the_ctx s1 ctx) MM_SEG_STACK) 0 0 s1;
          s3 = upd_ctx ctx (upd_seg MM_SEG_STACK (\<lambda>g. g\<lparr>seg_start := stack_start\<rparr>)) s2
      in upd_ctx ctx (upd_seg MM_SEG_STACK (\<lambda>g. g\<lparr>next_free := seg_end g - 4096\<rparr>)) s3)"

text \<open>\<open>cpu\<close> is the content of the registers that the final assembly does not load, and \<open>rflags\<close>
  the flags it reads with \<open>pushfq\<close>.\<close>

definition exec_init ::
  "user_regs \<Rightarrow> u64 \<Rightarrow> nat \<Rightarrow> init_args \<Rightarrow> 'a kernel_scheme \<Rightarrow> (int, 'a kernel_scheme) result" where
  "exec_init cpu rflags ctx args s =
     (let s1 = printf ''Setting up init process ...\<newline>'' [] s;
          (os_addr, textpfn, s2) = exec_code ctx s1;
          s3 = exec_data os_addr ctx s2;
          s4 = exec_stack os_addr ctx s3;
          (r, s5) = install_os_pts (pgd (the_ctx s4 ctx)) s4
      in if r \<noteq> 0 then Inr (Return (-1), s5)
         else
           let pl4 = push_bit 12 (ucast (pgd (the_ctx s4 ctx)));
               s6 = set_tss_stack_ptr ctx s5;
               s7 = s6\<lparr>stats := (stats s6)\<lparr>num_processes := num_processes (stats s6) + 1\<rparr>\<rparr>;
               s8 = s7\<lparr>mem := memcpy (mem s7) (push_bit 12 (ucast textpfn)) 0x200000 (push_bit 12 (of_nat CODE_PAGES))\<rparr>;
               s9 = upd_ctx ctx (state_update (\<lambda>_. RUNNING)) (set_current_ctx (Some ctx) s8);
               s10 = printf ''Page table setup done, launching init ...\<newline>'' [] s9
           in Inr (Iret (cpu\<lparr>entry_ss := 0x2b, entry_rsp := STACK_START, entry_rflags := rflags OR 0x200,
                entry_cs := 0x23, entry_rip := CODE_START, rdi := arg_rdi args, rsi := arg_rsi args,
                rcx := arg_rcx args, rdx := arg_rdx args, r8 := arg_r8 args\<rparr>), s10\<lparr>cr3 := pl4\<rparr>))"

subsection \<open>\<open>pt_cleanup\<close> and \<open>do_cleanup\<close>\<close>

text \<open>The recursion is on the level; only the page of the interrupt controller, found below the last
  level, would make it go deeper, so the model bounds its depth by fuel.\<close>

fun pt_cleanup :: "nat \<Rightarrow> u64 \<Rightarrow> int \<Rightarrow> 'a kernel_scheme \<Rightarrow> kerror + 'a kernel_scheme"
  and pt_entries :: "nat \<Rightarrow> u64 \<Rightarrow> int \<Rightarrow> nat list \<Rightarrow> 'a kernel_scheme \<Rightarrow> kerror + 'a kernel_scheme" where
  "pt_cleanup 0 pfn level s = Inl NoReturn"
| "pt_cleanup (Suc fuel) pfn level s =
     (if level < 1 \<and> \<not> is_apic_base pfn s then Inr (os_pfn_free USER_REG pfn s)
      else bind_err (pt_entries fuel (osmap pfn) level [if level = 3 then 1 else 0..<512] s)
        (\<lambda>s'. Inr (if \<not> is_apic_base pfn s' then os_pfn_free OS_PT_REG pfn s' else s')))"
| "pt_entries fuel v_add level [] s = Inr s"
| "pt_entries fuel v_add level (i # is) s =
     (let entry_val = rd64 (mem s) (entry_addr v_add (of_nat i))
      in if entry_val AND 1 = 0 then pt_entries fuel v_add level is s
         else bind_err (pt_cleanup fuel (drop_bit 12 entry_val) (level - 1) s)
           (\<lambda>s'. pt_entries fuel v_add level is
              (s'\<lparr>mem := wr64 (mem s') (entry_addr v_add (of_nat i)) 0\<rparr>)))"

abbreviation pt_cleanup_depth :: nat where "pt_cleanup_depth \<equiv> 5"

definition do_cleanup :: "'a kernel_scheme \<Rightarrow> (unit, 'a kernel_scheme) result" where
  "do_cleanup s =
     (case current s of None \<Rightarrow> Inl NullContext
      | Some c \<Rightarrow>
          let ctx = the_ctx s c;
              s = printf ''Cleaned up %s process\<newline>'' [Str (Some (ctx_name ctx))] s;
              s = os_pfn_free OS_PT_REG (ucast (os_stack_pfn ctx)) s;
              s = printf ''GemOS shell again!\<newline>'' [Str (Some (ctx_name ctx))] s
          in bind_err (remove_apic_mapping (ucast (pgd ctx)) s) (\<lambda>s.
             bind_err (pt_cleanup pt_cleanup_depth (ucast (pgd ctx)) 4 s) (\<lambda>s.
             let s = os_pfn_free OS_PT_REG (os_pmd_pfn s) s;
                 s = upd_ctx c (state_update (\<lambda>_. UNUSED)) s
             in Inr (Shell, s\<lparr>current := None\<rparr>))))"

subsection \<open>\<open>do_exit\<close> and \<open>do_sleep\<close> (\<open>entry.c\<close>)\<close>

text \<open>\<open>new_ctx = pick_next_context(ctx); schedule(new_ctx);\<close>\<close>

definition switch_from :: "nat \<Rightarrow> 'a kernel_scheme \<Rightarrow> ('v, 'a kernel_scheme) result" where
  "switch_from c s =
     (case pick_next_context c s of Inl e \<Rightarrow> Inl e | Inr (new_ctx, s') \<Rightarrow> schedule new_ctx s')"

definition proc_exist :: "'a kernel_scheme \<Rightarrow> bool" where
  "proc_exist s = list_ex (\<lambda>ctr. state (the_ctx s ctr) \<noteq> UNUSED) [1..<MAX_PROCESSES]"

definition do_exit :: "'a kernel_scheme \<Rightarrow> (unit, 'a kernel_scheme) result" where
  "do_exit s =
     (case get_current_ctx s of None \<Rightarrow> Inl NullContext
      | Some c \<Rightarrow>
          let s1 = os_pfn_free OS_PT_REG (ucast (os_stack_pfn (the_ctx s c))) s;
              s2 = upd_ctx c (state_update (\<lambda>_. UNUSED)) s1;
              s3 = s2\<lparr>stats := (stats s2)\<lparr>num_processes := num_processes (stats s2) - 1\<rparr>\<rparr>
          in if \<not> proc_exist s2
             then bind_result (do_cleanup s3) (\<lambda>_. switch_from c)
             else switch_from c s3)"

definition do_sleep :: "u32 \<Rightarrow> 'a kernel_scheme \<Rightarrow> (u64, 'a kernel_scheme) result" where
  "do_sleep n s =
     (case get_current_ctx s of None \<Rightarrow> Inl NullContext
      | Some c \<Rightarrow> switch_from c (upd_ctx c (\<lambda>ctx. ctx\<lparr>ticks_to_sleep := n, state := WAITING\<rparr>) s))"

subsection \<open>\<open>do_fork\<close> and \<open>do_clone\<close> (\<open>entry.c\<close>)\<close>

definition do_fork :: "'a kernel_scheme \<Rightarrow> (u64, 'a kernel_scheme) result" where
  "do_fork s =
     (case get_new_ctx s of
        (Some new_ctx, s1) \<Rightarrow>
          (case get_current_ctx s1 of None \<Rightarrow> Inl NullContext
           | Some c \<Rightarrow>
               let child = pid (the_ctx s1 new_ctx);
                   s2 = upd_ctx new_ctx (\<lambda>_. (the_ctx s1 c)\<lparr>pid := child, ppid := pid (the_ctx s1 c)\<rparr>) s1
               in bind_err (copy_mm new_ctx c s2)
                    (\<lambda>s3. Inr (Return (ucast child), setup_child_context new_ctx s3)))
      | (None, _) \<Rightarrow> Inl NullContext)"

text \<open>The name of the clone: the parent's up to its terminator, then \<open>sprintf("%d", ctx->pid + 1)\<close>
  with its own terminator, over the old content of the array.\<close>

definition clone_name :: "exec_context \<Rightarrow> u8 list \<Rightarrow> u8 list" where
  "clone_name parent old =
     copy_name (takeWhile (\<lambda>ch. ch \<noteq> 0) (take CNAME_MAX (ctx_name parent)) @
        format_d (ucast (pid parent + 1)) @ [0]) old"

definition clone_ctx :: "u64 \<Rightarrow> u64 \<Rightarrow> u32 \<Rightarrow> exec_context \<Rightarrow> exec_context \<Rightarrow> exec_context" where
  "clone_ctx th_func user_stack stack ctx new_ctx =
     new_ctx\<lparr>ctx_type := ctx_type ctx, state := READY, used_mem := used_mem ctx, pgd := pgd ctx,
       os_stack_pfn := stack, os_rsp := osmap (ucast (stack + 1)), mms := mms ctx,
       regs := (regs ctx)\<lparr>entry_rip := th_func, entry_rsp := user_stack, rbp := user_stack\<rparr>,
       pending_signal_bitmap := pending_signal_bitmap ctx, ticks_to_alarm := ticks_to_alarm ctx,
       ticks_to_sleep := ticks_to_sleep ctx, alarm_config_time := alarm_config_time ctx,
       sighandlers := sighandlers ctx, ctx_name := clone_name ctx (ctx_name new_ctx)\<rparr>"

definition do_clone :: "u64 \<Rightarrow> u64 \<Rightarrow> 'a kernel_scheme \<Rightarrow> (u64, 'a kernel_scheme) result" where
  "do_clone th_func user_stack s =
     (case get_new_ctx s of
        (Some new_ctx, s1) \<Rightarrow>
          (case get_current_ctx s1 of None \<Rightarrow> Inl NullContext
           | Some c \<Rightarrow>
               let (stack, s2) = os_pfn_alloc OS_PT_REG s1;
                   s3 = upd_ctx new_ctx (clone_ctx th_func user_stack stack (the_ctx s1 c)) s2
               in if CNAME_MAX < length (ctx_name (the_ctx s3 new_ctx)) then Inl NameOverflow
                  else Inr (Return 0, s3))
      | (None, _) \<Rightarrow> Inl NullContext)"

end
