(* ===== verification/Signals.thy ===== *)
theory Signals
  imports Process
begin

text \<open>
  Signals (\<open>invoke_sync_signal\<close>, \<open>do_signal\<close>, \<open>do_alarm\<close> of \<open>entry.c\<close>) and the accesses of
  kernel code to user addresses. The processor translates those with the page tables that
  \<open>cr3\<close> points to; \<open>mmu\<close>, an argument of every definition that needs it, is that translation: given
  memory, \<open>cr3\<close> and a virtual address it yields the physical address, or \<open>None\<close> when the access
  faults.
\<close>

type_synonym mmu = "memory \<Rightarrow> u64 \<Rightarrow> u64 \<Rightarrow> u64 option"

subsection \<open>User memory\<close>

fun user_write :: "mmu \<Rightarrow> u64 \<Rightarrow> u8 list \<Rightarrow> 'a kernel_scheme \<Rightarrow> kerror + 'a kernel_scheme" where
  "user_write mmu va [] s = Inr s"
| "user_write mmu va (b # bs) s =
     (case mmu (mem s) (cr3 s) va of None \<Rightarrow> Inl KernelPageFault
      | Some pa \<Rightarrow> user_write mmu (va + 1) bs (s\<lparr>mem := (mem s)(pa := b)\<rparr>))"

fun user_read :: "mmu \<Rightarrow> u64 \<Rightarrow> nat \<Rightarrow> 'a kernel_scheme \<Rightarrow> kerror + u8 list" where
  "user_read mmu va 0 s = Inr []"
| "user_read mmu va (Suc n) s =
     (case mmu (mem s) (cr3 s) va of None \<Rightarrow> Inl KernelPageFault
      | Some pa \<Rightarrow> bind_err (user_read mmu (va + 1) n s) (\<lambda>bs. Inr (mem s pa # bs)))"

definition bytes_of_u64 :: "u64 \<Rightarrow> u8 list" where
  "bytes_of_u64 v = map (\<lambda>i. ucast (drop_bit (8 * i) v)) [0..<8]"

fun u64_of_bytes :: "u8 list \<Rightarrow> u64" where
  "u64_of_bytes [] = 0"
| "u64_of_bytes (b # bs) = ucast b OR push_bit 8 (u64_of_bytes bs)"

subsection \<open>\<open>invoke_sync_signal\<close>\<close>

text \<open>The user stack pointer and instruction pointer that \<open>ustackp\<close> and \<open>urip\<close> point to are passed
  and returned as a pair.\<close>

definition invoke_sync_signal ::
  "mmu \<Rightarrow> signal \<Rightarrow> u64 \<Rightarrow> u64 \<Rightarrow> 'a kernel_scheme \<Rightarrow> (u64 \<times> u64, 'a kernel_scheme) result" where
  "invoke_sync_signal mmu signo rsp rip s =
     (case get_current_ctx s of None \<Rightarrow> Inl NullContext
      | Some c \<Rightarrow>
          let handler = sighandlers (the_ctx s c) signo
          in if handler = 0 \<and> signo \<noteq> SIGALRM
             then bind_result (do_exit s) (\<lambda>_ s'. Inr (Return (rsp, rip), s'))
             else if handler \<noteq> 0
             then bind_err (user_write mmu (rsp - 8) (bytes_of_u64 rip) s)
                    (\<lambda>s'. Inr (Return (rsp - 8, handler), s'))
             else Inr (Return (rsp, rip), s))"

subsection \<open>\<open>do_signal\<close> and \<open>do_alarm\<close>\<close>

text \<open>\<open>signo < MAX_SIGNALS && signo > -1\<close> for the \<open>int\<close> argument.\<close>

definition signal_of :: "s32 \<Rightarrow> signal option" where
  "signal_of signo =
     (if sint signo < 3 \<and> sint signo > -1
      then Some (if signo = 0 then SIGSEGV else if signo = 1 then SIGFPE else SIGALRM)
      else None)"

definition do_signal :: "s32 \<Rightarrow> u64 \<Rightarrow> 'a kernel_scheme \<Rightarrow> (u64, 'a kernel_scheme) result" where
  "do_signal signo handler s =
     (case signal_of signo of
        Some sg \<Rightarrow>
          (case get_current_ctx s of None \<Rightarrow> Inl NullContext
           | Some c \<Rightarrow> Inr (Return 0,
               upd_ctx c (\<lambda>ctx. ctx\<lparr>sighandlers := (sighandlers ctx)(sg := handler)\<rparr>) s))
      | None \<Rightarrow> Inr (Return (- 1), s))"

definition do_alarm :: "u32 \<Rightarrow> 'a kernel_scheme \<Rightarrow> (u64, 'a kernel_scheme) result" where
  "do_alarm n s =
     (if n > 0 then
        (case get_current_ctx s of None \<Rightarrow> Inl NullContext
         | Some c \<Rightarrow> Inr (Return 0, upd_ctx c (\<lambda>ctx. ctx\<lparr>alarm_config_time := n, ticks_to_alarm := n\<rparr>) s))
      else Inr (Return (- 1), s))"

end
