(* ===== verification/Timer.thy ===== *)
theory Timer
  imports Signals
begin

text \<open>
  The timer interrupt: \<open>do_sleep_and_alarm_account\<close> and \<open>handle_timer_tick\<close> of \<open>schedule.c\<close>,
  \<open>ack_irq\<close> and \<open>do_irq\<close> of \<open>apic.c\<close>. The registers of the interrupted context are on the interrupt
  stack; the handler changes them in place, so here they are an argument and a result.
\<close>

subsection \<open>Definitions\<close>

text \<open>The timer is not built in periodic mode, so the counters are written back on every interrupt.
  The registers of the controller are memory at \<open>apic_base\<close>.\<close>

definition ack_irq :: "'a kernel_scheme \<Rightarrow> 'a kernel_scheme" where
  "ack_irq s =
     s\<lparr>mem := wr32 (wr32 (wr32 (mem s) (apic_base s + 0x380) 4) (apic_base s + 0x390) 4) (apic_base s + 0xB0) 0\<rparr>"

definition sleep_tick :: "exec_context \<Rightarrow> exec_context" where
  "sleep_tick ctx =
     (if state ctx = WAITING \<and> ticks_to_sleep ctx > 0
      then ctx\<lparr>ticks_to_sleep := ticks_to_sleep ctx - 1,
               state := (if ticks_to_sleep ctx - 1 = 0 then READY else state ctx)\<rparr>
      else ctx)"

definition sleep_account :: "'a kernel_scheme \<Rightarrow> 'a kernel_scheme" where
  "sleep_account s = s\<lparr>ctx_list := map sleep_tick (ctx_list s)\<rparr>"

definition do_sleep_and_alarm_account ::
  "mmu \<Rightarrow> user_regs \<Rightarrow> 'a kernel_scheme \<Rightarrow> (user_regs, 'a kernel_scheme) result" where
  "do_sleep_and_alarm_account mmu rg s =
     (case get_current_ctx s of None \<Rightarrow> Inl NullContext
      | Some c \<Rightarrow>
          let s1 = sleep_account s
          in if ticks_to_alarm (the_ctx s1 c) > 0 then
               let s2 = upd_ctx c (\<lambda>ctx. ctx\<lparr>ticks_to_alarm := ticks_to_alarm ctx - 1\<rparr>) s1
               in if ticks_to_alarm (the_ctx s2 c) = 0 then
                    bind_result (invoke_sync_signal mmu SIGALRM (entry_rsp rg) (entry_rip rg) s2)
                      (\<lambda>(rsp, rip) s3. Inr (Return (rg\<lparr>entry_rsp := rsp, entry_rip := rip\<rparr>),
                         upd_ctx c (\<lambda>ctx. ctx\<lparr>ticks_to_alarm := alarm_config_time ctx\<rparr>) s3))
                  else Inr (Return rg, s2)
             else Inr (Return rg, s1))"

text \<open>The part of \<open>handle_timer_tick\<close> after the accounting.\<close>

definition preempt :: "nat \<Rightarrow> user_regs \<Rightarrow> 'a kernel_scheme \<Rightarrow> (user_regs, 'a kernel_scheme) result" where
  "preempt c rg s =
     (let s1 = s\<lparr>stats := (stats s)\<lparr>ticks := ticks (stats s) + 1\<rparr>\<rparr>;
          s2 = upd_ctx c (state_update (\<lambda>_. READY)) s1
      in case pick_next_context c s2 of Inl e \<Rightarrow> Inl e
         | Inr (new_ctx, s3) \<Rightarrow>
             if c = new_ctx then Inr (Return rg, ack_irq s3)
             else
               let s4 = s3\<lparr>stats := (stats s3)\<lparr>context_switches := context_switches (stats s3) + 1\<rparr>\<rparr>;
                   s5 = upd_ctx c (regs_update (\<lambda>_. rg)) s4;
                   rg' = regs (the_ctx s5 new_ctx);
                   s6 = (if pgd (the_ctx s5 c) \<noteq> pgd (the_ctx s5 new_ctx)
                         then s5\<lparr>cr3 := ucast (push_bit PAGE_SHIFT (pgd (the_ctx s5 new_ctx)))\<rparr> else s5);
                   s7 = set_tss_stack_ptr new_ctx s6;
                   s8 = set_current_ctx (Some new_ctx) s7;
                   s9 = upd_ctx new_ctx (state_update (\<lambda>_. RUNNING)) s8
               in Inr (Return rg', ack_irq s9))"

definition handle_timer_tick ::
  "mmu \<Rightarrow> user_regs \<Rightarrow> 'a kernel_scheme \<Rightarrow> (user_regs, 'a kernel_scheme) result" where
  "handle_timer_tick mmu rg s =
     (case get_current_ctx s of None \<Rightarrow> Inl NullContext
      | Some c \<Rightarrow> bind_result (do_sleep_and_alarm_account mmu rg s) (preempt c))"

definition do_irq :: "mmu \<Rightarrow> user_regs \<Rightarrow> 'a kernel_scheme \<Rightarrow> (user_regs, 'a kernel_scheme) result" where
  "do_irq = handle_timer_tick"

end
