(* ===== verification/Syscall.thy ===== *)
theory Syscall
  imports Timer
begin

text \<open>
  The system calls and faults of \<open>entry.c\<close> (\<open>do_write\<close>, \<open>do_expand\<close>, \<open>do_shrink\<close>, \<open>do_syscall\<close>,
  \<open>do_div_by_zero\<close>, \<open>do_page_fault\<close>) and \<open>do_gp\<close> of \<open>idt.c\<close>. A C \<open>long\<close> is its 64-bit word.
\<close>

subsection \<open>\<open>do_write\<close>, \<open>do_expand\<close>, \<open>do_shrink\<close>\<close>

abbreviation MAX_WRITE_LEN :: u64 where "MAX_WRITE_LEN \<equiv> 1024"
abbreviation MAX_EXPAND_PAGES :: u64 where "MAX_EXPAND_PAGES \<equiv> 1024"

definition print_user :: "mmu \<Rightarrow> u64 \<Rightarrow> u64 \<Rightarrow> 'a kernel_scheme \<Rightarrow> kerror + 'a kernel_scheme" where
  "print_user mmu user len s =
     bind_err (user_read mmu user (unat len) s)
       (\<lambda>buff. Inr (s\<lparr>console := console s @ serial_write (buff @ [0])\<rparr>))"

definition bad_write :: "memory \<Rightarrow> exec_context \<Rightarrow> u64 \<Rightarrow> u64 \<Rightarrow> bool" where
  "bad_write m ctx address len \<longleftrightarrow> len > MAX_WRITE_LEN \<or> get_user_pte m ctx address = 0 \<or>
     (drop_bit PAGE_SHIFT address \<noteq> drop_bit PAGE_SHIFT (address + len) \<and> get_user_pte m ctx (address + len) = 0)"

definition do_write ::
  "mmu \<Rightarrow> exec_context \<Rightarrow> u64 \<Rightarrow> u64 \<Rightarrow> 'a kernel_scheme \<Rightarrow> (u64, 'a kernel_scheme) result" where
  "do_write mmu ctx address len s =
     (if bad_write (mem s) ctx address len
      then Inr (Return (- 1), printf ''Bad write address = %x length=%d\<newline>'' [Num address, Num len] s)
      else bind_err (print_user mmu address len s) (\<lambda>s'. Inr (Return len, s')))"

text \<open>\<open>MAP_RD\<close> is 0 and \<open>MAP_WR\<close> is 1.\<close>

definition map_segment :: "s32 \<Rightarrow> mm_seg option" where
  "map_segment segment_t =
     (if segment_t = 0 then Some MM_SEG_RODATA else if segment_t = 1 then Some MM_SEG_DATA else None)"

definition do_expand :: "nat \<Rightarrow> u64 \<Rightarrow> s32 \<Rightarrow> 'a kernel_scheme \<Rightarrow> (u64, 'a kernel_scheme) result" where
  "do_expand c npages segment_t s =
     (case (if npages > MAX_EXPAND_PAGES then None else map_segment segment_t) of
        None \<Rightarrow> Inr (Return 0, s)
      | Some k \<Rightarrow>
          let segment = mms (the_ctx s c) k
          in if next_free segment + push_bit PAGE_SHIFT npages > seg_end segment then Inr (Return 0, s)
             else Inr (Return (next_free segment),
                    upd_ctx c (upd_seg k (\<lambda>g. g\<lparr>next_free := next_free g + push_bit PAGE_SHIFT npages\<rparr>)) s))"

definition do_shrink :: "nat \<Rightarrow> u64 \<Rightarrow> s32 \<Rightarrow> 'a kernel_scheme \<Rightarrow> (u64, 'a kernel_scheme) result" where
  "do_shrink c npages segment_t s =
     (case (if npages > MAX_EXPAND_PAGES then None else map_segment segment_t) of
        None \<Rightarrow> Inr (Return 0, s)
      | Some k \<Rightarrow>
          let segment = mms (the_ctx s c) k
          in if next_free segment - push_bit PAGE_SHIFT npages < seg_start segment then Inr (Return 0, s)
             else
               let nf = next_free segment - push_bit PAGE_SHIFT npages;
                   s1 = upd_ctx c (upd_seg k (\<lambda>g. g\<lparr>next_free := nf\<rparr>)) s
               in bind_err (up_loop (\<lambda>address s. snd (do_unmap_user (the_ctx s c) address s))
                              (nf + push_bit PAGE_SHIFT npages) nf s1)
                    (\<lambda>s2. Inr (Return nf, s2)))"

subsection \<open>\<open>do_syscall\<close>\<close>

definition print_stats :: "'a kernel_scheme \<Rightarrow> 'a kernel_scheme" where
  "print_stats s =
     printf ''syscalls = %d page_faults = %d used_memory = %d num_processes = %d\<newline>''
       [Num (syscalls (stats s)), Num (page_faults (stats s)), Num (used_memory (stats s)), Num (num_processes (stats s))]
       (printf ''ticks = %d swapper_invocations = %d context_switches = %d lw_context_switches = %d\<newline>''
         [Num (ticks (stats s)), Num (swapper_invocations (stats s)), Num (context_switches (stats s)),
          Num (lw_context_switches (stats s))] s)"

definition configs_of_bytes :: "u8 list \<Rightarrow> os_configs" where
  "configs_of_bytes bs = \<lparr>global_mapping = u64_of_bytes (take 8 bs),
     apic_tick_interval = u64_of_bytes (take 8 (drop 8 bs)), debug = u64_of_bytes (take 8 (drop 16 bs)),
     adv_global = u64_of_bytes (take 8 (drop 24 bs))\<rparr>"

text \<open>\<open>rg\<close> is the register frame that the entry code has pushed.\<close>

definition do_syscall ::
  "mmu \<Rightarrow> user_regs \<Rightarrow> s32 \<Rightarrow> u64 \<Rightarrow> u64 \<Rightarrow> 'a kernel_scheme \<Rightarrow> (u64, 'a kernel_scheme) result" where
  "do_syscall mmu rg syscall param1 param2 s =
     (case get_current_ctx s of None \<Rightarrow> Inl NullContext
      | Some c \<Rightarrow>
          let s1 = upd_ctx c (regs_update (\<lambda>_. rg)) s;
              s = s1\<lparr>stats := (stats s1)\<lparr>syscalls := syscalls (stats s1) + 1\<rparr>\<rparr>
          in if syscall = 1 then bind_result (do_exit s) (\<lambda>_ s'. Inr (Return 0, s'))
             else if syscall = 2 then Inr (Return (ucast (pid (the_ctx s c))), s)
             else if syscall = 3 then do_write mmu (the_ctx s c) param1 param2 s
             else if syscall = 4 then do_expand c param1 (ucast param2) s
             else if syscall = 5 then do_shrink c param1 (ucast param2) s
             else if syscall = 6 then do_alarm (ucast param1) s
             else if syscall = 7 then do_sleep (ucast param1) s
             else if syscall = 8 then do_signal (ucast param1) param2 s
             else if syscall = 9 then do_clone param1 param2 s
             else if syscall = 10 then do_fork s
             else if syscall = 11 then Inr (Return 0, print_stats s)
             else if syscall = 12 then bind_err (user_read mmu param1 32 s)
                    (\<lambda>bs. Inr (Return 0, s\<lparr>config := configs_of_bytes bs\<rparr>))
             else Inr (Return (- 1), s))"

subsection \<open>Faults\<close>

text \<open>The C handlers return 0 and change the saved registers in place; \<open>cr2\<close> is the faulting
  address the processor supplies.\<close>

definition raise_signal ::
  "mmu \<Rightarrow> signal \<Rightarrow> user_regs \<Rightarrow> 'a kernel_scheme \<Rightarrow> (user_regs, 'a kernel_scheme) result" where
  "raise_signal mmu signo rg s =
     bind_result (invoke_sync_signal mmu signo (entry_rsp rg) (entry_rip rg) s)
       (\<lambda>(rsp, rip) s'. Inr (Return (rg\<lparr>entry_rsp := rsp, entry_rip := rip\<rparr>), s'))"

definition do_div_by_zero ::
  "mmu \<Rightarrow> user_regs \<Rightarrow> 'a kernel_scheme \<Rightarrow> (user_regs, 'a kernel_scheme) result" where
  "do_div_by_zero mmu rg s =
     raise_signal mmu SIGFPE rg (printf ''Div-by-zero @ [%x]\<newline>'' [Num (entry_rip rg)] s)"

definition in_seg :: "exec_context \<Rightarrow> mm_seg \<Rightarrow> u64 \<Rightarrow> bool" where
  "in_seg ctx k a \<longleftrightarrow> a \<ge> seg_start (mms ctx k) \<and> a \<le> seg_end (mms ctx k)"

text \<open>The chain of segment tests: \<open>true\<close> where the code goes on to \<open>install_page_table\<close>.\<close>

definition fault_ok :: "exec_context \<Rightarrow> u64 \<Rightarrow> u64 \<Rightarrow> bool" where
  "fault_ok ctx a error_code \<longleftrightarrow>
     (if error_code AND 1 \<noteq> 0 then False
      else if in_seg ctx MM_SEG_DATA a then a < next_free (mms ctx MM_SEG_DATA)
      else if in_seg ctx MM_SEG_RODATA a then a < next_free (mms ctx MM_SEG_RODATA) \<and> error_code AND 2 = 0
      else if in_seg ctx MM_SEG_STACK a then a < next_free (mms ctx MM_SEG_STACK)
      else False)"

definition do_page_fault ::
  "mmu \<Rightarrow> u64 \<Rightarrow> user_regs \<Rightarrow> u64 \<Rightarrow> 'a kernel_scheme \<Rightarrow> (user_regs, 'a kernel_scheme) result" where
  "do_page_fault mmu cr2 rg error_code s =
     (case get_current_ctx s of None \<Rightarrow> Inl NullContext
      | Some c \<Rightarrow>
          let s1 = s\<lparr>stats := (stats s)\<lparr>page_faults := page_faults (stats s) + 1\<rparr>\<rparr>
          in if fault_ok (the_ctx s1 c) cr2 error_code
             then Inr (Return rg, install_page_table (the_ctx s1 c) cr2 error_code s1)
             else raise_signal mmu SIGSEGV rg
                    (printf ''PF Error @ [RIP: %x] [accessed VA: %x] [error code: %x]\<newline>''
                      [Num (entry_rip rg), Num cr2, Num error_code] s1))"

definition do_gp :: "u64 \<Rightarrow> u64 \<Rightarrow> u64 \<Rightarrow> 'a kernel_scheme \<Rightarrow> (int, 'a kernel_scheme) result" where
  "do_gp cr2 err rip s =
     bind_result (do_exit (printf ''General protection fault @ RIP = %x error=%x UserVA=%x\<newline>''
         [Num rip, Num err, Num cr2] s))
       (\<lambda>_ s'. Inr (Return 0, s'))"

end
