(* ===== verification/Sched_Inv.thy ===== *)
theory Sched_Inv
  imports Syscall
begin

text \<open>
  The process table under every kernel operation. First frame lemmas: what the memory side leaves
  alone. Then the invariant \<open>sched_inv\<close> (identifiers match slots, the current context is in use, no
  other context runs) and, for \<open>do_sleep\<close>, \<open>do_exit\<close>, signals, the accounting of ticks and the
  preemption, lemmas that describe the table afterwards.
\<close>

subsection \<open>Frame lemmas for the process table\<close>

lemma ctx_printf [simp, frame_simps]:
  "ctx_list (printf f as s) = ctx_list s" "current (printf f as s) = current s"
  "stats (printf f as s) = stats s" "cr3 (printf f as s) = cr3 s"
  by (simp_all add: printf_def split: option.split)

lemma ctx_os_pfn_alloc [simp, frame_simps]:
  "ctx_list (snd (os_pfn_alloc r s)) = ctx_list s" "current (snd (os_pfn_alloc r s)) = current s"
  "stats (snd (os_pfn_alloc r s)) = stats s"
  by (simp_all add: os_pfn_alloc_def Let_def split_beta)

lemma ctx_os_pfn_free [simp, frame_simps]:
  "ctx_list (os_pfn_free r p s) = ctx_list s" "current (os_pfn_free r p s) = current s"
  "stats (os_pfn_free r p s) = stats s"
  by (simp_all add: os_pfn_free_def os_page_free_def Let_def)

lemma ctx_table_level [simp, frame_simps]:
  "ctx_list (snd (table_level pr nt fl cl b i s)) = ctx_list s"
  "current (snd (table_level pr nt fl cl b i s)) = current s"
  by (simp_all add: table_level_def Let_def split_beta)

lemma ctx_levels [simp, frame_simps]:
  "ctx_list (snd (fault_level fl b i s)) = ctx_list s" "current (snd (fault_level fl b i s)) = current s"
  "ctx_list (snd (ptable_levels b i s)) = ctx_list s" "current (snd (ptable_levels b i s)) = current s"
  "ctx_list (snd (apic_level b i s)) = ctx_list s" "current (snd (apic_level b i s)) = current s"
  by (simp_all add: fault_level_def ptable_levels_def ptable_level_def apic_level_def split_beta)

lemma ctx_install_page_table [simp, frame_simps]:
  "ctx_list (install_page_table ctx a e s) = ctx_list s" "current (install_page_table ctx a e s) = current s"
  by (simp_all add: install_page_table_def Let_def split_beta)

lemma ctx_install_ptable [simp, frame_simps]:
  "ctx_list (snd (install_ptable b mm a u s)) = ctx_list s" "current (snd (install_ptable b mm a u s)) = current s"
  by (simp_all add: install_ptable_def Let_def split_beta)

lemma ctx_ptable_multi_loop [simp, frame_simps]:
  "ctx_list (ptable_multi_loop st w p l n s) = ctx_list s \<and> current (ptable_multi_loop st w p l n s) = current s"
  by (induction n arbitrary: p l s) (auto simp: Let_def split_beta split: option.split)

lemma ctx_install_ptable_multi [simp, frame_simps]:
  "ctx_list (snd (install_ptable_multi b st n w s)) = ctx_list s"
  "current (snd (install_ptable_multi b st n w s)) = current s"
  by (simp_all add: install_ptable_multi_def Let_def split_beta)

lemma ctx_install_apic_mapping [simp, frame_simps]:
  "ctx_list (install_apic_mapping p s) = ctx_list s" "current (install_apic_mapping p s) = current s"
  by (simp_all add: install_apic_mapping_def Let_def split_beta)

lemma ctx_install_os_pts [simp, frame_simps]:
  "ctx_list (snd (install_os_pts p s)) = ctx_list s" "current (snd (install_os_pts p s)) = current s"
  by (simp_all add: install_os_pts_def Let_def split_beta)

lemma ctx_do_unmap_user [simp, frame_simps]:
  "ctx_list (snd (do_unmap_user ctx a s)) = ctx_list s" "current (snd (do_unmap_user ctx a s)) = current s"
  by (simp_all add: do_unmap_user_def Let_def split_beta)

lemma ctx_copy_page [simp, frame_simps]:
  "ctx_list (copy_shared_page b par seg a s) = ctx_list s" "current (copy_shared_page b par seg a s) = current s"
  "ctx_list (copy_private_page b par seg a s) = ctx_list s" "current (copy_private_page b par seg a s) = current s"
  by (simp_all add: copy_shared_page_def copy_private_page_def Let_def split_beta)

text \<open>What the body of a page loop keeps, the loop keeps.\<close>

lemma up_loop_keeps:
  assumes "up_loop body lim v s = Inr s'" "\<And>a s. f (body a s) = f s"
  shows "f s' = f s"
  using assms
proof (induction body lim v s rule: up_loop.induct)
  case (1 body lim v s)
  then show ?case by (subst (asm) (2) up_loop.simps) (auto split: if_splits)
qed

lemma down_loop_keeps:
  assumes "down_loop body lim v s = Inr s'" "\<And>a s. f (body a s) = f s"
  shows "f s' = f s"
  using assms
proof (induction body lim v s rule: down_loop.induct)
  case (1 body lim v s)
  then show ?case by (subst (asm) (2) down_loop.simps) (auto split: if_splits)
qed

lemma bind_err_Inr: "bind_err r f = Inr x \<longleftrightarrow> (\<exists>y. r = Inr y \<and> f y = Inr x)"
  by (cases r) auto

lemma bind_result_Inr:
  "bind_result r f = Inr x \<longleftrightarrow>
     (\<exists>v s. r = Inr (Return v, s) \<and> f v s = Inr x) \<or>
     (\<exists>g s. r = Inr (Iret g, s) \<and> x = (Iret g, s)) \<or> (\<exists>s. r = Inr (Shell, s) \<and> x = (Shell, s))"
  by (cases "(r, f)" rule: bind_result.cases) auto

lemmas result_simps = bind_err_Inr bind_result_Inr

abbreviation procs :: "'a kernel_scheme \<Rightarrow> exec_context list \<times> nat option" where
  "procs s \<equiv> (ctx_list s, current s)"

lemma pt_cleanup_keeps:
  "pt_cleanup fuel pfn level s = Inr s' \<Longrightarrow> procs s' = procs s"
  "pt_entries fuel v level is s = Inr s' \<Longrightarrow> procs s' = procs s"
  by (induction fuel pfn level s and fuel v level "is" s arbitrary: s' and s'
      rule: pt_cleanup_pt_entries.induct)
    (fastforce simp: result_simps Let_def split: if_splits)+

lemma remove_apic_keeps: "remove_apic_mapping p s = Inr s' \<Longrightarrow> procs s' = procs s"
  by (auto simp: remove_apic_mapping_def Let_def split_beta split: if_splits)

lemma user_write_keeps: "user_write mmu va bs s = Inr s' \<Longrightarrow> procs s' = procs s"
  by (induction bs arbitrary: va s) (auto split: option.splits)

lemma copy_segments_keeps:
  assumes "copy_segments b par s = Inr s'"
  shows "procs s' = procs s"
proof -
  from assms obtain s1 s2 s3 where
    "up_loop (copy_shared_page b par (mms par MM_SEG_CODE)) (next_free (mms par MM_SEG_CODE))
       (seg_start (mms par MM_SEG_CODE)) s = Inr s1"
    "up_loop (copy_shared_page b par (mms par MM_SEG_RODATA)) (next_free (mms par MM_SEG_RODATA))
       (seg_start (mms par MM_SEG_RODATA)) s1 = Inr s2"
    "up_loop (copy_private_page b par (mms par MM_SEG_DATA)) (next_free (mms par MM_SEG_DATA))
       (seg_start (mms par MM_SEG_DATA)) s2 = Inr s3"
    "down_loop (copy_private_page b par (mms par MM_SEG_STACK)) (next_free (mms par MM_SEG_STACK))
       (seg_end (mms par MM_SEG_STACK) - 4096) s3 = Inr s'"
    by (auto simp: copy_segments_def Let_def result_simps)
  note up_loop_keeps [OF this(1), where f = procs] up_loop_keeps [OF this(2), where f = procs]
    up_loop_keeps [OF this(3), where f = procs] down_loop_keeps [OF this(4), where f = procs]
  then show ?thesis by simp
qed

lemma copy_mm_procs:
  assumes "copy_mm child parent s = Inr s'"
  shows "\<exists>p. ctx_list s' = (ctx_list s)[child := (ctx_list s ! child)\<lparr>pgd := p\<rparr>] \<and> current s' = current s"
  using assms by (auto simp: copy_mm_def Let_def split_beta result_simps upd_ctx_def dest!: copy_segments_keeps)

subsection \<open>Process-table invariant\<close>

text \<open>The table has its 16 slots, the identifier of a used slot (and of the swapper) is its index, the
  current context is a used slot, and no other context is running.\<close>

definition sched_inv :: "'a kernel_scheme \<Rightarrow> bool" where
  "sched_inv s \<longleftrightarrow>
     length (ctx_list s) = MAX_PROCESSES \<and>
     (\<forall>i < MAX_PROCESSES. state (the_ctx s i) \<noteq> UNUSED \<or> i = 0 \<longrightarrow> pid (the_ctx s i) = of_nat i) \<and>
     (\<forall>c. current s = Some c \<longrightarrow> c < MAX_PROCESSES \<and> state (the_ctx s c) \<noteq> UNUSED) \<and>
     (\<forall>i < MAX_PROCESSES. state (the_ctx s i) = RUNNING \<longrightarrow> current s = Some i)"

lemma sched_inv_cong:
  assumes "length (ctx_list s') = length (ctx_list s)" "current s' = current s"
    "\<And>i. pid (the_ctx s' i) = pid (the_ctx s i)" "\<And>i. state (the_ctx s' i) = state (the_ctx s i)"
  shows "sched_inv s' = sched_inv s"
  by (simp only: sched_inv_def assms)

lemma sched_inv_procs: "procs s' = procs s \<Longrightarrow> sched_inv s' = sched_inv s"
  by (rule sched_inv_cong) (simp_all add: the_ctx_def)

lemma the_ctx_upd:
  "the_ctx (upd_ctx c f s) i = (if i = c \<and> c < length (ctx_list s) then f (the_ctx s c) else the_ctx s i)"
  by (cases "c < length (ctx_list s)") (simp_all add: the_ctx_def upd_ctx_def nth_list_update list_update_beyond not_less)

lemma upd_ctx_fields [simp]:
  "length (ctx_list (upd_ctx c f s)) = length (ctx_list s)" "current (upd_ctx c f s) = current s"
  "mem (upd_ctx c f s) = mem s" "stats (upd_ctx c f s) = stats s" "cr3 (upd_ctx c f s) = cr3 s"
  by (simp_all add: upd_ctx_def)

lemma the_ctx_other [simp]:
  "the_ctx (s\<lparr>mem := m\<rparr>) i = the_ctx s i" "the_ctx (s\<lparr>stats := t\<rparr>) i = the_ctx s i"
  "the_ctx (s\<lparr>cr3 := x\<rparr>) i = the_ctx s i" "the_ctx (s\<lparr>current := k\<rparr>) i = the_ctx s i"
  "the_ctx (s\<lparr>tss_rsp0 := x\<rparr>) i = the_ctx s i" "the_ctx (printf f as s) i = the_ctx s i"
  "the_ctx (os_pfn_free r p s) i = the_ctx s i" "the_ctx (snd (os_pfn_alloc r s)) i = the_ctx s i"
  by (simp_all add: the_ctx_def)

text \<open>An update that keeps identifier and state keeps the invariant.\<close>

lemma sched_inv_upd:
  assumes "sched_inv s" "\<And>ctx. pid (f ctx) = pid ctx" "\<And>ctx. state (f ctx) = state ctx"
  shows "sched_inv (upd_ctx c f s)"
proof -
  have "pid (the_ctx (upd_ctx c f s) i) = pid (the_ctx s i)"
    "state (the_ctx (upd_ctx c f s) i) = state (the_ctx s i)" for i
    by (simp_all add: the_ctx_upd assms(2,3))
  then show ?thesis using assms(1) by (subst sched_inv_cong) simp_all
qed

text \<open>The part of the process table the scheduler depends on.\<close>

definition cores :: "'a kernel_scheme \<Rightarrow> (u32 \<times> process_state \<times> user_regs \<times> u32) list \<times> nat option" where
  "cores s = (map (\<lambda>ctx. (pid ctx, state ctx, regs ctx, ticks_to_sleep ctx)) (ctx_list s), current s)"

lemma cores_upd:
  assumes "\<And>ctx. (pid (f ctx), state (f ctx), regs (f ctx), ticks_to_sleep (f ctx)) = (pid ctx, state ctx, regs ctx, ticks_to_sleep ctx)"
  shows "cores (upd_ctx c f s) = cores s"
proof -
  have "map (\<lambda>ctx. (pid ctx, state ctx, regs ctx, ticks_to_sleep ctx)) ((ctx_list s)[c := f (ctx_list s ! c)]) =
    map (\<lambda>ctx. (pid ctx, state ctx, regs ctx, ticks_to_sleep ctx)) (ctx_list s)"
  proof (rule nth_equalityI)
    fix i assume "i < length (map (\<lambda>ctx. (pid ctx, state ctx, regs ctx, ticks_to_sleep ctx)) ((ctx_list s)[c := f (ctx_list s ! c)]))"
    then show "map (\<lambda>ctx. (pid ctx, state ctx, regs ctx, ticks_to_sleep ctx)) ((ctx_list s)[c := f (ctx_list s ! c)]) ! i =
      map (\<lambda>ctx. (pid ctx, state ctx, regs ctx, ticks_to_sleep ctx)) (ctx_list s) ! i"
      using assms by (cases "i = c") simp_all
  qed simp
  then show ?thesis by (simp add: cores_def upd_ctx_def)
qed

lemma cores_procs: "procs s' = procs s \<Longrightarrow> cores s' = cores s"
  by (simp add: cores_def)

lemma coresD:
  assumes "cores s' = cores s"
  shows "length (ctx_list s') = length (ctx_list s)" "current s' = current s"
    "i < length (ctx_list s) \<Longrightarrow> pid (the_ctx s' i) = pid (the_ctx s i)"
    "i < length (ctx_list s) \<Longrightarrow> state (the_ctx s' i) = state (the_ctx s i)"
    "i < length (ctx_list s) \<Longrightarrow> regs (the_ctx s' i) = regs (the_ctx s i)"
    "i < length (ctx_list s) \<Longrightarrow> ticks_to_sleep (the_ctx s' i) = ticks_to_sleep (the_ctx s i)"
proof -
  from assms show l: "length (ctx_list s') = length (ctx_list s)" "current s' = current s"
    by (auto simp: cores_def dest: map_eq_imp_length_eq)
  assume "i < length (ctx_list s)"
  moreover have "map (\<lambda>ctx. (pid ctx, state ctx, regs ctx, ticks_to_sleep ctx)) (ctx_list s') ! i =
    map (\<lambda>ctx. (pid ctx, state ctx, regs ctx, ticks_to_sleep ctx)) (ctx_list s) ! i" using assms by (simp add: cores_def)
  ultimately show "pid (the_ctx s' i) = pid (the_ctx s i)" "state (the_ctx s' i) = state (the_ctx s i)"
    "regs (the_ctx s' i) = regs (the_ctx s i)" "ticks_to_sleep (the_ctx s' i) = ticks_to_sleep (the_ctx s i)"
    using l by (simp_all add: the_ctx_def)
qed

lemma sched_invD:
  assumes "sched_inv s"
  shows "length (ctx_list s) = MAX_PROCESSES"
    "i < MAX_PROCESSES \<Longrightarrow> state (the_ctx s i) \<noteq> UNUSED \<or> i = 0 \<Longrightarrow> pid (the_ctx s i) = of_nat i"
    "current s = Some c \<Longrightarrow> c < MAX_PROCESSES" "current s = Some c \<Longrightarrow> state (the_ctx s c) \<noteq> UNUSED"
    "i < MAX_PROCESSES \<Longrightarrow> state (the_ctx s i) = RUNNING \<Longrightarrow> current s = Some i"
  using assms unfolding sched_inv_def by blast+

lemma sched_invI:
  assumes "length (ctx_list s) = MAX_PROCESSES"
    "\<And>i. i < MAX_PROCESSES \<Longrightarrow> state (the_ctx s i) \<noteq> UNUSED \<or> i = 0 \<Longrightarrow> pid (the_ctx s i) = of_nat i"
    "\<And>c. current s = Some c \<Longrightarrow> c < MAX_PROCESSES \<and> state (the_ctx s c) \<noteq> UNUSED"
    "\<And>i. i < MAX_PROCESSES \<Longrightarrow> state (the_ctx s i) = RUNNING \<Longrightarrow> current s = Some i"
  shows "sched_inv s"
  using assms unfolding sched_inv_def by blast

lemma sched_inv_cores:
  fixes s s' :: "'a kernel_scheme"
  assumes "cores s' = cores s"
  shows "sched_inv s' = sched_inv s"
proof -
  have "sched_inv s'" if "sched_inv s" "cores s' = cores s" for s s' :: "'a kernel_scheme"
  proof -
    note D = sched_invD [OF that(1)] and C = coresD [OF that(2)]
    show ?thesis
    proof (rule sched_invI)
      fix i assume i: "i < MAX_PROCESSES"
      show "state (the_ctx s' i) \<noteq> UNUSED \<or> i = 0 \<Longrightarrow> pid (the_ctx s' i) = of_nat i"
        "state (the_ctx s' i) = RUNNING \<Longrightarrow> current s' = Some i"
        using D(1) D(2,5) [OF i] C(2) C(3,4) [of i] i by auto
    next
      fix c assume "current s' = Some c"
      then show "c < MAX_PROCESSES \<and> state (the_ctx s' c) \<noteq> UNUSED"
        using D(1) D(3,4) [of c] C(2) C(4) [of c] by simp
    qed (use D(1) C(1) in simp)
  qed
  then show ?thesis using assms by metis
qed

lemma next_ready_cases:
  "next_ready p s = 0 \<or> (next_ready p s \<in> set (round_robin p) \<and> is_ready s (next_ready p s))"
  by (auto simp: next_ready_def find_Some_iff split: option.split)

lemma next_ready_bounds:
  assumes "p < MAX_PROCESSES"
  shows "next_ready p s < MAX_PROCESSES" "next_ready p s \<noteq> 0 \<Longrightarrow> is_ready s (next_ready p s)"
  using next_ready_cases [of p s] assms by (auto simp: round_robin_def)

text \<open>Switching to a context the scheduler picks: it becomes the only running one.\<close>

lemma schedule_sched_inv:
  assumes "schedule n s = Inr (fl, s')" "n < MAX_PROCESSES" "length (ctx_list s) = MAX_PROCESSES"
    "\<And>i. i < MAX_PROCESSES \<Longrightarrow> state (the_ctx s i) \<noteq> UNUSED \<or> i = 0 \<Longrightarrow> pid (the_ctx s i) = of_nat i"
    "\<And>i. i < MAX_PROCESSES \<Longrightarrow> state (the_ctx s i) \<noteq> RUNNING \<or> i = n"
    "is_ready s n \<or> n = 0"
  shows "sched_inv s'" "\<exists>rg. fl = Iret rg"
proof -
  have c: "current s' = Some n" "length (ctx_list s') = length (ctx_list s)"
    and t: "the_ctx s' i = (if i = n then (the_ctx s n)\<lparr>state := RUNNING\<rparr> else the_ctx s i)" for i
    using assms(1-3) by (auto simp: schedule_def Let_def set_tss_stack_ptr_def set_current_ctx_def the_ctx_upd)
  show "sched_inv s'"
  proof (rule sched_invI)
    fix i assume i: "i < MAX_PROCESSES" "state (the_ctx s' i) \<noteq> UNUSED \<or> i = 0"
    show "pid (the_ctx s' i) = of_nat i"
      using assms(4) [OF i(1)] assms(6) i(2) by (cases "i = n") (auto simp: t is_ready_def)
  next
    fix i assume "i < MAX_PROCESSES" "state (the_ctx s' i) = RUNNING"
    then show "current s' = Some i" using assms(5) [of i] by (cases "i = n") (simp_all add: c t)
  qed (use assms(2,3) c t in auto)
  show "\<exists>rg. fl = Iret rg" using assms(1) by (auto simp: schedule_def Let_def)
qed

lemma pick_next_context_inv:
  assumes "sched_inv s" "current s = Some c"
    "pid (the_ctx s' c) = pid (the_ctx s c)" "pick_next_context c s' = Inr (n, s'')"
  shows "n = next_ready c s'" "s'' = s'" "n < MAX_PROCESSES" "n \<noteq> 0 \<Longrightarrow> is_ready s' n"
proof -
  have c: "c < MAX_PROCESSES" "pid (the_ctx s' c) = of_nat c"
    using sched_invD [OF assms(1)] assms(2,3) by metis+
  then show n: "n = next_ready c s'" "s'' = s'" using pick_next_context_eq [OF c(2,1)] assms(4) by simp_all
  show "n < MAX_PROCESSES" "n \<noteq> 0 \<Longrightarrow> is_ready s' n" unfolding n(1) by (rule next_ready_bounds [OF c(1)])+
qed

text \<open>The current context leaves the processor (in any state but running) and the scheduler switches.\<close>

lemma switch_from_inv:
  assumes inv: "sched_inv s" "current s = Some c" "st \<noteq> RUNNING"
    and s': "length (ctx_list s') = MAX_PROCESSES"
      "\<And>i. i \<noteq> c \<Longrightarrow> the_ctx s' i = the_ctx s i" "state (the_ctx s' c) = st"
      "pid (the_ctx s' c) = pid (the_ctx s c)"
    and sw: "switch_from c s' = Inr (fl, s'')"
  shows "sched_inv s''" "\<exists>rg. fl = Iret rg"
proof -
  note D = sched_invD [OF inv(1)]
  define n where "n = next_ready c s'"
  have p: "pick_next_context c s' = Inr (n, s')"
    unfolding n_def by (rule pick_next_context_eq) (use D(2-4) inv(2) s'(4) in auto)
  then have sch: "schedule n s' = Inr (fl, s'')" using sw by (simp add: switch_from_def)
  note n = pick_next_context_inv [OF inv(1,2) s'(4) p]
  have pid: "pid (the_ctx s' i) = of_nat i" if "i < MAX_PROCESSES" "state (the_ctx s' i) \<noteq> UNUSED \<or> i = 0" for i
    using D(2) [of i] D(4) [OF inv(2)] that s'(2,4) by (cases "i = c") auto
  have run: "state (the_ctx s' i) \<noteq> RUNNING \<or> i = n" if "i < MAX_PROCESSES" for i
    using D(5) [OF that] inv(2,3) s'(2,3) by (cases "i = c") auto
  show "sched_inv s''" "\<exists>rg. fl = Iret rg"
    using schedule_sched_inv [OF sch n(3) s'(1) pid run] n(4) by blast+
qed

lemma do_sleep_inv:
  assumes "sched_inv s" "do_sleep k s = Inr (fl, s')"
  shows "sched_inv s'" "\<exists>rg. fl = Iret rg"
proof -
  obtain c where c: "current s = Some c"
    and sw: "switch_from c (upd_ctx c (\<lambda>ctx. ctx\<lparr>ticks_to_sleep := k, state := WAITING\<rparr>) s) = Inr (fl, s')"
    using assms(2) by (auto simp: do_sleep_def get_current_ctx_def split: option.splits)
  note D = sched_invD [OF assms(1)]
  show "sched_inv s'" "\<exists>rg. fl = Iret rg"
    using switch_from_inv [OF assms(1) c _ _ _ _ _ sw, of WAITING] D(1) D(3) [OF c] by (auto simp: the_ctx_upd)
qed

lemma do_cleanup_inv:
  assumes "do_cleanup s = Inr (fl, s')" "current s = Some c"
  shows "current s' = None \<and> fl = Shell \<and> ctx_list s' = ctx_list (upd_ctx c (state_update (\<lambda>_. UNUSED)) s)"
  using assms
  by (auto simp: do_cleanup_def Let_def result_simps upd_ctx_def dest!: pt_cleanup_keeps(1) remove_apic_keeps)

lemma do_exit_inv:
  assumes "sched_inv s" "do_exit s = Inr (fl, s')"
  shows "sched_inv s'" "(\<exists>rg. fl = Iret rg) \<or> (fl = Shell \<and> current s' = None)"
proof -
  obtain c where c: "current s = Some c"
    using assms(2) by (auto simp: do_exit_def get_current_ctx_def split: option.splits)
  note D = sched_invD [OF assms(1)]
  define s2 where "s2 = upd_ctx c (state_update (\<lambda>_. UNUSED)) (os_pfn_free OS_PT_REG (ucast (os_stack_pfn (the_ctx s c))) s)"
  define s3 where "s3 = s2\<lparr>stats := (stats s2)\<lparr>num_processes := num_processes (stats s2) - 1\<rparr>\<rparr>"
  have s3: "length (ctx_list s3) = MAX_PROCESSES" "current s3 = Some c"
    "i \<noteq> c \<Longrightarrow> the_ctx s3 i = the_ctx s i" "state (the_ctx s3 c) = UNUSED" "pid (the_ctx s3 c) = pid (the_ctx s c)" for i
    using D(1) D(3) [OF c] c by (auto simp: s3_def s2_def the_ctx_upd)
  have ex: "do_exit s = (if \<not> proc_exist s2 then bind_result (do_cleanup s3) (\<lambda>_. switch_from c) else switch_from c s3)"
    by (simp add: do_exit_def get_current_ctx_def c Let_def s2_def s3_def)
  have "sched_inv s' \<and> ((\<exists>rg. fl = Iret rg) \<or> (fl = Shell \<and> current s' = None))"
  proof (cases "proc_exist s2")
    case True
    then have "switch_from c s3 = Inr (fl, s')" using ex assms(2) by simp
    from switch_from_inv [OF assms(1) c _ s3(1,3,4,5) this] show ?thesis by auto
  next
    case False
    then have "bind_result (do_cleanup s3) (\<lambda>_. switch_from c) = Inr (fl, s')" using ex assms(2) by simp
    then have cl: "do_cleanup s3 = Inr (Shell, s')" "fl = Shell"
      using do_cleanup_inv [OF _ s3(2)] by (fastforce simp: result_simps)+
    note cl' = do_cleanup_inv [OF cl(1) s3(2)]
    have t: "the_ctx s' i = the_ctx (upd_ctx c (state_update (\<lambda>_. UNUSED)) s3) i" for i
      using cl' by (simp add: the_ctx_def)
    have t': "the_ctx s' i = (if i = c then (the_ctx s3 c)\<lparr>state := UNUSED\<rparr> else the_ctx s i)" for i
      unfolding t using s3 D(3) [OF c] by (simp add: the_ctx_upd)
    have "sched_inv s'"
    proof (rule sched_invI)
      show "length (ctx_list s') = MAX_PROCESSES" using cl' s3(1) by simp
      fix i assume i: "i < MAX_PROCESSES"
      { assume "state (the_ctx s' i) \<noteq> UNUSED \<or> i = 0"
        then show "pid (the_ctx s' i) = of_nat i"
          using D(2) [OF i] D(4) [OF c] s3(5) by (cases "i = c") (auto simp: t') }
      { assume "state (the_ctx s' i) = RUNNING"
        then show "current s' = Some i" using D(5) [OF i] c by (cases "i = c") (auto simp: t') }
    qed (use cl' in simp)
    with cl cl' show ?thesis by simp
  qed
  then show "sched_inv s'" "(\<exists>rg. fl = Iret rg) \<or> (fl = Shell \<and> current s' = None)" by blast+
qed

subsection \<open>Signals, the timer tick and faults\<close>

lemma sleep_tick_fields [simp]:
  "pid (sleep_tick ctx) = pid ctx" "regs (sleep_tick ctx) = regs ctx" "pgd (sleep_tick ctx) = pgd ctx"
  "state (sleep_tick ctx) = UNUSED \<longleftrightarrow> state ctx = UNUSED" "state (sleep_tick ctx) = RUNNING \<longleftrightarrow> state ctx = RUNNING"
  by (auto simp: sleep_tick_def)

lemma the_ctx_sleep_account:
  "i < length (ctx_list s) \<Longrightarrow> the_ctx (sleep_account s) i = sleep_tick (the_ctx s i)"
  by (simp add: sleep_account_def the_ctx_def)

lemma sleep_account_fields [simp]:
  "length (ctx_list (sleep_account s)) = length (ctx_list s)" "current (sleep_account s) = current s"
  "mem (sleep_account s) = mem s" "stats (sleep_account s) = stats s" "cr3 (sleep_account s) = cr3 s"
  by (simp_all add: sleep_account_def)

lemma sleep_account_inv:
  assumes "sched_inv s"
  shows "sched_inv (sleep_account s)"
proof (rule sched_invI)
  note D = sched_invD [OF assms]
  show "length (ctx_list (sleep_account s)) = MAX_PROCESSES" using D(1) by simp
  fix i assume "i < MAX_PROCESSES"
  then show "state (the_ctx (sleep_account s) i) \<noteq> UNUSED \<or> i = 0 \<Longrightarrow> pid (the_ctx (sleep_account s) i) = of_nat i"
    "state (the_ctx (sleep_account s) i) = RUNNING \<Longrightarrow> current (sleep_account s) = Some i"
    using D(1) D(2,5) [of i] by (auto simp: the_ctx_sleep_account)
next
  note D = sched_invD [OF assms]
  fix c assume "current (sleep_account s) = Some c"
  then show "c < MAX_PROCESSES \<and> state (the_ctx (sleep_account s) c) \<noteq> UNUSED"
    using D(1) D(3,4) [of c] by (simp add: the_ctx_sleep_account)
qed

lemma invoke_sync_signal_inv:
  assumes "sched_inv s" "invoke_sync_signal mmu sg rsp rip s = Inr (fl, s')"
  shows "sched_inv s'" "fl = Return v \<Longrightarrow> procs s' = procs s" "fl = Shell \<Longrightarrow> current s' = None"
proof -
  obtain c where c: "current s = Some c"
    using assms(2) by (auto simp: invoke_sync_signal_def get_current_ctx_def split: option.splits)
  let ?h = "sighandlers (the_ctx s c) sg"
  consider "?h = 0" "sg \<noteq> SIGALRM" | "?h \<noteq> 0" | "?h = 0" "sg = SIGALRM" by blast
  then have "sched_inv s' \<and> (fl = Return v \<longrightarrow> procs s' = procs s) \<and> (fl = Shell \<longrightarrow> current s' = None)"
  proof cases
    case 1
    then have "bind_result (do_exit s) (\<lambda>_ s'. Inr (Return (rsp, rip), s')) = Inr (fl, s')"
      using assms(2) c by (simp add: invoke_sync_signal_def get_current_ctx_def)
    then show ?thesis using do_exit_inv [OF assms(1)] by (fastforce simp: result_simps)
  next
    case 2
    then have "procs s' = procs s" "fl \<noteq> Shell"
      using assms(2) c user_write_keeps by (fastforce simp: invoke_sync_signal_def get_current_ctx_def result_simps)+
    then show ?thesis using sched_inv_procs assms(1) by blast
  next
    case 3
    then show ?thesis using assms c by (auto simp: invoke_sync_signal_def get_current_ctx_def)
  qed
  then show "sched_inv s'" "fl = Return v \<Longrightarrow> procs s' = procs s" "fl = Shell \<Longrightarrow> current s' = None" by blast+
qed

text \<open>The alarm signal never ends the process, so the accounting returns.\<close>

lemma invoke_alarm_returns:
  "invoke_sync_signal mmu SIGALRM rsp rip s = Inr (fl, s') \<Longrightarrow> \<exists>v. fl = Return v"
  by (auto simp: invoke_sync_signal_def Let_def result_simps split: option.splits if_splits)

lemma account_inv:
  assumes "sched_inv s" "do_sleep_and_alarm_account mmu rg s = Inr (fl, s')"
  shows "cores s' = cores (sleep_account s)" "\<exists>rg'. fl = Return rg'"
proof -
  obtain c where c: "current s = Some c"
    using assms(2) by (auto simp: do_sleep_and_alarm_account_def get_current_ctx_def split: option.splits)
  define s1 where "s1 = sleep_account s"
  define s2 where "s2 = upd_ctx c (\<lambda>ctx. ctx\<lparr>ticks_to_alarm := ticks_to_alarm ctx - 1\<rparr>) s1"
  have c2: "cores s2 = cores s1" unfolding s2_def by (rule cores_upd) simp
  have i2: "sched_inv s2" using sched_inv_cores [OF c2] sleep_account_inv [OF assms(1)] by (simp add: s1_def)
  have eq: "do_sleep_and_alarm_account mmu rg s =
    (if ticks_to_alarm (the_ctx s1 c) > 0 then
       if ticks_to_alarm (the_ctx s2 c) = 0 then
         bind_result (invoke_sync_signal mmu SIGALRM (entry_rsp rg) (entry_rip rg) s2)
           (\<lambda>(rsp, rip) s3. Inr (Return (rg\<lparr>entry_rsp := rsp, entry_rip := rip\<rparr>),
              upd_ctx c (\<lambda>ctx. ctx\<lparr>ticks_to_alarm := alarm_config_time ctx\<rparr>) s3))
       else Inr (Return rg, s2)
     else Inr (Return rg, s1))"
    by (simp add: do_sleep_and_alarm_account_def get_current_ctx_def c s1_def s2_def Let_def)
  have "cores s' = cores s1 \<and> (\<exists>rg'. fl = Return rg')"
  proof (cases "ticks_to_alarm (the_ctx s1 c) > 0 \<and> ticks_to_alarm (the_ctx s2 c) = 0")
    case True
    then obtain rsp rip s3 where
      inv: "invoke_sync_signal mmu SIGALRM (entry_rsp rg) (entry_rip rg) s2 = Inr (Return (rsp, rip), s3)"
      and s': "s' = upd_ctx c (\<lambda>ctx. ctx\<lparr>ticks_to_alarm := alarm_config_time ctx\<rparr>) s3" "\<exists>rg'. fl = Return rg'"
      using assms(2) eq invoke_alarm_returns by (fastforce simp: result_simps)
    have "cores s' = cores s3" unfolding s' by (rule cores_upd) simp
    also have "cores s3 = cores s2" by (rule cores_procs [OF invoke_sync_signal_inv(2) [OF i2 inv refl]])
    finally show ?thesis using c2 s'(2) by simp
  next
    case False
    then show ?thesis using assms(2) eq c2 by (auto split: if_splits)
  qed
  then show "cores s' = cores (sleep_account s)" "\<exists>rg'. fl = Return rg'" by (simp_all add: s1_def)
qed

text \<open>Preemption in closed form: the scheduler's choice \<open>n\<close>, and what becomes of every context.\<close>

definition preempt_choice :: "nat \<Rightarrow> 'a kernel_scheme \<Rightarrow> nat" where
  "preempt_choice c s = next_ready c (upd_ctx c (state_update (\<lambda>_. READY)) s)"

lemma ack_irq_fields [simp]:
  "ctx_list (ack_irq s) = ctx_list s" "current (ack_irq s) = current s" "the_ctx (ack_irq s) i = the_ctx s i"
  "stats (ack_irq s) = stats s" "cr3 (ack_irq s) = cr3 s" "tss_rsp0 (ack_irq s) = tss_rsp0 s"
  by (simp_all add: ack_irq_def the_ctx_def)

lemma next_ready_stats [simp]: "next_ready p (s\<lparr>stats := x\<rparr>) = next_ready p s"
  by (simp add: next_ready_def is_ready_def [abs_def])

lemma upd_ctx_stats: "upd_ctx c f (s\<lparr>stats := x\<rparr>) = (upd_ctx c f s)\<lparr>stats := x\<rparr>"
  by (simp add: upd_ctx_def)

lemma preempt_spec:
  assumes inv: "sched_inv s" "current s = Some c"
  defines "n \<equiv> preempt_choice c s"
  obtains s' where
    "preempt c rg s = Inr (Return (if n = c then rg else regs (the_ctx s n)), s')"
    "n < MAX_PROCESSES" "n = 0 \<or> n = c \<or> is_ready s n" "current s' = Some n" "length (ctx_list s') = MAX_PROCESSES"
    "\<And>i. the_ctx s' i =
       (if i = c then (the_ctx s c)\<lparr>state := READY, regs := (if n = c then regs (the_ctx s c) else rg)\<rparr>
        else if i = n then (the_ctx s n)\<lparr>state := RUNNING\<rparr> else the_ctx s i)"
    "n \<noteq> c \<Longrightarrow> tss_rsp0 s' = push_bit PAGE_SHIFT (ucast (os_stack_pfn (the_ctx s n) + 1))"
    "n \<noteq> c \<Longrightarrow> pgd (the_ctx s n) \<noteq> pgd (the_ctx s c) \<Longrightarrow> cr3 s' = ucast (push_bit PAGE_SHIFT (pgd (the_ctx s n)))"
    "n = c \<or> pgd (the_ctx s n) = pgd (the_ctx s c) \<Longrightarrow> cr3 s' = cr3 s"
proof -
  note D = sched_invD [OF inv(1)]
  define s2 where "s2 = upd_ctx c (state_update (\<lambda>_. READY)) (s\<lparr>stats := (stats s)\<lparr>ticks := ticks (stats s) + 1\<rparr>\<rparr>)"
  have c: "c < MAX_PROCESSES" "c < length (ctx_list s)" using D(1) D(3) [OF inv(2)] by simp_all
  have t2: "the_ctx s2 i = (if i = c then (the_ctx s c)\<lparr>state := READY\<rparr> else the_ctx s i)" for i
    using c by (simp add: s2_def the_ctx_upd)
  have n: "next_ready c s2 = n" by (simp add: n_def preempt_choice_def s2_def upd_ctx_stats)
  have pick: "pick_next_context c s2 = Inr (n, s2)"
    unfolding n [symmetric] by (rule pick_next_context_eq) (use D(2,4) inv(2) c in \<open>auto simp: t2\<close>)
  have nb: "n < MAX_PROCESSES" "n = 0 \<or> n = c \<or> is_ready s n"
    using next_ready_bounds [OF c(1), of s2] unfolding n by (auto simp: is_ready_def t2 split: if_splits)
  have l2: "length (ctx_list s2) = MAX_PROCESSES" "current s2 = Some c" "cr3 s2 = cr3 s"
    using D(1) inv(2) by (simp_all add: s2_def)
  show ?thesis
  proof (cases "n = c")
    case True
    have "preempt c rg s = Inr (Return rg, ack_irq s2)"
      unfolding preempt_def Let_def s2_def [symmetric] pick using True by simp
    then show ?thesis
      by (intro that [of "ack_irq s2"]) (use True nb l2 in \<open>simp_all add: t2\<close>)
  next
    case False
    define s5 where "s5 = upd_ctx c (regs_update (\<lambda>_. rg))
       (s2\<lparr>stats := (stats s2)\<lparr>context_switches := context_switches (stats s2) + 1\<rparr>\<rparr>)"
    define s6 where "s6 = (if pgd (the_ctx s5 c) \<noteq> pgd (the_ctx s5 n)
       then s5\<lparr>cr3 := ucast (push_bit PAGE_SHIFT (pgd (the_ctx s5 n)))\<rparr> else s5)"
    define s9 where "s9 = upd_ctx n (state_update (\<lambda>_. RUNNING)) (set_current_ctx (Some n) (set_tss_stack_ptr n s6))"
    have t5: "the_ctx s5 i = (if i = c then (the_ctx s c)\<lparr>state := READY, regs := rg\<rparr> else the_ctx s i)" for i
      using c l2 by (simp add: s5_def the_ctx_upd t2)
    have s6: "the_ctx s6 i = the_ctx s5 i" "length (ctx_list s6) = MAX_PROCESSES"
      "cr3 s6 = (if pgd (the_ctx s n) = pgd (the_ctx s c) then cr3 s else ucast (push_bit PAGE_SHIFT (pgd (the_ctx s n))))"
      for i
    proof -
      have "cr3 s5 = cr3 s" "length (ctx_list s5) = MAX_PROCESSES" using l2 by (simp_all add: s5_def)
      then show "the_ctx s6 i = the_ctx s5 i" "length (ctx_list s6) = MAX_PROCESSES"
        "cr3 s6 = (if pgd (the_ctx s n) = pgd (the_ctx s c) then cr3 s else ucast (push_bit PAGE_SHIFT (pgd (the_ctx s n))))"
        using False by (simp_all add: s6_def t5)
    qed
    have t9: "the_ctx s9 i = (if i = n then (the_ctx s n)\<lparr>state := RUNNING\<rparr> else the_ctx s5 i)" for i
      using nb(1) s6 False by (simp add: s9_def the_ctx_upd set_tss_stack_ptr_def set_current_ctx_def t5)
    have s9: "current s9 = Some n" "length (ctx_list s9) = MAX_PROCESSES" "cr3 s9 = cr3 s6"
      "tss_rsp0 s9 = push_bit PAGE_SHIFT (ucast (os_stack_pfn (the_ctx s n) + 1))"
      using s6(2) False by (simp_all add: s9_def set_tss_stack_ptr_def set_current_ctx_def upd_ctx_def s6(1) t5)
    have "preempt c rg s = Inr (Return (regs (the_ctx s5 n)), ack_irq s9)"
      unfolding preempt_def Let_def s2_def [symmetric] pick sum.case prod.case s5_def [symmetric] s6_def [symmetric]
        s9_def [symmetric] using False by simp
    then show ?thesis
      by (intro that [of "ack_irq s9"]) (use False nb in \<open>simp_all add: t9 t5 s9 s6(3)\<close>)
  qed
qed

end
