(* ===== verification/Kernel_Steps.thy ===== *)
theory Kernel_Steps
  imports Sched_Inv
begin

text \<open>
  The kernel as a whole: every entry point keeps the process-table invariant, boot establishes it,
  and \<open>kstep\<close> collects program execution, timer interrupts, system calls, faults and the launch of
  \<open>init\<close> in one step relation whose reachable worlds satisfy it.
\<close>

subsection \<open>New contexts\<close>

lemma get_new_ctx_inv:
  assumes "get_new_ctx s = (Some n, s1)" "sched_inv s"
  shows "n < MAX_PROCESSES" "state (the_ctx s n) = UNUSED" "current s1 = current s"
    "s1 = upd_ctx n (\<lambda>ctx. ctx\<lparr>pid := of_nat n, state := NEW\<rparr>) s"
proof -
  have find: "find_unused cs k = Some j \<Longrightarrow> k \<le> j \<and> j - k < length cs \<and> state (cs ! (j - k)) = UNUSED" for cs k j
  proof (induction cs arbitrary: k)
    case (Cons a cs)
    then show ?case
      by (cases "state a = UNUSED") (auto simp: nth_Cons' Suc_le_eq dest!: Cons.IH simp flip: diff_Suc_eq_diff_pred)
  qed simp
  have "find_unused (take MAX_PROCESSES (ctx_list s)) 0 = Some n"
    and s1: "s1 = upd_ctx n (\<lambda>ctx. ctx\<lparr>pid := of_nat n, state := NEW\<rparr>) s"
    using assms(1) by (auto simp: get_new_ctx_def split: option.splits)
  from find [OF this(1)] sched_invD(1) [OF assms(2)]
  show "n < MAX_PROCESSES" "state (the_ctx s n) = UNUSED" by (simp_all add: the_ctx_def)
  show "current s1 = current s" "s1 = upd_ctx n (\<lambda>ctx. ctx\<lparr>pid := of_nat n, state := NEW\<rparr>) s"
    by (simp_all add: s1)
qed

text \<open>A new slot that is filled and made ready (or new) keeps the invariant.\<close>

lemma sched_inv_new:
  assumes inv: "sched_inv s" and n: "n < MAX_PROCESSES" "state (the_ctx s n) = UNUSED"
    and s': "length (ctx_list s') = MAX_PROCESSES" "current s' = current s"
      "\<And>i. i < MAX_PROCESSES \<Longrightarrow> i \<noteq> n \<Longrightarrow> pid (the_ctx s' i) = pid (the_ctx s i) \<and> state (the_ctx s' i) = state (the_ctx s i)"
      "pid (the_ctx s' n) = of_nat n" "state (the_ctx s' n) \<in> {NEW, READY}"
  shows "sched_inv s'"
proof (rule sched_invI)
  note D = sched_invD [OF inv]
  fix i assume i: "i < MAX_PROCESSES"
  show "state (the_ctx s' i) \<noteq> UNUSED \<or> i = 0 \<Longrightarrow> pid (the_ctx s' i) = of_nat i"
    using D(2) [OF i] s'(3) [OF i] s'(4) by (cases "i = n") auto
  show "state (the_ctx s' i) = RUNNING \<Longrightarrow> current s' = Some i"
    using D(5) [OF i] s'(2) s'(3) [OF i] s'(5) by (cases "i = n") auto
next
  note D = sched_invD [OF inv]
  fix c assume c: "current s' = Some c"
  then have "c < MAX_PROCESSES" "state (the_ctx s c) \<noteq> UNUSED" using D(3,4) s'(2) by auto
  with s'(3) [of c] n show "c < MAX_PROCESSES \<and> state (the_ctx s' c) \<noteq> UNUSED" by (cases "c = n") auto
qed (rule s'(1))

lemma do_fork_inv:
  assumes "sched_inv s" "do_fork s = Inr (fl, s')"
  shows "sched_inv s'" "\<exists>v. fl = Return v" "current s' = current s"
    "state (the_ctx s k) \<noteq> UNUSED \<Longrightarrow> the_ctx s' k = the_ctx s k"
proof -
  obtain n s1 where g: "get_new_ctx s = (Some n, s1)"
    using assms(2) by (auto simp: do_fork_def split: prod.splits option.splits)
  note G = get_new_ctx_inv [OF g assms(1)] and D = sched_invD [OF assms(1)]
  obtain c where c: "current s = Some c"
    using assms(2) g G(3) by (auto simp: do_fork_def get_current_ctx_def split: option.splits)
  define s2 where "s2 = upd_ctx n (\<lambda>_. (the_ctx s1 c)\<lparr>pid := pid (the_ctx s1 n), ppid := pid (the_ctx s1 c)\<rparr>) s1"
  obtain s3 where s3: "copy_mm n c s2 = Inr s3" and s': "s' = setup_child_context n s3" and fl: "\<exists>v. fl = Return v"
    using assms(2) g G(3) c by (auto simp: do_fork_def get_current_ctx_def Let_def result_simps s2_def)
  obtain p where p: "ctx_list s3 = (ctx_list s2)[n := (ctx_list s2 ! n)\<lparr>pgd := p\<rparr>]" "current s3 = current s2"
    using copy_mm_procs [OF s3] by blast
  have n: "n < length (ctx_list s)" using G(1) D(1) by simp
  have t: "i \<noteq> n \<Longrightarrow> the_ctx s' i = the_ctx s i" "pid (the_ctx s' n) = of_nat n"
    "state (the_ctx s' n) = READY" for i
    using n by (auto simp: s' setup_child_context_def Let_def split_beta the_ctx_upd)
      (auto simp: the_ctx_def p s2_def G(4) upd_ctx_def)
  have l: "length (ctx_list s') = MAX_PROCESSES" "current s' = current s"
    using p D(1) G(3) by (simp_all add: s' setup_child_context_def Let_def split_beta s2_def G(4))
  show "sched_inv s'"
    by (rule sched_inv_new [OF assms(1) G(1,2) l]) (use t in auto)
  show "state (the_ctx s k) \<noteq> UNUSED \<Longrightarrow> the_ctx s' k = the_ctx s k" using t(1) [of k] G(2) by auto
  show "\<exists>v. fl = Return v" by (rule fl)
  show "current s' = current s" by (rule l(2))
qed

lemma do_clone_inv:
  assumes "sched_inv s" "do_clone f u s = Inr (fl, s')"
  shows "sched_inv s'" "\<exists>v. fl = Return v" "current s' = current s"
    "state (the_ctx s k) \<noteq> UNUSED \<Longrightarrow> the_ctx s' k = the_ctx s k"
proof -
  obtain n s1 where g: "get_new_ctx s = (Some n, s1)"
    using assms(2) by (auto simp: do_clone_def split: prod.splits option.splits)
  note G = get_new_ctx_inv [OF g assms(1)] and D = sched_invD [OF assms(1)]
  obtain c where c: "current s = Some c"
    using assms(2) g G(3) by (auto simp: do_clone_def get_current_ctx_def split: option.splits)
  have n: "n < length (ctx_list s)" using G(1) D(1) by simp
  obtain st where s': "s' = upd_ctx n (clone_ctx f u st (the_ctx s1 c)) (snd (os_pfn_alloc OS_PT_REG s1))"
    and fl: "\<exists>v. fl = Return v"
    using assms(2) g G(3) c by (auto simp: do_clone_def get_current_ctx_def Let_def split_beta split: if_splits)
  have l: "length (ctx_list s') = MAX_PROCESSES" "current s' = current s"
    using D(1) G(3) by (simp_all add: s' G(4))
  show "sched_inv s'"
    by (rule sched_inv_new [OF assms(1) G(1,2) l]) (use n in \<open>auto simp: s' the_ctx_upd G(4) clone_ctx_def\<close>)
  show "state (the_ctx s k) \<noteq> UNUSED \<Longrightarrow> the_ctx s' k = the_ctx s k" using G(2) by (auto simp: s' the_ctx_upd G(4))
  show "\<exists>v. fl = Return v" by (rule fl)
  show "current s' = current s" by (rule l(2))
qed

subsection \<open>The remaining entry points\<close>

lemma handle_timer_tick_inv:
  assumes "sched_inv s" "handle_timer_tick mmu rg s = Inr (fl, s')"
  shows "sched_inv s'" "\<exists>rg'. fl = Return rg'"
proof -
  obtain c where c: "current s = Some c"
    using assms(2) by (auto simp: handle_timer_tick_def get_current_ctx_def split: option.splits)
  then have "bind_result (do_sleep_and_alarm_account mmu rg s) (preempt c) = Inr (fl, s')"
    using assms(2) by (simp add: handle_timer_tick_def get_current_ctx_def)
  then obtain rg1 s1 where acc: "do_sleep_and_alarm_account mmu rg s = Inr (Return rg1, s1)"
    and pre: "preempt c rg1 s1 = Inr (fl, s')"
    using account_inv(2) [OF assms(1)] by (fastforce simp: result_simps)
  have i1: "sched_inv s1"
    using sched_inv_cores [OF account_inv(1) [OF assms(1) acc]] sleep_account_inv [OF assms(1)] by simp
  have c1: "current s1 = Some c" using coresD(2) [OF account_inv(1) [OF assms(1) acc]] c by simp
  note D = sched_invD [OF i1]
  obtain n where fl: "fl = Return (if n = c then rg1 else regs (the_ctx s1 n))"
    and n: "n < MAX_PROCESSES" "n = 0 \<or> n = c \<or> is_ready s1 n" "current s' = Some n" "length (ctx_list s') = MAX_PROCESSES"
    and t: "\<And>i. the_ctx s' i =
       (if i = c then (the_ctx s1 c)\<lparr>state := READY, regs := (if n = c then regs (the_ctx s1 c) else rg1)\<rparr>
        else if i = n then (the_ctx s1 n)\<lparr>state := RUNNING\<rparr> else the_ctx s1 i)"
    by (rule preempt_spec [OF i1 c1, of rg1]) (use pre in auto)
  show "sched_inv s'"
  proof (rule sched_invI)
    fix i assume i: "i < MAX_PROCESSES"
    show "state (the_ctx s' i) \<noteq> UNUSED \<or> i = 0 \<Longrightarrow> pid (the_ctx s' i) = of_nat i"
      using D(2) [OF i] D(4) [OF c1] n(2) unfolding t by (auto simp: is_ready_def split: if_splits)
    show "state (the_ctx s' i) = RUNNING \<Longrightarrow> current s' = Some i"
      using D(5) [OF i] c1 n(3) unfolding t by (auto split: if_splits)
  next
    fix k assume "current s' = Some k"
    then show "k < MAX_PROCESSES \<and> state (the_ctx s' k) \<noteq> UNUSED" using n(1,3) by (simp add: t)
  qed (rule n(4))
  show "\<exists>rg'. fl = Return rg'" using fl by blast
qed

lemma raise_signal_inv:
  assumes "sched_inv s" "raise_signal mmu sg rg s = Inr (fl, s')"
  shows "sched_inv s'" "fl = Shell \<Longrightarrow> current s' = None"
proof -
  from assms(2) obtain fl' s1 where i: "invoke_sync_signal mmu sg (entry_rsp rg) (entry_rip rg) s = Inr (fl', s1)"
    and s': "s' = s1" "fl = Shell \<Longrightarrow> fl' = Shell"
    by (cases "invoke_sync_signal mmu sg (entry_rsp rg) (entry_rip rg) s" rule: sum.exhaust)
      (auto simp: raise_signal_def result_simps)
  show "sched_inv s'" using invoke_sync_signal_inv(1) [OF assms(1) i] s' by simp
  show "fl = Shell \<Longrightarrow> current s' = None" using invoke_sync_signal_inv(3) [OF assms(1) i] s' by simp
qed

lemma faults_inv:
  assumes "sched_inv s"
  shows "do_div_by_zero mmu rg s = Inr (fl, s') \<Longrightarrow> sched_inv s' \<and> (fl = Shell \<longrightarrow> current s' = None)"
    "do_page_fault mmu cr2 rg err s = Inr (fl, s') \<Longrightarrow> sched_inv s' \<and> (fl = Shell \<longrightarrow> current s' = None)"
    "do_gp cr2 err rip s = Inr (fl', s') \<Longrightarrow> sched_inv s' \<and> (fl' = Shell \<longrightarrow> current s' = None)"
proof -
  have p: "sched_inv (printf f as s)" "sched_inv (printf f as (s\<lparr>stats := x\<rparr>))"
    "sched_inv (install_page_table ctx a e (s\<lparr>stats := x\<rparr>))" for f as x ctx a e
    using assms by (subst sched_inv_procs [where s = s]; simp)+
  show "do_div_by_zero mmu rg s = Inr (fl, s') \<Longrightarrow> sched_inv s' \<and> (fl = Shell \<longrightarrow> current s' = None)"
    using raise_signal_inv [OF p(1)] unfolding do_div_by_zero_def by blast
  show "do_page_fault mmu cr2 rg err s = Inr (fl, s') \<Longrightarrow> sched_inv s' \<and> (fl = Shell \<longrightarrow> current s' = None)"
    using raise_signal_inv [OF p(2)] p(3)
    by (auto simp: do_page_fault_def Let_def split: option.splits if_splits)
  show "do_gp cr2 err rip s = Inr (fl', s') \<Longrightarrow> sched_inv s' \<and> (fl' = Shell \<longrightarrow> current s' = None)"
    using do_exit_inv [OF p(1)] by (fastforce simp: do_gp_def result_simps)
qed

lemma small_calls_inv:
  assumes "sched_inv s"
  shows "do_write mmu ctx a k s = Inr (fl, s') \<Longrightarrow> sched_inv s' \<and> fl \<noteq> Shell"
    "do_expand c a t s = Inr (fl, s') \<Longrightarrow> sched_inv s' \<and> fl \<noteq> Shell"
    "do_shrink c a t s = Inr (fl, s') \<Longrightarrow> sched_inv s' \<and> fl \<noteq> Shell"
    "do_alarm m s = Inr (fl, s') \<Longrightarrow> sched_inv s' \<and> fl \<noteq> Shell"
    "do_signal g h s = Inr (fl, s') \<Longrightarrow> sched_inv s' \<and> fl \<noteq> Shell"
proof -
  have upd: "sched_inv (upd_ctx c f s)" if "\<And>ctx. pid (f ctx) = pid ctx" "\<And>ctx. state (f ctx) = state ctx" for c f
    by (rule sched_inv_upd [OF assms that])
  show "do_write mmu ctx a k s = Inr (fl, s') \<Longrightarrow> sched_inv s' \<and> fl \<noteq> Shell"
    using assms sched_inv_procs [of s' s]
    by (auto simp: do_write_def print_user_def result_simps split: if_splits)
  show "do_expand c a t s = Inr (fl, s') \<Longrightarrow> sched_inv s' \<and> fl \<noteq> Shell"
    using assms by (auto simp: do_expand_def Let_def upd split: option.splits if_splits)
  show "do_shrink c a t s = Inr (fl, s') \<Longrightarrow> sched_inv s' \<and> fl \<noteq> Shell"
  proof -
    assume d: "do_shrink c a t s = Inr (fl, s')"
    have loop: "sched_inv s''" if "up_loop (\<lambda>address s. snd (do_unmap_user (the_ctx s c) address s)) lim v
        (upd_ctx c (upd_seg k f) s) = Inr s''" for lim v k f s''
    proof -
      have "procs s'' = procs (upd_ctx c (upd_seg k f) s)"
        by (rule up_loop_keeps [OF that, where f = procs]) simp
      then show ?thesis using sched_inv_procs upd by fastforce
    qed
    show ?thesis using d assms loop by (auto simp: do_shrink_def Let_def result_simps split: option.splits if_splits)
  qed
  show "do_alarm m s = Inr (fl, s') \<Longrightarrow> sched_inv s' \<and> fl \<noteq> Shell"
    using assms by (auto simp: do_alarm_def upd split: option.splits if_splits)
  show "do_signal g h s = Inr (fl, s') \<Longrightarrow> sched_inv s' \<and> fl \<noteq> Shell"
    using assms by (auto simp: do_signal_def upd split: option.splits if_splits)
qed

text \<open>What every system call does first: save the registers, count.\<close>

definition syscall_entry :: "nat \<Rightarrow> user_regs \<Rightarrow> 'a kernel_scheme \<Rightarrow> 'a kernel_scheme" where
  "syscall_entry c rg s =
     (let s1 = upd_ctx c (regs_update (\<lambda>_. rg)) s
      in s1\<lparr>stats := (stats s1)\<lparr>syscalls := syscalls (stats s1) + 1\<rparr>\<rparr>)"

lemma syscall_entry_inv: "sched_inv s \<Longrightarrow> sched_inv (syscall_entry c rg s)"
  using sched_inv_upd [of s "regs_update (\<lambda>_. rg)" c]
  by (subst sched_inv_procs [where s = "upd_ctx c (regs_update (\<lambda>_. rg)) s"])
    (simp_all add: syscall_entry_def Let_def)

lemma do_syscall_inv:
  assumes "sched_inv s" "do_syscall mmu rg n p1 p2 s = Inr (fl, s')"
  shows "sched_inv s'" "fl = Shell \<Longrightarrow> current s' = None"
proof -
  obtain c where c: "current s = Some c"
    using assms(2) by (auto simp: do_syscall_def get_current_ctx_def split: option.splits)
  define s1 where "s1 = syscall_entry c rg s"
  have i1: "sched_inv s1" unfolding s1_def by (rule syscall_entry_inv [OF assms(1)])
  note eq = assms(2) [unfolded do_syscall_def get_current_ctx_def c option.case Let_def,
    folded syscall_entry_def [unfolded Let_def], folded s1_def]
  note small = small_calls_inv [OF i1]
  have "sched_inv s' \<and> (fl = Shell \<longrightarrow> current s' = None)"
  proof -
    consider "n = 1" | "n = 2" | "n = 3" | "n = 4" | "n = 5" | "n = 6" | "n = 7" | "n = 8" | "n = 9" | "n = 10"
      | "n = 11" | "n = 12" | "n \<notin> {1, 2, 3, 4, 5, 6, 7, 8, 9, 10, 11, 12}" by blast
    then show ?thesis
    proof cases
      case 1
      then show ?thesis using eq do_exit_inv [OF i1] by (fastforce simp: result_simps)
    next
      case 7
      then have "do_sleep (ucast p1) s1 = Inr (fl, s')" using eq by simp
      then show ?thesis using do_sleep_inv [OF i1] by blast
    next
      case 9
      then have "do_clone p1 p2 s1 = Inr (fl, s')" using eq by simp
      then show ?thesis using do_clone_inv [OF i1] by blast
    next
      case 10
      then have "do_fork s1 = Inr (fl, s')" using eq by simp
      then show ?thesis using do_fork_inv [OF i1] by blast
    next
      case 11
      then show ?thesis using eq sched_inv_procs [of s' s1] i1 by (auto simp: print_stats_def)
    next
      case 12
      then show ?thesis using eq sched_inv_procs [of s' s1] i1 by (auto simp: result_simps)
    next
      case 3
      then have "do_write mmu (the_ctx s1 c) p1 p2 s1 = Inr (fl, s')" using eq by simp
      then show ?thesis using small(1) by blast
    next
      case 4
      then have "do_expand c p1 (ucast p2) s1 = Inr (fl, s')" using eq by simp
      then show ?thesis using small(2) by blast
    next
      case 5
      then have "do_shrink c p1 (ucast p2) s1 = Inr (fl, s')" using eq by simp
      then show ?thesis using small(3) by blast
    next
      case 6
      then have "do_alarm (ucast p1) s1 = Inr (fl, s')" using eq by simp
      then show ?thesis using small(4) by blast
    next
      case 8
      then have "do_signal (ucast p1) p2 s1 = Inr (fl, s')" using eq by simp
      then show ?thesis using small(5) by blast
    qed (use eq i1 in auto)
  qed
  then show "sched_inv s'" "fl = Shell \<Longrightarrow> current s' = None" by blast+
qed

subsection \<open>Boot and launch\<close>

text \<open>Everything of the table but the memory description of one context is kept.\<close>

definition keeps_procs :: "nat \<Rightarrow> 'a kernel_scheme \<Rightarrow> 'a kernel_scheme \<Rightarrow> bool" where
  "keeps_procs c s s' \<longleftrightarrow> length (ctx_list s') = length (ctx_list s) \<and> current s' = current s \<and>
     (\<forall>i. i \<noteq> c \<longrightarrow> the_ctx s' i = the_ctx s i) \<and>
     pid (the_ctx s' c) = pid (the_ctx s c) \<and> state (the_ctx s' c) = state (the_ctx s c)"

lemma keeps_procs_refl [simp]: "keeps_procs c s s"
  by (simp add: keeps_procs_def)

lemma keeps_procs_trans: "keeps_procs c s s' \<Longrightarrow> keeps_procs c s' s'' \<Longrightarrow> keeps_procs c s s''"
  by (simp add: keeps_procs_def)

lemma keeps_procs_same: "procs s' = procs s \<Longrightarrow> keeps_procs c s s'"
  by (simp add: keeps_procs_def the_ctx_def)

lemma keeps_procs_upd:
  "\<lbrakk>\<And>ctx. pid (f ctx) = pid ctx; \<And>ctx. state (f ctx) = state ctx\<rbrakk> \<Longrightarrow> keeps_procs c s (upd_ctx c f s)"
  by (simp add: keeps_procs_def the_ctx_upd)

lemma exec_segments_keep:
  "keeps_procs c s (snd (snd (exec_code c s)))" "keeps_procs c s (exec_data b c s)" "keeps_procs c s (exec_stack b c s)"
proof -
  define p where "p = fst (os_pfn_alloc OS_PT_REG s)"
  define s1 where "s1 = snd (os_pfn_alloc OS_PT_REG s)"
  define s2 where "s2 = upd_ctx c (pgd_update (\<lambda>_. p)) s1"
  have "keeps_procs c s s1" by (rule keeps_procs_same) (simp add: s1_def)
  moreover have "keeps_procs c s1 s2" unfolding s2_def by (rule keeps_procs_upd) simp_all
  moreover have "keeps_procs c s2 (snd (snd (exec_code c s)))"
    unfolding exec_code_def Let_def split_beta snd_conv s1_def [symmetric] p_def [symmetric] s2_def [symmetric]
    by (rule keeps_procs_trans [OF keeps_procs_same keeps_procs_upd]) simp_all
  ultimately show "keeps_procs c s (snd (snd (exec_code c s)))" by (blast intro: keeps_procs_trans)
  show "keeps_procs c s (exec_data b c s)"
    unfolding exec_data_def Let_def split_beta
    by (rule keeps_procs_trans [OF keeps_procs_same keeps_procs_upd]) simp_all
  show "keeps_procs c s (exec_stack b c s)"
    unfolding exec_stack_def Let_def split_beta
    by (rule keeps_procs_trans [OF keeps_procs_trans [OF keeps_procs_trans [OF keeps_procs_upd
            keeps_procs_same] keeps_procs_upd] keeps_procs_upd]) simp_all
qed

lemma create_context_inv:
  assumes "sched_inv s" "create_context name t s = Inr (c, s')"
  shows "sched_inv s'" "current s' = current s" "c < MAX_PROCESSES" "state (the_ctx s' c) = NEW"
proof -
  obtain s1 where g: "get_new_ctx s = (Some c, s1)"
    using assms(2) by (cases "get_new_ctx s") (auto simp: create_context_def Let_def split_beta split: option.splits)
  note G = get_new_ctx_inv [OF g assms(1)] and D = sched_invD [OF assms(1)]
  define f where "f = (\<lambda>ctx :: exec_context. ctx\<lparr>state := NEW, ctx_type := t, used_mem := 0, pgd := 0,
     os_stack_pfn := fst (os_pfn_alloc OS_PT_REG s1), os_rsp := osmap (ucast (fst (os_pfn_alloc OS_PT_REG s1) + 1)),
     ctx_name := copy_name name (ctx_name ctx), mms := user_segments (mms ctx)\<rparr>)"
  have s': "s' = upd_ctx c f (snd (os_pfn_alloc OS_PT_REG s1))"
    using assms(2) g by (simp add: create_context_def Let_def split_beta f_def)
  have c: "c < length (ctx_list s)" using G(1) D(1) by simp
  have l: "length (ctx_list s') = MAX_PROCESSES" "current s' = current s"
    using D(1) by (simp_all add: s' G(4))
  have t: "the_ctx s' i = (if i = c then f ((the_ctx s c)\<lparr>pid := of_nat c, state := NEW\<rparr>) else the_ctx s i)" for i
    using c by (simp add: s' the_ctx_upd G(4))
  show "state (the_ctx s' c) = NEW" by (simp add: t f_def)
  show "sched_inv s'"
    by (rule sched_inv_new [OF assms(1) G(1,2) l]) (simp_all add: t f_def)
  show "current s' = current s" "c < MAX_PROCESSES" by (rule l(2), rule G(1))
qed

lemma exec_init_inv:
  assumes "sched_inv s" "exec_init cpu rflags c args s = Inr (fl, s')"
    "current s = None" "c < MAX_PROCESSES" "state (the_ctx s c) = NEW"
  shows "sched_inv s'" "\<exists>rg. fl = Iret rg" "current s' = Some c"
proof -
  note D = sched_invD [OF assms(1)]
  define s1 where "s1 = printf ''Setting up init process ...\<newline>'' [] s"
  define b where "b = fst (exec_code c s1)"
  define s2 where "s2 = snd (snd (exec_code c s1))"
  define s3 where "s3 = exec_data b c s2"
  define s4 where "s4 = exec_stack b c s3"
  define s5 where "s5 = snd (install_os_pts (pgd (the_ctx s4 c)) s4)"
  have r: "fst (install_os_pts (pgd (the_ctx s4 c)) s4) = 0"
    by (simp add: install_os_pts_def Let_def split_beta)
  have "keeps_procs c s s1" by (rule keeps_procs_same) (simp add: s1_def)
  moreover have "keeps_procs c s1 s2" "keeps_procs c s2 s3" "keeps_procs c s3 s4"
    unfolding s2_def s3_def s4_def by (rule exec_segments_keep)+
  moreover have "keeps_procs c s4 s5" by (rule keeps_procs_same) (simp add: s5_def)
  ultimately have k: "keeps_procs c s s5" by (blast intro: keeps_procs_trans)
  have l: "c < length (ctx_list s5)" using k D(1) assms(4) by (simp add: keeps_procs_def)
  note ex = assms(2) [unfolded exec_init_def Let_def split_beta s1_def [symmetric],
      folded b_def s2_def, folded s3_def, folded s4_def, folded s5_def, unfolded r]
  have cur: "current s' = Some c" "length (ctx_list s') = length (ctx_list s5)" and fl: "\<exists>rg. fl = Iret rg"
    using ex by (auto simp: set_current_ctx_def set_tss_stack_ptr_def)
  have t: "the_ctx s' i = (if i = c then (the_ctx s5 c)\<lparr>state := RUNNING\<rparr> else the_ctx s i)" for i
    using ex l k by (auto simp: the_ctx_upd set_current_ctx_def set_tss_stack_ptr_def keeps_procs_def)
  show "sched_inv s'"
  proof (rule sched_invI)
    show "length (ctx_list s') = MAX_PROCESSES" using cur(2) k D(1) by (simp add: keeps_procs_def)
    fix i assume i: "i < MAX_PROCESSES"
    show "state (the_ctx s' i) \<noteq> UNUSED \<or> i = 0 \<Longrightarrow> pid (the_ctx s' i) = of_nat i"
      using D(2) [OF i] k assms(5) by (auto simp: t keeps_procs_def split: if_splits)
    show "state (the_ctx s' i) = RUNNING \<Longrightarrow> current s' = Some i"
      using D(5) [OF i] assms(3) cur(1) by (auto simp: t split: if_splits)
  next
    fix j assume "current s' = Some j"
    then show "j < MAX_PROCESSES \<and> state (the_ctx s' j) \<noteq> UNUSED" using cur(1) assms(4) by (simp add: t)
  qed
  show "\<exists>rg. fl = Iret rg" "current s' = Some c" by (rule fl, rule cur(1))
qed

lemma init_swapper_inv:
  "sched_inv (init_swapper addr ss cs rflags s\<lparr>current := None\<rparr>)"
proof -
  define s' where "s' = init_swapper addr ss cs rflags s\<lparr>current := None\<rparr>"
  obtain sw where sw: "ctx_list s' = sw # replicate 15 zero_ctx" "state sw = READY" "pid sw = 0"
    by (auto simp: s'_def init_swapper_def Let_def split_beta zero_ctx_def)
  have t: "the_ctx s' i = (if i = 0 then sw else zero_ctx)" if "i < MAX_PROCESSES" for i
    using that by (cases i) (simp_all add: the_ctx_def sw)
  show ?thesis
    unfolding s'_def [symmetric]
  proof (rule sched_invI)
    show "length (ctx_list s') = MAX_PROCESSES" by (simp add: sw)
    have cur: "current s' = None" by (simp add: s'_def)
    show "c < MAX_PROCESSES \<and> state (the_ctx s' c) \<noteq> UNUSED" if "current s' = Some c" for c
      using that cur by simp
    fix i assume i: "i < MAX_PROCESSES"
    have "state (the_ctx s' i) = (if i = 0 then READY else UNUSED)" "pid (the_ctx s' i) = 0"
      using t [OF i] sw(2,3) by (simp_all add: zero_ctx_def)
    then show "state (the_ctx s' i) \<noteq> UNUSED \<or> i = 0 \<Longrightarrow> pid (the_ctx s' i) = of_nat i"
      "state (the_ctx s' i) = RUNNING \<Longrightarrow> current s' = Some i"
      by (cases "i = 0"; simp)+
  qed
qed

subsection \<open>The kernel as a step relation\<close>

text \<open>A world is a user program about to run with given registers, or the shell.\<close>

datatype world = User user_regs kernel | At_Shell kernel

fun world_state :: "world \<Rightarrow> kernel" where
  "world_state (User rg s) = s"
| "world_state (At_Shell s) = s"

text \<open>What follows a handler: its value goes back to the interrupted registers through \<open>f\<close>, or it
  has left to another context or to the shell.\<close>

fun resume :: "('v \<Rightarrow> user_regs) \<Rightarrow> 'v flow \<Rightarrow> kernel \<Rightarrow> world" where
  "resume f (Return v) s = User (f v) s"
| "resume f (Iret rg) s = User rg s"
| "resume f Shell s = At_Shell s"

text \<open>One step: the program changes registers and the memory its translation gives it, or enters the
  kernel by a timer interrupt, a system call, or a fault; the shell launches \<open>init\<close>.\<close>

inductive kstep :: "mmu \<Rightarrow> world \<Rightarrow> world \<Rightarrow> bool" for mmu where
  program: "(\<And>a. m a \<noteq> mem s a \<Longrightarrow> \<exists>va. mmu (mem s) (cr3 s) va = Some a) \<Longrightarrow>
     kstep mmu (User rg s) (User rg' (s\<lparr>mem := m\<rparr>))"
| tick: "do_irq mmu rg s = Inr (fl, s') \<Longrightarrow> kstep mmu (User rg s) (resume (\<lambda>rg'. rg') fl s')"
| syscall: "do_syscall mmu rg n p1 p2 s = Inr (fl, s') \<Longrightarrow>
     kstep mmu (User rg s) (resume (\<lambda>v. rg\<lparr>rax := v\<rparr>) fl s')"
| div_by_zero: "do_div_by_zero mmu rg s = Inr (fl, s') \<Longrightarrow> kstep mmu (User rg s) (resume (\<lambda>rg'. rg') fl s')"
| page_fault: "do_page_fault mmu cr2 rg err s = Inr (fl, s') \<Longrightarrow> kstep mmu (User rg s) (resume (\<lambda>rg'. rg') fl s')"
| protection: "do_gp cr2 err (entry_rip rg) s = Inr (fl, s') \<Longrightarrow> kstep mmu (User rg s) (resume (\<lambda>_. rg) fl s')"
| launch: "create_context (str ''init'') EXEC_CTX_USER s = Inr (c, s1) \<Longrightarrow>
     exec_init cpu rflags c args s1 = Inr (fl, s2) \<Longrightarrow> kstep mmu (At_Shell s) (resume (\<lambda>_. cpu) fl s2)"

inductive reachable :: "mmu \<Rightarrow> world \<Rightarrow> world \<Rightarrow> bool" for mmu w0 where
  start: "reachable mmu w0 w0"
| step: "reachable mmu w0 w \<Longrightarrow> kstep mmu w w' \<Longrightarrow> reachable mmu w0 w'"

definition world_inv :: "world \<Rightarrow> bool" where
  "world_inv w \<longleftrightarrow> sched_inv (world_state w) \<and> (\<forall>s. w = At_Shell s \<longrightarrow> current s = None)"

lemma resume_inv:
  assumes "sched_inv s" "fl = Shell \<Longrightarrow> current s = None"
  shows "world_inv (resume f fl s)"
  using assms by (cases fl) (auto simp: world_inv_def)

lemma kstep_inv:
  assumes "kstep mmu w w'" "world_inv w"
  shows "world_inv w'"
  using assms
proof (induction rule: kstep.induct)
  case (program m s rg rg')
  then show ?case using sched_inv_procs [of "s\<lparr>mem := m\<rparr>" s] by (simp add: world_inv_def)
next
  case (tick rg s fl s')
  then have "sched_inv s'" "\<exists>rg'. fl = Return rg'"
    using handle_timer_tick_inv [of s mmu rg fl s'] by (auto simp: world_inv_def do_irq_def)
  then show ?case by (intro resume_inv) auto
next
  case (syscall rg n p1 p2 s fl s')
  then show ?case using do_syscall_inv [of s mmu rg n p1 p2 fl s'] by (intro resume_inv) (auto simp: world_inv_def)
next
  case (div_by_zero rg s fl s')
  then show ?case using faults_inv(1) [of s mmu rg fl s'] by (intro resume_inv) (auto simp: world_inv_def)
next
  case (page_fault cr2 rg err s fl s')
  then show ?case using faults_inv(2) [of s mmu cr2 rg err fl s'] by (intro resume_inv) (auto simp: world_inv_def)
next
  case (protection cr2 err rg s fl s')
  then show ?case using faults_inv(3) [of s cr2 err "entry_rip rg" fl s'] by (intro resume_inv) (auto simp: world_inv_def)
next
  case (launch s c s1 cpu rflags args fl s2)
  then have "sched_inv s" "current s = None" by (auto simp: world_inv_def)
  note C = create_context_inv [OF this(1) launch(1)]
  from exec_init_inv [OF C(1) launch(2) _ C(3,4)] C(2) \<open>current s = None\<close>
  show ?case by (intro resume_inv) auto
qed

lemma reachable_inv: "reachable mmu w0 w \<Longrightarrow> world_inv w0 \<Longrightarrow> world_inv w"
  by (induction rule: reachable.induct) (auto dest: kstep_inv)

subsection \<open>Properties\<close>

lemma exec_init_returns: "\<exists>fl s'. exec_init cpu rflags c args s = Inr (fl, s')"
  unfolding exec_init_def Let_def split_beta by simp

text \<open>The kernel after boot, and the launch of \<open>init\<close> from it, for the concrete runs.\<close>

definition booted :: kernel where
  "booted = init_swapper 0 0 0 0 zero_kernel\<lparr>current := None\<rparr>"

lemma booted_launch:
  obtains s1 fl s2 where "create_context (str ''init'') EXEC_CTX_USER booted = Inr (1, s1)"
    "exec_init zero_regs 0 1 \<lparr>arg_rdi = 0, arg_rsi = 0, arg_rcx = 0, arg_rdx = 0, arg_r8 = 0\<rparr> s1 = Inr (fl, s2)"
    "kstep mmu (At_Shell booted) (resume (\<lambda>_. zero_regs) fl s2)"
proof -
  obtain sw where sw: "ctx_list booted = sw # zero_ctx # replicate 14 zero_ctx" "state sw = READY"
    by (auto simp: booted_def init_swapper_def Let_def split_beta numeral_eq_Suc)
  have "state zero_ctx = UNUSED" by (simp add: zero_ctx_def)
  then obtain s0 where "get_new_ctx booted = (Some 1, s0)" by (simp add: get_new_ctx_def sw)
  then obtain s1 where c: "create_context (str ''init'') EXEC_CTX_USER booted = Inr (1, s1)"
    by (simp add: create_context_def Let_def split_beta)
  obtain fl s2 where x: "exec_init zero_regs 0 1 \<lparr>arg_rdi = 0, arg_rsi = 0, arg_rcx = 0, arg_rdx = 0, arg_r8 = 0\<rparr> s1 = Inr (fl, s2)"
    using exec_init_returns by blast
  show ?thesis by (rule that [OF c x kstep.launch [OF c x]])
qed

text \<open>C4: Safety of the process table. From the initialised kernel, after any number of
  program steps, timer interrupts, system calls, faults and launches, the table has 16 entries; a
  used entry has its index as process identifier; a running entry is the current one, so there is at
  most one; the current entry is in use; and at the shell there is no current context.\<close>

theorem reachable_process_table:
  assumes "reachable mmu (At_Shell (init_swapper addr ss cs rflags s\<lparr>current := None\<rparr>)) w"
  shows "length (ctx_list (world_state w)) = MAX_PROCESSES \<and>
    (\<forall>i < MAX_PROCESSES. state (the_ctx (world_state w) i) \<noteq> UNUSED \<longrightarrow> pid (the_ctx (world_state w) i) = of_nat i) \<and>
    (\<forall>i < MAX_PROCESSES. state (the_ctx (world_state w) i) = RUNNING \<longrightarrow> current (world_state w) = Some i) \<and>
    (\<forall>c. current (world_state w) = Some c \<longrightarrow> c < MAX_PROCESSES \<and> state (the_ctx (world_state w) c) \<noteq> UNUSED) \<and>
    (\<forall>s'. w = At_Shell s' \<longrightarrow> current s' = None)"
proof -
  have "world_inv w"
    by (rule reachable_inv [OF assms]) (simp add: world_inv_def init_swapper_inv)
  then show ?thesis unfolding world_inv_def sched_inv_def by blast
qed

theorem reachable_process_table_witness:
  "\<exists>w. kstep (\<lambda>_ _ _. None) (At_Shell (init_swapper 0 0 0 0 zero_kernel\<lparr>current := None\<rparr>)) w \<and>
     length (ctx_list (world_state w)) = MAX_PROCESSES"
proof -
  obtain fl :: "int flow" and s3 where k: "kstep (\<lambda>_ _ _. None) (At_Shell booted) (resume (\<lambda>_. zero_regs) fl s3)"
    by (rule booted_launch [where mmu = "\<lambda>_ _ _. None"])
  then have "reachable (\<lambda>_ _ _. None) (At_Shell (init_swapper 0 0 0 0 zero_kernel\<lparr>current := None\<rparr>))
      (resume (\<lambda>_. zero_regs) fl s3)"
    using reachable.step [OF reachable.start] by (simp add: booted_def)
  from reachable_process_table [OF this] k show ?thesis unfolding booted_def by blast
qed

end
