(* ===== verification/Fairness.thy ===== *)
theory Fairness
  imports Kernel_Steps
begin

text \<open>
  What the scheduler promises over time. \<open>rr_dist p i\<close> is the position of context \<open>i\<close> in the round
  robin after \<open>p\<close>; the choice is the ready context at the least distance, so the distance of a
  waiting ready context shrinks with every tick. \<open>tick_step\<close> is one stretch of program execution
  (any registers, any memory) that a timer interrupt ends.
\<close>

subsection \<open>Distances\<close>

definition rr_dist :: "nat \<Rightarrow> nat \<Rightarrow> nat" where
  "rr_dist p i = (if p < i then i - p else i + 15 - p)"

lemma round_robin_nth:
  assumes "p < MAX_PROCESSES" "k < 15"
  shows "round_robin p ! k = (if k < 15 - p then p + 1 + k else k + p - 14)" "length (round_robin p) = 15"
  using assms by (auto simp: round_robin_def nth_append simp del: upt_Suc)

lemma rr_dist_nth:
  assumes "p < MAX_PROCESSES" "k < 15"
  shows "rr_dist p (round_robin p ! k) = Suc k"
  using assms round_robin_nth(1) [OF assms] by (auto simp: rr_dist_def)

lemma rr_dist_bounds:
  assumes "p < MAX_PROCESSES" "0 < i" "i < MAX_PROCESSES"
  shows "0 < rr_dist p i" "rr_dist p i \<le> 15" "round_robin p ! (rr_dist p i - 1) = i"
  using assms round_robin_nth(1) [OF assms(1), of "rr_dist p i - 1"] by (auto simp: rr_dist_def)

lemma next_ready_nearest:
  assumes "p < MAX_PROCESSES" "0 < i" "i < MAX_PROCESSES" "is_ready s i"
  shows "next_ready p s \<noteq> 0" "rr_dist p (next_ready p s) \<le> rr_dist p i"
proof -
  note i = rr_dist_bounds [OF assms(1-3)]
  have "i \<in> set (round_robin p)" using assms(1-3) by (auto simp: round_robin_def simp del: upt_Suc)
  then have "find (is_ready s) (round_robin p) \<noteq> None" using assms(4) by (auto simp: find_None_iff)
  then obtain k where k: "k < 15" "next_ready p s = round_robin p ! k" "\<And>j. j < k \<Longrightarrow> \<not> is_ready s (round_robin p ! j)"
    using round_robin_nth(2) [OF assms(1), of 0] unfolding next_ready_def
    by (metis find_Some_iff not_None_eq option.simps(5) zero_less_numeral)
  have "\<not> rr_dist p i - 1 < k" using k(3) [of "rr_dist p i - 1"] i(3) assms(4) by auto
  then show "rr_dist p (next_ready p s) \<le> rr_dist p i"
    using rr_dist_nth [OF assms(1) k(1)] k(2) i(1) by simp
  show "next_ready p s \<noteq> 0" using round_robin_nth(1) [OF assms(1) k(1)] k(2) assms(1) by auto
qed

text \<open>Moving to a nearer context brings the target nearer.\<close>

lemma rr_dist_shift:
  assumes "p < MAX_PROCESSES" "0 < n" "n < MAX_PROCESSES" "0 < i" "i < MAX_PROCESSES" "n \<noteq> i"
    "rr_dist p n \<le> rr_dist p i"
  shows "rr_dist n i < rr_dist p i"
  using assms by (auto simp: rr_dist_def split: if_splits)

subsection \<open>A concrete system\<close>

text \<open>The swapper ready, context 1 running, context 2 ready, context 3 asleep for three ticks.\<close>

definition demo_ctxs :: "exec_context list" where
  "demo_ctxs = [zero_ctx\<lparr>state := READY\<rparr>, zero_ctx\<lparr>pid := 1, state := RUNNING\<rparr>,
     zero_ctx\<lparr>pid := 2, state := READY\<rparr>, zero_ctx\<lparr>pid := 3, state := WAITING, ticks_to_sleep := 3\<rparr>]"

definition demo :: kernel where
  "demo = zero_kernel\<lparr>ctx_list := demo_ctxs @ replicate 12 zero_ctx, current := Some 1\<rparr>"

lemma demo_ctx:
  "the_ctx demo 0 = zero_ctx\<lparr>state := READY\<rparr>" "the_ctx demo 1 = zero_ctx\<lparr>pid := 1, state := RUNNING\<rparr>"
  "the_ctx demo 2 = zero_ctx\<lparr>pid := 2, state := READY\<rparr>"
  "the_ctx demo 3 = zero_ctx\<lparr>pid := 3, state := WAITING, ticks_to_sleep := 3\<rparr>"
  "4 \<le> i \<Longrightarrow> i < MAX_PROCESSES \<Longrightarrow> the_ctx demo i = zero_ctx"
  by (simp_all add: the_ctx_def demo_def demo_ctxs_def nth_append)

lemmas demo_ctxs = demo_ctx demo_ctx(2) [simplified]

lemma demo_cases: "i < MAX_PROCESSES \<Longrightarrow> i = 0 \<or> i = 1 \<or> i = 2 \<or> i = 3 \<or> (4 \<le> i \<and> i < MAX_PROCESSES)"
  by linarith

lemma demo_inv: "sched_inv demo" "current demo = Some 1"
proof -
  show c: "current demo = Some 1" by (simp add: demo_def)
  show "sched_inv demo"
  proof (rule sched_invI)
    show "length (ctx_list demo) = MAX_PROCESSES" by (simp add: demo_def demo_ctxs_def)
    fix i assume i: "i < MAX_PROCESSES"
    show "state (the_ctx demo i) \<noteq> UNUSED \<or> i = 0 \<Longrightarrow> pid (the_ctx demo i) = of_nat i"
      "state (the_ctx demo i) = RUNNING \<Longrightarrow> current demo = Some i"
      using demo_cases [OF i] by (auto simp: demo_ctxs c) (auto simp: zero_ctx_def)
  qed (auto simp: c demo_ctxs)
qed

text \<open>C9: \<open>pick_next_context\<close> always returns, changes nothing, and picks the
  ready process nearest after the current one in round-robin order; the swapper when no process is
  ready.\<close>

theorem pick_next_context_nearest:
  assumes "pid (the_ctx s ctx) = of_nat p" "p < MAX_PROCESSES"
  shows "\<exists>n. pick_next_context ctx s = Inr (n, s) \<and>
    (if \<forall>i. 0 < i \<and> i < MAX_PROCESSES \<longrightarrow> state (the_ctx s i) \<noteq> READY then n = 0
     else 0 < n \<and> n < MAX_PROCESSES \<and> state (the_ctx s n) = READY \<and>
       (\<forall>i. 0 < i \<and> i < MAX_PROCESSES \<and> state (the_ctx s i) = READY \<longrightarrow> rr_dist p n \<le> rr_dist p i))"
proof (intro exI conjI)
  show "pick_next_context ctx s = Inr (next_ready p s, s)" by (rule pick_next_context_eq [OF assms])
  note b = next_ready_bounds [OF assms(2), of s]
  show "if \<forall>i. 0 < i \<and> i < MAX_PROCESSES \<longrightarrow> state (the_ctx s i) \<noteq> READY then next_ready p s = 0
     else 0 < next_ready p s \<and> next_ready p s < MAX_PROCESSES \<and> state (the_ctx s (next_ready p s)) = READY \<and>
       (\<forall>i. 0 < i \<and> i < MAX_PROCESSES \<and> state (the_ctx s i) = READY \<longrightarrow>
          rr_dist p (next_ready p s) \<le> rr_dist p i)"
    using b next_ready_nearest [OF assms(2), where s = s] unfolding is_ready_def
    by (smt (verit) bot_nat_0.not_eq_extremum)
qed

theorem pick_next_context_nearest_witness:
  "(\<exists>n. pick_next_context 1 demo = Inr (n, demo)) \<and> rr_dist 1 2 = 1 \<and> rr_dist 1 1 = 15"
  using pick_next_context_nearest [of demo 1 1] by (auto simp: demo_ctxs rr_dist_def)

subsection \<open>Ticks\<close>

definition tick_step :: "mmu \<Rightarrow> kernel \<Rightarrow> kernel \<Rightarrow> bool" where
  "tick_step mmu s s' \<longleftrightarrow>
     (\<exists>rg m rg'. handle_timer_tick mmu rg (s\<lparr>mem := m\<rparr>) = Inr (Return rg', s'))"

text \<open>Without pending alarms a tick always returns, and no alarm becomes pending.\<close>

definition no_alarm :: "kernel \<Rightarrow> bool" where
  "no_alarm s \<longleftrightarrow> sched_inv s \<and> current s \<noteq> None \<and> (\<forall>i < MAX_PROCESSES. ticks_to_alarm (the_ctx s i) = 0)"

lemma no_alarm_tick:
  assumes "no_alarm s"
  shows "\<exists>rg s'. handle_timer_tick mmu rgs s = Inr (Return rg, s') \<and> no_alarm s'"
proof -
  obtain c where s: "sched_inv s" "current s = Some c" "\<forall>i < MAX_PROCESSES. ticks_to_alarm (the_ctx s i) = 0"
    using assms by (auto simp: no_alarm_def)
  let ?a = "sleep_account s"
  have a: "sched_inv ?a" "current ?a = Some c" using sleep_account_inv [OF s(1)] s(2) by simp_all
  have al: "ticks_to_alarm (the_ctx ?a i) = 0" if "i < MAX_PROCESSES" for i
    using s(3) that sched_invD(1) [OF s(1)] by (simp add: the_ctx_sleep_account sleep_tick_def)
  have acc: "do_sleep_and_alarm_account mmu rgs s = Inr (Return rgs, ?a)"
    using al sched_invD(3) [OF s(1,2)] s(2) by (simp add: do_sleep_and_alarm_account_def get_current_ctx_def)
  obtain n s' where p: "preempt c rgs ?a = Inr (Return n, s')" and cur: "current s' \<noteq> None"
    and t: "\<And>i. ticks_to_alarm (the_ctx s' i) = ticks_to_alarm (the_ctx ?a i)"
    by (rule preempt_spec [OF a, of rgs]) (auto split: if_splits)
  have "handle_timer_tick mmu rgs s = Inr (Return n, s')"
    using acc p s(2) by (simp add: handle_timer_tick_def get_current_ctx_def)
  moreover from this have "no_alarm s'"
    using handle_timer_tick_inv(1) [OF s(1)] cur t al by (simp add: no_alarm_def)
  ultimately show ?thesis by blast
qed

primrec demo_run :: "mmu \<Rightarrow> nat \<Rightarrow> kernel" where
  "demo_run mmu 0 = demo"
| "demo_run mmu (Suc k) =
     (case handle_timer_tick mmu zero_regs (demo_run mmu k) of Inr (Return _, s') \<Rightarrow> s' | _ \<Rightarrow> demo_run mmu k)"

lemma demo_no_alarm: "no_alarm (demo_run mmu k)"
proof -
  have al: "ticks_to_alarm (the_ctx demo i) = 0" if "i < MAX_PROCESSES" for i
    using demo_cases [OF that] by (auto simp: demo_ctxs zero_ctx_def)
  show ?thesis
  proof (induction k)
    case 0
    show ?case using demo_inv al by (simp add: no_alarm_def)
  next
    case (Suc k)
    from no_alarm_tick [OF this, of mmu zero_regs] show ?case by auto
  qed
qed

lemma demo_run_steps: "tick_step mmu (demo_run mmu k) (demo_run mmu (Suc k))"
proof -
  from no_alarm_tick [OF demo_no_alarm, of mmu zero_regs mmu k] obtain rg where
    "handle_timer_tick mmu zero_regs (demo_run mmu k) = Inr (Return rg, demo_run mmu (Suc k))" by auto
  moreover have "demo_run mmu k\<lparr>mem := mem (demo_run mmu k)\<rparr> = demo_run mmu k" by simp
  ultimately show ?thesis unfolding tick_step_def by metis
qed

text \<open>C6: A timer interrupt with no alarm due returns to the registers saved in the context
  it picks, with that context's page tables in \<open>cr3\<close> and its kernel stack in the task
  state segment; on a switch the interrupted registers are saved in the old context, which is ready.
  No other saved registers change.\<close>

theorem tick_switches_context:
  assumes "sched_inv s" "current s = Some c" "ticks_to_alarm (the_ctx s c) \<noteq> 1"
    "handle_timer_tick mmu rg s = Inr (fl, s')" "cr3 s = ucast (push_bit PAGE_SHIFT (pgd (the_ctx s c)))"
  shows "\<exists>n. current s' = Some n \<and> fl = Return (if n = c then rg else regs (the_ctx s n)) \<and>
    cr3 s' = ucast (push_bit PAGE_SHIFT (pgd (the_ctx s n))) \<and>
    (n \<noteq> c \<longrightarrow> regs (the_ctx s' c) = rg \<and> state (the_ctx s' c) = READY \<and> state (the_ctx s' n) = RUNNING \<and>
       tss_rsp0 s' = push_bit PAGE_SHIFT (ucast (os_stack_pfn (the_ctx s n) + 1))) \<and>
    (\<forall>i < MAX_PROCESSES. i \<noteq> c \<longrightarrow> regs (the_ctx s' i) = regs (the_ctx s i))"
proof -
  let ?a = "sleep_account s"
  have c: "c < length (ctx_list s)" using sched_invD(1,3) assms(1,2) by metis
  define s1 where "s1 = (if ticks_to_alarm (the_ctx s c) > 0
    then upd_ctx c (\<lambda>ctx. ctx\<lparr>ticks_to_alarm := ticks_to_alarm ctx - 1\<rparr>) ?a else ?a)"
  have al: "ticks_to_alarm (the_ctx ?a c) = ticks_to_alarm (the_ctx s c)"
    using c by (simp add: the_ctx_sleep_account sleep_tick_def)
  have acc: "do_sleep_and_alarm_account mmu rg s = Inr (Return rg, s1)"
    using assms(2,3) c al by (simp add: do_sleep_and_alarm_account_def get_current_ctx_def Let_def the_ctx_upd s1_def)
  have s1: "sched_inv s1" "current s1 = Some c" "cr3 s1 = cr3 s"
    using sleep_account_inv [OF assms(1)] assms(2) by (auto simp: s1_def intro!: sched_inv_upd)
  have f: "regs (the_ctx s1 i) = regs (the_ctx s i)" "pgd (the_ctx s1 i) = pgd (the_ctx s i)"
    "os_stack_pfn (the_ctx s1 i) = os_stack_pfn (the_ctx s i)" if "i < MAX_PROCESSES" for i
    using that sched_invD(1) [OF assms(1)]
    by (auto simp: s1_def the_ctx_upd the_ctx_sleep_account) (auto simp: sleep_tick_def)
  have pre: "preempt c rg s1 = Inr (fl, s')"
    using assms(2,4) acc by (simp add: handle_timer_tick_def get_current_ctx_def)
  have c16: "c < MAX_PROCESSES" using sched_invD(3) assms(1,2) by blast
  define n where "n = preempt_choice c s1"
  obtain "fl = Return (if n = c then rg else regs (the_ctx s1 n))" "n < MAX_PROCESSES" "current s' = Some n"
    and t: "\<And>i. the_ctx s' i =
       (if i = c then (the_ctx s1 c)\<lparr>state := READY, regs := (if n = c then regs (the_ctx s1 c) else rg)\<rparr>
        else if i = n then (the_ctx s1 n)\<lparr>state := RUNNING\<rparr> else the_ctx s1 i)"
    and r: "n \<noteq> c \<Longrightarrow> tss_rsp0 s' = push_bit PAGE_SHIFT (ucast (os_stack_pfn (the_ctx s1 n) + 1))"
      "n \<noteq> c \<Longrightarrow> pgd (the_ctx s1 n) \<noteq> pgd (the_ctx s1 c) \<Longrightarrow> cr3 s' = ucast (push_bit PAGE_SHIFT (pgd (the_ctx s1 n)))"
      "n = c \<or> pgd (the_ctx s1 n) = pgd (the_ctx s1 c) \<Longrightarrow> cr3 s' = cr3 s1"
    by (rule preempt_spec [OF s1(1,2), of rg]) (use pre in \<open>auto simp: n_def\<close>)
  moreover have "cr3 s' = ucast (push_bit PAGE_SHIFT (pgd (the_ctx s n)))"
    using r(2,3) s1(3) assms(5) f(2) [OF c16] f(2) [OF \<open>n < MAX_PROCESSES\<close>] by metis
  ultimately show ?thesis
    by (intro exI [of _ n]) (simp add: t f)
qed

theorem tick_switches_context_witness:
  "\<exists>fl s' n. handle_timer_tick (\<lambda>_ _ _. None) zero_regs demo = Inr (fl, s') \<and> current s' = Some n \<and>
     regs (the_ctx s' 3) = zero_regs"
proof -
  have "no_alarm demo" using demo_no_alarm [of "\<lambda>_ _ _. None" 0] by simp
  from no_alarm_tick [OF this, where rgs = zero_regs] obtain rg s' where
    h: "handle_timer_tick (\<lambda>_ _ _. None) zero_regs demo = Inr (Return rg, s')" by blast
  have "ticks_to_alarm (the_ctx demo 1) \<noteq> 1" "cr3 demo = ucast (push_bit PAGE_SHIFT (pgd (the_ctx demo 1)))"
    by (simp_all add: demo_ctxs zero_ctx_def) (simp add: demo_def zero_kernel_def)
  from tick_switches_context [OF demo_inv this(1) h this(2)] h show ?thesis
    by (auto simp: demo_ctxs zero_ctx_def)
qed

lemma tick_step_spec:
  assumes inv: "sched_inv s" "current s = Some c" and step: "tick_step mmu s s'"
  obtains n where "sched_inv s'" "current s' = Some n" "n < MAX_PROCESSES"
    "n = next_ready c (upd_ctx c (state_update (\<lambda>_. READY)) (sleep_account s))"
    "\<And>i. i < MAX_PROCESSES \<Longrightarrow> i \<noteq> c \<Longrightarrow> i \<noteq> n \<Longrightarrow> state (the_ctx s' i) = state (sleep_tick (the_ctx s i))"
    "\<And>i. i < MAX_PROCESSES \<Longrightarrow> ticks_to_sleep (the_ctx s' i) = ticks_to_sleep (sleep_tick (the_ctx s i))"
    "state (the_ctx s' n) \<in> {READY, RUNNING}" "n \<noteq> c \<Longrightarrow> state (the_ctx s' c) = READY"
proof -
  obtain rg m rg' where h: "handle_timer_tick mmu rg (s\<lparr>mem := m\<rparr>) = Inr (Return rg', s')"
    using step by (auto simp: tick_step_def)
  define t where "t = s\<lparr>mem := m\<rparr>"
  have t: "sched_inv t" "current t = Some c" "ctx_list t = ctx_list s"
    using inv sched_inv_procs [of t s] by (simp_all add: t_def)
  have "bind_result (do_sleep_and_alarm_account mmu rg t) (preempt c) = Inr (Return rg', s')"
    using h t(2) by (simp add: handle_timer_tick_def get_current_ctx_def t_def)
  then obtain rg1 s1 where acc: "do_sleep_and_alarm_account mmu rg t = Inr (Return rg1, s1)"
    and pre: "preempt c rg1 s1 = Inr (Return rg', s')"
    using account_inv(2) [OF t(1)] by (fastforce simp: result_simps)
  have co: "cores s1 = cores (sleep_account s)"
    using account_inv(1) [OF t(1) acc] t by (simp add: cores_def sleep_account_def t_def)
  note C = coresD [OF co, unfolded sleep_account_fields sched_invD(1) [OF inv(1)]]
  have i1: "sched_inv s1" using sched_inv_cores [OF co] sleep_account_inv [OF inv(1)] by simp
  have c1: "current s1 = Some c" using C(2) inv(2) by simp
  have c: "c < MAX_PROCESSES" using sched_invD(3) [OF inv] .
  define n where "n = preempt_choice c s1"
  have nn: "n = next_ready c (upd_ctx c (state_update (\<lambda>_. READY)) (sleep_account s))"
  proof -
    have "is_ready (upd_ctx c (state_update (\<lambda>_. READY)) s1) i =
      is_ready (upd_ctx c (state_update (\<lambda>_. READY)) (sleep_account s)) i" if "i \<in> set (round_robin c)" for i
      using that c C(1) C(4) [of i] sched_invD(1) [OF inv(1)]
      by (simp add: is_ready_def the_ctx_upd round_robin_def) auto
    then have "find (is_ready (upd_ctx c (state_update (\<lambda>_. READY)) s1)) (round_robin c) =
      find (is_ready (upd_ctx c (state_update (\<lambda>_. READY)) (sleep_account s))) (round_robin c)"
      by (intro find_cong) auto
    then show ?thesis by (simp add: n_def preempt_choice_def next_ready_def)
  qed
  obtain "current s' = Some n" "n < MAX_PROCESSES"
    and ti: "\<And>i. the_ctx s' i =
       (if i = c then (the_ctx s1 c)\<lparr>state := READY, regs := (if n = c then regs (the_ctx s1 c) else rg1)\<rparr>
        else if i = n then (the_ctx s1 n)\<lparr>state := RUNNING\<rparr> else the_ctx s1 i)"
    by (rule preempt_spec [OF i1 c1, of rg1]) (use pre in \<open>auto simp: n_def\<close>)
  moreover have "sched_inv s'" using handle_timer_tick_inv(1) [OF t(1)] h by (simp add: t_def)
  moreover have "state (the_ctx s1 i) = state (sleep_tick (the_ctx s i))"
    "ticks_to_sleep (the_ctx s1 i) = ticks_to_sleep (sleep_tick (the_ctx s i))" if "i < MAX_PROCESSES" for i
    using C(4) [OF that] C(6) [OF that] that sched_invD(1) [OF inv(1)] by (simp_all add: the_ctx_sleep_account)
  ultimately show ?thesis
    by (intro that [of n]) (use nn c in \<open>auto simp: ti\<close>)
qed

text \<open>A ready context that the tick does not pick stays ready and comes nearer.\<close>

lemma tick_step_nearer:
  assumes inv: "sched_inv s" "current s = Some c" "tick_step mmu s s'"
    and i: "0 < i" "i < MAX_PROCESSES" "state (the_ctx s i) = READY" "current s' \<noteq> Some i"
  obtains n where "sched_inv s'" "current s' = Some n" "state (the_ctx s' i) = READY" "rr_dist n i < rr_dist c i"
proof -
  let ?u = "upd_ctx c (state_update (\<lambda>_. READY)) (sleep_account s)"
  obtain n where n: "sched_inv s'" "current s' = Some n" "n < MAX_PROCESSES" "n = next_ready c ?u"
    "\<And>j. j < MAX_PROCESSES \<Longrightarrow> j \<noteq> c \<Longrightarrow> j \<noteq> n \<Longrightarrow> state (the_ctx s' j) = state (sleep_tick (the_ctx s j))"
    "n \<noteq> c \<Longrightarrow> state (the_ctx s' c) = READY"
    by (rule tick_step_spec [OF inv]) (rule that, assumption, assumption, assumption, assumption, blast, blast)
  have c: "c < MAX_PROCESSES" by (rule sched_invD(3) [OF inv(1,2)])
  have "is_ready ?u i"
    using i c sched_invD(1) [OF inv(1)] by (simp add: is_ready_def the_ctx_upd the_ctx_sleep_account sleep_tick_def)
  from next_ready_nearest [OF c i(1,2) this] n(4)
  have near: "n \<noteq> 0" "rr_dist c n \<le> rr_dist c i" by simp_all
  have ne: "n \<noteq> i" using n(2) i(4) by auto
  show ?thesis
  proof (rule that [OF n(1,2)])
    show "state (the_ctx s' i) = READY"
      using n(5) [OF i(2)] n(6) ne i(3) by (cases "i = c") (auto simp: sleep_tick_def)
    show "rr_dist n i < rr_dist c i"
      using rr_dist_shift [OF c _ n(3) i(1,2) ne near(2)] near(1) by simp
  qed
qed

subsection \<open>Sleeping\<close>

lemma sleep_tick_waiting:
  "\<lbrakk>state ctx = WAITING; 1 < ticks_to_sleep ctx\<rbrakk> \<Longrightarrow> state (sleep_tick ctx) = WAITING"
  "\<lbrakk>state ctx = WAITING; ticks_to_sleep ctx = 1\<rbrakk> \<Longrightarrow> state (sleep_tick ctx) = READY"
  "\<lbrakk>state ctx = WAITING; 0 < ticks_to_sleep ctx\<rbrakk> \<Longrightarrow> ticks_to_sleep (sleep_tick ctx) = ticks_to_sleep ctx - 1"
  "\<lbrakk>state ctx = WAITING; ticks_to_sleep ctx = 0\<rbrakk> \<Longrightarrow> sleep_tick ctx = ctx"
  by (auto simp: sleep_tick_def)

text \<open>C5: A process that sleeps for \<open>n\<close> ticks is still waiting before the
  \<open>n\<close>-th timer interrupt, with its counter at \<open>n - k\<close> after
  \<open>k\<close> of them, and ready or already running right after the
  \<open>n\<close>-th.\<close>

theorem sleeper_wakes_on_time:
  assumes "sched_inv (w 0)" "current (w 0) = Some c" "\<And>k. k < unat n \<Longrightarrow> tick_step mmu (w k) (w (Suc k))"
    and "0 < i" "i < MAX_PROCESSES" "state (the_ctx (w 0) i) = WAITING" "ticks_to_sleep (the_ctx (w 0) i) = n"
    and "i \<noteq> c" "0 < n"
  shows "(\<forall>k < unat n. state (the_ctx (w k) i) = WAITING \<and> ticks_to_sleep (the_ctx (w k) i) = n - of_nat k) \<and>
    state (the_ctx (w (unat n)) i) \<in> {READY, RUNNING}"
proof -
  have *: "sched_inv (w k) \<and> (k < unat n \<longrightarrow> (\<exists>c. c \<noteq> i \<and> current (w k) = Some c) \<and>
      state (the_ctx (w k) i) = WAITING \<and> ticks_to_sleep (the_ctx (w k) i) = n - of_nat k) \<and>
    (k = unat n \<longrightarrow> state (the_ctx (w k) i) \<in> {READY, RUNNING})" if "k \<le> unat n" for k
    using that
  proof (induction k)
    case 0
    have "unat n \<noteq> 0" using assms(9) by (simp add: unat_gt_0 word_gt_0)
    then show ?case using assms by auto
  next
    case (Suc k)
    then obtain c where k: "sched_inv (w k)" "c \<noteq> i" "current (w k) = Some c" "state (the_ctx (w k) i) = WAITING"
      "ticks_to_sleep (the_ctx (w k) i) = n - of_nat k" by auto
    let ?u = "upd_ctx c (state_update (\<lambda>_. READY)) (sleep_account (w k))"
    obtain m where m: "sched_inv (w (Suc k))" "current (w (Suc k)) = Some m" "m = next_ready c ?u"
      and ne: "i \<noteq> m \<Longrightarrow> state (the_ctx (w (Suc k)) i) = state (sleep_tick (the_ctx (w k) i))"
      and ts: "ticks_to_sleep (the_ctx (w (Suc k)) i) = ticks_to_sleep (sleep_tick (the_ctx (w k) i))"
      and mm: "state (the_ctx (w (Suc k)) m) \<in> {READY, RUNNING}"
      by (rule tick_step_spec [OF k(1,3) assms(3)]) (use Suc.prems assms(5) k(2) that in \<open>auto 0 0\<close>)
    have "unat n < 2 ^ LENGTH(32)" by (rule unsigned_less)
    then have "unat (of_nat k :: u32) = k" using Suc.prems by (simp add: unat_of_nat_small)
    then have left: "unat (n - of_nat k) = unat n - k"
      using Suc.prems by (simp add: unat_sub_if_size)
    have pos: "0 < n - of_nat k" using left Suc.prems by (simp add: word_less_nat_alt)
    have ready: "is_ready ?u i \<longleftrightarrow> state (sleep_tick (the_ctx (w k) i)) = READY"
      using k(2) assms(5) sched_invD(1) [OF k(1)] by (simp add: is_ready_def the_ctx_upd the_ctx_sleep_account)
    have mi: "m = i \<Longrightarrow> is_ready ?u i"
      using next_ready_bounds(2) [OF sched_invD(3) [OF k(1,3)], of ?u] m(3) assms(4) by auto
    show ?case
    proof (cases "Suc k = unat n")
      case True
      then have "n - of_nat k = 1" using left by (simp add: word_unat_eq_iff)
      then have "state (sleep_tick (the_ctx (w k) i)) = READY" using sleep_tick_waiting(2) k(4,5) by simp
      then show ?thesis using m(1) True ne mm by (cases "m = i") auto
    next
      case False
      then have "1 < n - of_nat k" using left Suc.prems by (simp add: word_less_nat_alt)
      then have w: "state (sleep_tick (the_ctx (w k) i)) = WAITING"
        "ticks_to_sleep (sleep_tick (the_ctx (w k) i)) = n - of_nat (Suc k)"
        using sleep_tick_waiting(1,3) [of "the_ctx (w k) i"] k(4,5) pos by (simp_all add: diff_diff_eq add.commute)
      then have "m \<noteq> i" using ready mi by auto
      then show ?thesis using m(1,2) False ne ts w by auto
    qed
  qed
  show ?thesis using * [of "unat n"] * by auto
qed

theorem sleeper_wakes_on_time_witness:
  "state (the_ctx (demo_run (\<lambda>_ _ _. None) 2) 3) = WAITING \<and>
   ticks_to_sleep (the_ctx (demo_run (\<lambda>_ _ _. None) 2) 3) = 1 \<and>
   state (the_ctx (demo_run (\<lambda>_ _ _. None) 3) 3) \<in> {READY, RUNNING}"
proof -
  note * = sleeper_wakes_on_time [of "demo_run (\<lambda>_ _ _. None)" 1 3 "\<lambda>_ _ _. None" 3]
  have "unat (3 :: u32) = 3" by simp
  then show ?thesis using * demo_inv demo_run_steps by (force simp: demo_ctxs)
qed

end
