(* ===== verification/Fair_Runs.thy ===== *)
theory Fair_Runs
  imports Fairness
begin

text \<open>
  Fairness over whole runs of the kernel: between two timer interrupts a process may make any system
  call, fault, sleep, exit, fork or clone. Every step that switches goes to the ready context nearest
  after the one that left, so a waiting ready context never gets farther away, and every timer
  interrupt brings it nearer.
\<close>

subsection \<open>Not farther away\<close>

definition no_farther :: "nat \<Rightarrow> kernel \<Rightarrow> kernel \<Rightarrow> bool" where
  "no_farther i s s' \<longleftrightarrow> (\<exists>c n. current s = Some c \<and> current s' = Some n \<and>
     (n = i \<or> state (the_ctx s' i) = READY \<and> rr_dist n i \<le> rr_dist c i))"

text \<open>The situation of a context that waits for the processor.\<close>

definition waiting :: "nat \<Rightarrow> nat \<Rightarrow> kernel \<Rightarrow> bool" where
  "waiting i c s \<longleftrightarrow> sched_inv s \<and> current s = Some c \<and> c \<noteq> i \<and> 0 < i \<and> i < MAX_PROCESSES \<and> state (the_ctx s i) = READY"

lemma waitingD:
  assumes "waiting i c s"
  shows "sched_inv s" "current s = Some c" "c \<noteq> i" "0 < i" "i < MAX_PROCESSES" "state (the_ctx s i) = READY"
  using assms by (simp_all add: waiting_def)

lemma no_farther_same:
  assumes "waiting i c s" "current s' = current s" "state (the_ctx s' i) = state (the_ctx s i)"
  shows "no_farther i s s'"
  using assms by (simp add: no_farther_def waiting_def)

lemma waiting_cong:
  assumes "waiting i c s" "sched_inv s'" "current s' = current s" "state (the_ctx s' i) = state (the_ctx s i)"
  shows "waiting i c s'"
  using assms by (simp add: waiting_def)

lemma waiting_procs: "waiting i c s \<Longrightarrow> procs s' = procs s \<Longrightarrow> waiting i c s'"
  using sched_inv_procs [of s' s] by (simp add: waiting_def the_ctx_def)

lemma no_farther_procs: "procs s1 = procs s \<Longrightarrow> no_farther i s1 s' = no_farther i s s'"
  by (simp add: no_farther_def)

text \<open>Leaving the processor.\<close>

lemma switch_from_no_farther:
  assumes w: "waiting i c s"
    and s': "length (ctx_list s') = MAX_PROCESSES" "\<And>k. k \<noteq> c \<Longrightarrow> the_ctx s' k = the_ctx s k"
      "pid (the_ctx s' c) = pid (the_ctx s c)"
    and sw: "switch_from c s' = Inr (fl, s'')"
  shows "no_farther i s s''"
proof -
  note W = waitingD [OF w] and D = sched_invD [OF waitingD(1) [OF w]]
  define n where "n = next_ready c s'"
  have p: "pick_next_context c s' = Inr (n, s')"
    unfolding n_def by (rule pick_next_context_eq) (use D(2-4) W(2) s'(3) in auto)
  then have sch: "schedule n s' = Inr (fl, s'')" using sw by (simp add: switch_from_def)
  have "is_ready s' i" using W(3,6) s'(2) by (simp add: is_ready_def)
  note near = next_ready_nearest [OF D(3) [OF W(2)] W(4,5) this, folded n_def]
  have n: "n < MAX_PROCESSES" using pick_next_context_inv(3) [OF W(1,2) s'(3) p] .
  have cur: "current s'' = Some n" "the_ctx s'' k = (if k = n then (the_ctx s' n)\<lparr>state := RUNNING\<rparr> else the_ctx s' k)" for k
    using sch n s'(1) by (auto simp: schedule_def Let_def set_tss_stack_ptr_def set_current_ctx_def the_ctx_upd)
  show ?thesis
  proof (cases "n = i")
    case False
    then have "rr_dist n i < rr_dist c i" using rr_dist_shift [OF D(3) [OF W(2)] _ n W(4,5) False near(2)] near(1) by simp
    moreover have "state (the_ctx s'' i) = READY" using cur(2) [of i] False W(3,6) s'(2) by simp
    ultimately show ?thesis using W(2) cur(1) by (simp add: no_farther_def)
  qed (use W(2) cur(1) in \<open>simp add: no_farther_def\<close>)
qed

lemma do_sleep_no_farther:
  assumes "waiting i c s" "do_sleep n s = Inr (fl, s')"
  shows "no_farther i s s'"
proof -
  note W = waitingD [OF assms(1)]
  have "switch_from c (upd_ctx c (\<lambda>ctx. ctx\<lparr>ticks_to_sleep := n, state := WAITING\<rparr>) s) = Inr (fl, s')"
    using assms(2) W(2) by (simp add: do_sleep_def get_current_ctx_def)
  then show ?thesis
    by (rule switch_from_no_farther [OF assms(1), rotated -1]) (use sched_invD(1) [OF W(1)] in \<open>auto simp: the_ctx_upd\<close>)
qed

lemma do_exit_no_farther:
  assumes "waiting i c s" "do_exit s = Inr (fl, s')"
  shows "no_farther i s s'"
proof -
  note W = waitingD [OF assms(1)]
  define s2 where "s2 = upd_ctx c (state_update (\<lambda>_. UNUSED)) (os_pfn_free OS_PT_REG (ucast (os_stack_pfn (the_ctx s c))) s)"
  define s3 where "s3 = s2\<lparr>stats := (stats s2)\<lparr>num_processes := num_processes (stats s2) - 1\<rparr>\<rparr>"
  have "state (the_ctx s2 i) \<noteq> UNUSED" using W(3,6) by (simp add: s2_def the_ctx_upd)
  then have "proc_exist s2" unfolding proc_exist_def list_ex_iff using W(4,5) by (intro bexI [of _ i]) auto
  then have "switch_from c s3 = Inr (fl, s')"
    using assms(2) W(2) by (simp add: do_exit_def get_current_ctx_def Let_def s2_def s3_def)
  then show ?thesis
    by (rule switch_from_no_farther [OF assms(1), rotated -1])
      (use sched_invD(1) [OF W(1)] in \<open>auto simp: s3_def s2_def the_ctx_upd\<close>)
qed

subsection \<open>Signals and faults\<close>

lemma signal_no_farther:
  assumes "waiting i c s" "invoke_sync_signal mmu sg rsp rip s = Inr (fl, s')"
  shows "no_farther i s s'"
proof -
  note W = waitingD [OF assms(1)]
  let ?h = "sighandlers (the_ctx s c) sg"
  consider "?h = 0" "sg \<noteq> SIGALRM" | "?h \<noteq> 0" | "?h = 0" "sg = SIGALRM" by blast
  then show ?thesis
  proof cases
    case 1
    then obtain f where "do_exit s = Inr (f, s')"
      using assms(2) W(2) by (auto simp: invoke_sync_signal_def get_current_ctx_def result_simps)
    then show ?thesis by (rule do_exit_no_farther [OF assms(1)])
  next
    case 2
    then have "procs s' = procs s"
      using assms(2) W(2) user_write_keeps by (fastforce simp: invoke_sync_signal_def get_current_ctx_def result_simps)
    then show ?thesis by (intro no_farther_same [OF assms(1)]) (simp_all add: the_ctx_def)
  next
    case 3
    then have "s' = s" using assms(2) W(2) by (auto simp: invoke_sync_signal_def get_current_ctx_def)
    then show ?thesis by (intro no_farther_same [OF assms(1)]) simp_all
  qed
qed

lemma raise_signal_no_farther:
  assumes "waiting i c s" "raise_signal mmu sg rg s = Inr (fl, s')"
  shows "no_farther i s s'"
proof -
  from assms(2) obtain fl' where "invoke_sync_signal mmu sg (entry_rsp rg) (entry_rip rg) s = Inr (fl', s')"
    by (cases "invoke_sync_signal mmu sg (entry_rsp rg) (entry_rip rg) s" rule: sum.exhaust)
      (auto simp: raise_signal_def result_simps)
  then show ?thesis by (rule signal_no_farther [OF assms(1)])
qed

lemma faults_no_farther:
  assumes "waiting i c s"
  shows "do_div_by_zero mmu rg s = Inr (fl, s') \<Longrightarrow> no_farther i s s'"
    "do_page_fault mmu cr2 rg err s = Inr (fl, s') \<Longrightarrow> no_farther i s s'"
    "do_gp cr2 err rip s = Inr (fl', s') \<Longrightarrow> no_farther i s s'"
proof -
  let ?c = "s\<lparr>stats := (stats s)\<lparr>page_faults := page_faults (stats s) + 1\<rparr>\<rparr>"
  have p: "waiting i c (printf f as s)" "waiting i c (printf f as (s\<lparr>stats := x\<rparr>))" for f as x
    using assms by (rule waiting_procs; simp)+
  have q: "procs (printf f as s) = procs s" "procs (printf f as (s\<lparr>stats := x\<rparr>)) = procs s" for f as x by simp_all
  show "do_div_by_zero mmu rg s = Inr (fl, s') \<Longrightarrow> no_farther i s s'"
    using raise_signal_no_farther [OF p(1)] no_farther_procs [OF q(1)] unfolding do_div_by_zero_def by blast
  have "no_farther i s (install_page_table ctx a e (s\<lparr>stats := x\<rparr>))" for ctx a e x
    by (intro no_farther_same [OF assms]) (simp_all add: the_ctx_def)
  then show "do_page_fault mmu cr2 rg err s = Inr (fl, s') \<Longrightarrow> no_farther i s s'"
    using raise_signal_no_farther [OF p(2)] no_farther_procs [OF q(2)]
    by (auto simp: do_page_fault_def Let_def split: option.splits if_splits)
  show "do_gp cr2 err rip s = Inr (fl', s') \<Longrightarrow> no_farther i s s'"
    using do_exit_no_farther [OF p(1)] no_farther_procs [OF q(1)] by (fastforce simp: do_gp_def result_simps)
qed

subsection \<open>System calls\<close>

lemma upd_state:
  assumes "\<And>ctx. state (f ctx) = state ctx"
  shows "current (upd_ctx c f s) = current s \<and> state (the_ctx (upd_ctx c f s) i) = state (the_ctx s i)"
  using assms by (simp add: the_ctx_upd)

lemma small_calls_keep:
  fixes s :: "'a kernel_scheme"
  shows "do_write mmu ctx a k s = Inr (fl, s') \<Longrightarrow> current s' = current s \<and> state (the_ctx s' i) = state (the_ctx s i)"
    "do_expand c a t s = Inr (fl, s') \<Longrightarrow> current s' = current s \<and> state (the_ctx s' i) = state (the_ctx s i)"
    "do_shrink c a t s = Inr (fl, s') \<Longrightarrow> current s' = current s \<and> state (the_ctx s' i) = state (the_ctx s i)"
    "do_alarm m s = Inr (fl, s') \<Longrightarrow> current s' = current s \<and> state (the_ctx s' i) = state (the_ctx s i)"
    "do_signal g h s = Inr (fl, s') \<Longrightarrow> current s' = current s \<and> state (the_ctx s' i) = state (the_ctx s i)"
proof -
  show "do_write mmu ctx a k s = Inr (fl, s') \<Longrightarrow> current s' = current s \<and> state (the_ctx s' i) = state (the_ctx s i)"
    by (auto simp: do_write_def print_user_def result_simps the_ctx_def split: if_splits)
  show "do_expand c a t s = Inr (fl, s') \<Longrightarrow> current s' = current s \<and> state (the_ctx s' i) = state (the_ctx s i)"
    by (auto simp: do_expand_def Let_def upd_state split: option.splits if_splits)
  show "do_shrink c a t s = Inr (fl, s') \<Longrightarrow> current s' = current s \<and> state (the_ctx s' i) = state (the_ctx s i)"
  proof -
    assume d: "do_shrink c a t s = Inr (fl, s')"
    have loop: "current s'' = current s \<and> state (the_ctx s'' i) = state (the_ctx s i)"
      if "up_loop (\<lambda>address s. snd (do_unmap_user (the_ctx s c) address s)) lim v (upd_ctx c (upd_seg k f) s) = Inr s''"
      for lim v k f s''
    proof -
      have "procs s'' = procs (upd_ctx c (upd_seg k f) s)" by (rule up_loop_keeps [OF that, where f = procs]) simp
      then show ?thesis using upd_state [of "upd_seg k f" c s i] by (simp add: the_ctx_def)
    qed
    show ?thesis using d loop by (auto simp: do_shrink_def Let_def result_simps split: option.splits if_splits)
  qed
  show "do_alarm m s = Inr (fl, s') \<Longrightarrow> current s' = current s \<and> state (the_ctx s' i) = state (the_ctx s i)"
    by (auto simp: do_alarm_def upd_state split: option.splits if_splits)
  show "do_signal g h s = Inr (fl, s') \<Longrightarrow> current s' = current s \<and> state (the_ctx s' i) = state (the_ctx s i)"
    by (auto simp: do_signal_def upd_state split: option.splits if_splits)
qed

lemma syscall_entry_same: "current (syscall_entry c rg s) = current s" "state (the_ctx (syscall_entry c rg s) i) = state (the_ctx s i)"
  by (simp_all add: syscall_entry_def Let_def the_ctx_upd)

lemma do_syscall_no_farther:
  assumes "waiting i c s" "do_syscall mmu rg n p1 p2 s = Inr (fl, s')"
  shows "no_farther i s s'"
proof -
  note W = waitingD [OF assms(1)]
  define s1 where "s1 = syscall_entry c rg s"
  have w1: "waiting i c s1"
    unfolding s1_def by (rule waiting_cong [OF assms(1) syscall_entry_inv [OF W(1)] syscall_entry_same])
  note eq = assms(2) [unfolded do_syscall_def get_current_ctx_def W(2) option.case Let_def,
    folded syscall_entry_def [unfolded Let_def], folded s1_def]
  have c1: "current s1 = Some c" by (rule waitingD(2) [OF w1])
  have same: "no_farther i s1 s'" if "current s' = current s1 \<and> state (the_ctx s' i) = state (the_ctx s1 i)"
    using no_farther_same [OF w1] that by blast
  have ready: "state (the_ctx s1 i) \<noteq> UNUSED" using waitingD(6) [OF w1] by simp
  have "no_farther i s1 s'"
  proof -
    consider "n = 1" | "n = 3" | "n = 4" | "n = 5" | "n = 6" | "n = 7" | "n = 8" | "n = 9" | "n = 10"
      | "n \<notin> {1, 3, 4, 5, 6, 7, 8, 9, 10}" by blast
    then show ?thesis
    proof cases
      case 1
      then obtain f where "do_exit s1 = Inr (f, s')" using eq by (auto simp: result_simps)
      then show ?thesis by (rule do_exit_no_farther [OF w1])
    next
      case 2
      then have "do_write mmu (the_ctx s1 c) p1 p2 s1 = Inr (fl, s')" using eq by simp
      then show ?thesis by (intro same small_calls_keep(1))
    next
      case 3
      then have "do_expand c p1 (ucast p2) s1 = Inr (fl, s')" using eq by simp
      then show ?thesis by (intro same small_calls_keep(2))
    next
      case 4
      then have "do_shrink c p1 (ucast p2) s1 = Inr (fl, s')" using eq by simp
      then show ?thesis by (intro same small_calls_keep(3))
    next
      case 5
      then have "do_alarm (ucast p1) s1 = Inr (fl, s')" using eq by simp
      then show ?thesis by (intro same small_calls_keep(4))
    next
      case 6
      then have "do_sleep (ucast p1) s1 = Inr (fl, s')" using eq by simp
      then show ?thesis by (rule do_sleep_no_farther [OF w1])
    next
      case 7
      then have "do_signal (ucast p1) p2 s1 = Inr (fl, s')" using eq by simp
      then show ?thesis by (intro same small_calls_keep(5))
    next
      case 8
      then have "do_clone p1 p2 s1 = Inr (fl, s')" using eq by simp
      from do_clone_inv(3,4) [OF waitingD(1) [OF w1] this] ready show ?thesis by (intro same) simp
    next
      case 9
      then have "do_fork s1 = Inr (fl, s')" using eq by simp
      from do_fork_inv(3,4) [OF waitingD(1) [OF w1] this] ready show ?thesis by (intro same) simp
    next
      case 10
      then have "current s' = current s1 \<and> (\<forall>k. the_ctx s' k = the_ctx s1 k)"
        using eq by (auto simp: print_stats_def result_simps the_ctx_def split: if_splits)
      then show ?thesis by (intro same) simp
    qed
  qed
  then show ?thesis using c1 W(2) by (simp add: no_farther_def)
qed
subsection \<open>Runs\<close>

text \<open>The steps of a run that are timer interrupts.\<close>

definition timer_interrupt :: "mmu \<Rightarrow> world \<Rightarrow> world \<Rightarrow> bool" where
  "timer_interrupt mmu w w' \<longleftrightarrow>
     (\<exists>rg s fl s'. w = User rg s \<and> do_irq mmu rg s = Inr (fl, s') \<and> w' = resume (\<lambda>rg'. rg') fl s')"

definition ticks_in :: "mmu \<Rightarrow> (nat \<Rightarrow> world) \<Rightarrow> nat \<Rightarrow> nat" where
  "ticks_in mmu w n = card {k. k < n \<and> timer_interrupt mmu (w k) (w (Suc k))}"

lemma ticks_in_simps [simp]:
  "ticks_in mmu w 0 = 0"
  "ticks_in mmu w (Suc n) = ticks_in mmu w n + (if timer_interrupt mmu (w n) (w (Suc n)) then 1 else 0)"
proof -
  have "{k. k < Suc n \<and> timer_interrupt mmu (w k) (w (Suc k))} =
    (if timer_interrupt mmu (w n) (w (Suc n)) then insert n else (\<lambda>x. x)) {k. k < n \<and> timer_interrupt mmu (w k) (w (Suc k))}"
    by (auto simp: less_Suc_eq)
  then show "ticks_in mmu w (Suc n) = ticks_in mmu w n + (if timer_interrupt mmu (w n) (w (Suc n)) then 1 else 0)"
    by (simp add: ticks_in_def)
qed (simp add: ticks_in_def)

inductive_cases kstep_userE: "kstep mmu (User rg s) w'"

lemma world_resume [simp]: "world_state (resume f fl s) = s"
  by (cases fl) simp_all

lemma kstep_no_farther:
  assumes "kstep mmu (User rg s) w'" "waiting i c s"
  shows "no_farther i s (world_state w')"
proof -
  note W = waitingD [OF assms(2)]
  from assms(1) show ?thesis
  proof (rule kstep_userE)
    fix m rg' assume "w' = User rg' (s\<lparr>mem := m\<rparr>)"
    then show ?thesis by (intro no_farther_same [OF assms(2)]) simp_all
  next
    fix fl s' assume t: "do_irq mmu rg s = Inr (fl, s')" and w': "w' = resume (\<lambda>rg'. rg') fl s'"
    have "handle_timer_tick mmu rg (s\<lparr>mem := mem s\<rparr>) = Inr (fl, s')" using t by (simp add: do_irq_def)
    moreover from this obtain rg' where "fl = Return rg'"
      using handle_timer_tick_inv(2) [of "s\<lparr>mem := mem s\<rparr>" mmu rg fl s'] W(1) by auto
    ultimately have step: "tick_step mmu s s'" unfolding tick_step_def by blast
    have "no_farther i s s'"
    proof (cases "current s' = Some i")
      case False
      from tick_step_nearer [OF W(1,2) step W(4,5,6) False] show ?thesis
        using W(2) by (metis no_farther_def order_less_imp_le)
    qed (use W(2) in \<open>simp add: no_farther_def\<close>)
    then show ?thesis by (simp add: w')
  next
    fix n p1 p2 fl s' assume "do_syscall mmu rg n p1 p2 s = Inr (fl, s')" "w' = resume (\<lambda>v. rg\<lparr>rax := v\<rparr>) fl s'"
    then show ?thesis using do_syscall_no_farther [OF assms(2)] by simp
  next
    fix fl s' assume "do_div_by_zero mmu rg s = Inr (fl, s')" "w' = resume (\<lambda>rg'. rg') fl s'"
    then show ?thesis using faults_no_farther(1) [OF assms(2)] by simp
  next
    fix cr2 err fl s' assume "do_page_fault mmu cr2 rg err s = Inr (fl, s')" "w' = resume (\<lambda>rg'. rg') fl s'"
    then show ?thesis using faults_no_farther(2) [OF assms(2)] by simp
  next
    fix cr2 err fl s' assume "do_gp cr2 err (entry_rip rg) s = Inr (fl, s')" "w' = resume (\<lambda>_. rg) fl s'"
    then show ?thesis using faults_no_farther(3) [OF assms(2)] by simp
  qed
qed

text \<open>One step of a run: the context gets the processor, or it goes on waiting in a program's world, no
  farther away, and nearer after a timer interrupt.\<close>

lemma kstep_waiting:
  assumes "kstep mmu (User rg s) w'" "waiting i c s" "current (world_state w') \<noteq> Some i"
  obtains rg' s' n where "w' = User rg' s'" "waiting i n s'"
    "rr_dist n i + (if timer_interrupt mmu (User rg s) w' then 1 else 0) \<le> rr_dist c i"
proof -
  note W = waitingD [OF assms(2)]
  obtain n where n: "current (world_state w') = Some n" "state (the_ctx (world_state w') i) = READY" "rr_dist n i \<le> rr_dist c i"
    using kstep_no_farther [OF assms(1,2)] assms(3) W(2) by (auto simp: no_farther_def)
  have inv: "world_inv w'" by (rule kstep_inv [OF assms(1)]) (simp add: world_inv_def W(1))
  obtain rg' s' where w': "w' = User rg' s'" using inv n(1) by (cases w') (auto simp: world_inv_def)
  have wait: "waiting i n s'"
    using inv n(1,2) assms(3) W(4,5) by (auto simp: w' world_inv_def waiting_def)
  have "rr_dist n i < rr_dist c i" if tick: "timer_interrupt mmu (User rg s) w'"
  proof -
    obtain fl t where t: "do_irq mmu rg s = Inr (fl, t)" "w' = resume (\<lambda>rg'. rg') fl t"
      using tick unfolding timer_interrupt_def by blast
    then have h: "handle_timer_tick mmu rg (s\<lparr>mem := mem s\<rparr>) = Inr (fl, t)" by (simp add: do_irq_def)
    then obtain r where fl: "fl = Return r" using handle_timer_tick_inv(2) [of "s\<lparr>mem := mem s\<rparr>" mmu rg fl t] W(1) by auto
    then have "s' = t" using t(2) w' by simp
    moreover from h fl have "tick_step mmu s t" unfolding tick_step_def by blast
    ultimately show ?thesis
      using tick_step_nearer [OF W(1,2) _ W(4,5,6)] n(1) assms(3) by (metis option.inject w' world_state.simps(1))
  qed
  with n(3) show ?thesis by (intro that [OF w' wait]) (auto split: if_splits)
qed

text \<open>C1: Fairness. Take any run of the kernel whose steps are anything a process can do,
  namely computation, system calls (\<open>sleep\<close>, \<open>exit\<close>, \<open>fork\<close>
  and \<open>clone\<close> among them), faults and timer interrupts, from a well-formed process
  table. A process that is ready at the start is the current one at some point of the run, at the
  latest after its fifteenth timer interrupt.\<close>

theorem ready_context_runs_within_15_ticks:
  assumes "w 0 = User rg s" "sched_inv s" "current s = Some c" "0 < i" "i < MAX_PROCESSES" "state (the_ctx s i) = READY"
    and "\<And>k. k < n \<Longrightarrow> kstep mmu (w k) (w (Suc k))" "15 \<le> ticks_in mmu w n"
  shows "\<exists>k \<le> n. current (world_state (w k)) = Some i"
proof (rule ccontr)
  assume none: "\<not> ?thesis"
  then have "current (world_state (w 0)) \<noteq> Some i" by blast
  then have start: "waiting i c s" using assms by (auto simp: waiting_def)
  have "\<exists>rg s d. w k = User rg s \<and> waiting i d s \<and> rr_dist d i + ticks_in mmu w k \<le> rr_dist c i" if "k \<le> n" for k
    using that
  proof (induction k)
    case 0
    show ?case by (intro exI [of _ rg] exI [of _ s] exI [of _ c]) (simp add: assms(1) start)
  next
    case (Suc k)
    then obtain rg s d where k: "w k = User rg s" "waiting i d s" "rr_dist d i + ticks_in mmu w k \<le> rr_dist c i" by auto
    have "kstep mmu (User rg s) (w (Suc k))" "current (world_state (w (Suc k))) \<noteq> Some i"
      using assms(7) [of k] Suc.prems k(1) none by auto
    from kstep_waiting [OF this(1) k(2) this(2)] obtain rg' s' d' where "w (Suc k) = User rg' s'" "waiting i d' s'"
      "rr_dist d' i + (if timer_interrupt mmu (User rg s) (w (Suc k)) then 1 else 0) \<le> rr_dist d i" .
    then show ?case using k(1,3) by (auto split: if_splits)
  qed
  from this [of n] obtain s' d where d: "waiting i d s'" "rr_dist d i + 15 \<le> rr_dist c i" using assms(8) by auto
  note W = waitingD [OF d(1)] and W0 = waitingD [OF start]
  have "0 < rr_dist d i" by (rule rr_dist_bounds(1) [OF sched_invD(3) [OF W(1,2)] W(4,5)])
  moreover have "rr_dist c i \<le> 15" by (rule rr_dist_bounds(2) [OF sched_invD(3) [OF W0(1,2)] W0(4,5)])
  ultimately show False using d(2) by simp
qed

text \<open>A run: process 1 asks for its identifier, then timer interrupts follow.\<close>

fun demo_step :: "nat \<Rightarrow> world \<Rightarrow> world" where
  "demo_step k (User rg s) =
     (case if k = 0 then do_syscall (\<lambda>_ _ _. None) rg 2 0 0 s
           else bind_result (do_irq (\<lambda>_ _ _. None) rg s) (\<lambda>r s'. Inr (Iret r, s')) of
        Inr (fl, s') \<Rightarrow> resume (\<lambda>v. rg\<lparr>rax := v\<rparr>) fl s' | Inl _ \<Rightarrow> User rg s)"
| "demo_step k (At_Shell s) = At_Shell s"

primrec demo_world :: "nat \<Rightarrow> world" where
  "demo_world 0 = User zero_regs demo"
| "demo_world (Suc k) = demo_step k (demo_world k)"

lemma demo_world_call:
  obtains rg s where "demo_world (Suc 0) = User rg s" "no_alarm s" "kstep (\<lambda>_ _ _. None) (demo_world 0) (demo_world (Suc 0))"
proof -
  define s1 where "s1 = syscall_entry 1 zero_regs demo"
  have call: "do_syscall (\<lambda>_ _ _. None) zero_regs 2 0 0 demo = Inr (Return (ucast (pid (the_ctx s1 1))), s1)"
    by (simp add: do_syscall_def get_current_ctx_def demo_inv(2) Let_def s1_def syscall_entry_def)
  have "no_alarm demo" using demo_no_alarm [of undefined 0] by simp
  then have "no_alarm s1"
    using syscall_entry_inv [of demo 1 zero_regs] syscall_entry_same(1) [of 1 zero_regs demo]
    by (simp add: no_alarm_def s1_def) (simp add: syscall_entry_def Let_def the_ctx_upd)
  moreover have "kstep (\<lambda>_ _ _. None) (demo_world 0) (demo_world (Suc 0))"
    using kstep.syscall [OF call] call by simp
  ultimately show ?thesis using that call by simp
qed

lemma demo_world_tick:
  assumes "demo_world (Suc k) = User rg s" "no_alarm s"
  obtains rg' s' where "demo_world (Suc (Suc k)) = User rg' s'" "no_alarm s'"
    "timer_interrupt (\<lambda>_ _ _. None) (demo_world (Suc k)) (demo_world (Suc (Suc k)))"
    "kstep (\<lambda>_ _ _. None) (demo_world (Suc k)) (demo_world (Suc (Suc k)))"
proof -
  obtain rg' s' where t: "do_irq (\<lambda>_ _ _. None) rg s = Inr (Return rg', s')" "no_alarm s'"
    using no_alarm_tick [OF assms(2), of "\<lambda>_ _ _. None" rg] by (auto simp: do_irq_def)
  then have w: "demo_world (Suc (Suc k)) = resume (\<lambda>rg'. rg') (Return rg') s'" using assms(1) by (simp add: result_simps)
  then have "timer_interrupt (\<lambda>_ _ _. None) (demo_world (Suc k)) (demo_world (Suc (Suc k)))"
    unfolding timer_interrupt_def assms(1) w using t(1) by blast
  moreover have "kstep (\<lambda>_ _ _. None) (demo_world (Suc k)) (demo_world (Suc (Suc k)))"
    unfolding assms(1) w by (rule kstep.tick [OF t(1)])
  ultimately show ?thesis using that w t(2) by simp
qed

lemma demo_world_ok: "\<exists>rg s. demo_world (Suc k) = User rg s \<and> no_alarm s"
proof (induction k)
  case 0
  show ?case by (rule demo_world_call) blast
next
  case (Suc k)
  then obtain rg s where "demo_world (Suc k) = User rg s" "no_alarm s" by blast
  then show ?case by (rule demo_world_tick) blast
qed

lemma demo_world_steps:
  "kstep (\<lambda>_ _ _. None) (demo_world k) (demo_world (Suc k))"
  "0 < k \<Longrightarrow> timer_interrupt (\<lambda>_ _ _. None) (demo_world k) (demo_world (Suc k))"
proof -
  have t: "timer_interrupt (\<lambda>_ _ _. None) (demo_world (Suc j)) (demo_world (Suc (Suc j)))"
    "kstep (\<lambda>_ _ _. None) (demo_world (Suc j)) (demo_world (Suc (Suc j)))" for j
  proof -
    obtain rg s where "demo_world (Suc j) = User rg s" "no_alarm s" using demo_world_ok by blast
    then show "timer_interrupt (\<lambda>_ _ _. None) (demo_world (Suc j)) (demo_world (Suc (Suc j)))"
      "kstep (\<lambda>_ _ _. None) (demo_world (Suc j)) (demo_world (Suc (Suc j)))" by (rule demo_world_tick; blast)+
  qed
  show "kstep (\<lambda>_ _ _. None) (demo_world k) (demo_world (Suc k))"
  proof (cases k)
    case 0
    then show ?thesis using demo_world_call by metis
  qed (use t(2) in blast)
  show "0 < k \<Longrightarrow> timer_interrupt (\<lambda>_ _ _. None) (demo_world k) (demo_world (Suc k))" using t(1) [of "k - 1"] by simp
qed

lemma demo_world_ticks: "n \<le> ticks_in (\<lambda>_ _ _. None) demo_world (Suc n)"
proof (induction n)
  case (Suc n)
  then show ?case using demo_world_steps(2) [of "Suc n"] by (subst ticks_in_simps(2)) simp
qed simp

theorem ready_context_runs_within_15_ticks_witness:
  "\<exists>k \<le> 16. current (world_state (demo_world k)) = Some 2"
proof -
  have "15 \<le> ticks_in (\<lambda>_ _ _. None) demo_world 16" using demo_world_ticks [of 15] by simp
  from ready_context_runs_within_15_ticks [OF demo_world.simps(1) demo_inv _ _ _ demo_world_steps(1) this]
  show ?thesis by (simp add: demo_ctxs)
qed

end
