(* ===== verification/Page_Bitmap.thy ===== *)
theory Page_Bitmap
  imports Page_Alloc
begin

text \<open>
  The page allocator seen through its bitmaps. \<open>page_used m r k\<close> reads the bit of page \<open>k\<close> of
  region \<open>r\<close> out of physical memory; the lemmas say what setting and clearing a bit does to it,
  what the two search loops of \<open>get_free_page\<close> find, and which page the allocator returns:
  \<open>get_free_page_result\<close> when the scanned window of the bitmap has a free page, and
  \<open>get_free_page_window_full\<close> when it has none.
\<close>

subsection \<open>Geometry of the regions\<close>

fun region_base :: "region \<Rightarrow> nat" where
  "region_base OS_DS_REG = 2048"
| "region_base OS_PT_REG = 8192"
| "region_base USER_REG = 25600"

fun region_pages :: "region \<Rightarrow> nat" where
  "region_pages OS_DS_REG = 6144"
| "region_pages OS_PT_REG = 17408"
| "region_pages USER_REG = 105472"

fun region_reserved :: "region \<Rightarrow> nat" where
  "region_reserved OS_DS_REG = 1"
| "region_reserved OS_PT_REG = 1"
| "region_reserved USER_REG = 4"

definition region_start :: "region \<Rightarrow> u64" where
  "region_start r = push_bit 12 (of_nat (region_base r))"

definition bmap_addr :: "region \<Rightarrow> nat \<Rightarrow> u64" where
  "bmap_addr r i = region_start r + 4 * of_nat i"

definition page_used :: "memory \<Rightarrow> region \<Rightarrow> nat \<Rightarrow> bool" where
  "page_used m r k \<longleftrightarrow> bit (rd32 m (bmap_addr r (k div 32))) (k mod 32)"

definition geometry :: "region \<Rightarrow> page_list \<Rightarrow> bool" where
  "geometry r pgl \<longleftrightarrow> pgl_size pgl = of_nat (region_pages r) \<and>
     start_address pgl = region_start r \<and> bitmap pgl = region_start r"

lemma region_bounds:
  "region_base r < 2 ^ 15" "region_pages r < 2 ^ 17" "region_base r + region_pages r \<le> 131072"
  "region_pages r div 8 \<le> 4096 * region_reserved r" "region_reserved r < region_pages r"
  "256 \<le> region_pages r" "32 dvd region_pages r" "0 < region_base r"
  by (cases r; simp)+

lemma unat_region_start [simp]: "unat (region_start r) = 4096 * region_base r"
  by (cases r) (simp_all add: region_start_def)

lemma aligned_region_start [simp]: "k \<le> 12 \<Longrightarrow> aligned k (region_start r)"
  by (simp add: region_start_def)

lemma frame_region_start [simp]: "frame_of (region_start r) = of_nat (region_base r)"
  by (cases r) (simp_all add: region_start_def)

lemma unat_bmap_addr:
  assumes "i < region_pages r div 32"
  shows "unat (bmap_addr r i) = 4096 * region_base r + 4 * i"
proof -
  have i: "i < 4096" using assms region_bounds(2) [of r] by simp
  then have "unat (4 * of_nat i :: u64) = 4 * i" by (simp add: unat_word_ariths unat_of_nat)
  moreover have "4096 * region_base r + 4 * i < 2 ^ 64" using i region_bounds(1) [of r] by simp
  ultimately show ?thesis by (simp add: bmap_addr_def unat_word_ariths)
qed

lemma aligned_bmap_addr [simp]: "aligned 2 (bmap_addr r i)"
  unfolding bmap_addr_def by (rule aligned_plus) (simp, rule aligned_mult, simp)

lemma bmap_addr_inj:
  assumes "i < region_pages r div 32" "j < region_pages r div 32" "bmap_addr r i = bmap_addr r j"
  shows "i = j"
proof -
  have "unat (bmap_addr r i) = unat (bmap_addr r j)" using assms(3) by (rule arg_cong)
  then show ?thesis by (simp only: unat_bmap_addr [OF assms(1)] unat_bmap_addr [OF assms(2)])
qed

lemma frame_bmap_addr:
  assumes "i < region_pages r div 32"
  shows "region_base r \<le> unat (frame_of (bmap_addr r i))"
    "unat (frame_of (bmap_addr r i)) < region_base r + region_reserved r"
proof -
  have "unat (frame_of (bmap_addr r i)) = (4096 * region_base r + 4 * i) div 4096"
    by (simp only: unat_drop unat_bmap_addr [OF assms]) simp
  moreover have "4 * i < 4096 * region_reserved r"
    using assms region_bounds(4,7) [of r] by auto
  ultimately show "region_base r \<le> unat (frame_of (bmap_addr r i))"
    "unat (frame_of (bmap_addr r i)) < region_base r + region_reserved r" by auto
qed

lemma bmap_word_eq:
  assumes "geometry r pgl" "i < region_pages r div 32"
  shows "bmap_word pgl (of_nat i) = bmap_addr r i"
proof -
  have i: "i < 4096" using assms region_bounds(2) [of r] by simp
  then have "unat (push_bit 2 (of_nat i :: u32)) = 4 * i"
    by (simp add: push_bit_eq_mult unat_word_ariths unat_of_nat)
  moreover have "unat (4 * of_nat i :: u64) = 4 * i" using i by (simp add: unat_word_ariths unat_of_nat)
  ultimately have "(ucast (push_bit 2 (of_nat i :: u32)) :: u64) = 4 * of_nat i"
    by (simp add: word_unat_eq_iff)
  then show ?thesis using assms(1) by (simp add: bmap_word_def bmap_addr_def geometry_def)
qed

text \<open>A page index splits into its bitmap word and its bit.\<close>

lemma page_index_split:
  fixes k :: nat
  assumes "k < 2 ^ 17"
  shows "drop_bit 5 (of_nat k :: u32) = of_nat (k div 32)"
    "unat (of_nat k - push_bit 5 (drop_bit 5 (of_nat k :: u32)) :: u32) = k mod 32"
proof -
  have small: "k div 32 < 2 ^ 12" using assms by auto
  show a: "drop_bit 5 (of_nat k :: u32) = of_nat (k div 32)"
    using assms by (simp add: word_unat_eq_iff unat_drop unat_of_nat_small)
  have "push_bit 5 (of_nat (k div 32) :: u32) = of_nat (32 * (k div 32))"
    by (simp add: push_bit_eq_mult)
  moreover have "(of_nat k :: u32) = of_nat (32 * (k div 32)) + of_nat (k mod 32)"
    by (simp only: mult_div_mod_eq flip: of_nat_add)
  ultimately have "of_nat k - push_bit 5 (drop_bit 5 (of_nat k :: u32)) = (of_nat (k mod 32) :: u32)"
    using a by simp
  then show "unat (of_nat k - push_bit 5 (drop_bit 5 (of_nat k :: u32)) :: u32) = k mod 32"
    by (simp add: unat_of_nat_small)
qed

lemma bit_set_bit_c: "b < 32 \<Longrightarrow> bit (set_bit_c x b) i \<longleftrightarrow> i = b \<or> bit x i"
  by (auto simp: set_bit_c_def bit_simps)

lemma bit_clear_bit_c: "bit (clear_bit_c x b) i \<longleftrightarrow> i \<noteq> b \<and> bit x i"
  by (auto simp: clear_bit_c_def bit_simps dest: bit_imp_le_length)

lemma is_set_c_iff [simp]: "is_set_c x b = 0 \<longleftrightarrow> \<not> bit x b"
  by (auto simp: is_set_c_def bit_iff_odd_drop_bit and_one_eq even_iff_mod_2_eq_zero)

lemma page_used_bmap_update:
  assumes "geometry r pgl" "k < region_pages r" "j < region_pages r"
    "\<And>m. upd pgl (of_nat k) m = (let p = bmap_word pgl (drop_bit 5 (of_nat k)) in
        wr32 m p (f (rd32 m p) (k mod 32)))"
  shows "page_used (upd pgl (of_nat k) m) r j \<longleftrightarrow>
    (if j div 32 = k div 32 then bit (f (rd32 m (bmap_addr r (k div 32))) (k mod 32)) (j mod 32)
     else page_used m r j)"
proof -
  have k: "k div 32 < region_pages r div 32" and j: "j div 32 < region_pages r div 32"
    using assms(2,3) region_bounds(7) [of r] by (auto simp: div_less_iff_less_mult dvd_def elim!: dvdE)
  have "drop_bit 5 (of_nat k :: u32) = of_nat (k div 32)"
    using assms(2) region_bounds(2) [of r] by (intro page_index_split) simp
  then have upd: "upd pgl (of_nat k) m = wr32 m (bmap_addr r (k div 32))
      (f (rd32 m (bmap_addr r (k div 32))) (k mod 32))"
    using bmap_word_eq [OF assms(1) k] assms(4) by (simp add: Let_def)
  show ?thesis
  proof (cases "j div 32 = k div 32")
    case False
    then have "bmap_addr r (k div 32) \<noteq> bmap_addr r (j div 32)" using bmap_addr_inj [OF k j] by auto
    then show ?thesis using False by (simp add: upd page_used_def rd32_wr32_other)
  qed (simp add: upd page_used_def)
qed


lemma bmap_set_unfold:
  "k < region_pages r \<Longrightarrow> pgl_bmap_set pgl (of_nat k) m =
     (let p = bmap_word pgl (drop_bit 5 (of_nat k)) in wr32 m p (set_bit_c (rd32 m p) (k mod 32)))"
  using region_bounds(2) [of r] by (simp add: pgl_bmap_set_def Let_def page_index_split(2))

lemma bmap_clear_unfold:
  "k < region_pages r \<Longrightarrow> pgl_bmap_clear pgl (of_nat k) m =
     (let p = bmap_word pgl (drop_bit 5 (of_nat k)) in wr32 m p (clear_bit_c (rd32 m p) (k mod 32)))"
  using region_bounds(2) [of r] by (simp add: pgl_bmap_clear_def Let_def page_index_split(2))

lemma same_page_index: "j div 32 = k div 32 \<Longrightarrow> j mod 32 = k mod 32 \<longleftrightarrow> j = (k::nat)"
  by (metis div_mult_mod_eq)

lemma page_used_set:
  assumes "geometry r pgl" "k < region_pages r" "j < region_pages r"
  shows "page_used (pgl_bmap_set pgl (of_nat k) m) r j \<longleftrightarrow> j = k \<or> page_used m r j"
  by (subst page_used_bmap_update [where f = set_bit_c, OF assms])
    (auto simp: bmap_set_unfold [OF assms(2)] bit_set_bit_c same_page_index page_used_def)

lemma page_used_clear:
  assumes "geometry r pgl" "k < region_pages r" "j < region_pages r"
  shows "page_used (pgl_bmap_clear pgl (of_nat k) m) r j \<longleftrightarrow> j \<noteq> k \<and> page_used m r j"
  by (subst page_used_bmap_update [where f = clear_bit_c, OF assms])
    (auto simp: bmap_clear_unfold [OF assms(2)] bit_clear_bit_c same_page_index page_used_def)

lemma div32_less: "k < region_pages r \<Longrightarrow> k div 32 < region_pages r div 32"
  using region_bounds(7) [of r] by (auto simp: div_less_iff_less_mult dvd_def elim!: dvdE)

lemma bmap_set_frame:
  assumes "geometry r pgl" "k < region_pages r"
    "\<not> (region_base r \<le> unat (frame_of a) \<and> unat (frame_of a) < region_base r + region_reserved r)"
  shows "pgl_bmap_set pgl (of_nat k) m a = m a" "pgl_bmap_clear pgl (of_nat k) m a = m a"
proof -
  have w: "bmap_word pgl (drop_bit 5 (of_nat k)) = bmap_addr r (k div 32)"
    using bmap_word_eq [OF assms(1) div32_less [OF assms(2)]] assms(2) region_bounds(2) [of r]
    by (simp add: page_index_split)
  have "frame_of a \<noteq> frame_of (bmap_addr r (k div 32))"
    using frame_bmap_addr [OF div32_less [OF assms(2)]] assms(3) by metis
  then show "pgl_bmap_set pgl (of_nat k) m a = m a" "pgl_bmap_clear pgl (of_nat k) m a = m a"
    by (simp_all add: bmap_set_unfold [OF assms(2)] bmap_clear_unfold [OF assms(2)] w
        wr32_frame [where n = 12] Let_def)
qed

subsection \<open>The two loops of \<open>get_free_page\<close>\<close>

lemma first_clear_spec:
  "b \<le> 32 \<Longrightarrow> b \<le> first_clear w b \<and> first_clear w b \<le> 32 \<and>
     (first_clear w b < 32 \<longrightarrow> \<not> bit w (first_clear w b)) \<and> (\<forall>c. b \<le> c \<and> c < first_clear w b \<longrightarrow> bit w c)"
proof (induction w b rule: first_clear.induct)
  case (1 w b)
  show ?case
  proof (cases "b < 32 \<and> bit w b")
    case True
    with "1.IH" have IH: "Suc b \<le> first_clear w (Suc b)" "first_clear w (Suc b) \<le> 32"
      "first_clear w (Suc b) < 32 \<longrightarrow> \<not> bit w (first_clear w (Suc b))"
      "\<And>c. Suc b \<le> c \<Longrightarrow> c < first_clear w (Suc b) \<Longrightarrow> bit w c" by auto
    have eq: "first_clear w b = first_clear w (Suc b)"
      using True by (simp add: first_clear.simps [of w b])
    have "bit w c" if "b \<le> c" "c < first_clear w (Suc b)" for c
      using that IH(4) [of c] True by (cases "c = b") auto
    with IH show ?thesis unfolding eq by auto
  next
    case False
    then have "first_clear w b = b" by (auto simp: first_clear.simps [of w b])
    with "1.prems" False show ?thesis by auto
  qed
qed

lemma first_clear_0:
  "first_clear w 0 \<le> 32" "first_clear w 0 < 32 \<longleftrightarrow> w \<noteq> 0xffffffff"
  "first_clear w 0 < 32 \<Longrightarrow> \<not> bit w (first_clear w 0)"
proof -
  note spec = first_clear_spec [of 0 w, simplified]
  show "first_clear w 0 \<le> 32" "first_clear w 0 < 32 \<Longrightarrow> \<not> bit w (first_clear w 0)"
    using spec by auto
  have full: "bit (0xffffffff :: u32) i" if "i < 32" for i
  proof -
    have "(0xffffffff :: u32) = - 1" by simp
    then show ?thesis using that by (simp only: bit_minus_1_iff) simp
  qed
  show "first_clear w 0 < 32 \<longleftrightarrow> w \<noteq> 0xffffffff"
  proof
    assume "first_clear w 0 < 32"
    then show "w \<noteq> 0xffffffff" using spec full by blast
  next
    assume ne: "w \<noteq> 0xffffffff"
    show "first_clear w 0 < 32"
    proof (rule ccontr)
      assume "\<not> first_clear w 0 < 32"
      then have "bit w i" if "i < 32" for i using spec that by simp
      then have "w = 0xffffffff" using full by (intro bit_word_eqI) simp
      with ne show False by simp
    qed
  qed
qed

lemma bmap_addr_Suc: "bmap_addr r (Suc i) = bmap_addr r i + 4"
  by (simp add: bmap_addr_def algebra_simps)

lemma scan_words_spec:
  assumes "pos \<le> lim"
  shows "\<exists>p. scan_words m lim pos (bmap_addr r (unat pos)) = (p, bmap_addr r (unat p)) \<and>
    pos \<le> p \<and> p \<le> lim \<and> (p < lim \<longrightarrow> rd32 m (bmap_addr r (unat p)) \<noteq> 0xffffffff) \<and>
    (\<forall>j. unat pos \<le> j \<and> j < unat p \<longrightarrow> rd32 m (bmap_addr r j) = 0xffffffff)"
  using assms
proof (induction m lim pos "bmap_addr r (unat pos)" rule: scan_words.induct)
  case (1 m lim pos)
  let ?a = "bmap_addr r (unat pos)"
  show ?case
  proof (cases "rd32 m ?a = 0xffffffff \<and> pos < lim")
    case True
    then have inc: "unat (pos + 1) = Suc (unat pos)" and le: "pos + 1 \<le> lim"
      using unat_inc [of pos lim] by (auto simp: word_less_nat_alt word_le_nat_alt)
    have a: "?a + 4 = bmap_addr r (unat (pos + 1))" by (simp add: inc bmap_addr_Suc)
    from "1.hyps" [OF True a le] obtain p where
      p: "scan_words m lim (pos + 1) (?a + 4) = (p, bmap_addr r (unat p))" "pos + 1 \<le> p" "p \<le> lim"
        "p < lim \<longrightarrow> rd32 m (bmap_addr r (unat p)) \<noteq> 0xffffffff"
        "\<forall>j. unat (pos + 1) \<le> j \<and> j < unat p \<longrightarrow> rd32 m (bmap_addr r j) = 0xffffffff"
      unfolding a by blast
    have "rd32 m (bmap_addr r j) = 0xffffffff" if "unat pos \<le> j" "j < unat p" for j
      using that p(5) True inc by (cases "j = unat pos") auto
    moreover have "scan_words m lim pos ?a = (p, bmap_addr r (unat p))"
      using True p(1) by (simp add: scan_words.simps [of m lim pos])
    moreover have "pos \<le> p" using p(2) inc by (simp add: word_le_nat_alt)
    ultimately show ?thesis using p(3,4) by blast
  next
    case False
    then have "scan_words m lim pos ?a = (pos, ?a)" by (auto simp: scan_words.simps [of m lim pos])
    with False "1.prems" show ?thesis by auto
  qed
qed


subsection \<open>The allocator invariant\<close>

definition scan_window :: "region \<Rightarrow> nat" where
  "scan_window r = region_pages r div 256"

definition free_set :: "memory \<Rightarrow> region \<Rightarrow> nat set" where
  "free_set m r = {k. k < region_pages r \<and> \<not> page_used m r k}"

definition pgl_inv :: "memory \<Rightarrow> region \<Rightarrow> page_list \<Rightarrow> bool" where
  "pgl_inv m r pgl \<longleftrightarrow> geometry r pgl \<and> unat (last_free_pos pgl) \<le> scan_window r \<and>
     unat (free_pages pgl) = card (free_set m r) \<and> (\<forall>k < region_reserved r. page_used m r k)"

definition can_alloc :: "memory \<Rightarrow> region \<Rightarrow> page_list \<Rightarrow> bool" where
  "can_alloc m r pgl \<longleftrightarrow> rd32 m (bmap_addr r 0) \<noteq> 0xffffffff \<or>
     (\<exists>i\<in>{unat (last_free_pos pgl)..<scan_window r}. rd32 m (bmap_addr r i) \<noteq> 0xffffffff)"

text \<open>The page found from scan position \<open>l\<close> on is the first free one, unless every word from
  there to the end of the scanned window is full.\<close>

definition first_fit :: "memory \<Rightarrow> region \<Rightarrow> nat \<Rightarrow> nat \<Rightarrow> bool" where
  "first_fit m r l k \<longleftrightarrow>
     (\<forall>i\<in>{l..<scan_window r}. rd32 m (bmap_addr r i) = 0xffffffff) \<or>
     32 * l \<le> k \<and> (\<forall>j. 32 * l \<le> j \<and> j < k \<longrightarrow> page_used m r j)"

lemma scan_window_bounds:
  "32 * scan_window r \<le> region_pages r" "0 < scan_window r"
  "drop_bit 8 (of_nat (region_pages r) :: u32) = of_nat (scan_window r)"
  "unat (of_nat (scan_window r) :: u32) = scan_window r"
  by (cases r; simp add: scan_window_def)+

lemma finite_free_set [simp]: "finite (free_set m r)"
  by (simp add: free_set_def)

lemma get_free_page_result:
  assumes geo: "geometry r pgl" and pos: "unat (last_free_pos pgl) \<le> scan_window r"
    and can: "can_alloc m r pgl"
  obtains k where "k < 32 * scan_window r" "k < region_pages r" "\<not> page_used m r k"
    "first_fit m r (unat (last_free_pos pgl)) k"
    "get_free_page pgl m =
       (of_nat (region_base r + k),
        pgl\<lparr>last_free_pos := of_nat (k div 32), free_pages := free_pages pgl - 1\<rparr>,
        pgl_bmap_set pgl (of_nat k) m)"
proof -
  let ?lim = "of_nat (scan_window r) :: u32"
  let ?last = "last_free_pos pgl"
  note W = scan_window_bounds [of r]
  have le: "?last \<le> ?lim" using pos W(4) by (simp add: word_le_nat_alt)
  obtain p where p: "scan_words m ?lim ?last (bmap_addr r (unat ?last)) = (p, bmap_addr r (unat p))"
    "?last \<le> p" "p \<le> ?lim" "p < ?lim \<longrightarrow> rd32 m (bmap_addr r (unat p)) \<noteq> 0xffffffff"
    "\<forall>j. unat ?last \<le> j \<and> j < unat p \<longrightarrow> rd32 m (bmap_addr r j) = 0xffffffff"
    using scan_words_spec [OF le] by blast
  define q where "q = (if p \<ge> ?lim then 0 else p)"
  have q: "unat q < scan_window r"
    using W(2,4) by (auto simp: q_def word_le_nat_alt)
  have word: "rd32 m (bmap_addr r (unat q)) \<noteq> 0xffffffff"
  proof (cases "p \<ge> ?lim")
    case True
    then have "unat p = scan_window r" using p(3) W(4) by (simp add: word_le_nat_alt)
    with p(5) have "rd32 m (bmap_addr r i) = 0xffffffff" if "i \<in> {unat ?last..<scan_window r}" for i
      using that by simp
    with can True show ?thesis by (auto simp: can_alloc_def q_def)
  next
    case False
    then show ?thesis using p(4) by (simp add: q_def)
  qed
  define b where "b = first_clear (rd32 m (bmap_addr r (unat q))) 0"
  have b: "b < 32" and clear: "\<not> bit (rd32 m (bmap_addr r (unat q))) b"
    using word first_clear_0 by (auto simp: b_def)
  have k: "32 * unat q + b < region_pages r" using q b W(1) by linarith
  have "push_bit 5 q + of_nat b = (of_nat (32 * unat q + b) :: u32)"
    by (simp add: push_bit_eq_mult)
  moreover have "(of_nat (32 * unat q + b) :: u32) + ucast (frame_of (start_address pgl)) =
      of_nat (region_base r + (32 * unat q + b))"
    using geo by (cases r) (simp_all add: geometry_def)
  moreover have "bitmap pgl + 4 * ucast ?last = bmap_addr r (unat ?last)"
    using geo by (simp add: geometry_def bmap_addr_def)
  moreover have "bitmap pgl + 0 = bmap_addr r 0" using geo by (simp add: geometry_def bmap_addr_def)
  ultimately have "get_free_page pgl m =
       (of_nat (region_base r + (32 * unat q + b)),
        pgl\<lparr>last_free_pos := of_nat (unat q), free_pages := free_pages pgl - 1\<rparr>,
        pgl_bmap_set pgl (of_nat (32 * unat q + b)) m)"
    using p(1) geo W(3) unfolding get_free_page_def
    by (auto simp: Let_def geometry_def q_def b_def)
  moreover have "first_fit m r (unat ?last) (32 * unat q + b)"
  proof (cases "p \<ge> ?lim")
    case True
    then have "unat p = scan_window r" using p(3) W(4) by (simp add: word_le_nat_alt)
    with p(5) show ?thesis by (simp add: first_fit_def)
  next
    case False
    then have pq: "p = q" by (simp add: q_def)
    have "page_used m r j" if j: "32 * unat ?last \<le> j" "j < 32 * unat q + b" for j
    proof (cases "j div 32 = unat q")
      case True
      then have "j mod 32 < b" using j(2) by presburger
      then show ?thesis
        using first_clear_spec [of 0 "rd32 m (bmap_addr r (unat q))"] True by (simp add: page_used_def b_def)
    next
      case False
      have "j < (unat q + 1) * 32" using j(2) b by simp
      then have "j div 32 < unat q + 1" by (rule less_mult_imp_div_less)
      with False have "j div 32 < unat p" by (simp add: pq)
      moreover have "unat ?last \<le> j div 32" using j(1) by linarith
      ultimately have "rd32 m (bmap_addr r (j div 32)) = 0xffffffff" using p(5) by blast
      then have "\<not> first_clear (rd32 m (bmap_addr r (j div 32))) 0 < 32"
        by (simp add: first_clear_0(2))
      then show ?thesis
        using first_clear_spec [of 0 "rd32 m (bmap_addr r (j div 32))"]
        by (simp add: page_used_def not_less less_le_trans)
    qed
    moreover have "32 * unat ?last \<le> 32 * unat q + b" using p(2) pq by (simp add: word_le_nat_alt)
    ultimately show ?thesis by (simp add: first_fit_def)
  qed
  moreover have "unat q = (32 * unat q + b) div 32" using b by simp
  moreover have "32 * unat q + b < 32 * scan_window r" using q b by linarith
  moreover have "\<not> page_used m r (32 * unat q + b)" using clear b by (simp add: page_used_def)
  ultimately show ?thesis using that [of "32 * unat q + b"] k by metis
qed


text \<open>When every word of the window is full, the code wraps to word 0, finds no clear bit there,
  and hands out page 32 of the region, which is in use.\<close>

lemma get_free_page_window_full:
  assumes geo: "geometry r pgl" and pos: "unat (last_free_pos pgl) \<le> scan_window r"
    and full: "\<not> can_alloc m r pgl"
  shows "fst (get_free_page pgl m) = of_nat (region_base r + 32)"
proof -
  let ?lim = "of_nat (scan_window r) :: u32"
  let ?last = "last_free_pos pgl"
  note W = scan_window_bounds [of r]
  have le: "?last \<le> ?lim" using pos W(4) by (simp add: word_le_nat_alt)
  obtain p where p: "scan_words m ?lim ?last (bmap_addr r (unat ?last)) = (p, bmap_addr r (unat p))"
    "?last \<le> p" "p \<le> ?lim" "p < ?lim \<longrightarrow> rd32 m (bmap_addr r (unat p)) \<noteq> 0xffffffff"
    using scan_words_spec [OF le] by blast
  have "\<not> p < ?lim" using p(2,4) full W(4) by (auto simp: can_alloc_def word_le_nat_alt word_less_nat_alt)
  then have lim: "p \<ge> ?lim" by simp
  have "first_clear (rd32 m (bmap_addr r 0)) 0 = 32"
    using full first_clear_0 [of "rd32 m (bmap_addr r 0)"] by (auto simp: can_alloc_def)
  moreover have "bitmap pgl + 4 * ucast ?last = bmap_addr r (unat ?last)" "bitmap pgl = bmap_addr r 0"
    using geo by (simp_all add: geometry_def bmap_addr_def)
  ultimately show ?thesis
    using p(1) lim geo W(3) unfolding get_free_page_def
    by (cases r) (auto simp: Let_def geometry_def)
qed

end
