(* ===== verification/Page_Pool.thy ===== *)
theory Page_Pool
  imports Page_Bitmap
begin

text \<open>
  The contract of the physical page allocator. \<open>mm_inv\<close> is the invariant of the three regions
  (their geometry, the free count equal to the number of clear bits, the bitmap's own pages in
  use), \<open>taken\<close> the set of page frames in use, \<open>bmap_frames\<close> the frames that hold the bitmaps.
  The locale \<open>frame_alloc\<close> is what the page-table code relies on; it is interpreted on
  \<open>os_pfn_alloc\<close> for every region (\<open>page_pool\<close>) and, with zeroed frames, on the page-table
  region (\<open>pt_pool\<close>).
\<close>

lemma page_used_cong:
  assumes "k < region_pages r"
    "\<And>a. region_base r \<le> unat (frame_of a) \<Longrightarrow>
       unat (frame_of a) < region_base r + region_reserved r \<Longrightarrow> m a = m' a"
  shows "page_used m r k = page_used m' r k"
proof -
  have "rd32 m (bmap_addr r (k div 32)) = rd32 m' (bmap_addr r (k div 32))"
    by (rule rd32_cong [where n = 12])
      (use assms(2) frame_bmap_addr [OF div32_less [OF assms(1)]] in auto)
  then show ?thesis by (simp add: page_used_def)
qed

lemma region_disjoint:
  "\<lbrakk>k < region_pages r; j < region_pages r'; region_base r + k = region_base r' + j\<rbrakk> \<Longrightarrow> r = r' \<and> k = j"
  by (cases r; cases r') auto

definition mm_inv :: "'a page_state_scheme \<Rightarrow> bool" where
  "mm_inv s \<longleftrightarrow> (\<forall>r. pgl_inv (mem s) r (pglists s r))"

definition page_frame :: "region \<Rightarrow> nat \<Rightarrow> u64" where
  "page_frame r k = of_nat (region_base r + k)"

definition taken :: "'a page_state_scheme \<Rightarrow> u64 set" where
  "taken s = {page_frame r k | r k. k < region_pages r \<and> page_used (mem s) r k}"

definition bmap_frames :: "u64 set" where
  "bmap_frames = {page_frame r k | r k. k < region_reserved r}"

definition can_take :: "region \<Rightarrow> 'a page_state_scheme \<Rightarrow> bool" where
  "can_take r s \<longleftrightarrow> can_alloc (mem s) r (pglists s r)"

lemma unat_page_frame: "k < region_pages r \<Longrightarrow> unat (page_frame r k) = region_base r + k"
  using region_bounds(3) [of r] by (simp add: page_frame_def unat_of_nat_small del: of_nat_add)

lemma ucast_page_frame:
  "k < region_pages r \<Longrightarrow> (ucast (of_nat (region_base r + k) :: u32) :: u64) = page_frame r k"
  using region_bounds(3) [of r] unat_page_frame [of k r]
  by (simp add: word_unat_eq_iff unat_of_nat_small del: of_nat_add)

lemma page_frame_inj:
  assumes "k < region_pages r" "j < region_pages r'" "page_frame r k = page_frame r' j"
  shows "r = r' \<and> k = j"
  using region_disjoint [OF assms(1,2)] unat_page_frame [OF assms(1)] unat_page_frame [OF assms(2)]
    assms(3) by simp

lemma taken_iff: "k < region_pages r \<Longrightarrow> page_frame r k \<in> taken s \<longleftrightarrow> page_used (mem s) r k"
  unfolding taken_def using page_frame_inj by blast

lemma bmap_frames_iff:
  "f \<in> bmap_frames \<longleftrightarrow>
     (\<exists>r. region_base r \<le> unat f \<and> unat f < region_base r + region_reserved r)"
proof
  assume "f \<in> bmap_frames"
  then obtain r k where "k < region_reserved r" "f = page_frame r k" by (auto simp: bmap_frames_def)
  then show "\<exists>r. region_base r \<le> unat f \<and> unat f < region_base r + region_reserved r"
    using unat_page_frame [of k r] region_bounds(5) [of r] by (intro exI [of _ r]) simp
next
  assume "\<exists>r. region_base r \<le> unat f \<and> unat f < region_base r + region_reserved r"
  then obtain r where r: "region_base r \<le> unat f" "unat f < region_base r + region_reserved r" by blast
  then have "f = page_frame r (unat f - region_base r)" by (simp add: page_frame_def)
  with r show "f \<in> bmap_frames" by (force simp: bmap_frames_def)
qed

lemma mm_invD: "mm_inv s \<Longrightarrow> pgl_inv (mem s) r (pglists s r)"
  by (simp add: mm_inv_def)

text \<open>The invariant of a region depends only on the frames of its own bitmap.\<close>

lemma pgl_inv_cong:
  assumes "\<And>a. region_base r \<le> unat (frame_of a) \<Longrightarrow>
       unat (frame_of a) < region_base r + region_reserved r \<Longrightarrow> m a = m' a"
  shows "pgl_inv m r pgl = pgl_inv m' r pgl"
proof -
  have "page_used m r k = page_used m' r k" if "k < region_pages r" for k
    by (rule page_used_cong [OF that assms])
  moreover from this have "free_set m r = free_set m' r" by (auto simp: free_set_def)
  ultimately show ?thesis
    using region_bounds(5) [of r] by (auto simp: pgl_inv_def dest: less_trans)
qed

lemma reserved_disjoint:
  "\<lbrakk>region_base r \<le> n; n < region_base r + region_reserved r; region_base r' \<le> n;
    n < region_base r' + region_pages r'\<rbrakk> \<Longrightarrow> r = r'"
  by (cases r; cases r') auto

lemma free_set_set:
  assumes "geometry r pgl" "k < region_pages r"
  shows "free_set (pgl_bmap_set pgl (of_nat k) m) r = free_set m r - {k}"
  using page_used_set [OF assms] by (auto simp: free_set_def)

lemma free_set_clear:
  assumes "geometry r pgl" "k < region_pages r"
  shows "free_set (pgl_bmap_clear pgl (of_nat k) m) r = insert k (free_set m r)"
  using page_used_clear [OF assms] assms(2) by (auto simp: free_set_def)

lemma pgl_inv_alloc:
  assumes inv: "pgl_inv m r pgl" and i: "i \<le> scan_window r" and k: "k < region_pages r"
    and free: "\<not> page_used m r k"
  shows "pgl_inv (pgl_bmap_set pgl (of_nat k) m) r
    (pgl\<lparr>last_free_pos := of_nat i, free_pages := free_pages pgl - 1\<rparr>)"
proof -
  have geo: "geometry r pgl" and cnt: "unat (free_pages pgl) = card (free_set m r)"
    and res: "\<And>k. k < region_reserved r \<Longrightarrow> page_used m r k" using inv by (auto simp: pgl_inv_def)
  have mem: "k \<in> free_set m r" using k free by (simp add: free_set_def)
  then have pos: "0 < unat (free_pages pgl)" using cnt by (auto simp: card_gt_0_iff)
  then have "unat (free_pages pgl - 1) = unat (free_pages pgl) - 1"
    by (metis less_not_refl unat_0 unat_minus_one)
  then have "unat (free_pages pgl - 1) = card (free_set (pgl_bmap_set pgl (of_nat k) m) r)"
    using cnt mem by (simp add: free_set_set [OF geo k])
  moreover have "page_used (pgl_bmap_set pgl (of_nat k) m) r j" if "j < region_reserved r" for j
    using page_used_set [OF geo k, of j m] res [OF that] that region_bounds(5) [of r] by simp
  moreover have "unat (of_nat i :: u32) = i"
    using i region_bounds(2) [of r] by (intro unat_of_nat_small) (simp add: scan_window_def)
  ultimately show ?thesis using geo i by (simp add: pgl_inv_def geometry_def)
qed

subsection \<open>The contract of \<open>os_pfn_alloc\<close>\<close>

lemma pgl_inv_free_pos:
  assumes "pgl_inv m r pgl" "k < region_pages r" "\<not> page_used m r k"
  shows "free_pages pgl \<noteq> 0"
proof -
  have "k \<in> free_set m r" using assms(2,3) by (simp add: free_set_def)
  then have "0 < unat (free_pages pgl)" using assms(1) by (auto simp: pgl_inv_def card_gt_0_iff)
  then show ?thesis by auto
qed

lemma os_pfn_alloc_step:
  assumes inv: "mm_inv s" and can: "can_take r s"
  obtains k m where "k < 32 * scan_window r" "k < region_pages r" "\<not> page_used (mem s) r k"
    "first_fit (mem s) r (unat (last_free_pos (pglists s r))) k"
    "m = pgl_bmap_set (pglists s r) (of_nat k) (mem s)"
    "os_pfn_alloc r s = (of_nat (region_base r + k),
       s\<lparr>mem := (if r = OS_PT_REG then (\<lambda>a. if frame_of a = page_frame r k then 0 else m a) else m),
         pglists := (pglists s)(r := (pglists s r)
           \<lparr>last_free_pos := of_nat (k div 32), free_pages := free_pages (pglists s r) - 1\<rparr>)\<rparr>)"
proof -
  let ?pgl = "pglists s r"
  have p: "pgl_inv (mem s) r ?pgl" by (rule mm_invD [OF inv])
  obtain k where k: "k < 32 * scan_window r" "k < region_pages r" "\<not> page_used (mem s) r k"
    "first_fit (mem s) r (unat (last_free_pos (pglists s r))) k"
    "get_free_page ?pgl (mem s) = (of_nat (region_base r + k),
        ?pgl\<lparr>last_free_pos := of_nat (k div 32), free_pages := free_pages ?pgl - 1\<rparr>,
        pgl_bmap_set ?pgl (of_nat k) (mem s))"
    using get_free_page_result [of r ?pgl "mem s"] p can by (auto simp: pgl_inv_def can_take_def)
  have nz: "\<not> free_pages ?pgl \<le> 0" using pgl_inv_free_pos [OF p k(2,3)] by simp
  note eq = ucast_page_frame [OF k(2)]
  have fr: "frame_of (push_bit 12 (page_frame r k)) = page_frame r k"
    using frame_of_osmap_u32 [of "of_nat (region_base r + k)"] by (simp only: osmap_def eq)
  have bz: "bzero m (push_bit 12 (ucast (of_nat (region_base r + k) :: u32))) PAGE_SIZE =
      (\<lambda>a. if frame_of a = page_frame r k then 0 else m a)" for m
    using bzero_page [of "push_bit 12 (page_frame r k)" m]
    by (simp only: eq fr aligned_push_bit order_refl)
  have "os_pfn_alloc r s = (of_nat (region_base r + k),
       s\<lparr>mem := (if r = OS_PT_REG then (\<lambda>a. if frame_of a = page_frame r k then 0
            else pgl_bmap_set ?pgl (of_nat k) (mem s) a) else pgl_bmap_set ?pgl (of_nat k) (mem s)),
         pglists := (pglists s)(r := (pglists s r)
           \<lparr>last_free_pos := of_nat (k div 32), free_pages := free_pages (pglists s r) - 1\<rparr>)\<rparr>)"
    unfolding os_pfn_alloc_def Let_def using nz by (simp only: k(5) if_False prod.case bz)
  then show ?thesis using that [OF k(1-4) refl] by blast
qed

locale frame_alloc =
  fixes alloc :: "'s \<Rightarrow> u32 \<times> 's"
    and inv :: "'s \<Rightarrow> bool"
    and can :: "'s \<Rightarrow> bool"
    and used :: "'s \<Rightarrow> u64 set"
    and phys :: "'s \<Rightarrow> memory"
    and own :: "u64 set"
  assumes own_used: "inv s \<Longrightarrow> own \<subseteq> used s"
    and alloc_inv: "\<lbrakk>inv s; can s; alloc s = (p, s')\<rbrakk> \<Longrightarrow> inv s'"
    and alloc_fresh: "\<lbrakk>inv s; can s; alloc s = (p, s')\<rbrakk> \<Longrightarrow> ucast p \<notin> used s"
    and alloc_used: "\<lbrakk>inv s; can s; alloc s = (p, s')\<rbrakk> \<Longrightarrow> used s' = insert (ucast p) (used s)"
    and alloc_frame: "\<lbrakk>inv s; can s; alloc s = (p, s'); frame_of a \<noteq> ucast p; frame_of a \<notin> own\<rbrakk>
      \<Longrightarrow> phys s' a = phys s a"
begin

lemma alloc_not_own: "\<lbrakk>inv s; can s; alloc s = (p, s')\<rbrakk> \<Longrightarrow> ucast p \<notin> own"
  using own_used alloc_fresh by blast

text \<open>What an allocated frame holds survives every later allocation.\<close>

lemma alloc_keeps:
  "\<lbrakk>inv s; can s; alloc s = (p, s'); frame_of a \<in> used s; frame_of a \<notin> own\<rbrakk> \<Longrightarrow> phys s' a = phys s a"
  using alloc_frame alloc_fresh by metis

end

locale zeroed_frame_alloc = frame_alloc +
  assumes alloc_zero: "\<lbrakk>inv s; can s; alloc s = (p, s'); frame_of a = ucast p\<rbrakk> \<Longrightarrow> phys s' a = 0"

lemma bmap_update_frame:
  assumes "geometry r pgl" "k < region_pages r" "frame_of a \<notin> bmap_frames"
  shows "pgl_bmap_set pgl (of_nat k) m a = m a" "pgl_bmap_clear pgl (of_nat k) m a = m a"
  using bmap_set_frame [OF assms(1,2), of a m] assms(3) bmap_frames_iff by blast+

lemma bmap_disjoint:
  assumes "r' \<noteq> r" "region_base r' \<le> n" "n < region_base r' + region_reserved r'"
  shows "\<not> (region_base r \<le> n \<and> n < region_base r + region_reserved r)"
  using reserved_disjoint [of r n r'] assms region_bounds(5) [of r'] by auto

lemma page_used_other_region:
  assumes "geometry r pgl" "k < region_pages r" "j < region_pages r'" "r' \<noteq> r"
  shows "page_used (pgl_bmap_set pgl (of_nat k) m) r' j = page_used m r' j"
    "page_used (pgl_bmap_clear pgl (of_nat k) m) r' j = page_used m r' j"
proof -
  note out = bmap_set_frame [OF assms(1,2) bmap_disjoint [OF assms(4)]]
  show "page_used (pgl_bmap_set pgl (of_nat k) m) r' j = page_used m r' j"
    by (rule page_used_cong [OF assms(3) out(1)])
  show "page_used (pgl_bmap_clear pgl (of_nat k) m) r' j = page_used m r' j"
    by (rule page_used_cong [OF assms(3) out(2)])
qed

text \<open>Setting or clearing one bit, then changing frames outside every bitmap, keeps the
  invariant of all regions.\<close>

lemma page_used_outside:
  assumes "k < region_pages r" "\<And>a. frame_of a \<in> bmap_frames \<Longrightarrow> m a = m' a"
  shows "page_used m r k = page_used m' r k"
  by (rule page_used_cong [OF assms(1)]) (use assms(2) bmap_frames_iff in blast)

lemma mm_inv_update:
  assumes inv: "mm_inv s"
    and upd: "pgl_inv m r pgl"
    and other: "\<And>r' j. r' \<noteq> r \<Longrightarrow> j < region_pages r' \<Longrightarrow> page_used m r' j = page_used (mem s) r' j"
  shows "mm_inv (s\<lparr>mem := m, pglists := (pglists s)(r := pgl)\<rparr>)"
  unfolding mm_inv_def
proof
  fix r'
  show "pgl_inv (mem (s\<lparr>mem := m, pglists := (pglists s)(r := pgl)\<rparr>)) r'
      (pglists (s\<lparr>mem := m, pglists := (pglists s)(r := pgl)\<rparr>) r')"
  proof (cases "r' = r")
    case False
    then have "free_set m r' = free_set (mem s) r'" using other by (auto simp: free_set_def)
    with False other mm_invD [OF inv, of r'] region_bounds(5) [of r'] show ?thesis
      by (auto simp: pgl_inv_def)
  qed (use upd in simp)
qed


lemma os_pfn_alloc_contract:
  assumes inv: "mm_inv s" and can: "can_take r s" and eq: "os_pfn_alloc r s = (p, s')"
  obtains k where "k < 32 * scan_window r" "region_reserved r \<le> k" "k < region_pages r"
    "p = of_nat (region_base r + k)" "ucast p = page_frame r k" "\<not> page_used (mem s) r k"
    "first_fit (mem s) r (unat (last_free_pos (pglists s r))) k" "mm_inv s'"
    "\<And>r' j. j < region_pages r' \<Longrightarrow>
       page_used (mem s') r' j \<longleftrightarrow> (r' = r \<and> j = k) \<or> page_used (mem s) r' j"
    "\<And>a. frame_of a \<noteq> page_frame r k \<or> r \<noteq> OS_PT_REG \<Longrightarrow> frame_of a \<notin> bmap_frames \<Longrightarrow> mem s' a = mem s a"
    "\<And>a. r = OS_PT_REG \<Longrightarrow> frame_of a = page_frame r k \<Longrightarrow> mem s' a = 0"
    "last_free_pos (pglists s' r) = of_nat (k div 32)"
    "s' = s\<lparr>mem := mem s', pglists := pglists s'\<rparr>"
proof -
  obtain k m where k: "k < 32 * scan_window r" "k < region_pages r" "\<not> page_used (mem s) r k"
      "first_fit (mem s) r (unat (last_free_pos (pglists s r))) k"
    and m: "m = pgl_bmap_set (pglists s r) (of_nat k) (mem s)"
    and st: "os_pfn_alloc r s = (of_nat (region_base r + k),
       s\<lparr>mem := (if r = OS_PT_REG then (\<lambda>a. if frame_of a = page_frame r k then 0 else m a) else m),
         pglists := (pglists s)(r := (pglists s r)
           \<lparr>last_free_pos := of_nat (k div 32), free_pages := free_pages (pglists s r) - 1\<rparr>)\<rparr>)"
    by (rule os_pfn_alloc_step [OF inv can])
  let ?m = "if r = OS_PT_REG then (\<lambda>a. if frame_of a = page_frame r k then 0 else m a) else m"
  let ?pgl = "(pglists s r)\<lparr>last_free_pos := of_nat (k div 32), free_pages := free_pages (pglists s r) - 1\<rparr>"
  have s': "s' = s\<lparr>mem := ?m, pglists := (pglists s)(r := ?pgl)\<rparr>"
    and p: "p = of_nat (region_base r + k)" using st eq by simp_all
  have pinv: "pgl_inv (mem s) r (pglists s r)" by (rule mm_invD [OF inv])
  then have geo: "geometry r (pglists s r)" by (simp add: pgl_inv_def)
  have res: "region_reserved r \<le> k" using pinv k(3) by (auto simp: pgl_inv_def not_less [symmetric])
  have own: "page_frame r k \<notin> bmap_frames"
    using unat_page_frame [OF k(2)] res k(2) reserved_disjoint [of _ "region_base r + k" r]
    unfolding bmap_frames_iff by (metis add_less_cancel_left leD le_add1)
  have out: "?m a = m a" if "frame_of a \<in> bmap_frames" for a using that own by auto
  have used: "page_used ?m r' j \<longleftrightarrow> (r' = r \<and> j = k) \<or> page_used (mem s) r' j"
    if "j < region_pages r'" for r' j
  proof -
    have "page_used ?m r' j = page_used m r' j" by (rule page_used_outside [OF that out])
    also have "\<dots> \<longleftrightarrow> (r' = r \<and> j = k) \<or> page_used (mem s) r' j"
      using page_used_set [OF geo k(2)] page_used_other_region(1) [OF geo k(2) that] that
      by (cases "r' = r") (auto simp: m)
    finally show ?thesis .
  qed
  have "pgl_inv m r ?pgl"
    unfolding m by (rule pgl_inv_alloc [OF pinv _ k(2,3)]) (use k(1) in simp)
  moreover have "pgl_inv m r ?pgl = pgl_inv ?m r ?pgl"
  proof (rule pgl_inv_cong)
    fix a assume "region_base r \<le> unat (frame_of a)" "unat (frame_of a) < region_base r + region_reserved r"
    then have "frame_of a \<in> bmap_frames" by (auto simp: bmap_frames_iff)
    then show "m a = ?m a" by (rule out [symmetric])
  qed
  ultimately have "mm_inv s'"
    unfolding s' by (intro mm_inv_update [OF inv]) (use used in auto)
  moreover have "m a = mem s a" if "frame_of a \<notin> bmap_frames" for a
    using bmap_update_frame(1) [OF geo k(2) that] by (simp add: m)
  ultimately show ?thesis
    by (intro that [OF k(1) res k(2) p _ k(3,4)])
      (auto simp: s' p ucast_page_frame [OF k(2)] used simp del: of_nat_add)
qed


interpretation page_pool: frame_alloc "os_pfn_alloc r" mm_inv "can_take r" taken mem bmap_frames
  for r
proof
  fix s :: "'a page_state_scheme"
  assume inv: "mm_inv s"
  show "bmap_frames \<subseteq> taken s"
  proof
    fix f assume "f \<in> bmap_frames"
    then obtain r k where "k < region_reserved r" "f = page_frame r k" by (auto simp: bmap_frames_def)
    then show "f \<in> taken s"
      using mm_invD [OF inv, of r] region_bounds(5) [of r] by (simp add: taken_iff pgl_inv_def)
  qed
next
  fix s s' :: "'a page_state_scheme" and p
  assume a: "mm_inv s" "can_take r s" "os_pfn_alloc r s = (p, s')"
  show "mm_inv s'" by (rule os_pfn_alloc_contract [OF a])
  show "ucast p \<notin> taken s" by (rule os_pfn_alloc_contract [OF a]) (simp add: taken_iff)
  show "taken s' = insert (ucast p) (taken s)"
    by (rule os_pfn_alloc_contract [OF a]) (auto simp: taken_def)
  show "mem s' x = mem s x" if "frame_of x \<noteq> ucast p" "frame_of x \<notin> bmap_frames" for x
    by (rule os_pfn_alloc_contract [OF a]) (use that in simp)
qed

interpretation pt_pool: zeroed_frame_alloc "os_pfn_alloc OS_PT_REG" mm_inv "can_take OS_PT_REG"
  taken mem bmap_frames
proof
  fix s s' :: "'a page_state_scheme" and p a
  assume a: "mm_inv s" "can_take OS_PT_REG s" "os_pfn_alloc OS_PT_REG s = (p, s')" "frame_of a = ucast p"
  show "mem s' a = 0" by (rule os_pfn_alloc_contract [OF a(1-3)]) (use a(4) in simp)
qed

subsection \<open>Release\<close>

lemma pglists_other: "os_pfn_alloc r s = (p, s') \<Longrightarrow> r' \<noteq> r \<Longrightarrow> pglists s' r' = pglists s r'"
  by (auto simp: os_pfn_alloc_def Let_def printf_def split: if_splits prod.splits option.splits)

lemma region_end:
  assumes "geometry r pgl"
  shows "unat (start_address pgl + ucast (push_bit 12 (pgl_size pgl))) =
    4096 * (region_base r + region_pages r)"
  using assms by (cases r) (simp_all add: geometry_def region_start_def)

lemma unat_page_addr:
  assumes "k < region_pages r"
  shows "unat (push_bit 12 (page_frame r k)) = 4096 * (region_base r + k)"
proof -
  have "4096 * (region_base r + k) < 2 ^ 64" using assms region_bounds(3) [of r] by simp
  then show ?thesis by (simp add: push_bit_eq_mult unat_word_ariths unat_page_frame [OF assms])
qed

lemma page_addr_offset:
  assumes "geometry r pgl" "k < region_pages r"
  shows "ucast (drop_bit PAGE_SHIFT (push_bit 12 (page_frame r k) - start_address pgl)) = (of_nat k :: u32)"
proof -
  have st: "unat (start_address pgl) = 4096 * region_base r" using assms(1) by (simp add: geometry_def)
  have "start_address pgl \<le> push_bit 12 (page_frame r k)"
    by (simp add: word_le_nat_alt st unat_page_addr [OF assms(2)])
  then have "unat (push_bit 12 (page_frame r k) - start_address pgl) = 4096 * k"
    by (simp add: unat_sub st unat_page_addr [OF assms(2)])
  then have "unat (drop_bit 12 (push_bit 12 (page_frame r k) - start_address pgl)) = k"
    by (simp add: unat_drop)
  then have "drop_bit 12 (push_bit 12 (page_frame r k) - start_address pgl) = (of_nat k :: u64)"
    using assms(2) region_bounds(2) [of r] by (simp add: word_unat_eq_iff unat_of_nat_small)
  then show ?thesis
    using assms(2) region_bounds(2) [of r]
    by (simp add: word_unat_eq_iff unsigned_ucast_eq unat_of_nat_small take_bit_nat_eq_self)
qed

lemma os_pfn_free_in_region:
  assumes geo: "geometry r (pglists s r)" and k: "0 < k" "k < region_pages r"
  shows "os_pfn_free r (page_frame r k) s =
    s\<lparr>mem := pgl_bmap_clear (pglists s r) (of_nat k) (mem s),
      pglists := (pglists s)(r := (pglists s r)\<lparr>free_pages := free_pages (pglists s r) + 1\<rparr>)\<rparr>"
proof -
  let ?a = "push_bit 12 (page_frame r k)"
  have "unat (start_address (pglists s r)) = 4096 * region_base r" using geo by (simp add: geometry_def)
  then have "\<not> ?a \<le> start_address (pglists s r)"
    using k(1) by (simp add: word_le_nat_alt unat_page_addr [OF k(2)])
  moreover have "\<not> ?a \<ge> start_address (pglists s r) + ucast (push_bit 12 (pgl_size (pglists s r)))"
    using k(2) unfolding word_le_nat_alt region_end [OF geo] unat_page_addr [OF k(2)] by simp
  ultimately show ?thesis
    unfolding os_pfn_free_def os_page_free_def Let_def page_addr_offset [OF geo k(2)]
    by (simp only: if_False de_Morgan_disj simp_thms)
qed

lemma pgl_inv_free:
  assumes inv: "pgl_inv m r pgl" and k: "k < region_pages r" "region_reserved r \<le> k"
    and used: "page_used m r k"
  shows "pgl_inv (pgl_bmap_clear pgl (of_nat k) m) r (pgl\<lparr>free_pages := free_pages pgl + 1\<rparr>)"
proof -
  have geo: "geometry r pgl" and cnt: "unat (free_pages pgl) = card (free_set m r)"
    using inv by (auto simp: pgl_inv_def)
  have "k \<notin> free_set m r" using used by (simp add: free_set_def)
  then have card: "card (free_set (pgl_bmap_clear pgl (of_nat k) m) r) = Suc (unat (free_pages pgl))"
    using cnt by (simp add: free_set_clear [OF geo k(1)])
  have "card (free_set (pgl_bmap_clear pgl (of_nat k) m) r) \<le> card {..<region_pages r}"
    by (rule card_mono) (auto simp: free_set_def)
  then have "Suc (unat (free_pages pgl)) < 2 ^ 32" using card region_bounds(2) [of r] by simp
  then have "unat (free_pages pgl + 1) = Suc (unat (free_pages pgl))"
    by (simp add: unat_word_ariths)
  moreover have "page_used (pgl_bmap_clear pgl (of_nat k) m) r j" if "j < region_reserved r" for j
    using page_used_clear [OF geo k(1), of j m] that k(2) inv region_bounds(5) [of r]
    by (auto simp: pgl_inv_def)
  ultimately show ?thesis using inv card by (simp add: pgl_inv_def geometry_def)
qed

lemma os_pfn_free_contract:
  assumes inv: "mm_inv s" and k: "region_reserved r \<le> k" "k < region_pages r" "page_used (mem s) r k"
  shows "mm_inv (os_pfn_free r (page_frame r k) s)"
    "taken (os_pfn_free r (page_frame r k) s) = taken s - {page_frame r k}"
    "frame_of a \<notin> bmap_frames \<Longrightarrow> mem (os_pfn_free r (page_frame r k) s) a = mem s a"
    "free_pages (pglists (os_pfn_free r (page_frame r k) s) r) = free_pages (pglists s r) + 1"
proof -
  let ?s = "os_pfn_free r (page_frame r k) s"
  let ?m = "pgl_bmap_clear (pglists s r) (of_nat k) (mem s)"
  have pinv: "pgl_inv (mem s) r (pglists s r)" by (rule mm_invD [OF inv])
  then have geo: "geometry r (pglists s r)" by (simp add: pgl_inv_def)
  have k0: "0 < k" using k(1) by (cases r) auto
  note s = os_pfn_free_in_region [OF geo k0 k(2)]
  have used: "page_used ?m r' j \<longleftrightarrow> \<not> (r' = r \<and> j = k) \<and> page_used (mem s) r' j"
    if "j < region_pages r'" for r' j
    using page_used_clear [OF geo k(2)] page_used_other_region(2) [OF geo k(2) that] that
    by (cases "r' = r") auto
  show "mm_inv ?s"
    unfolding s by (rule mm_inv_update [OF inv pgl_inv_free [OF pinv k(2,1,3)]]) (use used in auto)
  show "taken ?s = taken s - {page_frame r k}"
    unfolding taken_def s using used page_frame_inj [OF _ k(2)] by auto
  show "mem ?s a = mem s a" if "frame_of a \<notin> bmap_frames"
    unfolding s using bmap_update_frame(2) [OF geo k(2) that] by simp
  show "free_pages (pglists ?s r) = free_pages (pglists s r) + 1" by (simp add: s)
qed

text \<open>A second release of the same page is not detected: the count grows although the page was
  already free, and the invariant breaks.\<close>

lemma os_pfn_free_twice:
  assumes inv: "mm_inv s" and k: "region_reserved r \<le> k" "k < region_pages r" "\<not> page_used (mem s) r k"
  shows "free_pages (pglists (os_pfn_free r (page_frame r k) s) r) = free_pages (pglists s r) + 1"
    "taken (os_pfn_free r (page_frame r k) s) = taken s"
    "\<not> mm_inv (os_pfn_free r (page_frame r k) s)"
proof -
  let ?s = "os_pfn_free r (page_frame r k) s"
  have pinv: "pgl_inv (mem s) r (pglists s r)" by (rule mm_invD [OF inv])
  then have geo: "geometry r (pglists s r)" by (simp add: pgl_inv_def)
  have k0: "0 < k" using k(1) by (cases r) auto
  note s = os_pfn_free_in_region [OF geo k0 k(2)]
  show fp: "free_pages (pglists ?s r) = free_pages (pglists s r) + 1" by (simp add: s)
  have used: "page_used (mem ?s) r' j \<longleftrightarrow> page_used (mem s) r' j" if "j < region_pages r'" for r' j
    using page_used_clear [OF geo k(2)] page_used_other_region(2) [OF geo k(2) that] that k(3)
    by (cases "r' = r") (auto simp: s)
  then show "taken ?s = taken s" by (auto simp: taken_def)
  have "free_set (mem ?s) r = free_set (mem s) r" using used by (auto simp: free_set_def)
  moreover have "unat (free_pages (pglists s r) + 1) \<noteq> unat (free_pages (pglists s r))"
    by (subst word_unat_eq_iff [symmetric]) simp
  ultimately have "unat (free_pages (pglists ?s r)) \<noteq> card (free_set (mem ?s) r)"
    using pinv unfolding fp by (simp add: pgl_inv_def)
  then show "\<not> mm_inv ?s" using mm_invD [of ?s r] by (auto simp: pgl_inv_def)
qed

subsection \<open>Boot\<close>

lemma reserve_pages_used:
  assumes "geometry r pgl" "i \<le> n" "n < region_pages r" "j < region_pages r"
  shows "page_used (reserve_pages pgl (of_nat i) (of_nat n) m) r j \<longleftrightarrow> i \<le> j \<and> j < n \<or> page_used m r j"
  using assms(2)
proof (induction "n - i" arbitrary: i m)
  case 0
  then show ?case by (auto simp: reserve_pages.simps [of pgl "of_nat i"])
next
  case (Suc d)
  have lt: "(of_nat i :: u32) < of_nat n"
    using Suc.hyps(2) assms(3) region_bounds(2) [of r] by (simp add: word_less_nat_alt unat_of_nat_small)
  have "reserve_pages pgl (of_nat i) (of_nat n) m =
      reserve_pages pgl (of_nat (Suc i)) (of_nat n) (pgl_bmap_set pgl (of_nat i) m)"
    using lt by (simp add: reserve_pages.simps [of pgl "of_nat i"] add.commute)
  moreover have "i < region_pages r" using Suc.hyps(2) assms(3) by simp
  ultimately show ?case
    using Suc.hyps(1) [of "Suc i" "pgl_bmap_set pgl (of_nat i) m"] Suc.hyps(2)
      page_used_set [OF assms(1) _ assms(4), of i m] by auto
qed

lemma reserve_pages_frame:
  assumes "geometry r pgl" "n < region_pages r"
    "\<not> (region_base r \<le> unat (frame_of a) \<and> unat (frame_of a) < region_base r + region_reserved r)"
    "i \<le> n"
  shows "reserve_pages pgl (of_nat i) (of_nat n) m a = m a"
  using assms(4)
proof (induction "n - i" arbitrary: i m)
  case 0
  then show ?case by (simp add: reserve_pages.simps [of pgl "of_nat i"])
next
  case (Suc d)
  have lt: "(of_nat i :: u32) < of_nat n"
    using Suc.hyps(2) assms(2) region_bounds(2) [of r] by (simp add: word_less_nat_alt unat_of_nat_small)
  have "i < region_pages r" using Suc.hyps(2) assms(2) by simp
  then show ?case
    using Suc.hyps(1) [of "Suc i" "pgl_bmap_set pgl (of_nat i) m"] Suc.hyps(2) lt
      bmap_set_frame(1) [OF assms(1) _ assms(3), of i m]
    by (simp add: reserve_pages.simps [of pgl "of_nat i"] add.commute)
qed


text \<open>\<open>page_prefix r c s\<close>: in region \<open>r\<close> exactly the first \<open>c\<close> pages are in use and the scan starts at
  or before the first free word. This is the shape of a region that nothing has been released to.\<close>

definition page_prefix :: "region \<Rightarrow> nat \<Rightarrow> 'a page_state_scheme \<Rightarrow> bool" where
  "page_prefix r c s \<longleftrightarrow> unat (last_free_pos (pglists s r)) \<le> c div 32 \<and>
     (\<forall>k < region_pages r. page_used (mem s) r k \<longleftrightarrow> k < c)"

lemma region_consts:
  "pages_to_reserve (of_nat (region_pages r)) = of_nat (region_reserved r)"
  "drop_bit 5 (of_nat (region_reserved r) :: u32) = 0"
  "of_nat (region_pages r) - of_nat (region_reserved r) = (of_nat (region_pages r - region_reserved r) :: u32)"
  by (cases r; simp add: pages_to_reserve_def Let_def)+

definition boot_pgl :: "region \<Rightarrow> page_list" where
  "boot_pgl r = \<lparr>pgl_type = region_num r, pgl_size = of_nat (region_pages r),
     free_pages = of_nat (region_pages r - region_reserved r), last_free_pos = 0,
     start_address = region_start r, bitmap = region_start r\<rparr>"

lemma boot_geometry: "geometry r (boot_pgl r)"
  by (simp add: geometry_def boot_pgl_def)

lemma init_pagelist_eq:
  assumes "ucast (drop_bit PAGE_SHIFT (en - st)) = (of_nat (region_pages r) :: u32)" "st = region_start r"
  shows "init_pagelist r st en s = s\<lparr>mem := reserve_pages (boot_pgl r) 0 (of_nat (region_reserved r)) (mem s),
    pglists := (pglists s)(r := boot_pgl r)\<rparr>"
proof -
  have "boot_pgl r = \<lparr>pgl_type = region_num r, pgl_size = of_nat (region_pages r),
     free_pages = of_nat (region_pages r) - of_nat (region_reserved r), last_free_pos = drop_bit 5 (of_nat (region_reserved r)),
     start_address = st, bitmap = st\<rparr>"
    unfolding boot_pgl_def region_consts assms(2) ..
  then show ?thesis unfolding init_pagelist_def Let_def assms(1) region_consts by simp
qed

lemma init_pagelists_eq:
  fixes s :: "'a page_state_scheme"
  shows "init_pagelists s = s\<lparr>
     mem := reserve_pages (boot_pgl USER_REG) 0 (of_nat 4)
       (reserve_pages (boot_pgl OS_PT_REG) 0 (of_nat 1) (reserve_pages (boot_pgl OS_DS_REG) 0 (of_nat 1) (mem s))),
     pglists := boot_pgl\<rparr>"
proof -
  have "(pglists s)(OS_DS_REG := boot_pgl OS_DS_REG, OS_PT_REG := boot_pgl OS_PT_REG, USER_REG := boot_pgl USER_REG) = boot_pgl"
  proof
    fix r show "((pglists s)(OS_DS_REG := boot_pgl OS_DS_REG, OS_PT_REG := boot_pgl OS_PT_REG,
        USER_REG := boot_pgl USER_REG)) r = boot_pgl r" by (cases r) simp_all
  qed
  moreover have "init_pagelist USER_REG REGION_USER_START ENDMEM t =
      t\<lparr>mem := reserve_pages (boot_pgl USER_REG) 0 (of_nat (region_reserved USER_REG)) (mem t),
        pglists := (pglists t)(USER_REG := boot_pgl USER_REG)\<rparr>" for t :: "'a page_state_scheme"
    by (rule init_pagelist_eq) (simp_all add: region_start_def)
  moreover have "init_pagelist OS_PT_REG REGION_OS_PT_START REGION_USER_START t =
      t\<lparr>mem := reserve_pages (boot_pgl OS_PT_REG) 0 (of_nat (region_reserved OS_PT_REG)) (mem t),
        pglists := (pglists t)(OS_PT_REG := boot_pgl OS_PT_REG)\<rparr>" for t :: "'a page_state_scheme"
    by (rule init_pagelist_eq) (simp_all add: region_start_def)
  moreover have "init_pagelist OS_DS_REG REGION_OS_DS_START REGION_OS_PT_START t =
      t\<lparr>mem := reserve_pages (boot_pgl OS_DS_REG) 0 (of_nat (region_reserved OS_DS_REG)) (mem t),
        pglists := (pglists t)(OS_DS_REG := boot_pgl OS_DS_REG)\<rparr>" for t :: "'a page_state_scheme"
    by (rule init_pagelist_eq) (simp_all add: region_start_def)
  ultimately show ?thesis by (simp add: init_pagelists_def)
qed

lemma reserve_boot_frame:
  assumes "r' \<noteq> r" "k < region_pages r'"
  shows "page_used (reserve_pages (boot_pgl r) 0 (of_nat (region_reserved r)) m) r' k = page_used m r' k"
proof (rule page_used_cong [OF assms(2)])
  fix a assume "region_base r' \<le> unat (frame_of a)" "unat (frame_of a) < region_base r' + region_reserved r'"
  then show "reserve_pages (boot_pgl r) 0 (of_nat (region_reserved r)) m a = m a"
    using reserve_pages_frame [OF boot_geometry region_bounds(5) bmap_disjoint [OF assms(1)], of a 0 m] by simp
qed

lemma init_pagelists_used:
  assumes zero: "\<And>a. frame_of a \<in> bmap_frames \<Longrightarrow> mem s a = 0" and k: "k < region_pages r"
  shows "page_used (mem (init_pagelists s)) r k \<longleftrightarrow> k < region_reserved r"
proof -
  have z: "\<not> page_used (mem s) r k"
  proof -
    have "page_used (mem s) r k = page_used (\<lambda>_. 0) r k" by (rule page_used_outside [OF k zero])
    also have "\<dots> = False" by (simp add: page_used_def rd32_def)
    finally show ?thesis by simp
  qed
  have own: "page_used (reserve_pages (boot_pgl r) 0 (of_nat (region_reserved r)) m) r k \<longleftrightarrow>
      k < region_reserved r \<or> page_used m r k" for m
    using reserve_pages_used [OF boot_geometry _ region_bounds(5) k, of 0 m] by simp
  show ?thesis
    using z own reserve_boot_frame [OF _ k, of OS_DS_REG] reserve_boot_frame [OF _ k, of OS_PT_REG]
      reserve_boot_frame [OF _ k, of USER_REG]
    by (cases r) (simp_all add: init_pagelists_eq)
qed

lemma init_pagelists_boot:
  assumes zero: "\<And>a. frame_of a \<in> bmap_frames \<Longrightarrow> mem s a = 0"
  shows "mm_inv (init_pagelists s)" "page_prefix r (region_reserved r) (init_pagelists s)"
proof -
  note used = init_pagelists_used [OF zero]
  have pg: "pglists (init_pagelists s) = boot_pgl" by (simp add: init_pagelists_eq)
  show "mm_inv (init_pagelists s)"
    unfolding mm_inv_def
  proof
    fix r
    have "free_set (mem (init_pagelists s)) r = {region_reserved r..<region_pages r}"
      using used by (auto simp: free_set_def not_less)
    then have "card (free_set (mem (init_pagelists s)) r) = region_pages r - region_reserved r" by simp
    moreover have "unat (of_nat (region_pages r - region_reserved r) :: u32) = region_pages r - region_reserved r"
      using region_bounds(2) [of r] by (intro unat_of_nat_small) simp
    ultimately show "pgl_inv (mem (init_pagelists s)) r (pglists (init_pagelists s) r)"
      using used region_bounds(5) [of r] boot_geometry [of r]
      by (auto simp: pgl_inv_def pg boot_pgl_def)
  qed
  show "page_prefix r (region_reserved r) (init_pagelists s)"
    using used by (simp add: page_prefix_def pg boot_pgl_def)
qed

subsection \<open>Sequential allocation\<close>

fun alloc_pfns :: "region \<Rightarrow> nat \<Rightarrow> 'a page_state_scheme \<Rightarrow> u32 list \<times> 'a page_state_scheme" where
  "alloc_pfns r 0 s = ([], s)"
| "alloc_pfns r (Suc n) s =
     (let (p, s1) = os_pfn_alloc r s; (ps, s2) = alloc_pfns r n s1 in (p # ps, s2))"

lemma page_prefix_can_take:
  assumes "page_prefix r c s" "c < 32 * scan_window r"
  shows "can_take r s" "\<not> (\<forall>i\<in>{unat (last_free_pos (pglists s r))..<scan_window r}. rd32 (mem s) (bmap_addr r i) = 0xffffffff)"
proof -
  have c: "c < region_pages r" using assms(2) scan_window_bounds(1) [of r] by simp
  have "\<not> page_used (mem s) r c" using assms(1) c by (simp add: page_prefix_def)
  then have "rd32 (mem s) (bmap_addr r (c div 32)) \<noteq> 0xffffffff"
    using first_clear_0(2) first_clear_spec [of 0 "rd32 (mem s) (bmap_addr r (c div 32))"]
    by (fastforce simp: page_used_def)
  moreover have "c div 32 \<in> {unat (last_free_pos (pglists s r))..<scan_window r}"
    using assms by (auto simp: page_prefix_def)
  ultimately show "can_take r s" "\<not> (\<forall>i\<in>{unat (last_free_pos (pglists s r))..<scan_window r}. rd32 (mem s) (bmap_addr r i) = 0xffffffff)"
    by (auto simp: can_take_def can_alloc_def)
qed

lemma page_prefix_window_full:
  assumes "page_prefix r c s" "32 * scan_window r \<le> c"
  shows "\<not> can_alloc (mem s) r (pglists s r)"
proof -
  have "rd32 (mem s) (bmap_addr r i) = 0xffffffff" if i: "i < scan_window r" for i
  proof -
    have "bit (rd32 (mem s) (bmap_addr r i)) b" if "b < 32" for b
    proof -
      have "32 * i + b < region_pages r" "32 * i + b < c"
        using i that assms(2) scan_window_bounds(1) [of r] by linarith+
      then have "page_used (mem s) r (32 * i + b)" using assms(1) by (simp add: page_prefix_def)
      then show ?thesis using that by (simp add: page_used_def)
    qed
    then have "\<not> first_clear (rd32 (mem s) (bmap_addr r i)) 0 < 32"
      using first_clear_0(3) by blast
    then show ?thesis by (simp add: first_clear_0(2))
  qed
  then show ?thesis using scan_window_bounds(2) [of r] by (auto simp: can_alloc_def)
qed

lemma page_prefix_alloc:
  assumes inv: "mm_inv s" and pre: "page_prefix r c s" and c: "c < 32 * scan_window r"
    and eq: "os_pfn_alloc r s = (p, s')"
  shows "p = of_nat (region_base r + c)" "mm_inv s'" "page_prefix r (Suc c) s'"
proof -
  have cp: "c < region_pages r" using c scan_window_bounds(1) [of r] by simp
  obtain k where k: "k < region_pages r" "p = of_nat (region_base r + k)" "\<not> page_used (mem s) r k"
    "first_fit (mem s) r (unat (last_free_pos (pglists s r))) k" "mm_inv s'"
    "\<And>r' j. j < region_pages r' \<Longrightarrow> page_used (mem s') r' j \<longleftrightarrow> (r' = r \<and> j = k) \<or> page_used (mem s) r' j"
    "last_free_pos (pglists s' r) = of_nat (k div 32)"
    using os_pfn_alloc_contract [OF inv page_prefix_can_take(1) [OF pre c] eq] by metis
  have "c \<le> k" using k(1,3) pre by (simp add: page_prefix_def)
  moreover have "\<not> c < k"
  proof
    assume "c < k"
    moreover have "32 * unat (last_free_pos (pglists s r)) \<le> c"
      using pre unfolding page_prefix_def by linarith
    ultimately have "page_used (mem s) r c"
      using k(4) page_prefix_can_take(2) [OF pre c] by (auto simp: first_fit_def)
    then show False using pre cp by (simp add: page_prefix_def)
  qed
  ultimately have kc: "k = c" by simp
  have "unat (of_nat (c div 32) :: u32) = c div 32"
    using cp region_bounds(2) [of r] by (intro unat_of_nat_small) simp
  moreover have "c div 32 \<le> Suc c div 32" by (rule div_le_mono) simp
  ultimately show "page_prefix r (Suc c) s'" "p = of_nat (region_base r + c)" "mm_inv s'"
    using k pre by (auto simp: page_prefix_def kc)
qed

lemma alloc_pfns_sequential:
  assumes "mm_inv s" "page_prefix r c s" "c + n \<le> 32 * scan_window r" "alloc_pfns r n s = (ps, s')"
  shows "ps = map (\<lambda>i. of_nat (region_base r + i)) [c..<c + n] \<and> mm_inv s' \<and> page_prefix r (c + n) s'"
  using assms
proof (induction n arbitrary: c s ps)
  case (Suc n)
  obtain p s1 where p: "os_pfn_alloc r s = (p, s1)" by fastforce
  obtain ps' where ps': "alloc_pfns r n s1 = (ps', s')" "ps = p # ps'"
    using Suc.prems(4) by (auto simp: p split: prod.splits)
  note step = page_prefix_alloc [OF Suc.prems(1,2) _ p]
  have "ps' = map (\<lambda>i. of_nat (region_base r + i)) [Suc c..<Suc c + n] \<and> mm_inv s' \<and> page_prefix r (Suc c + n) s'"
    by (rule Suc.IH [OF step(2,3) _ ps'(1)]) (use Suc.prems(3) in simp_all)
  moreover have "[c..<c + Suc n] = c # [Suc c..<Suc c + n]" by (simp add: upt_conv_Cons del: upt_Suc)
  ultimately show ?case using step(1) Suc.prems(3) ps'(2) by (simp del: of_nat_add upt_Suc)
qed simp

subsection \<open>Properties\<close>

definition blank_pgl :: page_list where
  "blank_pgl = \<lparr>pgl_type = 0, pgl_size = 0, free_pages = 0, last_free_pos = 0, start_address = 0, bitmap = 0\<rparr>"

definition power_on :: page_state where
  "power_on = \<lparr>mem = (\<lambda>_. 0), console = [], pglists = (\<lambda>_. blank_pgl)\<rparr>"

lemma power_on_boot: "mm_inv (init_pagelists power_on)" "page_prefix r (region_reserved r) (init_pagelists power_on)"
  by (rule init_pagelists_boot, simp add: power_on_def)+

lemma power_on_can_take: "can_take r (init_pagelists power_on)"
  by (rule page_prefix_can_take(1) [OF power_on_boot(2)]) (cases r; simp add: scan_window_def)

lemma free_set_taken:
  assumes "taken s = taken s'"
  shows "free_set (mem s) r = free_set (mem s') r"
proof -
  have "page_used (mem s) r k = page_used (mem s') r k" if "k < region_pages r" for k
    using taken_iff [OF that, of s] taken_iff [OF that, of s'] assms by simp
  then show ?thesis by (auto simp: free_set_def)
qed

lemma get_mem_region_page_frame:
  assumes "k < region_pages r"
  shows "get_mem_region (of_nat (region_base r + k)) = int (unat (region_num r))"
proof -
  have "unat (push_bit 12 (ucast (of_nat (region_base r + k) :: u32)) :: u64) = 4096 * (region_base r + k)"
    using unat_page_addr [OF assms] by (simp only: ucast_page_frame [OF assms])
  with assms show ?thesis
    by (cases r) (simp_all add: get_mem_region_def Let_def word_less_nat_alt word_le_nat_alt del: of_nat_add)
qed

text \<open>C13: Booting the page lists over zeroed bitmap pages establishes the allocator invariant:
  in every region the free count is the number of clear bits, and exactly the pages that hold
  the region's bitmap are reserved.\<close>

theorem init_pagelists_establishes_inv:
  assumes "\<forall>a. frame_of a \<in> bmap_frames \<longrightarrow> mem s a = 0"
  shows "mm_inv (init_pagelists s) \<and> taken (init_pagelists s) = bmap_frames \<and>
    (\<forall>r. free_pages (pglists (init_pagelists s) r) = of_nat (region_pages r - region_reserved r))"
proof -
  have zero: "\<And>a. frame_of a \<in> bmap_frames \<Longrightarrow> mem s a = 0" using assms by blast
  have "k < region_pages r \<and> page_used (mem (init_pagelists s)) r k \<longleftrightarrow> k < region_reserved r" for r k
    using init_pagelists_used [OF zero, of k r] region_bounds(5) [of r] by auto
  then have "taken (init_pagelists s) = bmap_frames" by (simp add: taken_def bmap_frames_def)
  with init_pagelists_boot(1) [OF zero] show ?thesis
    by (simp add: init_pagelists_eq boot_pgl_def)
qed

theorem init_pagelists_establishes_inv_witness:
  "mem power_on = (\<lambda>_. 0) \<and> mm_inv (init_pagelists power_on) \<and>
   taken (init_pagelists power_on) = bmap_frames"
  using init_pagelists_establishes_inv [of power_on] by (simp add: power_on_def)

text \<open>C3: When the scanned window of the region's bitmap has a free page, \<open>os_pfn_alloc\<close> returns a
  page frame of that region that was not in use and marks exactly it as used; the invariant is
  kept, no byte outside the bitmaps and the new frame changes, and a page-table frame is zeroed.\<close>

theorem os_pfn_alloc_fresh:
  assumes "mm_inv s" "can_take r s" "os_pfn_alloc r s = (p, s')"
  shows "ucast p \<notin> taken s \<and> taken s' = insert (ucast p) (taken s) \<and> mm_inv s' \<and>
    get_mem_region p = int (unat (region_num r)) \<and>
    (\<forall>a. frame_of a \<notin> bmap_frames \<and> frame_of a \<noteq> ucast p \<longrightarrow> mem s' a = mem s a) \<and>
    (r = OS_PT_REG \<longrightarrow> (\<forall>a. frame_of a = ucast p \<longrightarrow> mem s' a = 0))"
proof -
  have "get_mem_region p = int (unat (region_num r))"
    by (rule os_pfn_alloc_contract [OF assms]) (simp only: get_mem_region_page_frame)
  moreover have "\<forall>a. frame_of a = ucast p \<longrightarrow> mem s' a = 0" if "r = OS_PT_REG"
    using pt_pool.alloc_zero [of s p s'] assms that by blast
  ultimately show ?thesis
    using page_pool.alloc_fresh [OF assms] page_pool.alloc_used [OF assms]
      page_pool.alloc_inv [OF assms] page_pool.alloc_frame [OF assms] by blast
qed

theorem os_pfn_alloc_fresh_witness:
  "\<exists>p s'. os_pfn_alloc OS_PT_REG (init_pagelists power_on) = (p, s') \<and>
     ucast p \<notin> taken (init_pagelists power_on) \<and> mm_inv s'"
  using os_pfn_alloc_fresh [OF power_on_boot(1) power_on_can_take, of OS_PT_REG] by (metis surj_pair)

text \<open>From boot, and as long as nothing is released, the pages of a region come out with
  consecutive frame numbers, starting right after the bitmap's pages. \<open>init_nodealloc_memory\<close>
  and \<open>install_ptable_multi\<close> rely on this.\<close>

theorem os_pfn_alloc_consecutive:
  assumes "\<forall>a. frame_of a \<in> bmap_frames \<longrightarrow> mem s a = 0"
    and "region_reserved r + n \<le> 32 * scan_window r"
  shows "fst (alloc_pfns r n (init_pagelists s)) =
    map (\<lambda>i. of_nat (region_base r + region_reserved r + i)) [0..<n]"
proof -
  have zero: "\<And>a. frame_of a \<in> bmap_frames \<Longrightarrow> mem s a = 0" using assms(1) by blast
  obtain ps s' where ps: "alloc_pfns r n (init_pagelists s) = (ps, s')" by fastforce
  have "ps = map (\<lambda>i. of_nat (region_base r + i)) [region_reserved r..<region_reserved r + n]"
    using alloc_pfns_sequential [OF init_pagelists_boot [OF zero] assms(2) ps] by blast
  also have "\<dots> = map (\<lambda>i. of_nat (region_base r + region_reserved r + i)) [0..<n]"
    by (rule nth_equalityI) (simp_all add: add.assoc)
  finally show ?thesis by (simp add: ps)
qed

theorem os_pfn_alloc_consecutive_witness:
  "fst (alloc_pfns USER_REG 8 (init_pagelists power_on)) =
    [25604, 25605, 25606, 25607, 25608, 25609, 25610, 25611]"
  using os_pfn_alloc_consecutive [of power_on USER_REG 8]
  by (simp add: power_on_def scan_window_def upt_rec)

text \<open>C14: Releasing a page that the allocator has just handed out undoes the allocation: the set of
  frames in use and the free count are those from before, and the invariant holds.\<close>

theorem os_pfn_alloc_free_roundtrip:
  assumes "mm_inv s" "can_take r s" "os_pfn_alloc r s = (p, s')"
  shows "mm_inv (os_pfn_free r (ucast p) s') \<and> taken (os_pfn_free r (ucast p) s') = taken s \<and>
    free_pages (pglists (os_pfn_free r (ucast p) s') r) = free_pages (pglists s r)"
proof -
  obtain k where k: "region_reserved r \<le> k" "k < region_pages r" "ucast p = page_frame r k"
    "mm_inv s'" "page_used (mem s') r k"
    by (rule os_pfn_alloc_contract [OF assms]) simp
  note free = os_pfn_free_contract [OF k(4,1,2,5), folded k(3)]
  have "taken (os_pfn_free r (ucast p) s') = taken s"
    using free(2) page_pool.alloc_used [OF assms] page_pool.alloc_fresh [OF assms] by auto
  moreover from free_set_taken [OF this] have "unat (free_pages (pglists (os_pfn_free r (ucast p) s') r)) = unat (free_pages (pglists s r))"
    using mm_invD [OF free(1), of r] mm_invD [OF assms(1), of r] by (simp add: pgl_inv_def)
  ultimately show ?thesis using free(1) by (simp add: word_unat_eq_iff)
qed

theorem os_pfn_alloc_free_roundtrip_witness:
  "\<exists>p s'. os_pfn_alloc USER_REG (init_pagelists power_on) = (p, s') \<and>
     taken (os_pfn_free USER_REG (ucast p) s') = taken (init_pagelists power_on)"
  using os_pfn_alloc_free_roundtrip [OF power_on_boot(1) power_on_can_take, of USER_REG] by (metis surj_pair)

fun show_region :: "region \<Rightarrow> string" where
  "show_region OS_DS_REG = ''0''"
| "show_region OS_PT_REG = ''1''"
| "show_region USER_REG = ''2''"

text \<open>C15: An empty region makes \<open>os_pfn_alloc\<close> return 0 and print its message; memory and page
  lists stay as they are. An address at or below the start of the region or beyond its end makes
  \<open>os_page_free\<close> print its message, again with no change.\<close>

theorem page_alloc_error_paths:
  "(free_pages (pglists s r) = 0 \<longrightarrow>
      os_pfn_alloc r s = (0, s\<lparr>console := console s @
        str ''Opps.. out of memory for region '' @ str (show_region r) @ [10, 13]\<rparr>)) \<and>
   (a \<le> start_address (pglists s r) \<or>
      start_address (pglists s r) + ucast (push_bit 12 (pgl_size (pglists s r))) \<le> a \<longrightarrow>
    os_page_free r a s = s\<lparr>console := console s @
        str ''Opps.. free address not in region '' @ str (show_region r) @ [10, 13]\<rparr>)"
proof -
  have d: "format_d (ucast (region_num r)) = str (show_region r)"
    by (cases r) (simp_all add: format_d_def Let_def dec_chars.simps signed_divide_int_def signed_modulo_int_def)
  show ?thesis
    by (cases r) (use d in \<open>simp_all add: os_pfn_alloc_def os_page_free_def Let_def printf_def\<close>)
qed

theorem page_alloc_error_paths_witness:
  "fst (os_pfn_alloc OS_DS_REG power_on) = 0 \<and>
   console (os_page_free OS_DS_REG 0 power_on) = str ''Opps.. free address not in region 0'' @ [10, 13]"
  using page_alloc_error_paths [of power_on OS_DS_REG 0] by (simp add: power_on_def blank_pgl_def)

text \<open>C16: The scan covers \<open>size >> 8\<close> words where the bitmap has \<open>size >> 5\<close>. Once the pages of that
  window are handed out, the next allocation returns page 32 of the region, a page already in
  use, although the region still has free pages.\<close>

theorem os_pfn_alloc_window_exhausted:
  assumes "\<forall>a. frame_of a \<in> bmap_frames \<longrightarrow> mem s a = 0"
    and "alloc_pfns r (32 * scan_window r - region_reserved r) (init_pagelists s) = (ps, s')"
  shows "free_pages (pglists s' r) \<noteq> 0 \<and>
    fst (os_pfn_alloc r s') = of_nat (region_base r + 32) \<and> page_frame r 32 \<in> taken s'"
proof -
  let ?n = "32 * scan_window r"
  have zero: "\<And>a. frame_of a \<in> bmap_frames \<Longrightarrow> mem s a = 0" using assms(1) by blast
  have res: "region_reserved r \<le> ?n" "32 < ?n" "?n < region_pages r" by (cases r; simp add: scan_window_def)+
  have pre: "mm_inv s'" "page_prefix r ?n s'"
    using alloc_pfns_sequential [OF init_pagelists_boot [OF zero] _ assms(2)] res(1) by simp_all
  have pinv: "pgl_inv (mem s') r (pglists s' r)" by (rule mm_invD [OF pre(1)])
  have "\<not> page_used (mem s') r ?n" using pre(2) res(3) by (simp add: page_prefix_def)
  then have nz: "free_pages (pglists s' r) \<noteq> 0" by (rule pgl_inv_free_pos [OF pinv res(3)])
  have "\<not> can_alloc (mem s') r (pglists s' r)" by (rule page_prefix_window_full [OF pre(2)]) simp
  with pinv have "fst (get_free_page (pglists s' r) (mem s')) = of_nat (region_base r + 32)"
    by (intro get_free_page_window_full) (simp_all add: pgl_inv_def)
  with nz have "fst (os_pfn_alloc r s') = of_nat (region_base r + 32)"
    by (auto simp: os_pfn_alloc_def Let_def split: prod.split)
  moreover have "page_frame r 32 \<in> taken s'"
    using pre(2) res by (simp add: taken_iff page_prefix_def)
  ultimately show ?thesis using nz by simp
qed

theorem os_pfn_alloc_window_exhausted_witness:
  "\<exists>ps s'. alloc_pfns OS_DS_REG 767 (init_pagelists power_on) = (ps, s') \<and>
     fst (os_pfn_alloc OS_DS_REG s') = 2080 \<and> page_frame OS_DS_REG 32 \<in> taken s'"
proof -
  obtain ps s' where ps: "alloc_pfns OS_DS_REG 767 (init_pagelists power_on) = (ps, s')" by fastforce
  then show ?thesis
    using os_pfn_alloc_window_exhausted [of power_on OS_DS_REG ps s']
    by (simp add: power_on_def scan_window_def)
qed

text \<open>Releasing a page twice is not detected: the free count grows by one although the page is
  already free, so the count no longer matches the bitmap.\<close>

theorem os_pfn_free_twice_miscounts:
  assumes "mm_inv s" "region_reserved r \<le> k" "k < region_pages r" "page_frame r k \<in> taken s"
  shows "taken (os_pfn_free r (page_frame r k) (os_pfn_free r (page_frame r k) s)) = taken s - {page_frame r k} \<and>
    free_pages (pglists (os_pfn_free r (page_frame r k) (os_pfn_free r (page_frame r k) s)) r) =
      free_pages (pglists s r) + 2 \<and>
    \<not> mm_inv (os_pfn_free r (page_frame r k) (os_pfn_free r (page_frame r k) s))"
proof -
  have used: "page_used (mem s) r k" using assms(3,4) by (simp add: taken_iff)
  note one = os_pfn_free_contract [OF assms(1-3) used]
  have "\<not> page_used (mem (os_pfn_free r (page_frame r k) s)) r k"
    using one(2) by (simp add: taken_iff [OF assms(3), symmetric])
  from os_pfn_free_twice [OF one(1) assms(2,3) this] one(2,4) show ?thesis by simp
qed


theorem os_pfn_free_twice_miscounts_witness:
  "\<exists>p s'. os_pfn_alloc USER_REG (init_pagelists power_on) = (p, s') \<and>
     \<not> mm_inv (os_pfn_free USER_REG (ucast p) (os_pfn_free USER_REG (ucast p) s'))"
proof -
  obtain p s' where eq: "os_pfn_alloc USER_REG (init_pagelists power_on) = (p, s')" by fastforce
  obtain k where k: "region_reserved USER_REG \<le> k" "k < region_pages USER_REG" "ucast p = page_frame USER_REG k"
    "mm_inv s'" "page_used (mem s') USER_REG k"
    by (rule os_pfn_alloc_contract [OF power_on_boot(1) power_on_can_take eq]) simp
  from k(5) have "page_frame USER_REG k \<in> taken s'" by (simp add: taken_iff [OF k(2)])
  from os_pfn_free_twice_miscounts [OF k(4,1,2) this] eq k(3) show ?thesis by metis
qed

end
