(* ===== verification/Frame_Store.thy ===== *)
theory Frame_Store
  imports Page_Pool Context
begin

text \<open>
  The page-table code's view of the page allocator. The interface \<open>frame_store\<close> extends the one of
  zeroed frames by a stock (\<open>room n\<close>: the next \<open>n\<close> allocations succeed) and by writes to memory
  that stay away from the allocator's own frames; its lemma \<open>hook\<close> is what every function that
  grows a page table does: take a frame and write its address into an entry of a table in use.
  The allocator of the page-table region provides the interface.
\<close>

locale frame_store = zeroed_frame_alloc +
  fixes room :: "nat \<Rightarrow> 's \<Rightarrow> bool"
    and store :: "(memory \<Rightarrow> memory) \<Rightarrow> 's \<Rightarrow> 's"
  assumes room_can: "room (Suc n) s \<Longrightarrow> can s"
    and room_alloc: "\<lbrakk>inv s; room (Suc n) s; alloc s = (p, s')\<rbrakk> \<Longrightarrow> room n s'"
    and store_phys: "phys (store f s) = f (phys s)"
    and store_inv: "\<lbrakk>inv s; \<And>a. frame_of a \<in> own \<Longrightarrow> f (phys s) a = phys s a\<rbrakk> \<Longrightarrow> inv (store f s)"
    and store_used: "\<lbrakk>inv s; \<And>a. frame_of a \<in> own \<Longrightarrow> f (phys s) a = phys s a\<rbrakk> \<Longrightarrow> used (store f s) = used s"
    and store_room: "\<lbrakk>inv s; \<And>a. frame_of a \<in> own \<Longrightarrow> f (phys s) a = phys s a\<rbrakk> \<Longrightarrow> room n (store f s) = room n s"
begin

lemma store_entry:
  assumes "inv s" "aligned 3 ea" "frame_of ea \<notin> own"
  shows "inv (store (\<lambda>m. wr64 m ea v) s)" "used (store (\<lambda>m. wr64 m ea v) s) = used s"
    "room n (store (\<lambda>m. wr64 m ea v) s) = room n s" "phys (store (\<lambda>m. wr64 m ea v) s) = wr64 (phys s) ea v"
proof -
  have out: "wr64 (phys s) ea v a = phys s a" if "frame_of a \<in> own" for a
    using that assms(3) by (intro wr64_frame [OF assms(2), of 12]) auto
  show "inv (store (\<lambda>m. wr64 m ea v) s)" by (rule store_inv [OF assms(1)]) (rule out)
  show "used (store (\<lambda>m. wr64 m ea v) s) = used s" by (rule store_used [OF assms(1)]) (rule out)
  show "room n (store (\<lambda>m. wr64 m ea v) s) = room n s" by (rule store_room [OF assms(1)]) (rule out)
qed (rule store_phys)

lemma hook:
  fixes v :: u64
  assumes inv: "inv s" "room (Suc n) s" and al: "alloc s = (p, s1)"
    and ea: "aligned 3 ea" "frame_of ea \<in> used s" "frame_of ea \<notin> own"
  defines "s' \<equiv> store (\<lambda>m. wr64 m ea v) s1"
  shows "inv s'" "room n s'" "used s' = insert (ucast p) (used s)" "ucast p \<notin> used s" "ucast p \<notin> own"
    "\<And>a. frame_of a = ucast p \<Longrightarrow> phys s' a = 0"
    "\<And>a. frame_of a \<in> used s \<Longrightarrow> frame_of a \<notin> own \<Longrightarrow> phys s' a = wr64 (phys s) ea v a"
proof -
  note A = room_can [OF inv(2)]
  show fresh: "ucast p \<notin> used s" by (rule alloc_fresh [OF inv(1) A al])
  show "ucast p \<notin> own" by (rule alloc_not_own [OF inv(1) A al])
  note S = store_entry [OF alloc_inv [OF inv(1) A al] ea(1,3), where v = v]
  show "inv s'" unfolding s'_def by (rule S(1))
  show "room n s'" unfolding s'_def S(3) by (rule room_alloc [OF inv al])
  show "used s' = insert (ucast p) (used s)" unfolding s'_def S(2) by (rule alloc_used [OF inv(1) A al])
  show "phys s' a = 0" if "frame_of a = ucast p" for a
  proof -
    have "frame_of a \<noteq> frame_of ea" using that fresh ea(2) by metis
    then have "phys s' a = phys s1 a" unfolding s'_def S(4) by (intro wr64_frame [OF ea(1)]) auto
    then show ?thesis using alloc_zero [OF inv(1) A al that] by simp
  qed
  show "phys s' a = wr64 (phys s) ea v a" if "frame_of a \<in> used s" "frame_of a \<notin> own" for a
  proof -
    have keep: "phys s1 x = phys s x" if "frame_of x \<in> used s" "frame_of x \<notin> own" for x
      by (rule alloc_keeps [OF inv(1) A al that])
    show ?thesis
    proof (cases "frame_of a = frame_of ea")
      case True
      then show ?thesis unfolding s'_def S(4) using keep that by (simp add: wr64_def wr32_def)
    next
      case False
      then show ?thesis
        unfolding s'_def S(4) using wr64_frame [OF ea(1) _ False] keep [OF that] by simp
    qed
  qed
qed

end

subsection \<open>The stock of the page-table region\<close>

definition stock_set :: "region \<Rightarrow> 'a page_state_scheme \<Rightarrow> nat set" where
  "stock_set r s = {k. 32 * unat (last_free_pos (pglists s r)) \<le> k \<and> k < 32 * scan_window r \<and> \<not> page_used (mem s) r k}"

definition stock :: "region \<Rightarrow> nat \<Rightarrow> 'a page_state_scheme \<Rightarrow> bool" where
  "stock r n s \<longleftrightarrow> n \<le> card (stock_set r s)"

lemma finite_stock_set [simp]: "finite (stock_set r s)"
  by (rule finite_subset [of _ "{..<32 * scan_window r}"]) (auto simp: stock_set_def)

lemma not_full_word:
  assumes "\<not> page_used m r k"
  shows "rd32 m (bmap_addr r (k div 32)) \<noteq> 0xffffffff"
  using assms first_clear_0(2) first_clear_spec [of 0 "rd32 m (bmap_addr r (k div 32))"]
  by (fastforce simp: page_used_def)

lemma stock_can:
  assumes "stock r (Suc n) s"
  shows "can_take r s"
    "\<not> (\<forall>i\<in>{unat (last_free_pos (pglists s r))..<scan_window r}. rd32 (mem s) (bmap_addr r i) = 0xffffffff)"
proof -
  have "stock_set r s \<noteq> {}" using assms by (auto simp: stock_def)
  then obtain k where k: "32 * unat (last_free_pos (pglists s r)) \<le> k" "k < 32 * scan_window r" "\<not> page_used (mem s) r k"
    by (auto simp: stock_set_def)
  have "k div 32 \<in> {unat (last_free_pos (pglists s r))..<scan_window r}" using k(1,2) by auto
  with not_full_word [OF k(3)] show "can_take r s"
    "\<not> (\<forall>i\<in>{unat (last_free_pos (pglists s r))..<scan_window r}. rd32 (mem s) (bmap_addr r i) = 0xffffffff)"
    by (auto simp: can_take_def can_alloc_def)
qed

lemma stock_alloc:
  assumes inv: "mm_inv s" and st: "stock r (Suc n) s" and eq: "os_pfn_alloc r s = (p, s')"
  shows "stock r n s'"
proof -
  obtain k where k: "k < 32 * scan_window r" "k < region_pages r" "\<not> page_used (mem s) r k"
    "first_fit (mem s) r (unat (last_free_pos (pglists s r))) k"
    "\<And>r' j. j < region_pages r' \<Longrightarrow> page_used (mem s') r' j \<longleftrightarrow> (r' = r \<and> j = k) \<or> page_used (mem s) r' j"
    "last_free_pos (pglists s' r) = of_nat (k div 32)"
    using os_pfn_alloc_contract [OF inv stock_can(1) [OF st] eq] by metis
  have fit: "32 * unat (last_free_pos (pglists s r)) \<le> k"
    "\<And>j. 32 * unat (last_free_pos (pglists s r)) \<le> j \<Longrightarrow> j < k \<Longrightarrow> page_used (mem s) r j"
    using k(4) stock_can(2) [OF st] by (auto simp: first_fit_def)
  have l: "unat (last_free_pos (pglists s' r)) = k div 32"
    using k(2,6) region_bounds(2) [of r] by (simp add: unat_of_nat_small)
  have "stock_set r s' = stock_set r s - {k}"
  proof (rule set_eqI)
    fix j
    have "page_used (mem s') r j \<longleftrightarrow> j = k \<or> page_used (mem s) r j" if "j < 32 * scan_window r"
      using k(5) [of j r] that scan_window_bounds(1) [of r] by simp
    moreover have "32 * unat (last_free_pos (pglists s r)) \<le> j" if "32 * (k div 32) \<le> j"
    proof -
      have "unat (last_free_pos (pglists s r)) \<le> k div 32"
        using fit(1) by (simp add: less_eq_div_iff_mult_less_eq mult.commute)
      with that show ?thesis by linarith
    qed
    moreover have "k \<le> j" if "32 * unat (last_free_pos (pglists s r)) \<le> j" "\<not> page_used (mem s) r j"
      using fit(2) that not_le by blast
    ultimately show "j \<in> stock_set r s' \<longleftrightarrow> j \<in> stock_set r s - {k}"
      unfolding stock_set_def l by (auto intro: order_trans [of "32 * (k div 32)" k j])
  qed
  moreover have "k \<in> stock_set r s" using k(1,3) fit(1) by (simp add: stock_set_def)
  ultimately show ?thesis using st by (simp add: stock_def)
qed

lemma stock_set_cong:
  assumes "\<And>k. k < region_pages r \<Longrightarrow> page_used (mem s') r k = page_used (mem s) r k" "pglists s' r = pglists s r"
  shows "stock_set r s' = stock_set r s"
  unfolding stock_set_def assms(2) using assms(1) scan_window_bounds(1) [of r] by (auto simp: less_le_trans)

lemma stock_other:
  assumes "mm_inv s" "can_take r s" "os_pfn_alloc r s = (p, s')" "r' \<noteq> r"
  shows "stock r' n s' = stock r' n s"
proof -
  have "stock_set r' s' = stock_set r' s"
    by (rule os_pfn_alloc_contract [OF assms(1-3)])
      (rule stock_set_cong, use assms(4) pglists_other [OF assms(3,4)] in auto)
  then show ?thesis by (simp add: stock_def)
qed

lemma mem_update_outside:
  fixes s :: "'a page_state_scheme"
  assumes "mm_inv s" "\<And>a. frame_of a \<in> bmap_frames \<Longrightarrow> f (mem s) a = mem s a"
  shows "mm_inv (mem_update f s)" "taken (mem_update f s) = taken s" "stock r n (mem_update f s) = stock r n s"
proof -
  have u: "page_used (f (mem s)) r k = page_used (mem s) r k" if "k < region_pages r" for r k
    by (rule page_used_outside [OF that assms(2)])
  show "taken (mem_update f s) = taken s" using u by (auto simp: taken_def)
  have "stock_set r (mem_update f s) = stock_set r s" by (rule stock_set_cong) (simp_all add: u)
  then show "stock r n (mem_update f s) = stock r n s" by (simp add: stock_def)
  have fs: "free_set (f (mem s)) r = free_set (mem s) r" for r using u by (auto simp: free_set_def)
  have "pgl_inv (f (mem s)) r (pglists s r)" for r
    using mm_invD [OF assms(1), of r] u region_bounds(5) [of r] unfolding pgl_inv_def fs by auto
  then show "mm_inv (mem_update f s)" by (simp add: mm_inv_def)
qed

interpretation pt_store: frame_store "os_pfn_alloc OS_PT_REG" mm_inv "can_take OS_PT_REG" taken mem bmap_frames
  "stock OS_PT_REG" "mem_update :: (memory \<Rightarrow> memory) \<Rightarrow> 'a page_state_scheme \<Rightarrow> 'a page_state_scheme"
proof
  fix s s' :: "'a page_state_scheme" and n p
  show "stock OS_PT_REG (Suc n) s \<Longrightarrow> can_take OS_PT_REG s" by (rule stock_can(1))
  show "\<lbrakk>mm_inv s; stock OS_PT_REG (Suc n) s; os_pfn_alloc OS_PT_REG s = (p, s')\<rbrakk> \<Longrightarrow> stock OS_PT_REG n s'"
    by (rule stock_alloc)
next
  fix f and s :: "'a page_state_scheme" and n
  show "mem (mem_update f s) = f (mem s)" by simp
  assume a: "mm_inv s" "\<And>a. frame_of a \<in> bmap_frames \<Longrightarrow> f (mem s) a = mem s a"
  show "mm_inv (mem_update f s)" "taken (mem_update f s) = taken s"
    "stock OS_PT_REG n (mem_update f s) = stock OS_PT_REG n s"
    by (rule mem_update_outside, rule a(1), rule a(2), assumption)+
qed

end
