(* ===== verification/Table_Frames.thy ===== *)
theory Table_Frames
  imports Frame_Store Page_Table "HOL-Library.Multiset"
begin

text \<open>
  The frames that belong to a tree of page tables, in the order in which \<open>pt_cleanup\<close> visits them.
\<close>

definition own_page :: "region \<Rightarrow> u64 \<Rightarrow> bool" where
  "own_page r f \<longleftrightarrow> region_base r + region_reserved r \<le> unat f \<and> unat f < region_base r + region_pages r"

lemma own_pageE:
  assumes "own_page r f"
  obtains k where "region_reserved r \<le> k" "k < region_pages r" "f = page_frame r k"
proof
  show "f = page_frame r (unat f - region_base r)" using assms by (simp add: own_page_def page_frame_def)
qed (use assms in \<open>auto simp: own_page_def\<close>)

lemma own_page_frame: "region_reserved r \<le> k \<Longrightarrow> k < region_pages r \<Longrightarrow> own_page r (page_frame r k)"
  by (simp add: own_page_def unat_page_frame)

lemma own_page_not_bmap: "own_page r f \<Longrightarrow> f \<notin> bmap_frames"
  using reserved_disjoint [of _ "unat f" r] unfolding own_page_def bmap_frames_iff by fastforce

lemma own_page_small: "own_page r f \<Longrightarrow> unat f < 131072"
  using region_bounds(3) [of r] by (simp add: own_page_def)

text \<open>The state beside memory, the console and the page lists is the same.\<close>

definition same_kernel :: "'a kernel_scheme \<Rightarrow> 'a kernel_scheme \<Rightarrow> bool" where
  "same_kernel s s' \<longleftrightarrow> (\<exists>m c pgl. s' = s\<lparr>mem := m, console := c, pglists := pgl\<rparr>)"

lemma same_kernelI: "s' = s\<lparr>mem := m, console := c, pglists := pgl\<rparr> \<Longrightarrow> same_kernel s s'"
  unfolding same_kernel_def by blast

lemma same_kernel_refl [simp]: "same_kernel s s"
  by (rule same_kernelI [where m = "mem s" and c = "console s" and pgl = "pglists s"]) simp

lemma same_kernel_trans: "same_kernel s s1 \<Longrightarrow> same_kernel s1 s2 \<Longrightarrow> same_kernel s s2"
  unfolding same_kernel_def by (elim exE, intro exI) simp

lemma same_kernel_write: "same_kernel s (s\<lparr>mem := m\<rparr>)"
  by (rule same_kernelI [where m = m and c = "console s" and pgl = "pglists s"]) simp

lemma same_kernel_pgl: "same_kernel s (s\<lparr>mem := m, pglists := p\<rparr>)"
  by (rule same_kernelI [where m = m and c = "console s" and pgl = p]) simp

lemma same_kernel_update: "same_kernel s (mem_update f s)"
  by (rule same_kernelI [where m = "f (mem s)" and c = "console s" and pgl = "pglists s"], cases s) simp

lemma same_kernel_printf: "same_kernel s (printf f as s)"
  by (rule same_kernelI [where m = "mem s" and c = "console (printf f as s)" and pgl = "pglists s"])
    (simp add: printf_def split: option.split)

lemma same_kernelD:
  assumes "same_kernel s s'"
  shows "ctx_list s' = ctx_list s" "current s' = current s" "os_pmd_pfn s' = os_pmd_pfn s" "stats s' = stats s"
    "config s' = config s" "apic_base s' = apic_base s" "cr3 s' = cr3 s" "the_ctx s' i = the_ctx s i"
  using assms by (auto simp: same_kernel_def the_ctx_def)

lemma pglists_printf [simp, frame_simps]: "pglists (printf f as s) = pglists s"
  by (simp add: printf_def split: option.split)

subsection \<open>The frames of a tree of tables\<close>

definition entry_at :: "memory \<Rightarrow> u64 \<Rightarrow> nat \<Rightarrow> u64" where
  "entry_at m p i = rd64 m (entry_addr (osmap p) (of_nat i))"

definition table_slots :: "nat \<Rightarrow> nat list" where
  "table_slots l = [if l = 3 then 1 else 0..<512]"

fun pt_frames :: "memory \<Rightarrow> nat \<Rightarrow> u64 \<Rightarrow> (nat \<times> u64) list" where
  "pt_frames m 0 p = [(0, p)]"
| "pt_frames m (Suc l) p =
     concat (map (\<lambda>i. let e = entry_at m p i in if e AND 1 = 0 then [] else pt_frames m l (drop_bit 12 e))
       (table_slots (Suc l))) @ [(Suc l, p)]"

definition level_region :: "nat \<Rightarrow> region" where
  "level_region l = (if l = 0 then USER_REG else OS_PT_REG)"

definition frames_ok :: "(nat \<times> u64) list \<Rightarrow> bool" where
  "frames_ok F \<longleftrightarrow> (\<forall>(l, f)\<in>set F. own_page (level_region l) f) \<and> distinct (map snd F)"

definition table_frames :: "(nat \<times> u64) list \<Rightarrow> u64 set" where
  "table_frames F = {f. \<exists>l. 0 < l \<and> (l, f) \<in> set F}"

abbreviation slot_frames :: "memory \<Rightarrow> nat \<Rightarrow> u64 \<Rightarrow> nat \<Rightarrow> (nat \<times> u64) list" where
  "slot_frames m l p i \<equiv>
     (let e = entry_at m p i in if e AND 1 = 0 then [] else pt_frames m l (drop_bit 12 e))"

lemma table_frames_simps [simp]:
  "table_frames [] = {}" "table_frames (F @ G) = table_frames F \<union> table_frames G"
  "table_frames ((l, f) # F) = (if 0 < l then {f} else {}) \<union> table_frames F"
  by (auto simp: table_frames_def)

lemma table_frames_sub: "table_frames F \<subseteq> snd ` set F"
  by (force simp: table_frames_def)

lemma frames_ok_append [simp]:
  "frames_ok (F @ G) \<longleftrightarrow> frames_ok F \<and> frames_ok G \<and> snd ` set F \<inter> snd ` set G = {}"
  by (auto simp: frames_ok_def)

lemma frames_ok_single [simp]: "frames_ok [(l, f)] \<longleftrightarrow> own_page (level_region l) f"
  by (simp add: frames_ok_def)

lemma table_frames_own:
  assumes "frames_ok F" "f \<in> table_frames F"
  shows "own_page OS_PT_REG f"
proof -
  obtain l where "0 < l" "(l, f) \<in> set F" using assms(2) by (auto simp: table_frames_def)
  then show ?thesis using assms(1) by (force simp: frames_ok_def level_region_def)
qed

lemma root_in_frames: "(l, p) \<in> set (pt_frames m l p)"
  by (cases l) simp_all

lemma frame_of_osmap: "unat p < 131072 \<Longrightarrow> frame_of (osmap p) = p"
proof -
  assume "unat p < 131072"
  then have "unat (ucast p :: u32) = unat p" by (simp add: unsigned_ucast_eq take_bit_nat_eq_self)
  then have "p = ucast (ucast p :: u32)" by (simp only: word_unat_eq_iff unat_ucast_u64)
  then show ?thesis by (metis frame_of_osmap_u32)
qed

lemma wr64_same: "m' a = m a \<Longrightarrow> wr64 m' ea v a = wr64 m ea v a"
  by (simp add: wr64_def wr32_def)

lemma table_slots_less: "i \<in> set (table_slots l) \<Longrightarrow> i < 512"
  by (simp add: table_slots_def split: if_splits)

lemma slot_unat: "i < 512 \<Longrightarrow> unat (of_nat i :: u64) = i"
  by (simp add: unat_of_nat_small)

lemma slot_addr:
  assumes "unat p < 131072" "i < 512"
  shows "aligned 3 (entry_addr (osmap p) (of_nat i))" "frame_of (entry_addr (osmap p) (of_nat i)) = p"
  using assms by (simp_all add: entry_addr_aligned entry_addr_frame slot_unat frame_of_osmap)

lemma entry_at_cong:
  assumes "unat p < 131072" "i < 512" "\<And>a. frame_of a = p \<Longrightarrow> m' a = m a"
  shows "entry_at m' p i = entry_at m p i"
  unfolding entry_at_def
  by (rule rd64_cong [where n = 12]) (use slot_addr [OF assms(1,2)] assms(3) in auto)

lemma table_frames_mono: "set F \<subseteq> set G \<Longrightarrow> table_frames F \<subseteq> table_frames G"
  by (auto simp: table_frames_def)

lemma frames_ok_sub:
  assumes "frames_ok (concat (map g xs))" "i \<in> set xs"
  shows "frames_ok (g i)"
proof -
  obtain ys zs where "xs = ys @ i # zs" using assms(2) by (meson split_list)
  then show ?thesis using assms(1) by simp
qed

lemma frames_ok_disjoint:
  assumes "frames_ok (concat (map g xs))" "i \<in> set xs" "j \<in> set xs" "i \<noteq> j"
  shows "snd ` set (g i) \<inter> snd ` set (g j) = {}"
  using assms
proof (induction xs)
  case (Cons x xs)
  have sub: "snd ` set (g y) \<subseteq> snd ` set (concat (map g xs))" if "y \<in> set xs" for y
    using that unfolding set_concat set_map by blast
  have ok: "frames_ok (concat (map g xs))" "snd ` set (g x) \<inter> snd ` set (concat (map g xs)) = {}"
    using Cons.prems(1) unfolding list.map concat.simps frames_ok_append by blast+
  consider "i \<in> set xs" "j \<in> set xs" | "i = x" "j \<in> set xs" | "j = x" "i \<in> set xs"
    using Cons.prems(2-4) by auto
  then show ?case using Cons.IH [OF ok(1)] sub ok(2) Cons.prems(4) by cases blast+
qed simp

lemma frames_ok_Suc:
  assumes "frames_ok (pt_frames m (Suc l) p)"
  shows "own_page OS_PT_REG p" "unat p < 131072"
    "i \<in> set (table_slots (Suc l)) \<Longrightarrow> frames_ok (slot_frames m l p i)"
    "i \<in> set (table_slots (Suc l)) \<Longrightarrow> set (slot_frames m l p i) \<subseteq> set (pt_frames m (Suc l) p)"
proof -
  show o: "own_page OS_PT_REG p" using assms by (simp add: level_region_def)
  then show "unat p < 131072" by (rule own_page_small)
  assume i: "i \<in> set (table_slots (Suc l))"
  show "frames_ok (slot_frames m l p i)"
    by (rule frames_ok_sub [OF _ i]) (use assms in simp)
  show "set (slot_frames m l p i) \<subseteq> set (pt_frames m (Suc l) p)"
    unfolding pt_frames.simps set_append set_concat set_map using i by blast
qed

declare pt_frames.simps(2) [simp del]

lemma pt_frames_cong:
  assumes "frames_ok (pt_frames m l p)" "\<And>a. frame_of a \<in> table_frames (pt_frames m l p) \<Longrightarrow> m' a = m a"
  shows "pt_frames m' l p = pt_frames m l p"
  using assms
proof (induction l arbitrary: p)
  case (Suc l)
  note ok = frames_ok_Suc [OF Suc.prems(1)]
  have slot: "slot_frames m' l p i = slot_frames m l p i" if i: "i \<in> set (table_slots (Suc l))" for i
  proof -
    have "p \<in> table_frames (pt_frames m (Suc l) p)" using root_in_frames unfolding table_frames_def by blast
    then have e: "entry_at m' p i = entry_at m p i"
      by (intro entry_at_cong [OF ok(2) table_slots_less [OF i]] Suc.prems(2)) simp
    show ?thesis
    proof (cases "entry_at m p i AND 1 = 0")
      case False
      then have s: "slot_frames m l p i = pt_frames m l (drop_bit 12 (entry_at m p i))" by simp
      have "pt_frames m' l (drop_bit 12 (entry_at m p i)) = pt_frames m l (drop_bit 12 (entry_at m p i))"
        using Suc.IH [OF ok(3) [OF i, unfolded s]] Suc.prems(2) table_frames_mono [OF ok(4) [OF i, unfolded s]]
        by blast
      then show ?thesis using e by (simp add: Let_def)
    qed (use e in simp)
  qed
  then have "map (slot_frames m' l p) (table_slots (Suc l)) = map (slot_frames m l p) (table_slots (Suc l))" by simp
  then show ?case by (simp only: pt_frames.simps)
qed simp

subsection \<open>The tree after a write to one of its tables\<close>

lemma frames_ok_mset: "mset F = mset G \<Longrightarrow> frames_ok F = frames_ok G"
  using mset_eq_setD [of F G] mset_eq_imp_distinct_iff [of "map snd F" "map snd G"] by (simp add: frames_ok_def)

lemma slot_frames_absent [simp]: "entry_at m p i AND 1 = 0 \<Longrightarrow> slot_frames m l p i = []"
  by simp

lemma slot_frames_present: "entry_at m p i AND 1 \<noteq> 0 \<Longrightarrow> slot_frames m l p i = pt_frames m l (drop_bit 12 (entry_at m p i))"
  by (simp add: Let_def)

lemma empty_entry: "(\<And>a. frame_of a = f \<Longrightarrow> m a = 0) \<Longrightarrow> unat f < 131072 \<Longrightarrow> i < 512 \<Longrightarrow> entry_at m f i = 0"
  using entry_at_cong [of f i "\<lambda>_. 0" m] by (simp add: entry_at_def rd64_def rd32_def)

lemma pt_frames_empty:
  assumes "unat f < 131072" "\<And>a. frame_of a = f \<Longrightarrow> m a = 0"
  shows "pt_frames m (Suc k) f = [(Suc k, f)]"
proof -
  have "slot_frames m k f i = []" if "i \<in> set (table_slots (Suc k))" for i
    using empty_entry [OF assms(2,1) table_slots_less [OF that]] by simp
  then show ?thesis by (simp add: pt_frames.simps)
qed

lemma add_frame: "A + Y = X + B \<Longrightarrow> A + R + Y = X + (B + R)" for A :: "'b multiset"
proof -
  assume "A + Y = X + B"
  then have "(A + Y) + R = (X + B) + R" by simp
  then show ?thesis by (simp only: ac_simps)
qed

lemma concat_replace:
  assumes "distinct xs" "i \<in> set xs" "\<And>j. j \<in> set xs \<Longrightarrow> j \<noteq> i \<Longrightarrow> h j = g j" "mset (h i) + Y = X + mset (g i)"
  shows "mset (concat (map h xs)) + Y = X + mset (concat (map g xs))"
proof -
  obtain ys zs where xs: "xs = ys @ i # zs" using assms(2) by (meson split_list)
  have eq: "map h ys = map g ys" "map h zs = map g zs" using assms(1,3) xs by auto
  have "mset (concat (map h xs)) + Y = (mset (h i) + Y) + (mset (concat (map g ys)) + mset (concat (map g zs)))"
    unfolding xs map_append list.map concat_append concat.simps mset_append eq by (simp only: ac_simps)
  also have "\<dots> = X + mset (concat (map g xs))"
    unfolding xs map_append list.map concat_append concat.simps mset_append assms(4) by (simp only: ac_simps)
  finally show ?thesis .
qed

text \<open>The table that is written occurs once: it is the root, or it is in the subtree of one slot.\<close>

lemma slot_frames_untouched:
  assumes ok: "frames_ok (pt_frames m (Suc l) p)" and i: "i \<in> set (table_slots (Suc l))"
    and t: "t \<notin> table_frames (slot_frames m l p i)" and e: "entry_at m' p i = entry_at m p i"
    and same: "\<And>a. frame_of a \<in> table_frames (pt_frames m (Suc l) p) \<Longrightarrow> frame_of a \<noteq> t \<Longrightarrow> m' a = m a"
  shows "slot_frames m' l p i = slot_frames m l p i"
proof (cases "entry_at m p i AND 1 = 0")
  case False
  note sf = slot_frames_present [OF False, of l] and sub = frames_ok_Suc(3,4) [OF ok i]
  have "pt_frames m' l (drop_bit 12 (entry_at m p i)) = pt_frames m l (drop_bit 12 (entry_at m p i))"
    by (rule pt_frames_cong [OF sub(1) [unfolded sf]])
      (use same t table_frames_mono [OF sub(2)] in \<open>unfold sf, blast\<close>)
  then show ?thesis using e sf slot_frames_present [of m' p i l] False by simp
qed (use e in simp)

lemma pt_frames_slot:
  assumes ok: "frames_ok (pt_frames m (Suc l) p)" and t: "(Suc k, t) \<in> set (pt_frames m (Suc l) p)" "(Suc k, t) \<noteq> (Suc l, p)"
  obtains j where "j \<in> set (table_slots (Suc l))" "entry_at m p j AND 1 \<noteq> 0"
    "(Suc k, t) \<in> set (pt_frames m l (drop_bit 12 (entry_at m p j)))" "t \<noteq> p"
    "\<And>i. i \<in> set (table_slots (Suc l)) \<Longrightarrow> i \<noteq> j \<Longrightarrow> t \<notin> table_frames (slot_frames m l p i)"
proof -
  let ?F = "concat (map (slot_frames m l p) (table_slots (Suc l)))"
  have F: "pt_frames m (Suc l) p = ?F @ [(Suc l, p)]" by (simp only: pt_frames.simps)
  from t have "(Suc k, t) \<in> set ?F" unfolding F by auto
  then obtain j where j: "j \<in> set (table_slots (Suc l))" "(Suc k, t) \<in> set (slot_frames m l p j)"
    unfolding set_concat set_map by blast
  then have pres: "entry_at m p j AND 1 \<noteq> 0" by (metis list.set(1) equals0D slot_frames_absent)
  have ne: "t \<noteq> p"
    using image_eqI [OF _ \<open>(Suc k, t) \<in> set ?F\<close>, of t snd] ok unfolding F by auto
  have "frames_ok ?F" using ok unfolding F frames_ok_append by blast
  note disj = frames_ok_disjoint [OF this _ j(1)]
  have "t \<in> snd ` set (slot_frames m l p j)" using j(2) by (metis image_eqI snd_conv)
  then have "t \<notin> table_frames (slot_frames m l p i)" if "i \<in> set (table_slots (Suc l))" "i \<noteq> j" for i
    using disj [OF that] table_frames_sub by blast
  then show ?thesis using that j(1) pres j(2) ne slot_frames_present [OF pres, of l] by auto
qed

text \<open>A change below one table is the same change of the whole tree.\<close>

lemma pt_frames_below:
  assumes "frames_ok (pt_frames m l p)" "(Suc k, t) \<in> set (pt_frames m l p)"
    and "\<And>a. frame_of a \<in> table_frames (pt_frames m l p) \<Longrightarrow> frame_of a \<noteq> t \<Longrightarrow> m' a = m a"
    and "mset (pt_frames m' (Suc k) t) + Y = X + mset (pt_frames m (Suc k) t)"
  shows "mset (pt_frames m' l p) + Y = X + mset (pt_frames m l p)"
  using assms(1-3)
proof (induction l arbitrary: p)
  case (Suc l)
  show ?case
  proof (cases "(Suc k, t) = (Suc l, p)")
    case False
    note ok = frames_ok_Suc [OF Suc.prems(1)]
    obtain j where j: "j \<in> set (table_slots (Suc l))" "entry_at m p j AND 1 \<noteq> 0"
      "(Suc k, t) \<in> set (pt_frames m l (drop_bit 12 (entry_at m p j)))" "t \<noteq> p"
      and other: "\<And>i. i \<in> set (table_slots (Suc l)) \<Longrightarrow> i \<noteq> j \<Longrightarrow> t \<notin> table_frames (slot_frames m l p i)"
      by (rule pt_frames_slot [OF Suc.prems(1,2) False], rule that; assumption)
    have "p \<in> table_frames (pt_frames m (Suc l) p)" using root_in_frames unfolding table_frames_def by blast
    then have e: "entry_at m' p i = entry_at m p i" if "i < 512" for i
      using Suc.prems(3) j(4) by (intro entry_at_cong [OF ok(2) that]) blast
    note sf = slot_frames_present [OF j(2), of l] and sub = ok(3,4) [OF j(1)]
    have "mset (pt_frames m' l (drop_bit 12 (entry_at m p j))) + Y = X + mset (pt_frames m l (drop_bit 12 (entry_at m p j)))"
      by (rule Suc.IH [OF sub(1) [unfolded sf] j(3)])
        (use Suc.prems(3) table_frames_mono [OF sub(2)] in \<open>unfold sf, blast\<close>)
    then have at: "mset (slot_frames m' l p j) + Y = X + mset (slot_frames m l p j)"
      using e [OF table_slots_less [OF j(1)]] sf slot_frames_present [of m' p j l] j(2) by simp
    have "mset (concat (map (slot_frames m' l p) (table_slots (Suc l)))) + Y =
        X + mset (concat (map (slot_frames m l p) (table_slots (Suc l))))"
    proof (rule concat_replace [where g = "slot_frames m l p" and h = "slot_frames m' l p", OF _ j(1) _ at])
      show "distinct (table_slots (Suc l))" by (simp add: table_slots_def)
      fix i assume i: "i \<in> set (table_slots (Suc l))" "i \<noteq> j"
      show "slot_frames m' l p i = slot_frames m l p i"
        by (rule slot_frames_untouched [OF Suc.prems(1) i(1) other [OF i] e [OF table_slots_less [OF i(1)]] Suc.prems(3)])
    qed
    then show ?thesis unfolding pt_frames.simps mset_append by (rule add_frame)
  qed (use assms(4) in simp)
qed simp

lemma frames_ok_inner:
  assumes "frames_ok (pt_frames m l p)" "(k, t) \<in> set (pt_frames m l p)"
  shows "frames_ok (pt_frames m k t) \<and> set (pt_frames m k t) \<subseteq> set (pt_frames m l p) \<and> k \<le> l"
  using assms
proof (induction l arbitrary: p)
  case (Suc l)
  note ok = frames_ok_Suc [OF Suc.prems(1)]
  show ?case
  proof (cases "(k, t) = (Suc l, p)")
    case False
    let ?F = "concat (map (slot_frames m l p) (table_slots (Suc l)))"
    have "(k, t) \<in> set ?F" using Suc.prems(2) False by (auto simp: pt_frames.simps(2))
    then obtain j where j: "j \<in> set (table_slots (Suc l))" "(k, t) \<in> set (slot_frames m l p j)"
      unfolding set_concat set_map by blast
    then have "entry_at m p j AND 1 \<noteq> 0" by (metis list.set(1) equals0D slot_frames_absent)
    note sf = slot_frames_present [OF this, of l]
    from Suc.IH [OF ok(3) [OF j(1), unfolded sf] j(2) [unfolded sf]] ok(4) [OF j(1), unfolded sf]
    show ?thesis by auto
  qed (use Suc.prems in auto)
qed auto

text \<open>One entry of a table.\<close>

lemma entry_at_wr64:
  assumes "unat t < 131072" "i < 512" "j < 512"
  shows "entry_at (wr64 m (entry_addr (osmap t) (of_nat i)) e) t j = (if j = i then e else entry_at m t j)"
proof (cases "j = i")
  case False
  have "entry_addr (osmap t) (of_nat i) \<noteq> entry_addr (osmap t) (of_nat j)"
    using entry_addr_inj [of "osmap t" "osmap t" "of_nat i" "of_nat j"] slot_unat assms(2,3) False
    by (metis aligned_osmap order_refl)
  then show ?thesis
    using False rd64_wr64_other [OF slot_addr(1) [OF assms(1,2)] slot_addr(1) [OF assms(1,3)]]
    by (simp add: entry_at_def)
qed (use slot_addr(1) [OF assms(1,2)] in \<open>simp add: entry_at_def\<close>)

lemma entry_write_other:
  assumes "unat t < 131072" "i < 512" "frame_of a \<noteq> t"
  shows "wr64 m (entry_addr (osmap t) (of_nat i)) e a = m a"
  using wr64_frame [OF slot_addr(1) [OF assms(1,2)], of 12 a] slot_addr(2) [OF assms(1,2)] assms(3) by simp

lemma pt_frames_write:
  assumes ok: "frames_ok (pt_frames m l p)" and t: "(Suc k, t) \<in> set (pt_frames m l p)" and i: "i < 512"
    and same: "\<And>a. frame_of a \<in> table_frames (pt_frames m l p) \<Longrightarrow>
      m' a = wr64 m (entry_addr (osmap t) (of_nat i)) e a"
    and X: "i \<in> set (table_slots (Suc k)) \<Longrightarrow>
      mset (if e AND 1 = 0 then [] else pt_frames m' k (drop_bit 12 e)) + Y = X + mset (slot_frames m k t i)"
      "i \<notin> set (table_slots (Suc k)) \<Longrightarrow> X = {#} \<and> Y = {#}"
  shows "mset (pt_frames m' l p) + Y = X + mset (pt_frames m l p)"
proof (rule pt_frames_below [OF ok t])
  note inner = frames_ok_inner [OF ok t]
  have ok': "frames_ok (pt_frames m (Suc k) t)" using inner by blast
  note small = frames_ok_Suc(2) [OF ok']
  show other: "m' a = m a" if "frame_of a \<in> table_frames (pt_frames m l p)" "frame_of a \<noteq> t" for a
    using same [OF that(1)] entry_write_other [OF small i that(2)] by simp
  have "t \<in> table_frames (pt_frames m l p)" using t unfolding table_frames_def by blast
  then have e: "entry_at m' t j = (if j = i then e else entry_at m t j)" if "j < 512" for j
    using entry_at_cong [OF small that, of m' "wr64 m (entry_addr (osmap t) (of_nat i)) e"] same
      entry_at_wr64 [OF small i that] by simp
  have rest: "slot_frames m' k t j = slot_frames m k t j" if j: "j \<in> set (table_slots (Suc k))" "j \<noteq> i" for j
  proof (rule slot_frames_untouched [OF ok' j(1)])
    have "t \<notin> snd ` set (concat (map (slot_frames m k t) (table_slots (Suc k))))"
      using ok' by (simp add: pt_frames.simps(2))
    then have "t \<notin> snd ` set (slot_frames m k t j)" using j(1) unfolding set_concat set_map by blast
    then show "t \<notin> table_frames (slot_frames m k t j)" using table_frames_sub by blast
    show "entry_at m' t j = entry_at m t j" using e [OF table_slots_less [OF j(1)]] j(2) by simp
    show "m' a = m a" if "frame_of a \<in> table_frames (pt_frames m (Suc k) t)" "frame_of a \<noteq> t" for a
      using other [OF _ that(2)] that(1) table_frames_mono inner by blast
  qed
  show "mset (pt_frames m' (Suc k) t) + Y = X + mset (pt_frames m (Suc k) t)"
  proof (cases "i \<in> set (table_slots (Suc k))")
    case True
    have at: "mset (slot_frames m' k t i) + Y = X + mset (slot_frames m k t i)"
      using X(1) [OF True] e [OF i] by (simp add: Let_def)
    have "mset (concat (map (slot_frames m' k t) (table_slots (Suc k)))) + Y =
        X + mset (concat (map (slot_frames m k t) (table_slots (Suc k))))"
      by (rule concat_replace [where g = "slot_frames m k t" and h = "slot_frames m' k t", OF _ True rest at])
        (simp add: table_slots_def)
    then show ?thesis unfolding pt_frames.simps mset_append by (rule add_frame)
  next
    case False
    have "map (slot_frames m' k t) (table_slots (Suc k)) = map (slot_frames m k t) (table_slots (Suc k))"
    proof (rule map_cong [OF refl])
      fix j assume "j \<in> set (table_slots (Suc k))"
      with False show "slot_frames m' k t j = slot_frames m k t j" by (intro rest) auto
    qed
    then show ?thesis using X(2) [OF False] by (simp only: pt_frames.simps) simp
  qed
qed

text \<open>Writing an entry for a new page or an empty table, and an entry of the slot that the teardown
  skips.\<close>

lemma pt_frames_grow:
  assumes "frames_ok (pt_frames m l p)" "(Suc k, t) \<in> set (pt_frames m l p)" "i \<in> set (table_slots (Suc k))"
    and "\<And>a. frame_of a \<in> table_frames (pt_frames m l p) \<Longrightarrow>
      m' a = wr64 m (entry_addr (osmap t) (of_nat i)) e a"
    and "entry_at m t i AND 1 = 0" "e AND 1 \<noteq> 0" "pt_frames m' k (drop_bit 12 e) = [(k, drop_bit 12 e)]"
  shows "mset (pt_frames m' l p) = add_mset (k, drop_bit 12 e) (mset (pt_frames m l p))"
  using pt_frames_write [OF assms(1,2) table_slots_less [OF assms(3)] assms(4), of "{#}" "{#(k, drop_bit 12 e)#}"] assms(3,5-7)
  by simp

lemma pt_frames_skip:
  assumes "frames_ok (pt_frames m l p)" "(3, t) \<in> set (pt_frames m l p)"
    and "\<And>a. frame_of a \<in> table_frames (pt_frames m l p) \<Longrightarrow> m' a = wr64 m (entry_addr (osmap t) (of_nat 0)) e a"
  shows "mset (pt_frames m' l p) = mset (pt_frames m l p)"
  using pt_frames_write [OF assms(1), of 2 t 0 m' e "{#}" "{#}"] assms(2,3)
  by (simp add: table_slots_def numeral_3_eq_3 numeral_2_eq_2)

lemma pt_frames_drop:
  assumes "frames_ok (pt_frames m l p)" "(1, t) \<in> set (pt_frames m l p)" "i < 512"
    and "\<And>a. frame_of a \<in> table_frames (pt_frames m l p) \<Longrightarrow> m' a = wr64 m (entry_addr (osmap t) (of_nat i)) 0 a"
    and "entry_at m t i AND 1 \<noteq> 0"
  shows "mset (pt_frames m l p) = add_mset (0, drop_bit 12 (entry_at m t i)) (mset (pt_frames m' l p))"
  using pt_frames_write [OF assms(1) _ assms(3,4), of 0 "{#(0, drop_bit 12 (entry_at m t i))#}" "{#}"] assms(2,3,5)
  by (simp add: table_slots_def Let_def)

subsection \<open>Counting frames\<close>

lemma own_page_region: "own_page r f \<Longrightarrow> own_page r' f \<Longrightarrow> r' = r"
  by (cases r; cases r') (simp_all add: own_page_def)

lemma region_count:
  assumes "frames_ok G"
  shows "card {k. k < region_pages r \<and> page_frame r k \<in> snd ` set G} = length (filter (\<lambda>x. level_region (fst x) = r) G)"
proof -
  let ?K = "{k. k < region_pages r \<and> page_frame r k \<in> snd ` set G}"
  let ?G = "filter (\<lambda>x. level_region (fst x) = r) G"
  have own: "own_page (level_region l) f" if "(l, f) \<in> set G" for l f using assms that by (auto simp: frames_ok_def)
  have "page_frame r ` ?K = snd ` set ?G"
  proof (intro set_eqI iffI)
    fix f assume "f \<in> page_frame r ` ?K"
    then obtain k l where k: "k < region_pages r" "f = page_frame r k" "(l, f) \<in> set G" by auto
    obtain j where "j < region_pages (level_region l)" "f = page_frame (level_region l) j"
      by (rule own_pageE [OF own [OF k(3)]])
    then have "level_region l = r" using page_frame_inj [OF _ k(1)] k(2) by blast
    then have "(l, f) \<in> set ?G" using k(3) by simp
    from image_eqI [OF _ this, of f snd] show "f \<in> snd ` set ?G" by simp
  next
    fix f assume "f \<in> snd ` set ?G"
    then obtain l where l: "(l, f) \<in> set G" "level_region l = r" by auto
    obtain k where k: "k < region_pages r" "f = page_frame r k" by (rule own_pageE [OF own [OF l(1), unfolded l(2)]])
    moreover have "f \<in> snd ` set G" using image_eqI [OF _ l(1), of f snd] by simp
    ultimately show "f \<in> page_frame r ` ?K" using k by simp
  qed
  moreover have "inj_on (page_frame r) ?K" using page_frame_inj [of _ r _ r] by (intro inj_onI) blast
  ultimately have "card ?K = card (snd ` set ?G)" using card_image [of "page_frame r" ?K] by simp
  also have "\<dots> = length ?G"
    using assms distinct_card [of "map snd ?G"] by (simp add: frames_ok_def distinct_map_filter)
  finally show ?thesis .
qed

lemma free_set_not_taken: "free_set (mem s) r = {k. k < region_pages r \<and> page_frame r k \<notin> taken s}"
  using taken_iff by (auto simp: free_set_def)

lemma free_count_taken:
  assumes inv: "mm_inv s" "mm_inv s'" and G: "frames_ok G" "taken s' = taken s \<union> snd ` set G" "taken s \<inter> snd ` set G = {}"
  shows "free_pages (pglists s r) = free_pages (pglists s' r) + of_nat (length (filter (\<lambda>x. level_region (fst x) = r) G))"
proof -
  let ?K = "{k. k < region_pages r \<and> page_frame r k \<in> snd ` set G}"
  have "free_set (mem s) r = free_set (mem s') r \<union> ?K" "free_set (mem s') r \<inter> ?K = {}"
    unfolding free_set_not_taken using G(2,3) by auto
  moreover have "finite (free_set (mem s') r)" "finite ?K" by (simp_all add: free_set_def)
  ultimately have "card (free_set (mem s) r) = card (free_set (mem s') r) + card ?K" by (simp add: card_Un_disjoint)
  then have "unat (free_pages (pglists s r)) = unat (free_pages (pglists s' r)) + length (filter (\<lambda>x. level_region (fst x) = r) G)"
    using mm_invD [OF inv(1), of r] mm_invD [OF inv(2), of r] region_count [OF G(1)] by (simp add: pgl_inv_def)
  from arg_cong [OF this, of "of_nat :: nat \<Rightarrow> u32"] show ?thesis by simp
qed

end
