(* ===== verification/Page_Tree.thy ===== *)
theory Page_Tree
  imports Page_Table
begin

text \<open>
  The user page tables as a tree. \<open>table_at\<close> follows a path of indices through user entries;
  \<open>leaf_at\<close> is the last-level entry a four-level path ends in. \<open>tree_inv\<close> says that the tables lie
  in given frames and that no table is reached twice. The lemmas give the effect on every path of
  the two writes the kernel performs: hooking a zeroed frame into an empty entry of an inner
  table, and writing an entry of a last-level table.
\<close>

definition tab_of :: "u64 \<Rightarrow> u64" where "tab_of e = osmap (ucast (entry_pfn e))"

fun table_at :: "memory \<Rightarrow> u64 \<Rightarrow> u64 list \<Rightarrow> u64 option" where
  "table_at m b [] = Some b"
| "table_at m b (i # is) =
     (let e = rd64 m (entry_addr b i) in if user_entry e then table_at m (tab_of e) is else None)"

definition leaf_at :: "memory \<Rightarrow> u64 \<Rightarrow> u64 list \<Rightarrow> u64 \<Rightarrow> u64 option" where
  "leaf_at m b is j =
     (case table_at m b is of None \<Rightarrow> None
      | Some t \<Rightarrow> let e = rd64 m (entry_addr t j) in if user_entry e then Some e else None)"

definition path_ok :: "u64 list \<Rightarrow> bool" where
  "path_ok is \<longleftrightarrow> (\<forall>i\<in>set is. unat i < 512)"

definition tree_inv :: "memory \<Rightarrow> u64 \<Rightarrow> u64 set \<Rightarrow> bool" where
  "tree_inv m b fr \<longleftrightarrow> aligned 12 b \<and>
     (\<forall>p t. path_ok p \<longrightarrow> length p \<le> 3 \<longrightarrow> table_at m b p = Some t \<longrightarrow> frame_of t \<in> fr) \<and>
     (\<forall>p q t. path_ok p \<longrightarrow> path_ok q \<longrightarrow> length p \<le> 3 \<longrightarrow> length q \<le> 3 \<longrightarrow>
        table_at m b p = Some t \<longrightarrow> table_at m b q = Some t \<longrightarrow> p = q)"

definition tables :: "memory \<Rightarrow> u64 \<Rightarrow> u64 set" where
  "tables m b = {frame_of t | p t. path_ok p \<and> length p \<le> 3 \<and> table_at m b p = Some t}"

lemma path_ok_simps [simp]:
  "path_ok []" "path_ok (i # is) \<longleftrightarrow> unat i < 512 \<and> path_ok is" "path_ok (p @ q) \<longleftrightarrow> path_ok p \<and> path_ok q"
  by (auto simp: path_ok_def)

lemma user_entry_0 [simp]: "\<not> user_entry 0"
  by (simp add: user_entry_def)

lemma aligned_tab_of [simp]: "aligned 12 (tab_of e)"
  by (simp add: tab_of_def)

lemma table_at_aligned: "aligned 12 b \<Longrightarrow> table_at m b p = Some t \<Longrightarrow> aligned 12 t"
  by (induction m b p rule: table_at.induct) (auto simp: Let_def split: if_splits)

lemma table_at_append:
  "table_at m b (p @ q) = (case table_at m b p of None \<Rightarrow> None | Some t \<Rightarrow> table_at m t q)"
  by (induction p arbitrary: b) (auto simp: Let_def)

lemma table_at_snoc:
  "table_at m b (p @ [j]) =
     (case table_at m b p of None \<Rightarrow> None
      | Some t \<Rightarrow> if user_entry (rd64 m (entry_addr t j)) then Some (tab_of (rd64 m (entry_addr t j))) else None)"
  by (simp add: table_at_append Let_def split: option.split)

lemma tree_invD:
  assumes "tree_inv m b fr" "path_ok p" "length p \<le> 3" "table_at m b p = Some t"
  shows "aligned 12 t" "frame_of t \<in> fr"
    "path_ok q \<Longrightarrow> length q \<le> 3 \<Longrightarrow> table_at m b q = Some t \<Longrightarrow> q = p"
  using assms table_at_aligned unfolding tree_inv_def by blast+

text \<open>An entry of one table is not an entry of another.\<close>

lemma tree_entry_inj:
  assumes "tree_inv m b fr" "path_ok p" "length p \<le> 3" "table_at m b p = Some t" "unat i < 512"
    "path_ok q" "length q \<le> 3" "table_at m b q = Some u" "unat j < 512" "entry_addr u j = entry_addr t i"
  shows "q = p \<and> j = i"
proof -
  have "u = t \<and> j = i"
    by (rule entry_addr_inj [OF tree_invD(1) [OF assms(1,6,7,8)] tree_invD(1) [OF assms(1-4)] assms(9,5,10)])
  then show ?thesis using tree_invD(3) [OF assms(1-4) assms(6,7)] assms(8) by blast
qed

lemma tree_entry_frame:
  assumes "tree_inv m b fr" "path_ok p" "length p \<le> 3" "table_at m b p = Some t" "unat i < 512"
  shows "aligned 3 (entry_addr t i)" "frame_of (entry_addr t i) \<in> fr" "frame_of (entry_addr t i) = frame_of t"
  using tree_invD [OF assms(1-4)] assms(5) by (simp_all add: entry_addr_aligned entry_addr_frame)

text \<open>Memory that agrees on the frames of the tree has the same tree.\<close>

lemma table_at_cong:
  assumes "tree_inv m b fr" "\<And>a. frame_of a \<in> fr \<Longrightarrow> m' a = m a" "path_ok p" "length p \<le> 3"
  shows "table_at m' b p = table_at m b p"
  using assms(3,4)
proof (induction p rule: rev_induct)
  case (snoc j p)
  then have IH: "table_at m' b p = table_at m b p" by simp
  show ?case
  proof (cases "table_at m b p")
    case (Some t)
    have "rd64 m' (entry_addr t j) = rd64 m (entry_addr t j)"
      using tree_entry_frame [OF assms(1) _ _ Some, of j] snoc.prems assms(2)
      by (intro rd64_cong [where n = 12]) auto
    then show ?thesis using IH Some by (simp add: table_at_snoc)
  qed (use IH in \<open>simp add: table_at_snoc\<close>)
qed simp

lemma tree_inv_cong:
  assumes "tree_inv m b fr" "\<And>a. frame_of a \<in> fr \<Longrightarrow> m' a = m a" "fr \<subseteq> fr'"
  shows "tree_inv m' b fr'"
  using assms table_at_cong [OF assms(1,2)] unfolding tree_inv_def by (auto 0 4)

lemma tables_cong:
  assumes "tree_inv m b fr" "\<And>a. frame_of a \<in> fr \<Longrightarrow> m' a = m a"
  shows "tables m' b = tables m b"
proof -
  have "table_at m' b p = table_at m b p" if "path_ok p" "length p \<le> 3" for p
    by (rule table_at_cong [OF assms that])
  then have "(path_ok p \<and> length p \<le> 3 \<and> table_at m' b p = Some t) =
    (path_ok p \<and> length p \<le> 3 \<and> table_at m b p = Some t)" for p t by auto
  then show ?thesis unfolding tables_def by simp
qed

lemma leaf_at_cong:
  assumes "tree_inv m b fr" "\<And>a. frame_of a \<in> fr \<Longrightarrow> m' a = m a" "path_ok p" "length p \<le> 3" "unat j < 512"
  shows "leaf_at m' b p j = leaf_at m b p j"
proof (cases "table_at m b p")
  case (Some t)
  have "rd64 m' (entry_addr t j) = rd64 m (entry_addr t j)"
    using tree_entry_frame [OF assms(1,3,4) Some assms(5)] assms(2) by (intro rd64_cong [where n = 12]) auto
  then show ?thesis using Some table_at_cong [OF assms(1-4)] by (simp add: leaf_at_def)
qed (use table_at_cong [OF assms(1-4)] in \<open>simp add: leaf_at_def\<close>)

subsection \<open>Hooking a table\<close>

lemma hook_table_at:
  assumes tree: "tree_inv m b fr" and p: "path_ok p" "length p \<le> 2" "table_at m b p = Some t" "unat i < 512"
    and empty: "\<not> user_entry (rd64 m (entry_addr t i))"
    and e: "user_entry (rd64 m' (entry_addr t i))" "tab_of (rd64 m' (entry_addr t i)) = osmap (ucast (f :: u32))"
    and f: "ucast f \<notin> fr" "\<And>a. frame_of a = ucast f \<Longrightarrow> m' a = 0"
    and same: "\<And>a. frame_of a \<in> fr \<Longrightarrow> m' a = wr64 m (entry_addr t i) v a"
    and q: "path_ok q" "length q \<le> 3"
  shows "table_at m' b q =
    (if q = p @ [i] then Some (osmap (ucast f)) else if \<exists>r. q = p @ [i] @ r then None else table_at m b q)"
  using q
proof (induction q rule: rev_induct)
  case (snoc j q)
  have zero: "rd64 m' (entry_addr (osmap (ucast f)) j) = 0"
  proof -
    have "frame_of (entry_addr (osmap (ucast f)) j) = ucast f" "aligned 3 (entry_addr (osmap (ucast f)) j)"
      using snoc.prems by (simp_all add: entry_addr_frame entry_addr_aligned)
    then have "rd64 m' (entry_addr (osmap (ucast f)) j) = rd64 (\<lambda>_. 0) (entry_addr (osmap (ucast f)) j)"
      by (intro rd64_cong [where n = 12]) (use f(2) in auto)
    then show ?thesis by (simp add: rd64_def rd32_def)
  qed
  note ea = tree_entry_frame [OF tree p(1) _ p(3,4)]
  have p3: "length p \<le> 3" using p(2) by simp
  consider "q = p @ [i]" | "q \<noteq> p @ [i]" "\<exists>r. q = p @ [i] @ r" | "\<not> (\<exists>r. q = p @ [i] @ r)" by blast
  then show ?case
  proof cases
    case 1
    then have "table_at m' b q = Some (osmap (ucast f))" using snoc by simp
    then have "table_at m' b (q @ [j]) = None" using zero by (simp add: table_at_snoc)
    then show ?thesis using 1 by simp
  next
    case 2
    then show ?thesis using snoc by (auto simp: table_at_snoc)
  next
    case 3
    then have IH: "table_at m' b q = table_at m b q" using snoc by auto
    have pre: "(\<exists>r. q @ [j] = p @ [i] @ r) \<longleftrightarrow> q @ [j] = p @ [i]"
    proof
      assume "\<exists>r. q @ [j] = p @ [i] @ r"
      then obtain r where r: "q @ [j] = p @ [i] @ r" by blast
      show "q @ [j] = p @ [i]"
      proof (cases r rule: rev_cases)
        case (snoc r' x)
        then have "q = p @ [i] @ r'" using r by (metis append.assoc butlast_snoc)
        then show ?thesis using 3 by blast
      qed (use r in simp)
    qed auto
    show ?thesis
    proof (cases "table_at m b q")
      case None
      then show ?thesis using IH pre p(3) by (auto simp: table_at_snoc)
    next
      case (Some u)
      show ?thesis
      proof (cases "q @ [j] = p @ [i]")
        case True
        then show ?thesis using IH Some p(3) e by (simp add: table_at_snoc)
      next
        case False
        have ok: "path_ok q" "length q \<le> 3" "unat j < 512" using snoc.prems by simp_all
        have ne: "entry_addr t i \<noteq> entry_addr u j"
          using tree_entry_inj [OF tree p(1) p3 p(3,4) ok(1,2) Some ok(3)] False by auto
        note eu = tree_entry_frame [OF tree ok(1,2) Some ok(3)]
        have "rd64 m' (entry_addr u j) = rd64 (wr64 m (entry_addr t i) v) (entry_addr u j)"
          by (rule rd64_cong [where n = 12]) (use eu same in auto)
        also have "\<dots> = rd64 m (entry_addr u j)" by (rule rd64_wr64_other [OF ea(1) [OF p3] eu(1) ne])
        finally have "table_at m' b (q @ [j]) = table_at m b (q @ [j])" using IH Some by (simp add: table_at_snoc)
        then show ?thesis unfolding pre using False by (simp only: if_False)
      qed
    qed
  qed
qed auto

lemma hook_tree:
  assumes tree: "tree_inv m b fr" and p: "path_ok p" "length p \<le> 2" "table_at m b p = Some t" "unat i < 512"
    and empty: "\<not> user_entry (rd64 m (entry_addr t i))"
    and e: "user_entry (rd64 m' (entry_addr t i))" "tab_of (rd64 m' (entry_addr t i)) = osmap (ucast (f :: u32))"
    and f: "ucast f \<notin> fr" "\<And>a. frame_of a = ucast f \<Longrightarrow> m' a = 0"
    and same: "\<And>a. frame_of a \<in> fr \<Longrightarrow> m' a = wr64 m (entry_addr t i) v a"
  shows "tree_inv m' b (insert (ucast f) fr)" "table_at m' b (p @ [i]) = Some (osmap (ucast f))"
    "\<And>q j. path_ok q \<Longrightarrow> length q = 3 \<Longrightarrow> unat j < 512 \<Longrightarrow> leaf_at m' b q j = leaf_at m b q j"
    "\<And>q u. path_ok q \<Longrightarrow> length q \<le> 3 \<Longrightarrow> table_at m' b q = Some u \<Longrightarrow> u = osmap (ucast f) \<or> table_at m b q = Some u"
proof -
  have H: "table_at m' b q =
      (if q = p @ [i] then Some (osmap (ucast f)) else if \<exists>r. q = p @ [i] @ r then None else table_at m b q)"
    if "path_ok q" "length q \<le> 3" for q
    by (rule hook_table_at [OF tree p empty e f(1), where v = v]) (use f(2) same that in auto)
  show "table_at m' b (p @ [i]) = Some (osmap (ucast f))" using H [of "p @ [i]"] p by simp
  show "u = osmap (ucast f) \<or> table_at m b q = Some u"
    if "path_ok q" "length q \<le> 3" "table_at m' b q = Some u" for q u
    using H [OF that(1,2)] that(3) by (auto split: if_splits)
  have old: "frame_of u \<in> fr" if "path_ok q" "length q \<le> 3" "table_at m b q = Some u" for q u
    by (rule tree_invD(2) [OF tree that])
  have new: "osmap (ucast f) \<noteq> u" if "path_ok q" "length q \<le> 3" "table_at m b q = Some u" for q u
    using old [OF that] f(1) by auto
  show "tree_inv m' b (insert (ucast f) fr)"
    unfolding tree_inv_def
  proof (intro conjI allI impI)
    show "aligned 12 b" using tree by (simp add: tree_inv_def)
  next
    fix q u assume "path_ok q" "length q \<le> 3" "table_at m' b q = Some u"
    then show "frame_of u \<in> insert (ucast f) fr" using H [of q] old [of q u] by (auto split: if_splits)
  next
    fix q r u assume q: "path_ok q" "path_ok r" "length q \<le> 3" "length r \<le> 3"
      and t: "table_at m' b q = Some u" "table_at m' b r = Some u"
    show "q = r"
      using t new [of q u] new [of r u] tree_invD(3) [OF tree q(2,4), of u q] q
      unfolding H [OF q(1,3)] H [OF q(2,4)] by (auto split: if_splits)
  qed
  fix q and j :: u64 assume q: "path_ok q" "length q = 3" "unat j < 512"
  have q3: "length q \<le> 3" using q(2) by simp
  have fz: "rd64 m' (entry_addr (osmap (ucast f)) j) = 0"
  proof -
    have "rd64 m' (entry_addr (osmap (ucast f)) j) = rd64 (\<lambda>_. 0) (entry_addr (osmap (ucast f)) j)"
      by (rule rd64_cong [where n = 12]) (use q(3) f(2) in \<open>simp_all add: entry_addr_frame entry_addr_aligned\<close>)
    then show ?thesis by (simp add: rd64_def rd32_def)
  qed
  have none: "table_at m b (p @ [i] @ r) = None" for r
    using p(3) empty by (simp add: table_at_append Let_def)
  show "leaf_at m' b q j = leaf_at m b q j"
  proof (cases "\<exists>r. q = p @ [i] @ r")
    case True
    then have "leaf_at m b q j = None" using none by (auto simp: leaf_at_def)
    moreover have "leaf_at m' b q j = None" using H [OF q(1) q3] True fz by (auto simp: leaf_at_def)
    ultimately show ?thesis by simp
  next
    case False
    then have T: "table_at m' b q = table_at m b q" using H [OF q(1) q3] by auto
    show ?thesis
    proof (cases "table_at m b q")
      case (Some u)
      have p3: "length p \<le> 3" using p(2) by simp
      note eu = tree_entry_frame [OF tree q(1) q3 Some q(3)] and ea = tree_entry_frame [OF tree p(1) p3 p(3,4)]
      have "entry_addr t i \<noteq> entry_addr u j"
        using tree_entry_inj [OF tree p(1) p3 p(3,4) q(1) q3 Some q(3)] q(2) p(2) by auto
      then have "rd64 (wr64 m (entry_addr t i) v) (entry_addr u j) = rd64 m (entry_addr u j)"
        by (rule rd64_wr64_other [OF ea(1) eu(1)])
      moreover have "rd64 m' (entry_addr u j) = rd64 (wr64 m (entry_addr t i) v) (entry_addr u j)"
        by (rule rd64_cong [where n = 12]) (use eu same in auto)
      ultimately show ?thesis using T Some by (simp add: leaf_at_def)
    qed (use T in \<open>simp add: leaf_at_def\<close>)
  qed
qed

subsection \<open>Writing a last-level entry\<close>

lemma leaf_write:
  assumes tree: "tree_inv m b fr" and p: "path_ok p" "length p = 3" "table_at m b p = Some t" "unat i < 512"
    and same: "\<And>a. frame_of a \<in> fr \<Longrightarrow> m' a = wr64 m (entry_addr t i) e a"
  shows "tree_inv m' b fr" "\<And>q. path_ok q \<Longrightarrow> length q \<le> 3 \<Longrightarrow> table_at m' b q = table_at m b q"
    "\<And>q j. path_ok q \<Longrightarrow> length q = 3 \<Longrightarrow> unat j < 512 \<Longrightarrow> leaf_at m' b q j =
       (if q = p \<and> j = i then if user_entry e then Some e else None else leaf_at m b q j)"
proof -
  have p3: "length p \<le> 3" using p(2) by simp
  note ea = tree_entry_frame [OF tree p(1) p3 p(3,4)]
  have rd: "rd64 m' (entry_addr u j) = (if q = p \<and> j = i then e else rd64 m (entry_addr u j))"
    if q: "path_ok q" "length q \<le> 3" "table_at m b q = Some u" "unat j < 512" for q u j
  proof -
    note eu = tree_entry_frame [OF tree q]
    have "rd64 m' (entry_addr u j) = rd64 (wr64 m (entry_addr t i) e) (entry_addr u j)"
      by (rule rd64_cong [where n = 12]) (use eu same in auto)
    moreover have "entry_addr t i \<noteq> entry_addr u j" if "\<not> (q = p \<and> j = i)"
      using tree_entry_inj [OF tree p(1) p3 p(3,4) q] that by auto
    ultimately show ?thesis using q(3) p(3) ea(1) by (auto simp: rd64_wr64_other [OF ea(1) eu(1)])
  qed
  show T: "table_at m' b q = table_at m b q" if "path_ok q" "length q \<le> 3" for q
    using that
  proof (induction q rule: rev_induct)
    case (snoc j q)
    then show ?case using rd [of q _ j] p(2) by (auto simp: table_at_snoc split: option.split)
  qed simp
  show "tree_inv m' b fr" using tree T unfolding tree_inv_def by auto
  show "leaf_at m' b q j = (if q = p \<and> j = i then if user_entry e then Some e else None else leaf_at m b q j)"
    if q: "path_ok q" "length q = 3" "unat j < 512" for q j
    using T [of q] rd [of q _ j] q p(3) by (auto simp: leaf_at_def Let_def split: option.split)
qed

end
