(* ===== verification/Address_Space.thy ===== *)
theory Address_Space
  imports Page_Tree Frame_Store
begin

text \<open>
  User address spaces. \<open>user_map\<close> is what \<open>get_user_pte\<close> finds for an address: the abstract
  mapping from pages to last-level entries that a page-table tree stands for. Under the invariant
  \<open>space_inv\<close>, \<open>install_page_table\<close> updates that mapping at one page and \<open>do_unmap_user\<close> removes one
  page from it; both leave every other page and the content of data frames alone.
\<close>

subsection \<open>Paths and pages\<close>

definition upath :: "u64 \<Rightarrow> u64 list" where
  "upath a = [pgd_index a, pud_index a, pmd_index a]"

abbreviation page_of :: "u64 \<Rightarrow> u64" where "page_of a \<equiv> a AND 0xfffffffff000"

lemma masks:
  "(0xff8000000000 :: u64) = push_bit 39 (mask 9)" "(0x7fc0000000 :: u64) = push_bit 30 (mask 9)"
  "(0x3fe00000 :: u64) = push_bit 21 (mask 9)" "(0x1ff000 :: u64) = push_bit 12 (mask 9)"
  "(0xfffffffff000 :: u64) = push_bit 12 (mask 36)" "(0xFFFFFFFF :: u64) = mask 32"
  by (simp_all add: mask_eq_exp_minus_1 push_bit_eq_mult)

lemma bit_index:
  "bit (pgd_index a) n \<longleftrightarrow> n < 9 \<and> bit a (n + 39)" "bit (pud_index a) n \<longleftrightarrow> n < 9 \<and> bit a (n + 30)"
  "bit (pmd_index a) n \<longleftrightarrow> n < 9 \<and> bit a (n + 21)" "bit (pte_index a) n \<longleftrightarrow> n < 9 \<and> bit a (n + 12)"
  unfolding pgd_index_def pud_index_def pmd_index_def pte_index_def masks
  by (auto simp: bit_simps add.commute)

lemma bit_page_of: "bit (page_of a) n \<longleftrightarrow> 12 \<le> n \<and> n < 48 \<and> bit a n"
  unfolding masks by (auto simp: bit_simps)

lemma unat_less_512:
  fixes x :: u64
  assumes "\<And>n. bit x n \<Longrightarrow> n < 9"
  shows "unat x < 512"
proof -
  have "take_bit 9 x = x" by (rule bit_word_eqI) (use assms in \<open>auto simp: bit_simps\<close>)
  then have "unat x = unat x mod 2 ^ 9" by (metis take_bit_eq_mod unsigned_take_bit_eq)
  also have "\<dots> < 512" by simp
  finally show ?thesis .
qed

lemma index_less [simp]:
  "unat (pgd_index a) < 512" "unat (pud_index a) < 512" "unat (pmd_index a) < 512" "unat (pte_index a) < 512"
  by (rule unat_less_512, simp add: bit_index)+

lemma upath_ok [simp]: "path_ok (upath a)" "length (upath a) = 3"
  by (simp_all add: upath_def)

lemma same_path: "upath a = upath b \<and> pte_index a = pte_index b \<longleftrightarrow> page_of a = page_of b"
proof
  assume "page_of a = page_of b"
  then have "bit a n = bit b n" if "12 \<le> n" "n < 48" for n using that bit_page_of by metis
  then show "upath a = upath b \<and> pte_index a = pte_index b"
    unfolding upath_def by (auto intro!: bit_word_eqI simp: bit_index)
next
  assume *: "upath a = upath b \<and> pte_index a = pte_index b"
  have "bit a n = bit b n" if "12 \<le> n" "n < 48" for n
  proof -
    have "n < 21 \<Longrightarrow> ?thesis" using * bit_index(4) [of a "n - 12"] bit_index(4) [of b "n - 12"] that by (simp add: less_diff_conv2)
    moreover have "21 \<le> n \<Longrightarrow> n < 30 \<Longrightarrow> ?thesis"
      using * bit_index(3) [of a "n - 21"] bit_index(3) [of b "n - 21"] by (simp add: upath_def less_diff_conv2)
    moreover have "30 \<le> n \<Longrightarrow> n < 39 \<Longrightarrow> ?thesis"
      using * bit_index(2) [of a "n - 30"] bit_index(2) [of b "n - 30"] by (simp add: upath_def less_diff_conv2)
    moreover have "39 \<le> n \<Longrightarrow> ?thesis"
      using * bit_index(1) [of a "n - 39"] bit_index(1) [of b "n - 39"] that by (simp add: upath_def less_diff_conv2)
    ultimately show ?thesis using not_le by blast
  qed
  then show "page_of a = page_of b" by (intro bit_word_eqI) (auto simp: bit_page_of simp del: bit_and_iff)
qed

subsection \<open>Entries the kernel writes\<close>

lemma entry_pfn_osmap:
  assumes "frame_of fl = 0"
  shows "entry_pfn (osmap (ucast (p :: u32)) OR fl) = p"
proof -
  have "\<not> bit fl (12 + n)" for n using assms by (metis bit_0_eq bit_drop_bit_eq bot_apply bot_bool_def comp_apply)
  then show ?thesis
    unfolding entry_pfn_def osmap_def masks
    by (intro bit_word_eqI) (auto simp: bit_simps)
qed

lemma and_mask_bit: "(e :: u64) AND 1 \<noteq> 0 \<longleftrightarrow> bit e 0" "e AND 4 \<noteq> 0 \<longleftrightarrow> bit e 2"
proof -
  have "(4 :: u64) = push_bit 2 1" by simp
  then show "e AND 4 \<noteq> 0 \<longleftrightarrow> bit e 2" by (metis bit_iff_and_push_bit_not_eq_0)
  show "e AND 1 \<noteq> 0 \<longleftrightarrow> bit e 0" by (metis bit_iff_and_push_bit_not_eq_0 push_bit_0_id id_apply)
qed

lemma user_entry_bits: "user_entry e \<longleftrightarrow> bit e 0 \<and> bit e 2"
  using and_mask_bit by (auto simp: user_entry_def)

lemma user_entry_osmap: "bit fl 0 \<Longrightarrow> bit fl 2 \<Longrightarrow> user_entry (osmap p OR fl)"
  by (simp add: user_entry_bits bit_or_iff)

lemma ac_flags:
  fixes err :: u64
  shows "frame_of (0x5 OR (err AND 0x2)) = 0" "bit (0x5 OR (err AND 0x2)) 0" "bit (0x5 OR (err AND 0x2)) 2"
proof -
  have n: "(0x2 :: u64) = push_bit 1 1" "(0x5 :: u64) = push_bit 2 1 OR 1" by simp_all
  have b: "bit (0x2 :: u64) n \<longleftrightarrow> n = 1" "bit (0x5 :: u64) n \<longleftrightarrow> n = 0 \<or> n = 2" for n
    by (simp only: n(1) bit_push_bit_iff bit_1_iff, force)
      (simp only: n(2) bit_or_iff bit_push_bit_iff bit_1_iff, force)
  show "frame_of (0x5 OR (err AND 0x2)) = 0"
    by (intro bit_word_eqI) (auto simp: bit_simps b)
  show "bit (0x5 OR (err AND 0x2)) 0" "bit (0x5 OR (err AND 0x2)) 2" by (simp_all add: bit_simps b)
qed

subsection \<open>The abstract mapping\<close>

definition user_map :: "memory \<Rightarrow> exec_context \<Rightarrow> u64 \<Rightarrow> u64 option" where
  "user_map m ctx a = (let p = get_user_pte m ctx a in if p = 0 then None else Some (rd64 m p))"

abbreviation root :: "exec_context \<Rightarrow> u64" where "root ctx \<equiv> osmap (ucast (pgd ctx))"

definition live :: "'a page_state_scheme \<Rightarrow> u64 set" where
  "live s = taken s - bmap_frames"

definition space_inv :: "exec_context \<Rightarrow> 'a page_state_scheme \<Rightarrow> bool" where
  "space_inv ctx s \<longleftrightarrow> mm_inv s \<and> tree_inv (mem s) (root ctx) (live s)"

lemma not_huge: "(e :: u64) AND 0x80 \<noteq> 1"
proof
  assume "e AND 0x80 = 1"
  then have "bit (e AND 0x80) 0" by simp
  moreover have "(0x80 :: u64) = push_bit 7 1" by simp
  ultimately show False by (simp only: bit_and_iff bit_push_bit_iff) simp
qed

lemma get_user_pte_eq:
  "get_user_pte m ctx a =
     (case table_at m (root ctx) (upath a) of None \<Rightarrow> 0
      | Some t \<Rightarrow> if user_entry (rd64 m (entry_addr t (pte_index a))) then entry_addr t (pte_index a) else 0)"
  by (simp add: get_user_pte_def Let_def upath_def tab_of_def not_huge)

lemma zero_not_live: "0 \<notin> live s"
proof
  assume "0 \<in> live s"
  then obtain r k where k: "k < region_pages r" "page_frame r k = 0" by (auto simp: live_def taken_def)
  then have "region_base r + k = 0" using unat_page_frame [OF k(1)] by simp
  then show False by (cases r) auto
qed

lemma live_entry_nonzero:
  assumes "tree_inv m b (live s)" "path_ok p" "length p \<le> 3" "table_at m b p = Some t" "unat i < 512"
  shows "entry_addr t i \<noteq> 0"
  using tree_entry_frame(2) [OF assms] zero_not_live [of s] by auto

lemma user_map_leaf:
  assumes "tree_inv m (root ctx) (live s)"
  shows "user_map m ctx a = leaf_at m (root ctx) (upath a) (pte_index a)"
  using live_entry_nonzero [OF assms, of "upath a"]
  by (auto simp: user_map_def get_user_pte_eq leaf_at_def Let_def split: option.split)

subsection \<open>One level of \<open>install_page_table\<close>\<close>

text \<open>Along a path, present entries are user entries: no mapping of the kernel is in the way.\<close>

fun clean_path :: "memory \<Rightarrow> u64 \<Rightarrow> u64 list \<Rightarrow> bool" where
  "clean_path m b [] = True"
| "clean_path m b (i # is) =
     (let e = rd64 m (entry_addr b i)
      in (e AND 1 \<noteq> 0 \<longrightarrow> user_entry e) \<and> (user_entry e \<longrightarrow> clean_path m (tab_of e) is))"

text \<open>What an installation keeps while it adds tables: the mapping, and the content of frames in use
  that are not tables.\<close>

definition grown :: "u64 \<Rightarrow> 'a page_state_scheme \<Rightarrow> 'a page_state_scheme \<Rightarrow> bool" where
  "grown b s s' \<longleftrightarrow> mm_inv s' \<and> tree_inv (mem s') b (live s') \<and> live s \<subseteq> live s' \<and>
     (\<forall>q j. path_ok q \<longrightarrow> length q = 3 \<longrightarrow> unat j < 512 \<longrightarrow> leaf_at (mem s') b q j = leaf_at (mem s) b q j) \<and>
     (\<forall>a. frame_of a \<in> live s - tables (mem s) b \<longrightarrow> mem s' a = mem s a) \<and>
     live s \<inter> tables (mem s') b \<subseteq> tables (mem s) b \<and> (\<forall>k. stock USER_REG k s' = stock USER_REG k s)"

lemma grown_trans:
  assumes "grown b s s'" "grown b s' s''"
  shows "grown b s s''"
proof -
  have t: "live s \<inter> tables (mem s'') b \<subseteq> tables (mem s) b" "live s \<subseteq> live s'" "live s \<inter> tables (mem s') b \<subseteq> tables (mem s) b"
    using assms unfolding grown_def by blast+
  have "mem s'' a = mem s a" if "frame_of a \<in> live s - tables (mem s) b" for a
  proof -
    have "frame_of a \<in> live s' - tables (mem s') b" using that t(2,3) by blast
    then show ?thesis using assms that unfolding grown_def by metis
  qed
  then show ?thesis using assms t(1) unfolding grown_def by auto
qed

lemma mem_update_eq: "s\<lparr>mem := wr64 (mem s) a v\<rparr> = mem_update (\<lambda>m. wr64 m a v) s"
  by (cases s) simp

definition clears :: "(memory \<Rightarrow> u64 \<Rightarrow> memory) \<Rightarrow> bool" where
  "clears clear \<longleftrightarrow> (\<forall>m tab. aligned 12 tab \<longrightarrow> (\<forall>a. frame_of a = frame_of tab \<longrightarrow> m a = 0) \<longrightarrow> clear m tab = m)"

lemma clears_simps [simp]: "clears (\<lambda>m _. m)" "clears (\<lambda>m tab. bzero m tab PAGE_SIZE)"
  by (auto simp: clears_def bzero_page fun_eq_iff)

text \<open>The state after a level that made a new table: a zeroed frame \<open>f\<close>, and its entry.\<close>

definition hooked :: "u64 \<Rightarrow> u64 \<Rightarrow> u32 \<Rightarrow> 'a page_state_scheme \<Rightarrow> 'a page_state_scheme \<Rightarrow> bool" where
  "hooked ea fl f s s' \<longleftrightarrow> \<not> user_entry (rd64 (mem s) ea) \<and> ucast f \<notin> live s \<and> ucast f \<in> live s' \<and>
     (\<forall>a. frame_of a = ucast f \<longrightarrow> mem s' a = 0) \<and>
     (\<forall>a. frame_of a \<in> live s \<longrightarrow> mem s' a = wr64 (mem s) ea (osmap (ucast f) OR fl) a)"

lemma hookedD:
  assumes "hooked ea fl f s s'"
  shows "\<not> user_entry (rd64 (mem s) ea)" "ucast f \<notin> live s" "ucast f \<in> live s'" "\<And>a. frame_of a = ucast f \<Longrightarrow> mem s' a = 0"
    "\<And>a. frame_of a \<in> live s \<Longrightarrow> mem s' a = wr64 (mem s) ea (osmap (ucast f) OR fl) a"
  using assms by (simp_all add: hooked_def)

lemma hooked_entry:
  assumes "hooked ea fl f s s'" "aligned 3 ea" "frame_of ea \<in> live s" "frame_of fl = 0" "bit fl 0" "bit fl 2"
  shows "rd64 (mem s') ea = osmap (ucast f) OR fl" "user_entry (rd64 (mem s') ea)" "tab_of (rd64 (mem s') ea) = osmap (ucast f)"
proof -
  have "rd64 (mem s') ea = rd64 (wr64 (mem s) ea (osmap (ucast f) OR fl)) ea"
    by (rule rd64_cong [OF assms(2), of 12]) (use assms(3) hookedD(5) [OF assms(1)] in auto)
  then show e: "rd64 (mem s') ea = osmap (ucast f) OR fl" using assms(2) by simp
  show "user_entry (rd64 (mem s') ea)" "tab_of (rd64 (mem s') ea) = osmap (ucast f)"
    unfolding e tab_of_def entry_pfn_osmap [OF assms(4)] by (rule user_entry_osmap [OF assms(5,6)], rule refl)
qed

lemma table_level_step:
  fixes s :: "'a kernel_scheme"
  assumes inv: "mm_inv s" "tree_inv (mem s) b (live s)" "stock OS_PT_REG (Suc n) s"
    and p: "path_ok p" "length p \<le> 2" "table_at (mem s) b p = Some t" "unat i < 512"
    and fl: "frame_of fl = 0" "bit fl 0" "bit fl 2" and cl: "clears clear"
    and e: "present (rd64 (mem s) (entry_addr t i)) \<longleftrightarrow> user_entry (rd64 (mem s) (entry_addr t i))"
      "user_entry (rd64 (mem s) (entry_addr t i)) \<Longrightarrow> nxt (rd64 (mem s) (entry_addr t i)) = tab_of (rd64 (mem s) (entry_addr t i))"
    and eq: "table_level present nxt fl clear t i s = (t', s')"
  shows "grown b s s'" "stock OS_PT_REG n s'" "table_at (mem s') b (p @ [i]) = Some t'"
    "s' = s \<or> (\<exists>f. t' = osmap (ucast f) \<and> hooked (entry_addr t i) fl f s s')"
proof -
  let ?ea = "entry_addr t i"
  have p3: "length p \<le> 3" using p(2) by simp
  note ea = tree_entry_frame [OF inv(2) p(1) p3 p(3,4)]
  have "grown b s s' \<and> stock OS_PT_REG n s' \<and> table_at (mem s') b (p @ [i]) = Some t' \<and>
    (s' = s \<or> (\<exists>f. t' = osmap (ucast f) \<and> hooked ?ea fl f s s'))"
  proof (cases "user_entry (rd64 (mem s) ?ea)")
    case True
    then have "s' = s" "t' = tab_of (rd64 (mem s) ?ea)" using eq e by (auto simp: table_level_def Let_def)
    moreover have "stock OS_PT_REG n s" using inv(3) by (simp add: stock_def)
    ultimately show ?thesis using inv(1,2) p(3) True by (simp add: table_at_snoc grown_def)
  next
    case False
    obtain f s1 where al: "os_pfn_alloc OS_PT_REG s = (f, s1)" by fastforce
    define v where "v = osmap (ucast f) OR fl"
    define u where "u = mem_update (\<lambda>m. wr64 m ?ea v) s1"
    have fe: "frame_of ?ea \<in> taken s" "frame_of ?ea \<notin> bmap_frames" using ea(2) by (auto simp: live_def)
    note H = pt_store.hook(1-3) [OF inv(1,3) al ea(1) fe, where v = v, folded u_def]
      pt_store.hook(4,5) [OF inv(1,3) al ea(1) fe]
      pt_store.hook(6,7) [OF inv(1,3) al ea(1) fe, where v = v, folded u_def]
    have "clear (wr64 (mem s1) ?ea v) (osmap (ucast f)) = wr64 (mem s1) ?ea v"
    proof -
      have "\<forall>a. frame_of a = frame_of (osmap (ucast f)) \<longrightarrow> wr64 (mem s1) ?ea v a = 0"
        using H(6) by (simp add: u_def)
      then show ?thesis using cl unfolding clears_def by simp
    qed
    then have s': "s' = u" and t': "t' = osmap (ucast f)"
      using eq e(1) False al by (auto simp: table_level_def Let_def v_def u_def mem_update_eq)
    have nl: "ucast f \<notin> live s" using H(4) by (simp add: live_def)
    have live': "live s' = insert (ucast f) (live s)" using H(3,5) by (auto simp: live_def s')
    have same: "mem s' a = wr64 (mem s) ?ea v a" if "frame_of a \<in> live s" for a
      using H(7) that by (auto simp: live_def s')
    have hk: "hooked ?ea fl f s s'"
      using False nl live' H(6) same by (simp add: hooked_def s' v_def)
    note v = hooked_entry(2,3) [OF hk ea(1,2) fl]
    note T = hook_tree [OF inv(2) p False, of "mem s'", OF v nl hookedD(4) [OF hk] same]
    have "mem s' a = mem s a" if "frame_of a \<in> live s - tables (mem s) b" for a
    proof -
      have "frame_of a \<noteq> frame_of t" using that p(1,3) p3 by (auto simp: tables_def)
      then show ?thesis using same [of a] wr64_frame [OF ea(1), of 12 a] that ea(3) by simp
    qed
    moreover have "live s \<inter> tables (mem s') b \<subseteq> tables (mem s) b"
      using T(4) nl by (fastforce simp: tables_def)
    moreover have "stock USER_REG k s' = stock USER_REG k s" for k
    proof -
      have "stock USER_REG k s' = stock USER_REG k s1"
        unfolding s' u_def by (rule mem_update_outside(3) [OF page_pool.alloc_inv [OF inv(1) stock_can(1) [OF inv(3)] al]])
          (use fe(2) in \<open>auto intro!: wr64_frame [OF ea(1), of 12]\<close>)
      then show ?thesis using stock_other [OF inv(1) stock_can(1) [OF inv(3)] al, of USER_REG] by simp
    qed
    ultimately show ?thesis using H(1,2) T(1-3) live' t' hk by (auto simp: grown_def s')
  qed
  then show "grown b s s'" "stock OS_PT_REG n s'" "table_at (mem s') b (p @ [i]) = Some t'"
    "s' = s \<or> (\<exists>f. t' = osmap (ucast f) \<and> hooked ?ea fl f s s')" by blast+
qed

lemma zero_table:
  assumes "\<And>a. frame_of a = ucast (f :: u32) \<Longrightarrow> m a = 0" "unat j < 512"
  shows "rd64 m (entry_addr (osmap (ucast f)) j) = 0"
proof -
  have "rd64 m (entry_addr (osmap (ucast f)) j) = rd64 (\<lambda>_. 0) (entry_addr (osmap (ucast f)) j)"
    by (rule rd64_cong [where n = 12]) (use assms in \<open>simp_all add: entry_addr_frame entry_addr_aligned\<close>)
  then show ?thesis by (simp add: rd64_def rd32_def)
qed

lemma fault_level_step:
  fixes s :: "'a kernel_scheme"
  assumes inv: "mm_inv s" "tree_inv (mem s) b (live s)" "stock OS_PT_REG (Suc n) s"
    and p: "path_ok p" "length p \<le> 2" "table_at (mem s) b p = Some t" "unat i < 512"
    and fl: "frame_of fl = 0" "bit fl 0" "bit fl 2"
    and ok: "clean_path (mem s) t (i # is)" "path_ok is"
    and eq: "fault_level fl t i s = (t', s')"
  shows "grown b s s' \<and> stock OS_PT_REG n s' \<and> table_at (mem s') b (p @ [i]) = Some t' \<and> clean_path (mem s') t' is"
proof -
  let ?e = "rd64 (mem s) (entry_addr t i)"
  have e: "?e AND 1 \<noteq> 0 \<longleftrightarrow> user_entry ?e" using ok(1) by (auto simp: Let_def user_entry_def)
  have n: "osmap (ucast (entry_pfn ?e)) = tab_of ?e" by (simp add: tab_of_def)
  note T = table_level_step [OF inv p fl clears_simps(1) e n eq [unfolded fault_level_def]]
  from T(4) have "clean_path (mem s') t' is"
  proof
    assume "s' = s"
    then show ?thesis using T(3) p(3) ok(1) by (auto simp: table_at_snoc Let_def split: if_splits)
  next
    assume "\<exists>f. t' = osmap (ucast f) \<and> hooked (entry_addr t i) fl f s s'"
    then obtain f where f: "t' = osmap (ucast f)" "hooked (entry_addr t i) fl f s s'" by blast
    show ?thesis using zero_table [OF hookedD(4) [OF f(2)]] ok(2) f(1) by (cases "is") (simp_all add: Let_def)
  qed
  with T(1-3) show ?thesis by simp
qed

subsection \<open>\<open>install_page_table\<close> and \<open>do_unmap_user\<close>\<close>

text \<open>The last step of an installation or a removal: one write to a last-level entry.\<close>

lemma leaf_update:
  fixes s :: "'a kernel_scheme" and e :: u64
  assumes inv: "mm_inv s" "tree_inv (mem s) (root ctx) (live s)" and t: "table_at (mem s) (root ctx) (upath a) = Some t"
  defines "s' \<equiv> s\<lparr>mem := wr64 (mem s) (entry_addr t (pte_index a)) e\<rparr>"
  shows "space_inv ctx s'" "live s' = live s" "taken s' = taken s"
    "user_map (mem s') ctx b = (if page_of b = page_of a then if user_entry e then Some e else None else user_map (mem s) ctx b)"
    "frame_of x \<in> live s - tables (mem s) (root ctx) \<Longrightarrow> mem s' x = mem s x"
    "get_user_pte (mem s') ctx a = (if user_entry e then entry_addr t (pte_index a) else 0)"
    "stock r n s' = stock r n s" "tables (mem s') (root ctx) = tables (mem s) (root ctx)"
proof -
  have l: "length (upath a) \<le> 3" by simp
  note ea = tree_entry_frame [OF inv(2) upath_ok(1) l t index_less(4)]
  have fe: "frame_of (entry_addr t (pte_index a)) \<notin> bmap_frames" using ea(2) by (simp add: live_def)
  have out: "wr64 (mem s) (entry_addr t (pte_index a)) e x = mem s x" if "frame_of x \<noteq> frame_of t" for x
    using wr64_frame [OF ea(1), of 12 x] that ea(3) by simp
  have keep: "wr64 (mem s) (entry_addr t (pte_index a)) e x = mem s x" if "frame_of x \<in> bmap_frames" for x
    using out [of x] fe that ea(3) by metis
  have s': "s' = mem_update (\<lambda>m. wr64 m (entry_addr t (pte_index a)) e) s" by (simp add: s'_def mem_update_eq)
  have U: "mm_inv s'" unfolding s' by (rule mem_update_outside(1) [OF inv(1)], rule keep)
  show "stock r n s' = stock r n s" unfolding s' by (rule mem_update_outside(3) [OF inv(1)], rule keep)
  show "taken s' = taken s" unfolding s' by (rule mem_update_outside(2) [OF inv(1)], rule keep)
  then show lv: "live s' = live s" by (simp add: live_def)
  have m': "mem s' = wr64 (mem s) (entry_addr t (pte_index a)) e" by (simp add: s'_def)
  note W = leaf_write [OF inv(2) upath_ok t index_less(4), of "mem s'", OF m' [THEN fun_cong]]
  have "(path_ok p \<and> length p \<le> 3 \<and> table_at (mem s') (root ctx) p = Some u) =
    (path_ok p \<and> length p \<le> 3 \<and> table_at (mem s) (root ctx) p = Some u)" for p u using W(2) [of p] by auto
  then show "tables (mem s') (root ctx) = tables (mem s) (root ctx)" unfolding tables_def by simp
  show "space_inv ctx s'" using U W(1) lv by (simp add: space_inv_def)
  have "user_map (mem s') ctx b = leaf_at (mem s') (root ctx) (upath b) (pte_index b)"
    by (rule user_map_leaf) (use W(1) in simp)
  also have "\<dots> = (if page_of b = page_of a then if user_entry e then Some e else None
      else leaf_at (mem s) (root ctx) (upath b) (pte_index b))"
    using W(3) [of "upath b" "pte_index b"] same_path [of b a] by simp
  finally show "user_map (mem s') ctx b =
      (if page_of b = page_of a then if user_entry e then Some e else None else user_map (mem s) ctx b)"
    using user_map_leaf [OF inv(2), of b] by simp
  show "frame_of x \<in> live s - tables (mem s) (root ctx) \<Longrightarrow> mem s' x = mem s x"
    using out [of x] t l upath_ok(1) unfolding m' tables_def by blast
  have "rd64 (mem s') (entry_addr t (pte_index a)) = e" using ea(1) by (simp add: m')
  then show "get_user_pte (mem s') ctx a = (if user_entry e then entry_addr t (pte_index a) else 0)"
    using W(2) [of "upath a"] t by (simp add: get_user_pte_eq)
qed

lemma install_page_table_spec:
  fixes s :: "'a kernel_scheme"
  assumes inv: "space_inv ctx s" and room: "stock OS_PT_REG 3 s" "stock USER_REG 1 s"
    and path: "clean_path (mem s) (root ctx) (upath a)"
  obtains s3 s4 :: "'a kernel_scheme" and pfn where "os_pfn_alloc USER_REG s3 = (pfn, s4)" "mm_inv s3" "can_take USER_REG s3"
    "space_inv ctx (install_page_table ctx a err s)" "ucast pfn \<notin> taken s"
    "live (install_page_table ctx a err s) \<supseteq> insert (ucast pfn) (live s)"
    "ucast pfn \<notin> tables (mem (install_page_table ctx a err s)) (root ctx)"
    "\<And>b. user_map (mem (install_page_table ctx a err s)) ctx b =
       (if page_of b = page_of a then Some (osmap (ucast pfn) OR (0x5 OR (err AND 0x2))) else user_map (mem s) ctx b)"
    "\<And>x. frame_of x \<in> live s - tables (mem s) (root ctx) \<Longrightarrow> mem (install_page_table ctx a err s) x = mem s x"
proof -
  let ?fl = "0x5 OR (err AND 0x2)"
  note fl = ac_flags [of err]
  obtain b1 s1 where l1: "fault_level ?fl (root ctx) (pgd_index a) s = (b1, s1)" by fastforce
  obtain b2 s2 where l2: "fault_level ?fl b1 (pud_index a) s1 = (b2, s2)" by fastforce
  obtain b3 s3 where l3: "fault_level ?fl b2 (pmd_index a) s2 = (b3, s3)" by fastforce
  obtain pfn s4 where al: "os_pfn_alloc USER_REG s3 = (pfn, s4)" by fastforce
  have inst: "install_page_table ctx a err s =
    s4\<lparr>mem := wr64 (mem s4) (entry_addr b3 (pte_index a)) (osmap (ucast pfn) OR ?fl)\<rparr>"
    by (simp add: install_page_table_def l1 l2 l3 al Let_def)
  have r3: "stock OS_PT_REG (Suc (Suc (Suc 0))) s" using room(1) by (simp add: numeral_3_eq_3)
  have i0: "mm_inv s" "tree_inv (mem s) (root ctx) (live s)" using inv by (simp_all add: space_inv_def)
  have F1: "grown (root ctx) s s1 \<and> stock OS_PT_REG (Suc (Suc 0)) s1 \<and>
      table_at (mem s1) (root ctx) ([] @ [pgd_index a]) = Some b1 \<and> clean_path (mem s1) b1 [pud_index a, pmd_index a]"
    by (rule fault_level_step [OF i0 r3 _ _ _ _ fl _ _ l1]) (use path in \<open>simp_all add: upath_def\<close>)
  then have i1: "mm_inv s1" "tree_inv (mem s1) (root ctx) (live s1)" by (simp_all add: grown_def)
  have F2: "grown (root ctx) s1 s2 \<and> stock OS_PT_REG (Suc 0) s2 \<and>
      table_at (mem s2) (root ctx) ([pgd_index a] @ [pud_index a]) = Some b2 \<and> clean_path (mem s2) b2 [pmd_index a]"
    by (rule fault_level_step [OF i1 _ _ _ _ _ fl _ _ l2]) (use F1 in simp_all)
  then have i2: "mm_inv s2" "tree_inv (mem s2) (root ctx) (live s2)" by (simp_all add: grown_def)
  have F3: "grown (root ctx) s2 s3 \<and> stock OS_PT_REG 0 s3 \<and>
      table_at (mem s3) (root ctx) ([pgd_index a, pud_index a] @ [pmd_index a]) = Some b3 \<and> clean_path (mem s3) b3 []"
    by (rule fault_level_step [OF i2 _ _ _ _ _ fl _ _ l3]) (use F2 in simp_all)
  have G: "grown (root ctx) s s3" using F1 F2 F3 grown_trans by blast
  then have i3: "mm_inv s3" "tree_inv (mem s3) (root ctx) (live s3)" by (simp_all add: grown_def)
  have t3: "table_at (mem s3) (root ctx) (upath a) = Some b3" using F3 by (simp add: upath_def)
  have "stock USER_REG (Suc 0) s3" using G room(2) by (simp add: grown_def)
  note can = stock_can(1) [OF this]
  note al3 = page_pool.alloc_inv [OF i3(1) can al] page_pool.alloc_fresh [OF i3(1) can al]
    page_pool.alloc_used [OF i3(1) can al] page_pool.alloc_not_own [OF i3(1) can al]
  have keep: "mem s4 x = mem s3 x" if "frame_of x \<in> live s3" for x
    using page_pool.alloc_keeps [OF i3(1) can al] that by (auto simp: live_def)
  have live4: "live s4 = insert (ucast pfn) (live s3)" using al3(3,4) by (auto simp: live_def)
  have i4: "tree_inv (mem s4) (root ctx) (live s4)"
    by (rule tree_inv_cong [OF i3(2)]) (use keep live4 in auto)
  have t4: "table_at (mem s4) (root ctx) (upath a) = Some b3"
    using table_at_cong [OF i3(2), of "mem s4" "upath a"] keep t3 by simp
  have tab4: "tables (mem s4) (root ctx) = tables (mem s3) (root ctx)"
    by (rule tables_cong [OF i3(2) keep])
  have map3: "user_map (mem s4) ctx b = user_map (mem s) ctx b" for b
    using user_map_leaf [OF i4, of b] user_map_leaf [OF i0(2), of b] G
      leaf_at_cong [OF i3(2), of "mem s4" "upath b" "pte_index b"] keep by (simp add: grown_def)
  have ue: "user_entry (osmap (ucast pfn) OR ?fl)" by (rule user_entry_osmap [OF fl(2,3)])
  note L = leaf_update [OF al3(1) i4 t4, where e = "osmap (ucast pfn) OR ?fl", folded inst]
  have notin: "ucast pfn \<notin> taken s"
  proof
    assume "ucast pfn \<in> taken s"
    then have "ucast pfn \<in> live s" using al3(4) by (simp add: live_def)
    then have "ucast pfn \<in> live s3" using G by (auto simp: grown_def)
    then show False using al3(2) by (simp add: live_def)
  qed
  have data: "mem (install_page_table ctx a err s) x = mem s x" if "frame_of x \<in> live s - tables (mem s) (root ctx)" for x
  proof -
    have "frame_of x \<in> live s3 - tables (mem s3) (root ctx)" using that G by (auto simp: grown_def)
    then show ?thesis using L(5) [of x] keep [of x] that G live4 tab4 by (simp add: grown_def)
  qed
  have sub: "live (install_page_table ctx a err s) \<supseteq> insert (ucast pfn) (live s)"
    using L(2) live4 G by (auto simp: grown_def)
  have "tables (mem s3) (root ctx) \<subseteq> live s3" using i3(2) unfolding tree_inv_def tables_def by blast
  then have nt: "ucast pfn \<notin> tables (mem (install_page_table ctx a err s)) (root ctx)"
    using L(8) tab4 al3(2) by (auto simp: live_def)
  show ?thesis
    by (rule that [OF al i3(1) can L(1) notin sub nt]) (use L(4) ue map3 data in auto)
qed

lemma tree_inv_frames:
  assumes "tree_inv m b fr" "tables m b \<subseteq> fr'"
  shows "tree_inv m b fr'"
  using assms unfolding tree_inv_def tables_def by blast

lemma user_map_SomeD:
  assumes "tree_inv m (root ctx) (live s)" "user_map m ctx a = Some e"
  obtains t where "table_at m (root ctx) (upath a) = Some t" "get_user_pte m ctx a = entry_addr t (pte_index a)"
    "entry_addr t (pte_index a) \<noteq> 0" "rd64 m (entry_addr t (pte_index a)) = e" "user_entry e"
proof -
  obtain t where t: "table_at m (root ctx) (upath a) = Some t" "user_entry (rd64 m (entry_addr t (pte_index a)))"
    "rd64 m (entry_addr t (pte_index a)) = e"
    using assms(2) by (auto simp: user_map_def get_user_pte_eq Let_def split: option.splits if_splits)
  moreover have "entry_addr t (pte_index a) \<noteq> 0"
    by (rule live_entry_nonzero [OF assms(1) upath_ok(1) _ t(1)]) simp_all
  ultimately show ?thesis by (intro that [of t]) (auto simp: get_user_pte_eq)
qed

lemma do_unmap_user_spec:
  fixes s :: "'a kernel_scheme"
  assumes inv: "space_inv ctx s" and e: "user_map (mem s) ctx a = Some e"
    and k: "region_reserved USER_REG \<le> k" "k < region_pages USER_REG" "page_used (mem s) USER_REG k"
      "ucast (entry_pfn e) = page_frame USER_REG k" "page_frame USER_REG k \<notin> tables (mem s) (root ctx)"
  defines "s' \<equiv> snd (do_unmap_user ctx a s)"
  shows "fst (do_unmap_user ctx a s) = 0" "space_inv ctx s'" "taken s' = taken s - {page_frame USER_REG k}"
    "user_map (mem s') ctx b = (if page_of b = page_of a then None else user_map (mem s) ctx b)"
proof -
  have i: "mm_inv s" "tree_inv (mem s) (root ctx) (live s)" using inv by (simp_all add: space_inv_def)
  obtain t where t: "table_at (mem s) (root ctx) (upath a) = Some t" "get_user_pte (mem s) ctx a = entry_addr t (pte_index a)"
    "entry_addr t (pte_index a) \<noteq> 0" "rd64 (mem s) (entry_addr t (pte_index a)) = e"
    by (rule user_map_SomeD [OF i(2) e])
  define s1 where "s1 = os_pfn_free USER_REG (page_frame USER_REG k) s"
  have un: "do_unmap_user ctx a s = (0, s1\<lparr>mem := wr64 (mem s1) (entry_addr t (pte_index a)) 0\<rparr>)"
    using t by (simp add: do_unmap_user_def Let_def k(4) s1_def)
  note F = os_pfn_free_contract [OF i(1) k(1-3), folded s1_def]
  have keep: "mem s1 x = mem s x" if "frame_of x \<in> live s" for x using F(3) that by (simp add: live_def)
  have live1: "live s1 = live s - {page_frame USER_REG k}" using F(2) by (auto simp: live_def)
  have tab1: "tables (mem s1) (root ctx) = tables (mem s) (root ctx)" by (rule tables_cong [OF i(2) keep])
  have sub: "tables (mem s) (root ctx) \<subseteq> live s" using i(2) unfolding tree_inv_def tables_def by blast
  have i1: "tree_inv (mem s1) (root ctx) (live s1)"
    by (rule tree_inv_frames [OF tree_inv_cong [OF i(2) keep subset_refl]]) (use sub k(5) tab1 live1 in auto)
  have t1: "table_at (mem s1) (root ctx) (upath a) = Some t"
    using table_at_cong [OF i(2), of "mem s1" "upath a"] keep t(1) by simp
  have map1: "user_map (mem s1) ctx b = user_map (mem s) ctx b"
    using user_map_leaf [OF i1, of b] user_map_leaf [OF i(2), of b]
      leaf_at_cong [OF i(2), of "mem s1" "upath b" "pte_index b"] keep by simp
  note L = leaf_update [OF F(1) i1 t1, where e = 0]
  show "fst (do_unmap_user ctx a s) = 0" by (simp add: un)
  show "space_inv ctx s'" using L(1) by (simp add: s'_def un)
  show "taken s' = taken s - {page_frame USER_REG k}" using L(3) F(2) by (simp add: s'_def un)
  show "user_map (mem s') ctx b = (if page_of b = page_of a then None else user_map (mem s) ctx b)"
    using L(4) [of b] map1 by (simp add: s'_def un)
qed

subsection \<open>A concrete address space\<close>

lemma stock_prefix:
  assumes "page_prefix r c s" "c + n \<le> 32 * scan_window r"
  shows "stock r n s"
proof -
  have "{c..<c + n} \<subseteq> stock_set r s"
    using assms scan_window_bounds(1) [of r] by (auto simp: page_prefix_def stock_set_def)
  from card_mono [OF finite_stock_set this] show ?thesis by (simp add: stock_def)
qed

text \<open>A zeroed top-level table stands for the empty address space.\<close>

lemma empty_tree:
  assumes "aligned 12 b" "frame_of b \<in> fr" "\<And>a. frame_of a = frame_of b \<Longrightarrow> m a = 0"
  shows "tree_inv m b fr" "path_ok p \<Longrightarrow> clean_path m b p" "tables m b = {frame_of b}"
    "path_ok p \<Longrightarrow> p \<noteq> [] \<Longrightarrow> table_at m b p = None"
proof -
  have z: "rd64 m (entry_addr b i) = 0" if "unat i < 512" for i
  proof -
    have "rd64 m (entry_addr b i) = rd64 (\<lambda>_. 0) (entry_addr b i)"
      by (rule rd64_cong [where n = 12]) (use assms that in \<open>auto simp: entry_addr_aligned entry_addr_frame\<close>)
    then show ?thesis by (simp add: rd64_def rd32_def)
  qed
  have t: "table_at m b p = (if p = [] then Some b else None)" if "path_ok p" for p
    using that z by (cases p) auto
  show "tree_inv m b fr" unfolding tree_inv_def using assms(1,2) by (auto simp: t)
  show "tables m b = {frame_of b}" 
    by (auto simp: tables_def t split: if_splits intro!: exI [of _ "[]"])
  show "path_ok p \<Longrightarrow> p \<noteq> [] \<Longrightarrow> table_at m b p = None" by (simp add: t)
  show "path_ok p \<Longrightarrow> clean_path m b p" using z by (cases p) (auto simp: Let_def)
qed

definition first_space :: "exec_context \<times> kernel" where
  "first_space = (let (p, s) = os_pfn_alloc OS_PT_REG (init_pagelists zero_kernel) in (zero_ctx\<lparr>pgd := p\<rparr>, s))"

lemma first_space_inv:
  "space_inv (fst first_space) (snd first_space)" "stock OS_PT_REG 3 (snd first_space)"
  "stock USER_REG 1 (snd first_space)" "clean_path (mem (snd first_space)) (root (fst first_space)) (upath a)"
  "user_map (mem (snd first_space)) (fst first_space) a = None"
proof -
  obtain p s where al: "os_pfn_alloc OS_PT_REG (init_pagelists zero_kernel) = (p, s)" by fastforce
  have fs: "first_space = (zero_ctx\<lparr>pgd := p\<rparr>, s)" by (simp add: first_space_def al)
  have z: "mem zero_kernel a = 0" for a by (simp add: zero_kernel_def)
  note B = init_pagelists_boot [of zero_kernel, OF z]
  have pre: "page_prefix OS_PT_REG 1 (init_pagelists zero_kernel)" using B(2) [of OS_PT_REG] by simp
  have st: "stock OS_PT_REG (Suc 3) (init_pagelists zero_kernel)"
    by (rule stock_prefix [OF pre]) (simp add: scan_window_def)
  have su: "stock USER_REG 1 (init_pagelists zero_kernel)"
    by (rule stock_prefix [OF B(2)]) (simp add: scan_window_def)
  note can = stock_can(1) [OF st]
  have m: "mm_inv s" "ucast p \<in> live s" "\<And>a. frame_of a = ucast p \<Longrightarrow> mem s a = 0"
    using page_pool.alloc_inv [OF B(1) can al] page_pool.alloc_used [OF B(1) can al]
      page_pool.alloc_not_own [OF B(1) can al] pt_pool.alloc_zero [OF B(1) can al] by (simp_all add: live_def)
  have r: "root (fst first_space) = osmap (ucast p)" by (simp add: fs)
  have "tree_inv (mem s) (osmap (ucast p)) (live s)" "clean_path (mem s) (osmap (ucast p)) (upath a)"
    using empty_tree [of "osmap (ucast p)" "live s" "mem s"] m by simp_all
  then show "space_inv (fst first_space) (snd first_space)"
    "clean_path (mem (snd first_space)) (root (fst first_space)) (upath a)"
    using m(1) by (simp_all add: space_inv_def r fs)
  have "table_at (mem s) (osmap (ucast p)) (upath a) = None"
    using empty_tree(4) [of "osmap (ucast p)" "live s" "mem s" "upath a"] m by (simp add: upath_def)
  then show "user_map (mem (snd first_space)) (fst first_space) a = None"
    by (simp add: user_map_def get_user_pte_eq fs)
  show "stock OS_PT_REG 3 (snd first_space)" using stock_alloc [OF B(1) st al] by (simp add: fs)
  show "stock USER_REG 1 (snd first_space)" using stock_other [OF B(1) can al, of USER_REG 1] su by (simp add: fs)
qed

subsection \<open>Properties\<close>

text \<open>C2: \<open>install_page_table\<close> maps the page of the address to a frame that was
  not in use, with the flags it derives from the error code; the mapping of every other page is
  unchanged, the tables stay a tree, and no frame in use other than tables and bitmaps is
  written.\<close>

theorem install_page_table_maps_one_page:
  fixes s :: "'a kernel_scheme"
  assumes "space_inv ctx s" "stock OS_PT_REG 3 s" "stock USER_REG 1 s" "clean_path (mem s) (root ctx) (upath a)"
  shows "\<exists>pfn. ucast pfn \<notin> taken s \<and> ucast pfn \<in> taken (install_page_table ctx a err s) \<and>
    space_inv ctx (install_page_table ctx a err s) \<and>
    (\<forall>b. user_map (mem (install_page_table ctx a err s)) ctx b =
       (if page_of b = page_of a then Some (osmap (ucast (pfn :: u32)) OR (0x5 OR (err AND 0x2)))
        else user_map (mem s) ctx b)) \<and>
    (\<forall>x. frame_of x \<in> taken s - bmap_frames - tables (mem s) (root ctx) \<longrightarrow>
       mem (install_page_table ctx a err s) x = mem s x)"
proof -
  obtain pfn :: u32 where "space_inv ctx (install_page_table ctx a err s)" "ucast pfn \<notin> taken s"
    "insert (ucast pfn) (live s) \<subseteq> live (install_page_table ctx a err s)"
    "\<And>b. user_map (mem (install_page_table ctx a err s)) ctx b =
       (if page_of b = page_of a then Some (osmap (ucast pfn) OR (0x5 OR (err AND 0x2))) else user_map (mem s) ctx b)"
    "\<And>x. frame_of x \<in> live s - tables (mem s) (root ctx) \<Longrightarrow> mem (install_page_table ctx a err s) x = mem s x"
    by (rule install_page_table_spec [OF assms]) blast
  then show ?thesis by (intro exI [of _ pfn]) (simp add: live_def)
qed

theorem install_page_table_maps_one_page_witness:
  "\<exists>e. user_map (mem (install_page_table (fst first_space) 0x180000000 2 (snd first_space))) (fst first_space) 0x180000fff = Some e"
proof -
  have "page_of 0x180000fff = page_of 0x180000000" by simp
  then show ?thesis
    using install_page_table_maps_one_page [OF first_space_inv(1-3) first_space_inv(4) [of "0x180000000"], of 2] by (metis (no_types, lifting))
qed

text \<open>C8: On a mapped page whose frame is a user frame in use, \<open>do_unmap_user\<close>
  returns 0, releases exactly that frame, removes the mapping of that page and no other, and keeps
  the tables a tree.\<close>

theorem do_unmap_user_removes_one_page:
  fixes s :: "'a kernel_scheme"
  assumes "space_inv ctx s" "user_map (mem s) ctx a = Some e"
    "region_reserved USER_REG \<le> k" "k < region_pages USER_REG" "page_used (mem s) USER_REG k"
    "ucast (entry_pfn e) = page_frame USER_REG k" "page_frame USER_REG k \<notin> tables (mem s) (root ctx)"
  shows "fst (do_unmap_user ctx a s) = 0 \<and> space_inv ctx (snd (do_unmap_user ctx a s)) \<and>
    taken (snd (do_unmap_user ctx a s)) = taken s - {page_frame USER_REG k} \<and>
    (\<forall>b. user_map (mem (snd (do_unmap_user ctx a s))) ctx b =
       (if page_of b = page_of a then None else user_map (mem s) ctx b))"
  using do_unmap_user_spec [OF assms] by blast

lemma install_then_unmap:
  fixes s :: "'a kernel_scheme" and err :: u64
  assumes "space_inv ctx s" "stock OS_PT_REG 3 s" "stock USER_REG 1 s" "clean_path (mem s) (root ctx) (upath a)"
  defines "s1 \<equiv> install_page_table ctx a err s"
  obtains k e where "space_inv ctx s1" "user_map (mem s1) ctx a = Some e"
    "region_reserved USER_REG \<le> k" "k < region_pages USER_REG" "page_used (mem s1) USER_REG k"
    "ucast (entry_pfn e) = page_frame USER_REG k" "page_frame USER_REG k \<notin> tables (mem s1) (root ctx)"
    "\<And>b. page_of b \<noteq> page_of a \<Longrightarrow> user_map (mem s1) ctx b = user_map (mem s) ctx b"
proof -
  obtain s3 s4 :: "'a kernel_scheme" and pfn where al: "os_pfn_alloc USER_REG s3 = (pfn, s4)" "mm_inv s3" "can_take USER_REG s3"
    and sp: "space_inv ctx s1" and sub: "insert (ucast pfn) (live s) \<subseteq> live s1" and nt: "ucast pfn \<notin> tables (mem s1) (root ctx)"
    and um: "\<And>b. user_map (mem s1) ctx b =
       (if page_of b = page_of a then Some (osmap (ucast pfn) OR (0x5 OR (err AND 0x2))) else user_map (mem s) ctx b)"
    unfolding s1_def by (rule install_page_table_spec [OF assms(1-4), where err = err]) blast
  obtain k where k: "region_reserved USER_REG \<le> k" "k < region_pages USER_REG" "ucast pfn = page_frame USER_REG k"
    by (rule os_pfn_alloc_contract [OF al(2,3,1)]) blast
  have "page_frame USER_REG k \<in> taken s1" using sub k(3) by (auto simp: live_def)
  then have "page_used (mem s1) USER_REG k" by (simp only: taken_iff [OF k(2)])
  moreover have "ucast (entry_pfn (osmap (ucast pfn) OR (0x5 OR (err AND 0x2)))) = page_frame USER_REG k"
    unfolding entry_pfn_osmap [OF ac_flags(1)] by (rule k(3))
  moreover have "page_frame USER_REG k \<notin> tables (mem s1) (root ctx)" using nt unfolding k(3) .
  ultimately show ?thesis
    by (intro that [OF sp _ k(1,2)]) (use um in auto)
qed

theorem do_unmap_user_removes_one_page_witness:
  "user_map (mem (snd (do_unmap_user (fst first_space) 0x180000000
      (install_page_table (fst first_space) 0x180000000 2 (snd first_space))))) (fst first_space) 0x180000000 = None"
proof -
  obtain k e where "space_inv (fst first_space) (install_page_table (fst first_space) 0x180000000 2 (snd first_space))"
    "user_map (mem (install_page_table (fst first_space) 0x180000000 2 (snd first_space))) (fst first_space) 0x180000000 = Some e"
    "region_reserved USER_REG \<le> k" "k < region_pages USER_REG"
    "page_used (mem (install_page_table (fst first_space) 0x180000000 2 (snd first_space))) USER_REG k"
    "ucast (entry_pfn e) = page_frame USER_REG k"
    "page_frame USER_REG k \<notin> tables (mem (install_page_table (fst first_space) 0x180000000 2 (snd first_space))) (root (fst first_space))"
    by (rule install_then_unmap [OF first_space_inv(1-3) first_space_inv(4) [of "0x180000000"]]) blast
  from do_unmap_user_removes_one_page [OF this] show ?thesis by auto
qed

text \<open>C7: Unmapping a page that a fault has just mapped succeeds and restores the address
  space: every address maps as before the fault.\<close>

theorem install_unmap_roundtrip:
  fixes s :: "'a kernel_scheme"
  assumes "space_inv ctx s" "stock OS_PT_REG 3 s" "stock USER_REG 1 s" "clean_path (mem s) (root ctx) (upath a)"
    "user_map (mem s) ctx a = None"
  shows "fst (do_unmap_user ctx a (install_page_table ctx a err s)) = 0 \<and>
    user_map (mem (snd (do_unmap_user ctx a (install_page_table ctx a err s)))) ctx = user_map (mem s) ctx"
proof -
  obtain k e where *: "space_inv ctx (install_page_table ctx a err s)"
    "user_map (mem (install_page_table ctx a err s)) ctx a = Some e"
    "region_reserved USER_REG \<le> k" "k < region_pages USER_REG" "page_used (mem (install_page_table ctx a err s)) USER_REG k"
    "ucast (entry_pfn e) = page_frame USER_REG k"
    "page_frame USER_REG k \<notin> tables (mem (install_page_table ctx a err s)) (root ctx)"
    and other: "\<And>b. page_of b \<noteq> page_of a \<Longrightarrow> user_map (mem (install_page_table ctx a err s)) ctx b = user_map (mem s) ctx b"
    by (rule install_then_unmap [OF assms(1-4), where err = err]) blast
  have same: "user_map (mem s) ctx b = None" if "page_of b = page_of a" for b
    using user_map_leaf [of "mem s" ctx s] assms(1,5) same_path [of b a] that by (simp add: space_inv_def)
  show ?thesis using do_unmap_user_spec [OF *] other same by (auto intro!: ext)
qed

theorem install_unmap_roundtrip_witness:
  "fst (do_unmap_user (fst first_space) 0x180000000 (install_page_table (fst first_space) 0x180000000 0 (snd first_space))) = 0"
  using install_unmap_roundtrip [OF first_space_inv(1-3) first_space_inv(4,5) [of "0x180000000"]] by blast

end
