(* ===== verification/Space_Build.thy ===== *)
theory Space_Build
  imports Table_Frames Address_Space Sched_Inv
begin

text \<open>
  How the kernel builds the page tables of a process, in terms of the frames they take: \<open>builds B p s\<close>
  says that the frames in use are \<open>B\<close> and those of the tree below \<open>p\<close>, \<open>rooted\<close> adds which slots of the
  one level-3 table are filled.
\<close>

subsection \<open>Entries\<close>

lemma bit_0_present: "bit (e :: u64) 0 \<Longrightarrow> e AND 1 \<noteq> 0"
  by (metis bit_0 bit_1_0 bit_and_iff bit_0_eq bot_apply bot_bool_def)

lemma entry_value:
  fixes fl :: u64
  assumes "unat f < 131072" "drop_bit 12 fl = 0" "bit fl 0"
  shows "drop_bit 12 (osmap f OR fl) = f" "(osmap f OR fl) AND 1 \<noteq> 0" "osmap f OR fl \<noteq> 0"
proof -
  show "drop_bit 12 (osmap f OR fl) = f" using frame_of_osmap [OF assms(1)] assms(2) by (simp add: drop_bit_or)
  have b: "bit (osmap f OR fl) 0" using assms(3) by (simp add: bit_or_iff)
  then show "(osmap f OR fl) AND 1 \<noteq> 0" by (rule bit_0_present)
  show "osmap f OR fl \<noteq> 0" using b by (metis bit_0_eq bot_apply bot_bool_def)
qed

lemma masked_entry:
  fixes e :: u64
  assumes "unat (drop_bit 12 e) < 131072"
  shows "e AND FLAG_MASK = osmap (drop_bit 12 e)" "push_bit 12 (drop_bit 12 e) = osmap (drop_bit 12 e)"
    "osmap (ucast (entry_pfn e)) = osmap (drop_bit 12 e)"
proof -
  have "take_bit 17 (drop_bit 12 e) = drop_bit 12 e"
    using assms by (simp add: word_unat_eq_iff unsigned_take_bit_eq take_bit_nat_eq_self)
  then have "bit (drop_bit 12 e) n \<Longrightarrow> n < 17" for n by (metis bit_take_bit_iff)
  then have b: "bit e (n + 12) \<Longrightarrow> n < 17" for n by (simp add: bit_drop_bit_eq add.commute)
  have mask: "(0x3ffffffff000 :: u64) = push_bit 12 (mask 34)" by (simp add: mask_eq_exp_minus_1 push_bit_eq_mult)
  have m32: "(0xFFFFFFFF :: u64) = mask 32" by (simp add: mask_eq_exp_minus_1)
  have lt: "n < 29" if "bit e n" "12 \<le> n" for n using b [of "n - 12"] that by simp
  show "e AND FLAG_MASK = osmap (drop_bit 12 e)"
    unfolding mask osmap_def by (rule bit_word_eqI) (use lt in \<open>force simp: bit_simps\<close>)
  show "push_bit 12 (drop_bit 12 e) = osmap (drop_bit 12 e)" by (simp add: osmap_def)
  have "drop_bit 12 e = ucast (entry_pfn e)"
    unfolding entry_pfn_def m32 by (rule bit_word_eqI) (use b in \<open>force simp: bit_simps add.commute\<close>)
  then show "osmap (ucast (entry_pfn e)) = osmap (drop_bit 12 e)" by simp
qed

subsection \<open>Growing the tree\<close>

definition builds :: "u64 set \<Rightarrow> u64 \<Rightarrow> 'a kernel_scheme \<Rightarrow> bool" where
  "builds B p s \<longleftrightarrow> mm_inv s \<and> bmap_frames \<subseteq> B \<and> frames_ok (pt_frames (mem s) 4 p) \<and>
     B \<inter> snd ` set (pt_frames (mem s) 4 p) = {} \<and> taken s = B \<union> snd ` set (pt_frames (mem s) 4 p)"

lemma buildsD:
  assumes "builds B p s"
  shows "mm_inv s" "bmap_frames \<subseteq> B" "frames_ok (pt_frames (mem s) 4 p)"
    "taken s = B \<union> snd ` set (pt_frames (mem s) 4 p)" "B \<inter> snd ` set (pt_frames (mem s) 4 p) = {}"
  using assms by (auto simp: builds_def)

lemma node_facts:
  assumes "builds B p s" "(l, t) \<in> set (pt_frames (mem s) 4 p)"
  shows "own_page (level_region l) t" "unat t < 131072" "t \<in> taken s" "t \<notin> bmap_frames" "t \<notin> B"
proof -
  show o: "own_page (level_region l) t" using assms(2) buildsD(3) [OF assms(1)] by (auto simp: frames_ok_def)
  show "unat t < 131072" by (rule own_page_small [OF o])
  show "t \<notin> bmap_frames" by (rule own_page_not_bmap [OF o])
  have t: "t \<in> snd ` set (pt_frames (mem s) 4 p)" using image_eqI [OF _ assms(2), of t snd] by simp
  then show "t \<in> taken s" "t \<notin> B" using buildsD(4,5) [OF assms(1)] by auto
qed

lemma alloc_own_page:
  assumes "mm_inv s" "can_take r s" "os_pfn_alloc r s = (p, s')"
  shows "own_page r (ucast p)"
  by (rule os_pfn_alloc_contract [OF assms]) (simp add: own_page_frame)

lemma same_kernel_alloc:
  fixes s :: "'a kernel_scheme"
  assumes "mm_inv s" "can_take r s" "os_pfn_alloc r s = (p, s')"
  shows "same_kernel s s'"
  by (rule os_pfn_alloc_contract [OF assms]) (metis same_kernel_pgl)

text \<open>A new node: the frame was not in use, and memory in use is as before but for the entry.\<close>

lemma builds_grow:
  assumes b: "builds B p s" and t: "(Suc k, t) \<in> set (pt_frames (mem s) 4 p)" "i \<in> set (table_slots (Suc k))"
    and e: "entry_at (mem s) t i AND 1 = 0" "v AND 1 \<noteq> 0" "drop_bit 12 v = f"
    and f: "f \<notin> taken s" "own_page (level_region k) f" "mm_inv s'" "taken s' = insert f (taken s)"
    and same: "\<And>a. frame_of a \<in> taken s \<Longrightarrow> frame_of a \<notin> bmap_frames \<Longrightarrow>
      mem s' a = wr64 (mem s) (entry_addr (osmap t) (of_nat i)) v a"
    and zero: "0 < k \<Longrightarrow> (\<And>a. frame_of a = f \<Longrightarrow> mem s' a = 0)"
  shows "builds B p s'" "mset (pt_frames (mem s') 4 p) = add_mset (k, f) (mset (pt_frames (mem s) 4 p))"
proof -
  have "pt_frames (mem s') k f = [(k, f)]"
    using pt_frames_empty [OF own_page_small [OF f(2)]] zero by (cases k) simp_all
  then have sub: "pt_frames (mem s') k (drop_bit 12 v) = [(k, drop_bit 12 v)]" by (simp add: e(3))
  have "mem s' a = wr64 (mem s) (entry_addr (osmap t) (of_nat i)) v a"
    if "frame_of a \<in> table_frames (pt_frames (mem s) 4 p)" for a
  proof (rule same)
    obtain l where "(l, frame_of a) \<in> set (pt_frames (mem s) 4 p)" using \<open>frame_of a \<in> table_frames _\<close> by (auto simp: table_frames_def)
    from node_facts(3,4) [OF b this] show "frame_of a \<in> taken s" "frame_of a \<notin> bmap_frames" .
  qed
  then show m: "mset (pt_frames (mem s') 4 p) = add_mset (k, f) (mset (pt_frames (mem s) 4 p))"
    using pt_frames_grow [OF buildsD(3) [OF b] t _ e(1,2) sub] e(3) by simp
  then have st: "set (pt_frames (mem s') 4 p) = insert (k, f) (set (pt_frames (mem s) 4 p))"
    by (metis set_mset_add_mset_insert set_mset_mset)
  have "frames_ok (pt_frames (mem s') 4 p) = frames_ok ([(k, f)] @ pt_frames (mem s) 4 p)"
    by (rule frames_ok_mset) (simp add: m)
  then have "frames_ok (pt_frames (mem s') 4 p)"
    using buildsD(3,4) [OF b] f(1,2) unfolding frames_ok_append by simp
  then show "builds B p s'"
    using buildsD [OF b] f(1,3,4) unfolding builds_def st by auto
qed

text \<open>One level of an installation, when the entry is not present: a new empty table.\<close>

lemma table_level_alloc:
  fixes s :: "'a kernel_scheme"
  assumes inv: "mm_inv s" "stock OS_PT_REG (Suc n) s"
    and t: "unat t < 131072" "t \<in> taken s" "t \<notin> bmap_frames" "i < 512"
    and par: "\<not> present (entry_at (mem s) t i)" "drop_bit 12 fl = 0" "bit fl 0" "clears clear"
  obtains f s' where "table_level present nxt fl clear (osmap t) (of_nat i) s = (osmap f, s')"
    "mm_inv s'" "stock OS_PT_REG n s'" "\<And>n. stock USER_REG n s' = stock USER_REG n s" "same_kernel s s'"
    "taken s' = insert f (taken s)" "f \<notin> taken s" "own_page OS_PT_REG f" "\<And>a. frame_of a = f \<Longrightarrow> mem s' a = 0"
    "\<And>a. frame_of a \<in> taken s \<Longrightarrow> frame_of a \<notin> bmap_frames \<Longrightarrow>
       mem s' a = wr64 (mem s) (entry_addr (osmap t) (of_nat i)) (osmap f OR fl) a"
proof -
  let ?ea = "entry_addr (osmap t) (of_nat i)"
  note ea = slot_addr [OF t(1,4)]
  obtain q s1 where al: "os_pfn_alloc OS_PT_REG s = (q, s1)" by fastforce
  define f where "f = (ucast q :: u64)"
  define v where "v = osmap f OR fl"
  define s' where "s' = mem_update (\<lambda>m. wr64 m ?ea v) s1"
  note can = stock_can(1) [OF inv(2)]
  have fe: "frame_of ?ea \<in> taken s" "frame_of ?ea \<notin> bmap_frames" using ea(2) t(2,3) by simp_all
  note H = pt_store.hook(1-3) [OF inv al ea(1) fe, where v = v, folded s'_def]
      pt_store.hook(4,5) [OF inv al ea(1) fe]
      pt_store.hook(6,7) [OF inv al ea(1) fe, where v = v, folded s'_def]
  have own: "own_page OS_PT_REG f" using alloc_own_page [OF inv(1) can al] by (simp add: f_def)
  have zero: "mem s' a = 0" if "frame_of a = f" for a using H(6) that by (simp add: f_def)
  have "clear (wr64 (mem s1) ?ea v) (osmap f) = wr64 (mem s1) ?ea v"
  proof -
    have "\<forall>a. frame_of a = frame_of (osmap f) \<longrightarrow> wr64 (mem s1) ?ea v a = 0"
      using zero frame_of_osmap [OF own_page_small [OF own]] by (simp add: s'_def)
    then show ?thesis using par(4) unfolding clears_def by simp
  qed
  then have eq: "table_level present nxt fl clear (osmap t) (of_nat i) s = (osmap f, s')"
    using par(1) al by (simp add: table_level_def Let_def entry_at_def v_def s'_def f_def)
  have "stock USER_REG n s' = stock USER_REG n s" for n
  proof -
    have "stock USER_REG n s' = stock USER_REG n s1"
      unfolding s'_def by (rule mem_update_outside(3) [OF page_pool.alloc_inv [OF inv(1) can al]])
        (use fe(2) in \<open>auto intro!: wr64_frame [OF ea(1), of 12]\<close>)
    then show ?thesis using stock_other [OF inv(1) can al, of USER_REG] by simp
  qed
  moreover have "same_kernel s s'"
    unfolding s'_def by (rule same_kernel_trans [OF same_kernel_alloc [OF inv(1) can al] same_kernel_update])
  ultimately show ?thesis using that [OF eq H(1,2) _ _ _ _ own zero] H(3,4,7) unfolding v_def f_def by blast
qed

lemma table_level_new:
  fixes s :: "'a kernel_scheme"
  assumes b: "builds B p s" "stock OS_PT_REG (Suc n) s"
    and t: "(Suc (Suc k), t) \<in> set (pt_frames (mem s) 4 p)" "i \<in> set (table_slots (Suc (Suc k)))"
    and e: "entry_at (mem s) t i = 0"
    and par: "\<not> present 0" "drop_bit 12 fl = 0" "bit fl 0" "clears clear"
  obtains f s' where "table_level present nxt fl clear (osmap t) (of_nat i) s = (osmap f, s')"
    "builds B p s'" "stock OS_PT_REG n s'" "\<And>n. stock USER_REG n s' = stock USER_REG n s" "same_kernel s s'"
    "mset (pt_frames (mem s') 4 p) = add_mset (Suc k, f) (mset (pt_frames (mem s) 4 p))"
    "f \<notin> taken s" "\<And>a. frame_of a = f \<Longrightarrow> mem s' a = 0"
    "\<And>a. frame_of a \<in> taken s \<Longrightarrow> frame_of a \<notin> bmap_frames \<Longrightarrow>
       mem s' a = wr64 (mem s) (entry_addr (osmap t) (of_nat i)) (osmap f OR fl) a"
proof -
  note nt = node_facts [OF b(1) t(1)] and inv = buildsD(1) [OF b(1)]
  have par0: "\<not> present (entry_at (mem s) t i)" using e par(1) by simp
  obtain f s' where T: "table_level present nxt fl clear (osmap t) (of_nat i) s = (osmap f, s')"
    "mm_inv s'" "stock OS_PT_REG n s'" "\<And>n. stock USER_REG n s' = stock USER_REG n s" "same_kernel s s'"
    "taken s' = insert f (taken s)" "f \<notin> taken s" "own_page OS_PT_REG f" "\<And>a. frame_of a = f \<Longrightarrow> mem s' a = 0"
    "\<And>a. frame_of a \<in> taken s \<Longrightarrow> frame_of a \<notin> bmap_frames \<Longrightarrow>
       mem s' a = wr64 (mem s) (entry_addr (osmap t) (of_nat i)) (osmap f OR fl) a"
    by (rule table_level_alloc [where present = present and nxt = nxt, OF inv b(2) nt(2-4) table_slots_less [OF t(2)] par0 par(2-4)]) metis
  note V = entry_value [OF own_page_small [OF T(8)] par(2,3)]
  have own: "own_page (level_region (Suc k)) f" using T(8) by (simp add: level_region_def)
  have e1: "entry_at (mem s) t i AND 1 = 0" using e by simp
  note G = builds_grow [OF b(1) t e1 V(2,1) T(7) own T(2,6,10,9)]
  show ?thesis by (rule that [OF T(1) G(1) T(3-5) G(2) T(7,9,10)])
qed

lemma wr64_wr64 [simp]: "wr64 (wr64 m a v) a w = wr64 m a w"
  by (rule ext) (simp add: wr64_def wr32_def)

text \<open>A new page and its entry, wherever the table is.\<close>

lemma page_alloc:
  fixes s :: "'a kernel_scheme" and v :: u64
  assumes inv: "mm_inv s" "stock USER_REG (Suc n) s"
    and t: "unat t < 131072" "t \<in> taken s" "t \<notin> bmap_frames" "i < 512"
    and al: "os_pfn_alloc USER_REG s = (q, s1)"
  defines "s' \<equiv> s1\<lparr>mem := wr64 (mem s1) (entry_addr (osmap t) (of_nat i)) v\<rparr>"
  shows "mm_inv s'" "stock USER_REG n s'" "stock OS_PT_REG j s' = stock OS_PT_REG j s" "same_kernel s s'"
    "taken s' = insert (ucast q) (taken s)" "ucast q \<notin> taken s" "own_page USER_REG (ucast q)"
    "\<And>a. frame_of a \<in> taken s \<Longrightarrow> frame_of a \<notin> bmap_frames \<Longrightarrow>
       mem s' a = wr64 (mem s) (entry_addr (osmap t) (of_nat i)) v a"
proof -
  let ?ea = "entry_addr (osmap t) (of_nat i)"
  note can = stock_can(1) [OF inv(2)] and ea = slot_addr [OF t(1,4)]
  note A = page_pool.alloc_inv [OF inv(1) can al] page_pool.alloc_fresh [OF inv(1) can al] page_pool.alloc_used [OF inv(1) can al]
  have s': "s' = mem_update (\<lambda>m. wr64 m ?ea v) s1" by (cases s1) (simp add: s'_def)
  have out: "wr64 (mem s1) ?ea v a = mem s1 a" if "frame_of a \<in> bmap_frames" for a
    using that t(3) ea(2) by (intro wr64_frame [OF ea(1), of 12]) auto
  note U = mem_update_outside [OF A(1), of "\<lambda>m. wr64 m ?ea v", OF out, folded s']
  show "mem s' a = wr64 (mem s) ?ea v a" if "frame_of a \<in> taken s" "frame_of a \<notin> bmap_frames" for a
    unfolding s'_def using wr64_same [of "mem s1" a "mem s" ?ea v] page_pool.alloc_keeps [OF inv(1) can al that] by simp
  show "mm_inv s'" by (rule U(1))
  show "taken s' = insert (ucast q) (taken s)" using U(2) A(3) by simp
  show "ucast q \<notin> taken s" by (rule A(2))
  show "own_page USER_REG (ucast q)" by (rule alloc_own_page [OF inv(1) can al])
  show "stock USER_REG n s'" using U(3) stock_alloc [OF inv al] by simp
  show "stock OS_PT_REG j s' = stock OS_PT_REG j s" using U(3) stock_other [OF inv(1) can al, of OS_PT_REG j] by simp
  show "same_kernel s s'" unfolding s' by (rule same_kernel_trans [OF same_kernel_alloc [OF inv(1) can al] same_kernel_update])
qed

text \<open>The last level: a new page.\<close>

lemma page_new:
  fixes s :: "'a kernel_scheme"
  assumes b: "builds B p s" "stock USER_REG (Suc n) s"
    and t: "(Suc 0, t) \<in> set (pt_frames (mem s) 4 p)" "i < 512" "entry_at (mem s) t i = 0"
    and al: "os_pfn_alloc USER_REG s = (q, s1)" and fl: "drop_bit 12 fl = 0" "bit fl 0"
  defines "s' \<equiv> s1\<lparr>mem := wr64 (mem s1) (entry_addr (osmap t) (of_nat i)) (osmap (ucast q) OR fl)\<rparr>"
  shows "builds B p s'" "stock USER_REG n s'" "stock OS_PT_REG j s' = stock OS_PT_REG j s" "same_kernel s s'"
    "set (pt_frames (mem s') 4 p) = insert (0, ucast q) (set (pt_frames (mem s) 4 p))"
    "\<And>a. frame_of a \<in> taken s \<Longrightarrow> frame_of a \<notin> bmap_frames \<Longrightarrow>
       mem s' a = wr64 (mem s) (entry_addr (osmap t) (of_nat i)) (osmap (ucast q) OR fl) a"
proof -
  let ?v = "osmap (ucast q) OR fl"
  note nt = node_facts [OF b(1) t(1)]
  note P = page_alloc(1-5) [OF buildsD(1) [OF b(1)] b(2) nt(2-4) t(2) al, where v = ?v, folded s'_def]
    page_alloc(6,7) [OF buildsD(1) [OF b(1)] b(2) nt(2-4) t(2) al]
    page_alloc(8) [OF buildsD(1) [OF b(1)] b(2) nt(2-4) t(2) al, where v = ?v, folded s'_def]
  note V = entry_value [OF own_page_small [OF P(7)] fl]
  have own: "own_page (level_region 0) (ucast q)" using P(7) by (simp add: level_region_def)
  have i: "i \<in> set (table_slots (Suc 0))" using t(2) by (simp add: table_slots_def)
  have e: "entry_at (mem s) t i AND 1 = 0" using t(3) by simp
  have nz: "(0::nat) < 0 \<Longrightarrow> mem s' x = 0" for x by simp
  note G = builds_grow [OF b(1) t(1) i e V(2,1) P(6) own P(1,5,8) nz]
  show "builds B p s'" by (rule G(1))
  show "set (pt_frames (mem s') 4 p) = insert (0, ucast q) (set (pt_frames (mem s) 4 p))"
    using G(2) by (metis set_mset_add_mset_insert set_mset_mset)
  show "stock USER_REG n s'" by (rule P(2))
  show "stock OS_PT_REG j s' = stock OS_PT_REG j s" by (rule P(3))
  show "same_kernel s s'" by (rule P(4))
  show "mem s' a = wr64 (mem s) (entry_addr (osmap t) (of_nat i)) ?v a" if "frame_of a \<in> taken s" "frame_of a \<notin> bmap_frames" for a
    by (rule P(8) [OF that])
qed

subsection \<open>Below the first entry of the top-level table\<close>

text \<open>User memory lies below entry 0 of the top-level table \<open>p\<close>, which leads to the table \<open>u\<close>; at most the
  slots \<open>J\<close> of \<open>u\<close> are in use.\<close>

definition rooted :: "u64 set \<Rightarrow> u64 \<Rightarrow> u64 \<Rightarrow> nat set \<Rightarrow> 'a kernel_scheme \<Rightarrow> bool" where
  "rooted B p u J s \<longleftrightarrow> builds B p s \<and> entry_at (mem s) p 0 AND 1 \<noteq> 0 \<and> drop_bit 12 (entry_at (mem s) p 0) = u \<and>
     (3, u) \<in> set (pt_frames (mem s) 4 p) \<and> (\<forall>j<512. j \<notin> J \<longrightarrow> entry_at (mem s) u j = 0)"

lemma rootedD:
  assumes "rooted B p u J s"
  shows "builds B p s" "entry_at (mem s) p 0 AND 1 \<noteq> 0" "drop_bit 12 (entry_at (mem s) p 0) = u"
    "(3, u) \<in> set (pt_frames (mem s) 4 p)" "\<And>j. j < 512 \<Longrightarrow> j \<notin> J \<Longrightarrow> entry_at (mem s) u j = 0"
    "(4, p) \<in> set (pt_frames (mem s) 4 p)"
  using assms root_in_frames by (auto simp: rooted_def)

lemma node_inj:
  assumes "builds B p s" "(l, t) \<in> set (pt_frames (mem s) 4 p)" "(l', t) \<in> set (pt_frames (mem s) 4 p)"
  shows "l' = l"
proof -
  have "distinct (map snd (pt_frames (mem s) 4 p))" using buildsD(3) [OF assms(1)] by (simp add: frames_ok_def)
  then have "inj_on snd (set (pt_frames (mem s) 4 p))" by (simp add: distinct_map)
  from inj_onD [OF this _ assms(3,2)] show ?thesis by simp
qed

lemma entry_in_use:
  assumes "builds B p s" "(l, t) \<in> set (pt_frames (mem s) 4 p)" "i < 512"
    and "\<And>a. frame_of a \<in> taken s \<Longrightarrow> frame_of a \<notin> bmap_frames \<Longrightarrow> m' a = m a"
  shows "entry_at m' t i = entry_at m t i"
  by (rule entry_at_cong [OF node_facts(2) [OF assms(1,2)] assms(3)]) (use node_facts(3,4) [OF assms(1,2)] assms(4) in simp)

text \<open>Writing an entry of another table, or a free slot of \<open>u\<close>.\<close>

lemma rooted_keep:
  assumes r: "rooted B p u J s" and t: "(l, t) \<in> set (pt_frames (mem s) 4 p)" "i < 512" "t \<noteq> p"
    and b: "builds B' p s'" "set (pt_frames (mem s) 4 p) \<subseteq> set (pt_frames (mem s') 4 p)"
    and same: "\<And>a. frame_of a \<in> taken s \<Longrightarrow> frame_of a \<notin> bmap_frames \<Longrightarrow>
       mem s' a = wr64 (mem s) (entry_addr (osmap t) (of_nat i)) v a"
    and J: "if t = u then J' = insert i J else J' = J"
  shows "rooted B' p u J' s'" "\<And>x. x < 512 \<Longrightarrow> entry_at (mem s') t x = (if x = i then v else entry_at (mem s) t x)"
proof -
  note R = rootedD [OF r]
  have e: "entry_at (mem s') n x = (if n = t \<and> x = i then v else entry_at (mem s) n x)"
    if n: "(l', n) \<in> set (pt_frames (mem s) 4 p)" "x < 512" for l' n x
  proof -
    have "entry_at (mem s') n x = entry_at (wr64 (mem s) (entry_addr (osmap t) (of_nat i)) v) n x"
      by (rule entry_in_use [OF R(1) n same])
    also have "\<dots> = (if n = t \<and> x = i then v else entry_at (mem s) n x)"
      using entry_at_wr64 [OF node_facts(2) [OF R(1) t(1)] t(2) n(2)] entry_write_other [OF node_facts(2) [OF R(1) t(1)] t(2)]
        entry_at_cong [OF node_facts(2) [OF R(1) n(1)] n(2), of "wr64 (mem s) (entry_addr (osmap t) (of_nat i)) v" "mem s"]
      by (cases "n = t") auto
    finally show ?thesis .
  qed
  show "entry_at (mem s') t x = (if x = i then v else entry_at (mem s) t x)" if "x < 512" for x
    using e [OF t(1) that] by simp
  show "rooted B' p u J' s'"
    unfolding rooted_def using b R(2-5) e [OF R(6), of 0] e [OF R(4)] t(3) J by (auto split: if_splits)
qed

text \<open>One new table below \<open>u\<close> or below another new table.\<close>

lemma level_rooted:
  fixes s :: "'a kernel_scheme"
  assumes r: "rooted B p u J s" "stock OS_PT_REG (Suc n) s"
    and t: "(Suc (Suc k), t) \<in> set (pt_frames (mem s) 4 p)" "i \<in> set (table_slots (Suc (Suc k)))" "t \<noteq> p"
    and e: "entry_at (mem s) t i = 0"
    and par: "\<not> present 0" "drop_bit 12 fl = 0" "bit fl 0" "clears clear"
  obtains f s' where "table_level present nxt fl clear (osmap t) (of_nat i) s = (osmap f, s')"
    "rooted B p u (if t = u then insert i J else J) s'" "stock OS_PT_REG n s'"
    "\<And>n. stock USER_REG n s' = stock USER_REG n s" "same_kernel s s'"
    "(Suc k, f) \<in> set (pt_frames (mem s') 4 p)" "f \<noteq> p" "f \<noteq> u" "\<And>j. j < 512 \<Longrightarrow> entry_at (mem s') f j = 0"
    "entry_at (mem s') t i = osmap f OR fl"
proof -
  note R = rootedD [OF r(1)]
  obtain f s' where L: "table_level present nxt fl clear (osmap t) (of_nat i) s = (osmap f, s')"
    "builds B p s'" "stock OS_PT_REG n s'" "\<And>n. stock USER_REG n s' = stock USER_REG n s" "same_kernel s s'"
    "mset (pt_frames (mem s') 4 p) = add_mset (Suc k, f) (mset (pt_frames (mem s) 4 p))"
    "f \<notin> taken s" "\<And>a. frame_of a = f \<Longrightarrow> mem s' a = 0"
    and same: "\<And>a. frame_of a \<in> taken s \<Longrightarrow> frame_of a \<notin> bmap_frames \<Longrightarrow>
       mem s' a = wr64 (mem s) (entry_addr (osmap t) (of_nat i)) (osmap f OR fl) a"
    by (rule table_level_new [where present = present and k = k and nxt = nxt, OF R(1) r(2) t(1,2) e par]) metis
  have st: "set (pt_frames (mem s') 4 p) = insert (Suc k, f) (set (pt_frames (mem s) 4 p))"
    using L(6) by (metis set_mset_add_mset_insert set_mset_mset)
  have f: "(Suc k, f) \<in> set (pt_frames (mem s') 4 p)" by (simp add: st)
  have sub: "set (pt_frames (mem s) 4 p) \<subseteq> set (pt_frames (mem s') 4 p)" by (simp add: st subset_insertI)
  note K = rooted_keep [OF r(1) t(1) table_slots_less [OF t(2)] t(3) L(2) sub same, of "if t = u then insert i J else J"]
  have "rooted B p u (if t = u then insert i J else J) s'" by (rule K(1)) simp_all
  moreover have "entry_at (mem s') t i = osmap f OR fl" using K(2) [of i] table_slots_less [OF t(2)] by simp
  moreover have "entry_at (mem s') f j = 0" if "j < 512" for j
    using empty_entry [OF L(8) node_facts(2) [OF L(2) f] that] .
  moreover have "f \<noteq> p" "f \<noteq> u" using L(7) node_facts(3) [OF R(1,4)] node_facts(3) [OF R(1,6)] by auto
  ultimately show ?thesis using that L(1,3-5) f by blast
qed

lemma table_flags: "\<not> (0 :: u64) \<noteq> 0" "drop_bit 12 (7 :: u64) = 0" "bit (7 :: u64) 0"
    "\<not> (0 :: u64) AND 1 \<noteq> 0" "drop_bit 12 (3 :: u64) = 0" "bit (3 :: u64) 0"
  by simp_all

lemmas ptable_level_new = table_level_new [where present = "\<lambda>e. e \<noteq> 0" and nxt = "\<lambda>e. e AND FLAG_MASK",
    OF _ _ _ _ _ table_flags(1-3) clears_simps(2), folded ptable_level_def]

lemmas ptable_level_rooted = level_rooted [where present = "\<lambda>e. e \<noteq> 0" and nxt = "\<lambda>e. e AND FLAG_MASK",
    OF _ _ _ _ _ _ table_flags(1-3) clears_simps(2), folded ptable_level_def]

lemma ptable_level_root:
  assumes "rooted B p u J s"
  shows "ptable_level (osmap p) 0 s = (osmap u, s)"
proof -
  note R = rootedD [OF assms]
  have "entry_at (mem s) p 0 \<noteq> 0" using R(2) by auto
  moreover have "entry_at (mem s) p 0 AND FLAG_MASK = osmap u"
    using masked_entry(1) [of "entry_at (mem s) p 0"] R(3) node_facts(2) [OF R(1,4)] by simp
  ultimately show ?thesis by (simp add: ptable_level_def table_level_def Let_def entry_at_def)
qed

text \<open>The first installation also makes \<open>u\<close>; it then goes on as if \<open>u\<close> had been there.\<close>

lemma first_table:
  fixes s :: "'a kernel_scheme"
  assumes b: "builds B p s" "stock OS_PT_REG (Suc n) s" and e: "entry_at (mem s) p 0 = 0"
  obtains u s' where "\<And>a. pgd_index a = 0 \<Longrightarrow> ptable_levels (osmap p) a s = ptable_levels (osmap p) a s'"
    "rooted B p u {} s'" "stock OS_PT_REG n s'" "\<And>n. stock USER_REG n s' = stock USER_REG n s" "same_kernel s s'"
proof -
  have p4: "(Suc (Suc 2), p) \<in> set (pt_frames (mem s) 4 p)" using root_in_frames [of 4 p "mem s"] by simp
  have i: "0 \<in> set (table_slots (Suc (Suc 2)))" by (simp add: table_slots_def)
  obtain u s' where L: "ptable_level (osmap p) (of_nat 0) s = (osmap u, s')"
    "builds B p s'" "stock OS_PT_REG n s'" "\<And>n. stock USER_REG n s' = stock USER_REG n s" "same_kernel s s'"
    "mset (pt_frames (mem s') 4 p) = add_mset (Suc 2, u) (mset (pt_frames (mem s) 4 p))"
    "u \<notin> taken s" "\<And>a. frame_of a = u \<Longrightarrow> mem s' a = 0"
    and same: "\<And>a. frame_of a \<in> taken s \<Longrightarrow> frame_of a \<notin> bmap_frames \<Longrightarrow>
       mem s' a = wr64 (mem s) (entry_addr (osmap p) (of_nat 0)) (osmap u OR 7) a"
    by (rule ptable_level_new [OF b p4 i e]) metis
  have st: "set (pt_frames (mem s') 4 p) = insert (3, u) (set (pt_frames (mem s) 4 p))"
    using L(6) by (metis set_mset_add_mset_insert set_mset_mset eval_nat_numeral(3) numeral_eq_Suc)
  then have u: "(3, u) \<in> set (pt_frames (mem s') 4 p)" by simp
  have "entry_at (mem s') p 0 = entry_at (wr64 (mem s) (entry_addr (osmap p) (of_nat 0)) (osmap u OR 7)) p 0"
    by (rule entry_in_use [OF b(1) p4 _ same]) simp_all
  also have "\<dots> = osmap u OR 7" using entry_at_wr64 [OF node_facts(2) [OF b(1) p4], of 0 0] by simp
  finally have "entry_at (mem s') p 0 = osmap u OR 7" .
  then have r: "rooted B p u {} s'"
    using entry_value [OF node_facts(2) [OF L(2) u] table_flags(2,3)] L(2) u
      empty_entry [OF L(8) node_facts(2) [OF L(2) u]] by (simp add: rooted_def)
  have "ptable_levels (osmap p) a s = ptable_levels (osmap p) a s'" if "pgd_index a = 0" for a
    using L(1) ptable_level_root [OF r] that by (simp add: ptable_levels_def)
  then show ?thesis using that r L(3-5) by blast
qed

text \<open>\<open>ptable_levels\<close> below a free slot of \<open>u\<close> makes two new tables and returns the address of an entry
  of an empty last-level table.\<close>

lemma ptable_levels_rooted:
  fixes s :: "'a kernel_scheme"
  assumes r: "rooted B p u J s" "stock OS_PT_REG (Suc (Suc n)) s"
    and a: "pgd_index a = 0" "pud_index a = of_nat j" "j \<in> set (table_slots 3)" "j \<notin> J"
  obtains t s' where "ptable_levels (osmap p) a s = (entry_addr (osmap t) (pte_index a), s')"
    "rooted B p u (insert j J) s'" "stock OS_PT_REG n s'" "\<And>n. stock USER_REG n s' = stock USER_REG n s" "same_kernel s s'"
    "(1, t) \<in> set (pt_frames (mem s') 4 p)" "t \<noteq> p" "t \<noteq> u" "\<And>i. i < 512 \<Longrightarrow> entry_at (mem s') t i = 0"
proof -
  note R = rootedD [OF r(1)]
  have up: "u \<noteq> p" using node_inj [OF R(1) R(4)] R(6) by fastforce
  have l1: "ptable_level (osmap p) (pgd_index a) s = (osmap u, s)" using ptable_level_root [OF r(1)] a(1) by simp
  have u3: "(Suc (Suc 1), u) \<in> set (pt_frames (mem s) 4 p)" using R(4) by (simp add: numeral_3_eq_3)
  have j3: "j \<in> set (table_slots (Suc (Suc 1)))" using a(3) by (simp add: numeral_3_eq_3)
  have e0: "entry_at (mem s) u j = 0" using R(5) table_slots_less [OF a(3)] a(4) by blast
  obtain f s1 where l2: "ptable_level (osmap u) (of_nat j) s = (osmap f, s1)"
    "rooted B p u (if u = u then insert j J else J) s1" "stock OS_PT_REG (Suc n) s1"
    "\<And>n. stock USER_REG n s1 = stock USER_REG n s" "same_kernel s s1"
    "(Suc 1, f) \<in> set (pt_frames (mem s1) 4 p)" "f \<noteq> p" "f \<noteq> u" "\<And>j. j < 512 \<Longrightarrow> entry_at (mem s1) f j = 0"
    by (rule ptable_level_rooted [OF r u3 j3 up e0], rule that; assumption)
  have r1: "rooted B p u (insert j J) s1" using l2(2) by simp
  have c2: "pmd_index a = of_nat (unat (pmd_index a))" "unat (pmd_index a) < 512" by simp_all
  have f2: "(Suc (Suc 0), f) \<in> set (pt_frames (mem s1) 4 p)" using l2(6) by simp
  have c3: "unat (pmd_index a) \<in> set (table_slots (Suc (Suc 0)))" using c2(2) by (simp add: table_slots_def)
  obtain t s2 where l3: "ptable_level (osmap f) (of_nat (unat (pmd_index a))) s1 = (osmap t, s2)"
    "rooted B p u (if f = u then insert (unat (pmd_index a)) (insert j J) else insert j J) s2" "stock OS_PT_REG n s2"
    "\<And>n. stock USER_REG n s2 = stock USER_REG n s1" "same_kernel s1 s2"
    "(Suc 0, t) \<in> set (pt_frames (mem s2) 4 p)" "t \<noteq> p" "t \<noteq> u" "\<And>j. j < 512 \<Longrightarrow> entry_at (mem s2) t j = 0"
    by (rule ptable_level_rooted [OF r1 l2(3) f2 c3 l2(7) l2(9) [OF c2(2)]], rule that; assumption)
  have "ptable_levels (osmap p) a s = (entry_addr (osmap t) (pte_index a), s2)"
    using l1 l2(1) l3(1) by (simp add: ptable_levels_def a(2))
  then show ?thesis
    using that [of t s2] l3 l2(4,8) same_kernel_trans [OF l2(5) l3(5)] by (simp add: insert_commute)
qed

subsection \<open>Mapping pages\<close>

lemma rooted_printf [simp]: "rooted B p u J (printf f as s) = rooted B p u J s"
  by (simp add: rooted_def builds_def mm_inv_def taken_def)

lemma stock_printf [simp]: "stock r n (printf f as s) = stock r n s"
  by (simp add: stock_def stock_set_def)

text \<open>An entry of an empty slot of the last-level table \<open>t\<close> for a page just allocated.\<close>

lemma page_rooted:
  fixes s :: "'a kernel_scheme"
  assumes r: "rooted B p u J s" "stock USER_REG (Suc n) s"
    and t: "(1, t) \<in> set (pt_frames (mem s) 4 p)" "t \<noteq> p" "t \<noteq> u" "i < 512" "entry_at (mem s) t i = 0"
    and al: "os_pfn_alloc USER_REG s = (q, s1)" and fl: "drop_bit 12 fl = 0" "bit fl 0"
  defines "s' \<equiv> s1\<lparr>mem := wr64 (mem s1) (entry_addr (osmap t) (of_nat i)) (osmap (ucast q) OR fl)\<rparr>"
  shows "rooted B p u J s'" "stock USER_REG n s'" "stock OS_PT_REG j s' = stock OS_PT_REG j s" "same_kernel s s'"
    "(1, t) \<in> set (pt_frames (mem s') 4 p)" "\<And>x. x < 512 \<Longrightarrow> x \<noteq> i \<Longrightarrow> entry_at (mem s') t x = entry_at (mem s) t x"
proof -
  note R = rootedD [OF r(1)]
  have t1: "(Suc 0, t) \<in> set (pt_frames (mem s) 4 p)" using t(1) by simp
  note P = page_new [OF R(1) r(2) t1 t(4,5) al fl, folded s'_def]
  have sub: "set (pt_frames (mem s) 4 p) \<subseteq> set (pt_frames (mem s') 4 p)" using P(5) by auto
  have J: "if t = u then J = insert i J else J = J" using t(3) by simp
  note K = rooted_keep [OF r(1) t1 t(4,2) P(1) sub P(6) J]
  show "rooted B p u J s'" by (rule K(1))
  show "entry_at (mem s') t x = entry_at (mem s) t x" if "x < 512" "x \<noteq> i" for x
    using K(2) [OF _ _ that(1)] that(2) by simp
  show "stock USER_REG n s'" "stock OS_PT_REG j s' = stock OS_PT_REG j s" "same_kernel s s'"
    "(1, t) \<in> set (pt_frames (mem s') 4 p)" using P(2-5) t1 by auto
qed

lemma or_flags:
  fixes e :: u64
  assumes "aligned 3 ea"
  shows "wr64 (wr64 m ea (osmap f OR 5)) ea (rd64 (wr64 m ea (osmap f OR 5)) ea OR 2) = wr64 m ea (osmap f OR 7)"
  using assms by (simp add: or.assoc)

text \<open>\<open>install_ptable\<close> without a page given allocates one.\<close>

lemma install_ptable_rooted:
  fixes s :: "'a kernel_scheme" and mm :: mm_segment
  assumes r: "rooted B p u J s" "stock OS_PT_REG (Suc (Suc n)) s" "stock USER_REG (Suc k) s"
    and a: "a = seg_start mm" "pgd_index a = 0" "pud_index a = of_nat j" "j \<in> set (table_slots 3)" "j \<notin> J"
  obtains q s' where "install_ptable (osmap p) mm 0 0 s = (q, s')" "rooted B p u (insert j J) s'"
    "stock OS_PT_REG n s'" "stock USER_REG k s'" "same_kernel s s'"
proof -
  obtain t s1 where L: "ptable_levels (osmap p) a s = (entry_addr (osmap t) (pte_index a), s1)"
    "rooted B p u (insert j J) s1" "stock OS_PT_REG n s1" "\<And>n. stock USER_REG n s1 = stock USER_REG n s" "same_kernel s s1"
    "(1, t) \<in> set (pt_frames (mem s1) 4 p)" "t \<noteq> p" "t \<noteq> u" "\<And>i. i < 512 \<Longrightarrow> entry_at (mem s1) t i = 0"
    by (rule ptable_levels_rooted [OF r(1,2) a(2-5)], rule that; assumption)
  obtain q s2 where al: "os_pfn_alloc USER_REG s1 = (q, s2)" by fastforce
  define i where "i = unat (pte_index a)"
  have i: "i < 512" "pte_index a = of_nat i" by (simp_all add: i_def)
  define fl :: u64 where "fl = (if access_flags mm AND MM_WR \<noteq> 0 then 7 else 5)"
  have fl: "drop_bit 12 fl = 0" "bit fl 0" by (simp_all add: fl_def)
  have st: "stock USER_REG (Suc k) s1" using L(4) r(3) by simp
  have al3: "aligned 3 (entry_addr (osmap t) (of_nat i))" by (simp add: entry_addr_aligned)
  let ?s' = "s2\<lparr>mem := wr64 (mem s2) (entry_addr (osmap t) (of_nat i)) (osmap (ucast q) OR fl)\<rparr>"
  have eq: "install_ptable (osmap p) mm 0 0 s = (q, ?s')"
    using L(1) al or_flags [OF al3] unfolding i(2) by (simp add: install_ptable_def Let_def a(1) fl_def)
  note P = page_rooted [OF L(2) st L(6-8) i(1) L(9) [OF i(1)] al fl]
  show ?thesis
    by (rule that [OF eq P(1) _ P(2) same_kernel_trans [OF L(5) P(4)]]) (use P(3) L(3) in simp)
qed

text \<open>The loop of \<open>install_ptable_multi\<close> fills the slots from \<open>i\<close> on.\<close>

lemma multi_loop_rest:
  fixes s :: "'a kernel_scheme" and start l :: u64
  assumes "rooted B p u J s" "stock USER_REG (n + k) s" "(1, t) \<in> set (pt_frames (mem s) 4 p)" "t \<noteq> p" "t \<noteq> u"
    "i + n \<le> 512" "\<And>x. i \<le> x \<Longrightarrow> x < i + n \<Longrightarrow> entry_at (mem s) t x = 0"
  defines "s' \<equiv> ptable_multi_loop start 0 (entry_addr (osmap t) (of_nat i)) (Some l) n s"
  shows "rooted B p u J s' \<and> stock USER_REG k s' \<and> stock OS_PT_REG j s' = stock OS_PT_REG j s \<and> same_kernel s s'"
  using assms(1-7) unfolding s'_def
proof (induction n arbitrary: s i l)
  case (Suc n)
  obtain q s1 where al: "os_pfn_alloc USER_REG s = (q, s1)" by fastforce
  let ?s1 = "if l \<noteq> ucast q - 1 then printf ''BUG! PFN not in sequence\<newline>'' [] s1 else s1"
  let ?m = "\<lambda>s. s\<lparr>mem := wr64 (mem s) (entry_addr (osmap t) (of_nat i)) (osmap (ucast q) OR 5)\<rparr>"
  have fl: "drop_bit 12 (5 :: u64) = 0" "bit (5 :: u64) 0" by simp_all
  have st: "stock USER_REG (Suc (n + k)) s" using Suc.prems(2) by simp
  have i: "i < 512" "entry_at (mem s) t i = 0" using Suc.prems(6,7) by simp_all
  define w where "w = ?m s1"
  note P = page_rooted [OF Suc.prems(1) st Suc.prems(3-5) i al fl, folded w_def]
  have eq: "ptable_multi_loop start 0 (entry_addr (osmap t) (of_nat i)) (Some l) (Suc n) s =
      ptable_multi_loop start 0 (entry_addr (osmap t) (of_nat (Suc i))) (Some (ucast q)) n (?m ?s1)"
    using al by (simp add: osmap_def entry_addr_def algebra_simps)
  have m: "?m ?s1 = (if l \<noteq> ucast q - 1 then printf ''BUG! PFN not in sequence\<newline>'' [] w else w)" by (simp add: w_def)
  have z: "entry_at (mem (?m ?s1)) t x = 0" if "Suc i \<le> x" "x < Suc i + n" for x
    using P(6) [of x] Suc.prems(6,7) that by (simp add: m)
  have sk: "same_kernel s (?m ?s1)" using same_kernel_trans [OF P(4) same_kernel_printf] P(4) by (simp add: m)
  have K: "rooted B p u J (?m ?s1)" "stock USER_REG (n + k) (?m ?s1)" "(1, t) \<in> set (pt_frames (mem (?m ?s1)) 4 p)"
    "stock OS_PT_REG j (?m ?s1) = stock OS_PT_REG j s" using P(1-3,5) by (simp_all add: m)
  have i2: "Suc i + n \<le> 512" using Suc.prems(6) by simp
  note IH = Suc.IH [OF K(1-3) Suc.prems(4,5) i2 z, of "ucast q"]
  then show ?case unfolding eq K(4) using same_kernel_trans [OF sk] by blast
qed simp

lemma install_ptable_multi_rooted:
  fixes s :: "'a kernel_scheme"
  assumes r: "rooted B p u J s" "stock OS_PT_REG (Suc (Suc n)) s" "stock USER_REG (Suc c + k) s"
    and a: "pgd_index a = 0" "pud_index a = of_nat j" "j \<in> set (table_slots 3)" "j \<notin> J"
    and c: "unat (pte_index a) + Suc c \<le> 512"
  obtains q s' where "install_ptable_multi (osmap p) a (Suc c) 0 s = (q, s')" "rooted B p u (insert j J) s'"
    "stock OS_PT_REG n s'" "stock USER_REG k s'" "same_kernel s s'"
    "own_page USER_REG (ucast q)"
proof -
  obtain t s1 where L: "ptable_levels (osmap p) a s = (entry_addr (osmap t) (pte_index a), s1)"
    "rooted B p u (insert j J) s1" "stock OS_PT_REG n s1" "\<And>n. stock USER_REG n s1 = stock USER_REG n s" "same_kernel s s1"
    "(1, t) \<in> set (pt_frames (mem s1) 4 p)" "t \<noteq> p" "t \<noteq> u" "\<And>i. i < 512 \<Longrightarrow> entry_at (mem s1) t i = 0"
    by (rule ptable_levels_rooted [OF r(1,2) a], rule that; assumption)
  obtain q s2 where al: "os_pfn_alloc USER_REG s1 = (q, s2)" by fastforce
  define i where "i = unat (pte_index a)"
  have i: "i < 512" "pte_index a = of_nat i" by (simp_all add: i_def)
  have fl: "drop_bit 12 (5 :: u64) = 0" "bit (5 :: u64) 0" by simp_all
  have st: "stock USER_REG (Suc (c + k)) s1" using L(4) r(3) by simp
  define w where "w = s2\<lparr>mem := wr64 (mem s2) (entry_addr (osmap t) (of_nat i)) (osmap (ucast q) OR 5)\<rparr>"
  note P = page_rooted [OF L(2) st L(6-8) i(1) L(9) [OF i(1)] al fl, folded w_def]
  have z: "entry_at (mem w) t x = 0" if "Suc i \<le> x" "x < Suc i + c" for x
    using P(6) [of x] L(9) that c by (simp add: i_def)
  have eq: "install_ptable_multi (osmap p) a (Suc c) 0 s =
      (q, ptable_multi_loop (ucast q) 0 (entry_addr (osmap t) (of_nat (Suc i))) (Some (ucast q)) c w)"
    using L(1) al unfolding i(2) by (simp add: install_ptable_multi_def w_def osmap_def entry_addr_def algebra_simps)
  have "Suc i + c \<le> 512" using c by (simp add: i_def)
  note rest = multi_loop_rest [OF P(1,2,5) L(7,8) this z, of "ucast q" "ucast q"]
  have "own_page USER_REG (ucast q)"
    by (rule alloc_own_page [OF buildsD(1) [OF rootedD(1) [OF L(2)]] stock_can(1) [OF st] al])
  then show ?thesis using rest that [OF eq] P(3) L(3) same_kernel_trans [OF same_kernel_trans [OF L(5) P(4)]] by blast
qed

end
