(* ===== verification/Table_Copy.thy ===== *)
theory Table_Copy
  imports Space_Build
begin

text \<open>
  \<open>install_ptable\<close> in terms of user mappings: it keeps the tree of tables well formed, changes the
  mapping of one page, takes frames that were not in use and leaves the memory of every other frame in
  use alone. \<open>plain\<close> describes trees in which every entry of an inner table is empty or leads to a
  table for user mode; a tree that only \<open>install_ptable\<close> has built is of this kind.
\<close>

subsection \<open>Trees without kernel entries\<close>

definition plain_entry :: "u64 \<Rightarrow> bool" where
  "plain_entry e \<longleftrightarrow> e = 0 \<or> user_entry e \<and> unat (drop_bit 12 e) < 131072"

definition plain :: "memory \<Rightarrow> u64 \<Rightarrow> bool" where
  "plain m b \<longleftrightarrow> (\<forall>p t i. path_ok p \<longrightarrow> length p \<le> 2 \<longrightarrow> table_at m b p = Some t \<longrightarrow> unat i < 512 \<longrightarrow>
     plain_entry (rd64 m (entry_addr t i)))"

lemma plainD:
  "\<lbrakk>plain m b; path_ok p; length p \<le> 2; table_at m b p = Some t; unat i < 512\<rbrakk> \<Longrightarrow> plain_entry (rd64 m (entry_addr t i))"
  unfolding plain_def by blast

lemma plain_entry_facts:
  assumes "plain_entry e"
  shows "e \<noteq> 0 \<longleftrightarrow> user_entry e" "e AND 1 \<noteq> 0 \<longleftrightarrow> user_entry e" "user_entry e \<Longrightarrow> e AND FLAG_MASK = tab_of e"
    "user_entry e \<Longrightarrow> push_bit 12 (drop_bit 12 e) = tab_of e"
  using assms masked_entry [of e] by (auto simp: plain_entry_def tab_of_def user_entry_def)

lemma live_small: "f \<in> live s \<Longrightarrow> unat f < 131072"
proof -
  assume "f \<in> live s"
  then obtain r k where "k < region_pages r" "f = page_frame r k" by (auto simp: live_def taken_def)
  then show ?thesis using unat_page_frame [of k r] region_bounds(3) [of r] by simp
qed

lemma plain_new:
  assumes "frame_of fl = 0" "bit fl 0" "bit fl 2" "ucast f \<in> live s"
  shows "plain_entry (osmap (ucast (f :: u32)) OR fl)"
  using user_entry_osmap [OF assms(2,3)] entry_value(1) [OF live_small [OF assms(4)] assms(1,2)] live_small [OF assms(4)]
  by (simp add: plain_entry_def)

lemma plain_cong:
  assumes "tree_inv m b fr" "\<And>a. frame_of a \<in> fr \<Longrightarrow> m' a = m a" "plain m b"
  shows "plain m' b"
  unfolding plain_def
proof (intro allI impI)
  fix p t and i :: u64 assume p: "path_ok p" "length p \<le> 2" "table_at m' b p = Some t" "unat i < 512"
  then have p3: "length p \<le> 3" by simp
  then have t: "table_at m b p = Some t" using table_at_cong [OF assms(1,2), of p] p by simp
  have "rd64 m' (entry_addr t i) = rd64 m (entry_addr t i)"
    using tree_entry_frame [OF assms(1) p(1) p3 t p(4)] assms(2) by (intro rd64_cong [where n = 12]) auto
  then show "plain_entry (rd64 m' (entry_addr t i))" using plainD [OF assms(3) p(1,2) t p(4)] by simp
qed

lemma hooked_tables:
  fixes s :: "'a kernel_scheme"
  assumes tree: "tree_inv (mem s) b (live s)"
    and p: "path_ok p" "length p \<le> 2" "table_at (mem s) b p = Some t" "unat i < 512"
    and h: "hooked (entry_addr t i) fl f s s'" and fl: "frame_of fl = 0" "bit fl 0" "bit fl 2"
    and q: "path_ok q" "length q \<le> 3" "table_at (mem s') b q = Some u"
  shows "q = p @ [i] \<and> u = osmap (ucast f) \<or> table_at (mem s) b q = Some u"
proof -
  have p3: "length p \<le> 3" using p(2) by simp
  note ea = tree_entry_frame [OF tree p(1) p3 p(3,4)] and H = hookedD [OF h]
  note v = hooked_entry(2,3) [OF h ea(1,2) fl]
  have "table_at (mem s') b q =
    (if q = p @ [i] then Some (osmap (ucast f)) else if \<exists>r. q = p @ [i] @ r then None else table_at (mem s) b q)"
    by (rule hook_table_at [OF tree p H(1) v H(2,4,5) q(1,2)])
  then show ?thesis using q(3) by (auto split: if_splits)
qed

lemma hooked_plain:
  fixes s :: "'a kernel_scheme"
  assumes tree: "tree_inv (mem s) b (live s)" and pl: "plain (mem s) b"
    and p: "path_ok p" "length p \<le> 2" "table_at (mem s) b p = Some t" "unat i < 512"
    and h: "hooked (entry_addr t i) fl f s s'" and fl: "frame_of fl = 0" "bit fl 0" "bit fl 2"
  shows "plain (mem s') b"
  unfolding plain_def
proof (intro allI impI)
  fix q u and j :: u64 assume q: "path_ok q" "length q \<le> 2" "table_at (mem s') b q = Some u" and j: "unat j < 512"
  have p3: "length p \<le> 3" "length q \<le> 3" using p(2) q(2) by simp_all
  note ea = tree_entry_frame [OF tree p(1) p3(1) p(3,4)] and H = hookedD [OF h]
  from hooked_tables [OF tree p h fl q(1) p3(2) q(3)]
  show "plain_entry (rd64 (mem s') (entry_addr u j))"
  proof
    assume "q = p @ [i] \<and> u = osmap (ucast f)"
    then show ?thesis using zero_table [OF H(4) j] by (simp add: plain_entry_def)
  next
    assume u: "table_at (mem s) b q = Some u"
    note eu = tree_entry_frame [OF tree q(1) p3(2) u j]
    have e: "rd64 (mem s') (entry_addr u j) = rd64 (wr64 (mem s) (entry_addr t i) (osmap (ucast f) OR fl)) (entry_addr u j)"
      by (rule rd64_cong [OF eu(1), of 12]) (use eu H(5) in auto)
    show ?thesis
    proof (cases "entry_addr u j = entry_addr t i")
      case True
      then show ?thesis using hooked_entry(1) [OF h ea(1,2) fl] plain_new [OF fl H(3)] by simp
    next
      case False
      then show ?thesis using e rd64_wr64_other [OF ea(1) eu(1)] plainD [OF pl q(1,2) u j] by simp
    qed
  qed
qed

subsection \<open>\<open>ptable_levels\<close>\<close>

text \<open>Every path that is new is a prefix of the path of the address.\<close>

definition only_along :: "u64 list \<Rightarrow> memory \<Rightarrow> memory \<Rightarrow> u64 \<Rightarrow> bool" where
  "only_along p m m' b \<longleftrightarrow> (\<forall>q u. path_ok q \<longrightarrow> length q \<le> 3 \<longrightarrow> table_at m' b q = Some u \<longrightarrow>
     table_at m b q = Some u \<or> (\<exists>r. p = q @ r))"

lemma only_along_refl [simp]: "only_along p m m b"
  by (simp add: only_along_def)

lemma only_along_trans: "only_along p m m1 b \<Longrightarrow> only_along p m1 m2 b \<Longrightarrow> only_along p m m2 b"
  unfolding only_along_def by blast

lemma user_flags: "frame_of (7 :: u64) = 0" "bit (7 :: u64) 0" "bit (7 :: u64) 2"
proof -
  have "bit (7 :: u64) n \<longleftrightarrow> n < 3" for n
    using bit_mask_iff [of 3 n, where ?'a = "64 word"] by (simp add: mask_eq_exp_minus_1 numeral_3_eq_3) linarith
  then show "bit (7 :: u64) 0" "bit (7 :: u64) 2" by simp_all
qed simp

lemma ptable_level_step:
  fixes s :: "'a kernel_scheme"
  assumes inv: "mm_inv s" "tree_inv (mem s) b (live s)" "plain (mem s) b" "stock OS_PT_REG (Suc n) s"
    and p: "path_ok p" "length p \<le> 2" "table_at (mem s) b p = Some t" "unat i < 512"
    and eq: "ptable_level t i s = (t', s')"
  shows "grown b s s'" "stock OS_PT_REG n s'" "table_at (mem s') b (p @ [i]) = Some t'" "plain (mem s') b"
    "only_along (p @ i # q) (mem s) (mem s') b"
proof -
  note e = plain_entry_facts(1,3) [OF plainD [OF inv(3) p]]
  note T = table_level_step [OF inv(1,2,4) p user_flags clears_simps(2) e eq [unfolded ptable_level_def]]
  show "grown b s s'" "stock OS_PT_REG n s'" "table_at (mem s') b (p @ [i]) = Some t'" using T(1-3) by blast+
  from T(4) have "plain (mem s') b \<and> only_along (p @ i # q) (mem s) (mem s') b"
  proof
    assume "s' = s"
    then show ?thesis using inv(3) only_along_refl by metis
  next
    assume "\<exists>f. t' = osmap (ucast f) \<and> hooked (entry_addr t i) 7 f s s'"
    then obtain f where f: "hooked (entry_addr t i) 7 f s s'" by blast
    show ?thesis
      using hooked_plain [OF inv(2,3) p f user_flags] hooked_tables [OF inv(2) p f user_flags]
      unfolding only_along_def by fastforce
  qed
  then show "plain (mem s') b" "only_along (p @ i # q) (mem s) (mem s') b" by blast+
qed

lemma ptable_levels_step:
  fixes s :: "'a kernel_scheme"
  assumes inv: "mm_inv s" "tree_inv (mem s) b (live s)" "plain (mem s) b" "stock OS_PT_REG (3 + n) s"
    and eq: "ptable_levels b a s = (ptep, s')"
  obtains t where "ptep = entry_addr t (pte_index a)" "table_at (mem s') b (upath a) = Some t"
    "grown b s s'" "stock OS_PT_REG n s'" "plain (mem s') b" "only_along (upath a) (mem s) (mem s') b"
proof -
  obtain b1 s1 where l1: "ptable_level b (pgd_index a) s = (b1, s1)" by fastforce
  obtain b2 s2 where l2: "ptable_level b1 (pud_index a) s1 = (b2, s2)" by fastforce
  obtain b3 s3 where l3: "ptable_level b2 (pmd_index a) s2 = (b3, s3)" by fastforce
  have st: "stock OS_PT_REG (Suc (Suc (Suc n))) s" using inv(4) by (simp add: eval_nat_numeral)
  have F1: "grown b s s1" "stock OS_PT_REG (Suc (Suc n)) s1" "table_at (mem s1) b ([] @ [pgd_index a]) = Some b1"
      "plain (mem s1) b" "only_along (upath a) (mem s) (mem s1) b"
    using ptable_level_step(1-4) [OF inv(1-3) st _ _ _ _ l1, where p = "[]"]
      ptable_level_step(5) [OF inv(1-3) st _ _ _ _ l1, where p = "[]" and q = "[pud_index a, pmd_index a]"] by (simp_all add: upath_def)
  then have i1: "mm_inv s1" "tree_inv (mem s1) b (live s1)" by (simp_all add: grown_def)
  have F2: "grown b s1 s2" "stock OS_PT_REG (Suc n) s2" "table_at (mem s2) b ([pgd_index a] @ [pud_index a]) = Some b2"
      "plain (mem s2) b" "only_along (upath a) (mem s1) (mem s2) b"
    using ptable_level_step(1-4) [OF i1 F1(4,2) _ _ _ _ l2, where p = "[pgd_index a]"]
      ptable_level_step(5) [OF i1 F1(4,2) _ _ _ _ l2, where p = "[pgd_index a]" and q = "[pmd_index a]"] F1(3) by (simp_all add: upath_def)
  then have i2: "mm_inv s2" "tree_inv (mem s2) b (live s2)" by (simp_all add: grown_def)
  have F3: "grown b s2 s3" "stock OS_PT_REG n s3" "table_at (mem s3) b ([pgd_index a, pud_index a] @ [pmd_index a]) = Some b3"
      "plain (mem s3) b" "only_along (upath a) (mem s2) (mem s3) b"
    using ptable_level_step(1-4) [OF i2 F2(4,2) _ _ _ _ l3, where p = "[pgd_index a, pud_index a]"]
      ptable_level_step(5) [OF i2 F2(4,2) _ _ _ _ l3, where p = "[pgd_index a, pud_index a]" and q = "[]"] F2(3) by (simp_all add: upath_def)
  have "ptep = entry_addr b3 (pte_index a)" "s' = s3" using eq l1 l2 l3 by (auto simp: ptable_levels_def)
  then show ?thesis
    using that F3(2,3,4) grown_trans [OF F1(1) grown_trans [OF F2(1) F3(1)]]
      only_along_trans [OF F1(5) only_along_trans [OF F2(5) F3(5)]] by (simp add: upath_def)
qed

subsection \<open>\<open>install_ptable\<close>\<close>

definition seg_flags :: "mm_segment \<Rightarrow> u64" where
  "seg_flags mm = (if access_flags mm AND MM_WR \<noteq> 0 then 7 else 5)"

lemma user_entry_flags: "user_entry (osmap f OR seg_flags mm)"
proof -
  have "bit (5 :: u64) 0" "bit (5 :: u64) 2" using ac_flags(2,3) [of 0] by simp_all
  then show ?thesis using user_entry_osmap [OF user_flags(2,3)] user_entry_osmap by (simp add: seg_flags_def)
qed

lemma entry_writes:
  fixes f :: u64
  assumes "aligned 3 ea"
  shows "(if access_flags mm AND MM_WR \<noteq> 0 then wr64 (wr64 m ea (osmap f OR 5)) ea (rd64 (wr64 m ea (osmap f OR 5)) ea OR 2)
     else wr64 m ea (osmap f OR 5)) = wr64 m ea (osmap f OR seg_flags mm)"
proof -
  have "(osmap f OR 5) OR 2 = osmap f OR 7" by (simp add: or.assoc)
  then show ?thesis using assms by (simp add: seg_flags_def)
qed

text \<open>A step of an installation below \<open>b\<close>.\<close>

definition installs :: "u64 \<Rightarrow> 'a page_state_scheme \<Rightarrow> 'a page_state_scheme \<Rightarrow> bool" where
  "installs b s s' \<longleftrightarrow> mm_inv s' \<and> tree_inv (mem s') b (live s') \<and> plain (mem s') b \<and> live s \<subseteq> live s' \<and>
     live s \<inter> tables (mem s') b \<subseteq> tables (mem s) b \<and>
     (\<forall>x. frame_of x \<in> live s - tables (mem s) b \<longrightarrow> mem s' x = mem s x)"

lemma installsD:
  assumes "installs b s s'"
  shows "mm_inv s'" "tree_inv (mem s') b (live s')" "plain (mem s') b" "live s \<subseteq> live s'"
    "live s \<inter> tables (mem s') b \<subseteq> tables (mem s) b"
    "\<And>x. frame_of x \<in> live s - tables (mem s) b \<Longrightarrow> mem s' x = mem s x"
  using assms by (simp_all add: installs_def)

text \<open>The page of the last level: a given frame, or a new one.\<close>

lemma page_alloc_step:
  fixes s :: "'a kernel_scheme"
  assumes inv: "mm_inv s" "tree_inv (mem s) (root ch) (live s)" "plain (mem s) (root ch)"
      "stock USER_REG ((if u = 0 then 1 else 0) + k) s"
    and eq: "(if u = 0 then os_pfn_alloc USER_REG s else (u, s)) = (q, s')"
  shows "installs (root ch) s s'" "stock USER_REG k s'" "stock OS_PT_REG n s' = stock OS_PT_REG n s"
    "user_map (mem s') ch x = user_map (mem s) ch x"
    "path_ok p \<Longrightarrow> length p \<le> 3 \<Longrightarrow> table_at (mem s') (root ch) p = table_at (mem s) (root ch) p"
    "tables (mem s') (root ch) = tables (mem s) (root ch)"
    "u \<noteq> 0 \<Longrightarrow> q = u" "u = 0 \<Longrightarrow> own_page USER_REG (ucast q) \<and> ucast q \<notin> taken s \<and> ucast q \<in> live s' - tables (mem s') (root ch)"
proof -
  have "installs (root ch) s s' \<and> stock USER_REG k s' \<and> (\<forall>n. stock OS_PT_REG n s' = stock OS_PT_REG n s) \<and>
    (\<forall>x. user_map (mem s') ch x = user_map (mem s) ch x) \<and>
    (\<forall>p. path_ok p \<longrightarrow> length p \<le> 3 \<longrightarrow> table_at (mem s') (root ch) p = table_at (mem s) (root ch) p) \<and>
    tables (mem s') (root ch) = tables (mem s) (root ch) \<and> (u \<noteq> 0 \<longrightarrow> q = u) \<and>
    (u = 0 \<longrightarrow> own_page USER_REG (ucast q) \<and> ucast q \<notin> taken s \<and> ucast q \<in> live s' - tables (mem s') (root ch))"
  proof (cases "u = 0")
    case True
    then have al: "os_pfn_alloc USER_REG s = (q, s')" and st: "stock USER_REG (Suc k) s" using eq inv(4) by simp_all
    note can = stock_can(1) [OF st]
    note A = page_pool.alloc_inv [OF inv(1) can al] page_pool.alloc_fresh [OF inv(1) can al]
      page_pool.alloc_used [OF inv(1) can al] page_pool.alloc_not_own [OF inv(1) can al]
    have keep: "mem s' x = mem s x" if "frame_of x \<in> live s" for x
      using page_pool.alloc_keeps [OF inv(1) can al] that by (auto simp: live_def)
    have lv: "live s' = insert (ucast q) (live s)" using A(3,4) by (auto simp: live_def)
    have T: "tree_inv (mem s') (root ch) (live s')" by (rule tree_inv_cong [OF inv(2)]) (use keep lv in auto)
    have tab: "tables (mem s') (root ch) = tables (mem s) (root ch)" by (rule tables_cong [OF inv(2) keep])
    have "tables (mem s) (root ch) \<subseteq> live s" using inv(2) unfolding tree_inv_def tables_def by blast
    then have "ucast q \<notin> tables (mem s) (root ch)" using A(2) by (auto simp: live_def)
    moreover have "user_map (mem s') ch x = user_map (mem s) ch x" for x
      using user_map_leaf [OF T, of x] user_map_leaf [OF inv(2), of x]
        leaf_at_cong [OF inv(2), of "mem s'" "upath x" "pte_index x"] keep by simp
    moreover have "plain (mem s') (root ch)" by (rule plain_cong [OF inv(2) keep inv(3)])
    ultimately show ?thesis
      using A T tab lv keep True alloc_own_page [OF inv(1) can al] stock_alloc [OF inv(1) st al] stock_other [OF inv(1) can al]
        table_at_cong [OF inv(2) keep] by (auto simp: installs_def)
  next
    case False
    then show ?thesis using eq inv by (auto simp: installs_def)
  qed
  then show "installs (root ch) s s'" "stock USER_REG k s'" "stock OS_PT_REG n s' = stock OS_PT_REG n s"
    "user_map (mem s') ch x = user_map (mem s) ch x"
    "path_ok p \<Longrightarrow> length p \<le> 3 \<Longrightarrow> table_at (mem s') (root ch) p = table_at (mem s) (root ch) p"
    "tables (mem s') (root ch) = tables (mem s) (root ch)"
    "u \<noteq> 0 \<Longrightarrow> q = u" "u = 0 \<Longrightarrow> own_page USER_REG (ucast q) \<and> ucast q \<notin> taken s \<and> ucast q \<in> live s' - tables (mem s') (root ch)"
    by blast+
qed

lemma installs_trans:
  assumes "installs b s s'" "installs b s' s''"
  shows "installs b s s''"
proof -
  note A = installsD [OF assms(1)] and B = installsD [OF assms(2)]
  have "mem s'' x = mem s x" if "frame_of x \<in> live s - tables (mem s) b" for x
  proof -
    have "frame_of x \<in> live s' - tables (mem s') b" using that A(4,5) by blast
    then show ?thesis using A(6) [OF that] B(6) by simp
  qed
  then show ?thesis using A(4,5) B(1-5) unfolding installs_def by auto
qed

text \<open>The write of the last-level entry.\<close>

lemma leaf_plain:
  fixes s :: "'a kernel_scheme"
  assumes inv: "tree_inv (mem s) b (live s)" "plain (mem s) b" and t: "table_at (mem s) b (upath a) = Some t"
  shows "plain (wr64 (mem s) (entry_addr t (pte_index a)) e) b"
  unfolding plain_def
proof (intro allI impI)
  let ?m = "wr64 (mem s) (entry_addr t (pte_index a)) e"
  have l: "length (upath a) \<le> 3" by simp
  note W = leaf_write(2) [OF inv(1) upath_ok t index_less(4), of ?m, OF refl]
  note ea = tree_entry_frame [OF inv(1) upath_ok(1) l t index_less(4)]
  fix p u and i :: u64 assume p: "path_ok p" "length p \<le> 2" "table_at ?m b p = Some u" "unat i < 512"
  then have p3: "length p \<le> 3" and u: "table_at (mem s) b p = Some u" using W by simp_all
  have "entry_addr u i \<noteq> entry_addr t (pte_index a)"
    using tree_entry_inj [OF inv(1) upath_ok(1) l t index_less(4) p(1) p3 u p(4)] p(2) by auto
  then have "rd64 ?m (entry_addr u i) = rd64 (mem s) (entry_addr u i)"
    using rd64_wr64_other [OF ea(1) tree_entry_frame(1) [OF inv(1) p(1) p3 u p(4)]] by metis
  then show "plain_entry (rd64 ?m (entry_addr u i))" using plainD [OF inv(2) p(1,2) u p(4)] by simp
qed

lemma install_ptable_step:
  fixes s :: "'a kernel_scheme"
  assumes inv: "mm_inv s" "tree_inv (mem s) (root ch) (live s)" "plain (mem s) (root ch)"
      "stock OS_PT_REG (3 + n) s" "stock USER_REG ((if u = 0 then 1 else 0) + k) s"
    and a: "a \<noteq> 0" and eq: "install_ptable (root ch) mm a u s = (q, s')"
  shows "installs (root ch) s s'" "stock OS_PT_REG n s'" "stock USER_REG k s'"
    "user_map (mem s') ch x = (if page_of x = page_of a then Some (osmap (ucast q) OR seg_flags mm) else user_map (mem s) ch x)"
    "only_along (upath a) (mem s) (mem s') (root ch)" "u \<noteq> 0 \<Longrightarrow> q = u"
    "u = 0 \<Longrightarrow> own_page USER_REG (ucast q) \<and> ucast q \<notin> live s \<and> ucast q \<in> live s' - tables (mem s') (root ch)"
proof -
  obtain ptep s1 where l: "ptable_levels (root ch) a s = (ptep, s1)" by fastforce
  obtain t where L: "ptep = entry_addr t (pte_index a)" "table_at (mem s1) (root ch) (upath a) = Some t"
    "grown (root ch) s s1" "stock OS_PT_REG n s1" "plain (mem s1) (root ch)" "only_along (upath a) (mem s) (mem s1) (root ch)"
    by (rule ptable_levels_step [OF inv(1-4) l])
  have i1: "mm_inv s1" "tree_inv (mem s1) (root ch) (live s1)" using L(3) by (simp_all add: grown_def)
  have in1: "installs (root ch) s s1" using L(3,5) by (simp add: grown_def installs_def)
  have st1: "stock USER_REG ((if u = 0 then 1 else 0) + k) s1" using L(3) inv(5) by (simp add: grown_def)
  obtain s2 where al: "(if u = 0 then os_pfn_alloc USER_REG s1 else (u, s1)) = (q, s2)"
    and s': "s' = s2\<lparr>mem := wr64 (mem s2) ptep (osmap (ucast q) OR seg_flags mm)\<rparr>"
  proof -
    have "aligned 3 ptep" using tree_entry_frame(1) [OF i1(2) upath_ok(1) _ L(2) index_less(4)] L(1) by simp
    note E = entry_writes [OF this]
    show thesis
      using eq a l that by (cases "if u = 0 then os_pfn_alloc USER_REG s1 else (u, s1)") (auto simp: install_ptable_def Let_def E)
  qed
  note P = page_alloc_step [OF i1 L(5) st1 al]
  note i2 = installsD [OF P(1)]
  have t2: "table_at (mem s2) (root ch) (upath a) = Some t" using P(5) [OF upath_ok(1)] L(2) by simp
  note W = leaf_update [OF i2(1,2) t2, where e = "osmap (ucast q) OR seg_flags mm", folded L(1), folded s']
  have "plain (mem s') (root ch)" using leaf_plain [OF i2(2,3) t2] by (simp add: s' L(1))
  then have "installs (root ch) s2 s'" using W(1,2,5,8) by (auto simp: installs_def space_inv_def)
  then show "installs (root ch) s s'" using installs_trans [OF in1 installs_trans [OF P(1)]] by blast
  have um: "user_map (mem s2) ch x = user_map (mem s) ch x" for x
    using P(4) user_map_leaf [OF i1(2), of x] user_map_leaf [OF inv(2), of x] L(3) by (simp add: grown_def)
  show "user_map (mem s') ch x = (if page_of x = page_of a then Some (osmap (ucast q) OR seg_flags mm) else user_map (mem s) ch x)"
    using W(4) [of x] um user_entry_flags by simp
  show "stock OS_PT_REG n s'" "stock USER_REG k s'" using W(7) P(2,3) L(4) by simp_all
  have "table_at (mem s') (root ch) p = table_at (mem s2) (root ch) p" if "path_ok p" "length p \<le> 3" for p
    using leaf_write(2) [OF i2(2) upath_ok t2 index_less(4) _ that, of "mem s'"] by (simp add: s' L(1))
  then show "only_along (upath a) (mem s) (mem s') (root ch)" using L(6) P(5) unfolding only_along_def by simp
  show "u \<noteq> 0 \<Longrightarrow> q = u" by (rule P(7))
  show "own_page USER_REG (ucast q) \<and> ucast q \<notin> live s \<and> ucast q \<in> live s' - tables (mem s') (root ch)" if "u = 0"
    using P(6,8) that W(2,8) installsD(4) [OF in1] by (auto simp: live_def)
qed

end
