(* ===== verification/Segments.thy ===== *)
theory Segments
  imports Fairness
begin

text \<open>
  The segments of user contexts. Only \<open>create_context\<close>, \<open>exec_init\<close>, \<open>do_fork\<close>, \<open>do_clone\<close>,
  \<open>do_expand\<close> and \<open>do_shrink\<close> touch them; every reachable user context keeps the layout of
  \<open>include/context.h\<close>, with \<open>next_free\<close> page-aligned between the bounds of its segment. On that
  layout \<open>do_expand\<close> and \<open>do_shrink\<close> cannot overflow, and the page-fault handler only ever maps
  pages that lie inside a segment.
\<close>

subsection \<open>Who touches the segments\<close>

definition layouts :: "'a kernel_scheme \<Rightarrow> (u8 \<times> (mm_seg \<Rightarrow> mm_segment)) list" where
  "layouts s = map (\<lambda>ctx. (ctx_type ctx, mms ctx)) (ctx_list s)"

lemma length_layouts [simp]: "length (layouts s) = length (ctx_list s)"
  by (simp add: layouts_def)

lemma layouts_same: "procs s' = procs s \<Longrightarrow> layouts s' = layouts s"
  by (simp add: layouts_def)

lemma layouts_fields [simp, frame_simps]:
  "layouts (printf f as s) = layouts s" "layouts (s\<lparr>mem := m\<rparr>) = layouts s" "layouts (s\<lparr>stats := t\<rparr>) = layouts s"
  "layouts (s\<lparr>cr3 := x\<rparr>) = layouts s" "layouts (s\<lparr>current := k\<rparr>) = layouts s" "layouts (s\<lparr>config := g\<rparr>) = layouts s"
  "layouts (set_tss_stack_ptr c s) = layouts s" "layouts (set_current_ctx k s) = layouts s"
  "layouts (os_pfn_free r p s) = layouts s" "layouts (snd (os_pfn_alloc r s)) = layouts s"
  "layouts (ack_irq s) = layouts s" "layouts (install_page_table ctx a e s) = layouts s"
  "layouts (snd (install_ptable_multi b st n w s)) = layouts s" "layouts (snd (install_ptable b mm a u s)) = layouts s"
  "layouts (snd (install_os_pts q s)) = layouts s"
  by (simp_all add: layouts_def set_tss_stack_ptr_def set_current_ctx_def)

lemma layouts_upd:
  assumes "\<And>ctx. ctx_type (f ctx) = ctx_type ctx" "\<And>ctx. mms (f ctx) = mms ctx"
  shows "layouts (upd_ctx c f s) = layouts s"
proof -
  have "map g ((ctx_list s)[c := f (ctx_list s ! c)]) = map g (ctx_list s)" if "\<And>ctx. g (f ctx) = g ctx" for g :: "exec_context \<Rightarrow> u8 \<times> (mm_seg \<Rightarrow> mm_segment)"
    by (cases "c < length (ctx_list s)") (simp_all add: map_update that list_update_beyond list_update_same_conv)
  then show ?thesis by (simp add: layouts_def upd_ctx_def assms)
qed

lemma pick_loop_keeps: "pick_loop k p q s = Inr (n, s') \<Longrightarrow> procs s' = procs s"
proof (induction k p q s rule: pick_loop.induct)
  case (2 fuel p q s)
  then show ?case
    by (simp add: get_ctx_by_pid_def pick_loop.simps split: if_splits)
qed simp

lemma layouts_switch_from: "switch_from c s = Inr (fl, s') \<Longrightarrow> layouts s' = layouts s"
  by (auto simp: switch_from_def pick_next_context_def schedule_def Let_def layouts_upd
      split: sum.splits dest!: pick_loop_keeps layouts_same)

lemma layouts_do_cleanup: "do_cleanup s = Inr (fl, s') \<Longrightarrow> layouts s' = layouts s"
  by (auto simp: do_cleanup_def Let_def result_simps layouts_upd split: option.splits
      dest!: pt_cleanup_keeps(1) remove_apic_keeps layouts_same)

lemma layouts_do_exit: "do_exit s = Inr (fl, s') \<Longrightarrow> layouts s' = layouts s"
  by (auto simp: do_exit_def Let_def result_simps layouts_upd split: option.splits if_splits
      dest!: layouts_switch_from layouts_do_cleanup)

lemma layouts_do_sleep: "do_sleep n s = Inr (fl, s') \<Longrightarrow> layouts s' = layouts s"
  by (auto simp: do_sleep_def layouts_upd split: option.splits dest!: layouts_switch_from)

lemma layouts_signal: "invoke_sync_signal mmu sg rsp rip s = Inr (fl, s') \<Longrightarrow> layouts s' = layouts s"
  by (auto simp: invoke_sync_signal_def Let_def result_simps split: option.splits if_splits
      dest!: layouts_do_exit user_write_keeps layouts_same)

lemma layouts_raise: "raise_signal mmu sg rg s = Inr (fl, s') \<Longrightarrow> layouts s' = layouts s"
  by (auto simp: raise_signal_def result_simps dest!: layouts_signal)

lemma layouts_sleep_account [simp]: "layouts (sleep_account s) = layouts s"
  by (simp add: layouts_def sleep_account_def sleep_tick_def)

lemma layouts_account:
  "do_sleep_and_alarm_account mmu rg s = Inr (fl, s') \<Longrightarrow> layouts s' = layouts s"
  by (auto simp: do_sleep_and_alarm_account_def Let_def result_simps layouts_upd split: option.splits if_splits
      dest!: layouts_signal)

lemma layouts_preempt: "preempt c rg s = Inr (fl, s') \<Longrightarrow> layouts s' = layouts s"
  by (auto simp: preempt_def pick_next_context_def Let_def layouts_upd split: sum.splits if_splits
      dest!: pick_loop_keeps layouts_same)

lemma layouts_tick: "do_irq mmu rg s = Inr (fl, s') \<Longrightarrow> layouts s' = layouts s"
  by (auto simp: do_irq_def handle_timer_tick_def result_simps split: option.splits
      dest!: layouts_account layouts_preempt)

lemma layouts_faults:
  "do_div_by_zero mmu rg s = Inr (fl, s') \<Longrightarrow> layouts s' = layouts s"
  "do_page_fault mmu cr2 rg err s = Inr (fl, s') \<Longrightarrow> layouts s' = layouts s"
  "do_gp cr2 err rip s = Inr (fl', s') \<Longrightarrow> layouts s' = layouts s"
  by (auto simp: do_div_by_zero_def do_page_fault_def do_gp_def Let_def result_simps split: option.splits if_splits
      dest!: layouts_raise layouts_do_exit)

lemma layouts_small_calls:
  "do_write mmu ctx a k s = Inr (fl, s') \<Longrightarrow> layouts s' = layouts s"
  "do_alarm m s = Inr (fl, s') \<Longrightarrow> layouts s' = layouts s"
  "do_signal g h s = Inr (fl, s') \<Longrightarrow> layouts s' = layouts s"
  by (auto simp: do_write_def print_user_def do_alarm_def do_signal_def result_simps layouts_upd
      split: option.splits if_splits) (simp add: layouts_def)

subsection \<open>The layout of a user context\<close>

definition between :: "mm_segment \<Rightarrow> bool" where
  "between g \<longleftrightarrow> seg_start g \<le> next_free g \<and> next_free g \<le> seg_end g \<and> aligned 12 (next_free g)"

definition user_layout :: "(mm_seg \<Rightarrow> mm_segment) \<Rightarrow> bool" where
  "user_layout mm \<longleftrightarrow>
     mm MM_SEG_CODE = \<lparr>seg_start = CODE_START, seg_end = RODATA_START - 1, next_free = CODE_START + 0x8000,
       access_flags = MM_RD OR MM_EX\<rparr> \<and>
     seg_start (mm MM_SEG_RODATA) = RODATA_START \<and> seg_end (mm MM_SEG_RODATA) = DATA_START - 1 \<and>
     access_flags (mm MM_SEG_RODATA) = MM_RD \<and> between (mm MM_SEG_RODATA) \<and>
     seg_start (mm MM_SEG_DATA) = DATA_START \<and> seg_end (mm MM_SEG_DATA) = STACK_START - MAX_STACK_SIZE - 1 \<and>
     access_flags (mm MM_SEG_DATA) = MM_RD OR MM_WR \<and> between (mm MM_SEG_DATA) \<and>
     mm MM_SEG_STACK = \<lparr>seg_start = STACK_START - MAX_STACK_SIZE, seg_end = STACK_START,
       next_free = STACK_START - 4096, access_flags = MM_RD OR MM_WR\<rparr>"

definition user_spaces :: "'a kernel_scheme \<Rightarrow> bool" where
  "user_spaces s \<longleftrightarrow> (\<forall>(t, mm) \<in> set (layouts s). t = EXEC_CTX_USER \<longrightarrow> user_layout mm)"

lemma user_spaces_same: "layouts s' = layouts s \<Longrightarrow> user_spaces s' = user_spaces s"
  by (simp add: user_spaces_def)

lemma user_spaces_upd:
  assumes "user_spaces s" "layouts s' = (layouts s)[c := (t, mm)]" "t = EXEC_CTX_USER \<Longrightarrow> user_layout mm"
  shows "user_spaces s'"
  using assms set_update_subset_insert [of "layouts s" c "(t, mm)"] unfolding user_spaces_def by fastforce

lemma user_spacesD:
  assumes "user_spaces s" "c < length (ctx_list s)" "ctx_type (the_ctx s c) = EXEC_CTX_USER"
  shows "user_layout (mms (the_ctx s c))"
proof -
  have "(ctx_type (the_ctx s c), mms (the_ctx s c)) \<in> set (layouts s)"
    using assms(2) by (simp add: layouts_def the_ctx_def)
  then show ?thesis using assms(1,3) unfolding user_spaces_def by blast
qed

lemma layouts_upd_ctx:
  "c < length (ctx_list s) \<Longrightarrow>
    layouts (upd_ctx c f s) = (layouts s)[c := (ctx_type (f (the_ctx s c)), mms (f (the_ctx s c)))]"
  by (simp add: layouts_def upd_ctx_def the_ctx_def map_update)

lemma layouts_nth: "c < length (ctx_list s) \<Longrightarrow> layouts s ! c = (ctx_type (the_ctx s c), mms (the_ctx s c))"
  by (simp add: layouts_def the_ctx_def)

text \<open>\<open>size << PAGE_SHIFT\<close> for an accepted number of pages.\<close>

lemma unat_pages:
  "npages \<le> MAX_EXPAND_PAGES \<Longrightarrow> unat (push_bit PAGE_SHIFT npages) = 4096 * unat npages \<and> unat npages \<le> 1024"
  by (simp add: push_bit_eq_mult unat_word_ariths word_le_nat_alt)

lemma between_grow:
  assumes "between g" "unat (seg_end g) < 2 ^ 63" "npages \<le> MAX_EXPAND_PAGES"
    "\<not> next_free g + push_bit PAGE_SHIFT npages > seg_end g"
  shows "between (g\<lparr>next_free := next_free g + push_bit PAGE_SHIFT npages\<rparr>)"
    "unat (next_free g + push_bit PAGE_SHIFT npages) = unat (next_free g) + 4096 * unat npages"
proof -
  note p = unat_pages [OF assms(3)]
  have "unat (next_free g) \<le> unat (seg_end g)" using assms(1) by (simp add: between_def word_le_nat_alt)
  then show u: "unat (next_free g + push_bit PAGE_SHIFT npages) = unat (next_free g) + 4096 * unat npages"
    using p assms(2) by (subst unat_add_lem [THEN iffD1]) auto
  have "aligned 12 (next_free g + push_bit PAGE_SHIFT npages)"
    using assms(1) by (intro aligned_plus) (simp_all add: between_def)
  then show "between (g\<lparr>next_free := next_free g + push_bit PAGE_SHIFT npages\<rparr>)"
    using assms(1,4) u by (simp add: between_def word_le_nat_alt word_less_nat_alt)
qed

lemma between_cut:
  assumes "between g" "0x400000 \<le> seg_start g" "npages \<le> MAX_EXPAND_PAGES"
    "\<not> next_free g - push_bit PAGE_SHIFT npages < seg_start g"
  shows "between (g\<lparr>next_free := next_free g - push_bit PAGE_SHIFT npages\<rparr>)"
    "unat (next_free g - push_bit PAGE_SHIFT npages) = unat (next_free g) - 4096 * unat npages"
    "4096 * unat npages \<le> unat (next_free g)"
proof -
  note p = unat_pages [OF assms(3)]
  have "0x400000 \<le> unat (next_free g)"
    using assms(1,2) by (simp add: between_def word_le_nat_alt)
  then show l: "4096 * unat npages \<le> unat (next_free g)" using p by linarith
  then show u: "unat (next_free g - push_bit PAGE_SHIFT npages) = unat (next_free g) - 4096 * unat npages"
    using p by (simp add: unat_sub word_le_nat_alt)
  have "aligned 12 (next_free g + - push_bit PAGE_SHIFT npages)"
    using assms(1) by (intro aligned_plus) (simp_all add: between_def aligned_dvd push_bit_eq_mult)
  then show "between (g\<lparr>next_free := next_free g - push_bit PAGE_SHIFT npages\<rparr>)"
    using assms(1,4) u by (auto simp: between_def word_le_nat_alt word_less_nat_alt)
qed

subsection \<open>Every operation keeps the layout\<close>

lemma do_fork_layout:
  assumes "sched_inv s" "do_fork s = Inr (fl, s')"
  obtains n c where "current s = Some c" "n < MAX_PROCESSES" "c < MAX_PROCESSES"
    "layouts s' = (layouts s)[n := layouts s ! c]"
proof -
  obtain n s1 where g: "get_new_ctx s = (Some n, s1)"
    using assms(2) by (auto simp: do_fork_def split: prod.splits option.splits)
  note G = get_new_ctx_inv [OF g assms(1)] and D = sched_invD [OF assms(1)]
  obtain c where c: "current s = Some c"
    using assms(2) g G(3) by (auto simp: do_fork_def get_current_ctx_def split: option.splits)
  define s2 where "s2 = upd_ctx n (\<lambda>_. (the_ctx s1 c)\<lparr>pid := pid (the_ctx s1 n), ppid := pid (the_ctx s1 c)\<rparr>) s1"
  obtain s3 where s3: "copy_mm n c s2 = Inr s3" and s': "s' = setup_child_context n s3"
    using assms(2) g G(3) c by (auto simp: do_fork_def get_current_ctx_def Let_def result_simps s2_def)
  have l: "n < length (ctx_list s)" "c < length (ctx_list s)" using D(1) D(3) [OF c] G(1) by simp_all
  have "layouts s1 = layouts s" unfolding G(4) by (rule layouts_upd) simp_all
  moreover have "c \<noteq> n" using D(4) [OF c] G(2) by auto
  ultimately have "layouts s2 = (layouts s)[n := layouts s ! c]"
    using l by (simp add: s2_def layouts_upd_ctx G(4) the_ctx_upd layouts_nth)
  moreover have "layouts s3 = layouts s2"
    using copy_mm_procs [OF s3] layouts_upd [of "pgd_update _" n s2] by (auto simp: layouts_def upd_ctx_def)
  moreover have "layouts s' = layouts s3"
    by (simp add: s' setup_child_context_def Let_def split_beta layouts_upd)
  ultimately show ?thesis using that [OF c G(1)] D(3) [OF c] by simp
qed

lemma do_clone_layout:
  assumes "sched_inv s" "do_clone f u s = Inr (fl, s')"
  obtains n c where "current s = Some c" "n < MAX_PROCESSES" "c < MAX_PROCESSES"
    "layouts s' = (layouts s)[n := layouts s ! c]"
proof -
  obtain n s1 where g: "get_new_ctx s = (Some n, s1)"
    using assms(2) by (auto simp: do_clone_def split: prod.splits option.splits)
  note G = get_new_ctx_inv [OF g assms(1)] and D = sched_invD [OF assms(1)]
  obtain c where c: "current s = Some c"
    using assms(2) g G(3) by (auto simp: do_clone_def get_current_ctx_def split: option.splits)
  have l: "n < length (ctx_list s)" "c < length (ctx_list s)" using D(1) D(3) [OF c] G(1) by simp_all
  obtain st where s': "s' = upd_ctx n (clone_ctx f u st (the_ctx s1 c)) (snd (os_pfn_alloc OS_PT_REG s1))"
    using assms(2) g G(3) c by (auto simp: do_clone_def get_current_ctx_def Let_def split_beta split: if_splits)
  have "layouts s1 = layouts s" unfolding G(4) by (rule layouts_upd) simp_all
  moreover have "c \<noteq> n" using D(4) [OF c] G(2) by auto
  ultimately have "layouts s' = (layouts s)[n := layouts s ! c]"
    using l by (simp add: s' layouts_upd_ctx G(4) the_ctx_upd layouts_nth clone_ctx_def)
  then show ?thesis using that [OF c G(1)] D(3) [OF c] by simp
qed

lemma user_spaces_copy:
  assumes "user_spaces s" "layouts s' = (layouts s)[n := layouts s ! c]" "c < length (ctx_list s)"
  shows "user_spaces s'"
  using user_spaces_upd [OF assms(1), of s' n "fst (layouts s ! c)" "snd (layouts s ! c)"] assms
    user_spacesD [OF assms(1,3)] by (simp add: layouts_nth)

lemma user_layout_upd:
  assumes "user_layout mm" "k \<in> {MM_SEG_RODATA, MM_SEG_DATA}" "between ((mm k)\<lparr>next_free := v\<rparr>)"
  shows "user_layout (mm(k := (mm k)\<lparr>next_free := v\<rparr>))"
  using assms by (auto simp: user_layout_def)

lemma user_layout_bounds:
  assumes "user_layout mm" "k \<in> {MM_SEG_RODATA, MM_SEG_DATA}"
  shows "between (mm k)" "unat (seg_end (mm k)) < 2 ^ 63" "0x400000 \<le> seg_start (mm k)"
  using assms by (auto simp: user_layout_def)

lemma map_segment_cases:
  "(if npages > MAX_EXPAND_PAGES then None else map_segment t) = Some k \<longleftrightarrow>
     npages \<le> MAX_EXPAND_PAGES \<and> ((t = 0 \<and> k = MM_SEG_RODATA) \<or> (t = 1 \<and> k = MM_SEG_DATA))"
  by (auto simp: map_segment_def)

lemma do_expand_spaces:
  assumes "user_spaces s" "c < length (ctx_list s)" "do_expand c n t s = Inr (fl, s')"
  shows "user_spaces s'"
proof (cases "(if n > MAX_EXPAND_PAGES then None else map_segment t)")
  case None
  then show ?thesis using assms(1,3) by (simp add: do_expand_def)
next
  case (Some k)
  define g where "g = mms (the_ctx s c) k"
  have k: "n \<le> MAX_EXPAND_PAGES" "k \<in> {MM_SEG_RODATA, MM_SEG_DATA}" using Some map_segment_cases by blast+
  show ?thesis
  proof (cases "next_free g + push_bit PAGE_SHIFT n > seg_end g")
    case True
    then show ?thesis using assms(1,3) Some by (simp add: do_expand_def g_def)
  next
    case False
    then have s': "s' = upd_ctx c (upd_seg k (\<lambda>g. g\<lparr>next_free := next_free g + push_bit PAGE_SHIFT n\<rparr>)) s"
      using assms(3) Some by (simp add: do_expand_def g_def)
    show ?thesis
    proof (rule user_spaces_upd [OF assms(1)])
      show "layouts s' = (layouts s)[c := (ctx_type (the_ctx s c), (mms (the_ctx s c))(k := g\<lparr>next_free := next_free g + push_bit PAGE_SHIFT n\<rparr>))]"
        by (simp add: s' layouts_upd_ctx assms(2) g_def)
      assume "ctx_type (the_ctx s c) = EXEC_CTX_USER"
      note u = user_spacesD [OF assms(1,2) this]
      note b = user_layout_bounds [OF u k(2), folded g_def]
      show "user_layout ((mms (the_ctx s c))(k := g\<lparr>next_free := next_free g + push_bit PAGE_SHIFT n\<rparr>))"
        using user_layout_upd [OF u k(2)] between_grow(1) [OF b(1,2) k(1) False] by (simp add: g_def)
    qed
  qed
qed

lemma do_shrink_spaces:
  assumes "user_spaces s" "c < length (ctx_list s)" "do_shrink c n t s = Inr (fl, s')"
  shows "user_spaces s'"
proof (cases "(if n > MAX_EXPAND_PAGES then None else map_segment t)")
  case None
  then show ?thesis using assms(1,3) by (simp add: do_shrink_def)
next
  case (Some k)
  define g where "g = mms (the_ctx s c) k"
  define nf where "nf = next_free g - push_bit PAGE_SHIFT n"
  have k: "n \<le> MAX_EXPAND_PAGES" "k \<in> {MM_SEG_RODATA, MM_SEG_DATA}" using Some map_segment_cases by blast+
  show ?thesis
  proof (cases "nf < seg_start g")
    case True
    then show ?thesis using assms(1,3) Some by (simp add: do_shrink_def g_def nf_def)
  next
    case False
    then have "up_loop (\<lambda>address s. snd (do_unmap_user (the_ctx s c) address s)) (nf + push_bit PAGE_SHIFT n) nf
        (upd_ctx c (upd_seg k (\<lambda>g. g\<lparr>next_free := nf\<rparr>)) s) = Inr s'"
      using assms(3) Some by (auto simp: do_shrink_def Let_def g_def nf_def result_simps)
    from up_loop_keeps [OF this, where f = procs]
    have s': "layouts s' = layouts (upd_ctx c (upd_seg k (\<lambda>g. g\<lparr>next_free := nf\<rparr>)) s)"
      by (intro layouts_same) simp
    show ?thesis
    proof (rule user_spaces_upd [OF assms(1)])
      show "layouts s' = (layouts s)[c := (ctx_type (the_ctx s c), (mms (the_ctx s c))(k := g\<lparr>next_free := nf\<rparr>))]"
        by (simp add: s' layouts_upd_ctx assms(2) g_def)
      assume "ctx_type (the_ctx s c) = EXEC_CTX_USER"
      note u = user_spacesD [OF assms(1,2) this]
      note b = user_layout_bounds [OF u k(2), folded g_def]
      show "user_layout ((mms (the_ctx s c))(k := g\<lparr>next_free := nf\<rparr>))"
        using user_layout_upd [OF u k(2)] between_cut(1) [OF b(1,3) k(1)] False by (simp add: g_def nf_def)
    qed
  qed
qed

lemma launch_layout:
  assumes inv: "sched_inv s"
    and cr: "create_context (str ''init'') EXEC_CTX_USER s = Inr (c, s1)"
    and ex: "exec_init cpu rflags c args s1 = Inr (fl, s2)"
  obtains mm where "layouts s2 = (layouts s)[c := (EXEC_CTX_USER, mm)]" "user_layout mm" "c < length (ctx_list s)"
proof -
  obtain s0 where g: "get_new_ctx s = (Some c, s0)"
    using cr by (cases "get_new_ctx s") (auto simp: create_context_def Let_def split_beta split: option.splits)
  note G = get_new_ctx_inv [OF g inv] and D = sched_invD [OF inv]
  have c: "c < length (ctx_list s)" using G(1) D(1) by simp
  have l0: "layouts s0 = layouts s" unfolding G(4) by (rule layouts_upd) simp_all
  obtain old where l1: "layouts s1 = (layouts s)[c := (EXEC_CTX_USER, user_segments old)]"
    using cr g c l0 by (auto simp: create_context_def Let_def split_beta layouts_upd_ctx G(4))
  define p where "p = printf ''Setting up init process ...\<newline>'' [] s1"
  define b where "b = fst (exec_code c p)"
  define s2' where "s2' = snd (snd (exec_code c p))"
  define s3 where "s3 = exec_data b c s2'"
  define s4 where "s4 = exec_stack b c s3"
  define seg where "seg = (\<lambda>k f (mm :: mm_seg \<Rightarrow> mm_segment). mm(k := f (mm k)))"
  have len: "length (ctx_list p) = length (ctx_list s)" using arg_cong [OF l1, of length] by (simp add: p_def layouts_def)
  have step: "layouts x = (layouts s)[c := (EXEC_CTX_USER, mm)] \<Longrightarrow> length (ctx_list x) = length (ctx_list s) \<Longrightarrow>
      layouts (upd_ctx c (upd_seg k f) x) = (layouts s)[c := (EXEC_CTX_USER, seg k f mm)]" for x mm k f
    using layouts_nth [of c x] c by (simp add: layouts_upd_ctx seg_def)
  have l2: "layouts s2' = (layouts s)[c := (EXEC_CTX_USER,
      seg MM_SEG_CODE (\<lambda>g. g\<lparr>next_free := seg_start g + push_bit 12 (of_nat CODE_PAGES)\<rparr>) (user_segments old))]"
    "length (ctx_list s2') = length (ctx_list s)"
    unfolding s2'_def exec_code_def Let_def split_beta snd_conv
    by (rule step) (use len l1 in \<open>auto simp: p_def layouts_upd\<close>)
  have l3: "layouts s3 = (layouts s)[c := (EXEC_CTX_USER, seg MM_SEG_DATA (\<lambda>g. g\<lparr>next_free := seg_start g + 4096\<rparr>)
      (seg MM_SEG_CODE (\<lambda>g. g\<lparr>next_free := seg_start g + push_bit 12 (of_nat CODE_PAGES)\<rparr>) (user_segments old)))]"
    "length (ctx_list s3) = length (ctx_list s)"
    unfolding s3_def exec_data_def Let_def split_beta
    by (rule step) (use l2 in simp_all)
  define st where "st = seg_start (mms (the_ctx s3 c) MM_SEG_STACK)"
  have st: "st = STACK_START - MAX_STACK_SIZE"
  proof -
    have "mms (the_ctx s3 c) = snd (layouts s3 ! c)" using layouts_nth [of c s3] l3(2) c by simp
    then show ?thesis using c by (simp add: st_def l3(1) seg_def)
  qed
  have l4: "layouts s4 = (layouts s)[c := (EXEC_CTX_USER, seg MM_SEG_STACK (\<lambda>g. g\<lparr>next_free := seg_end g - 4096\<rparr>)
      (seg MM_SEG_STACK (\<lambda>g. g\<lparr>seg_start := st\<rparr>) (seg MM_SEG_STACK (\<lambda>g. g\<lparr>seg_start := seg_end g - 4096\<rparr>)
      (seg MM_SEG_DATA (\<lambda>g. g\<lparr>next_free := seg_start g + 4096\<rparr>)
      (seg MM_SEG_CODE (\<lambda>g. g\<lparr>next_free := seg_start g + push_bit 12 (of_nat CODE_PAGES)\<rparr>) (user_segments old))))))]"
    unfolding s4_def exec_stack_def Let_def split_beta st_def [symmetric]
    by (rule step, rule step, simp only: layouts_fields, rule step) (use l3 in simp_all)
  have "layouts s2 = layouts s4"
    using ex [unfolded exec_init_def Let_def split_beta p_def [symmetric], folded b_def s2'_def, folded s3_def, folded s4_def]
    by (auto simp: layouts_upd split: if_splits)
  moreover have stack: "x\<lparr>seg_end := e, access_flags := a, seg_start := i, next_free := n\<rparr> =
      \<lparr>seg_start = i, seg_end = e, next_free = n, access_flags = a\<rparr>" for x :: mm_segment and e a i n
    by (cases x) simp
  ultimately show ?thesis
    by (intro that [OF _ _ c]) (use l4 in \<open>auto simp: seg_def user_layout_def between_def aligned_def stack st\<close>)
qed

lemma launch_spaces:
  assumes "sched_inv s" "user_spaces s" "create_context (str ''init'') EXEC_CTX_USER s = Inr (c, s1)"
    "exec_init cpu rflags c args s1 = Inr (fl, s2)"
  shows "user_spaces s2"
  by (rule launch_layout [OF assms(1,3,4)]) (rule user_spaces_upd [OF assms(2)])

lemma do_syscall_spaces:
  assumes "sched_inv s" "user_spaces s" "do_syscall mmu rg n p1 p2 s = Inr (fl, s')"
  shows "user_spaces s'"
proof -
  obtain c where c: "current s = Some c"
    using assms(3) by (auto simp: do_syscall_def get_current_ctx_def split: option.splits)
  define s1 where "s1 = syscall_entry c rg s"
  have i1: "sched_inv s1" unfolding s1_def by (rule syscall_entry_inv [OF assms(1)])
  have u1: "user_spaces s1"
    using user_spaces_same [of s1 s] assms(2) by (simp add: s1_def syscall_entry_def Let_def layouts_upd)
  have len: "c < length (ctx_list s1)"
    using sched_invD(1) [OF i1] sched_invD(3) [OF assms(1) c] by simp
  note eq = assms(3) [unfolded do_syscall_def get_current_ctx_def c option.case Let_def,
    folded syscall_entry_def [unfolded Let_def], folded s1_def]
  have keep: "layouts s' = layouts s1 \<Longrightarrow> ?thesis" using user_spaces_same u1 by blast
  consider "n = 1" | "n = 2" | "n = 3" | "n = 4" | "n = 5" | "n = 6" | "n = 7" | "n = 8" | "n = 9" | "n = 10"
    | "n = 11" | "n = 12" | "n \<notin> {1, 2, 3, 4, 5, 6, 7, 8, 9, 10, 11, 12}" by blast
  then show ?thesis
  proof cases
    case 1
    then show ?thesis using eq by (intro keep) (auto simp: result_simps dest!: layouts_do_exit)
  next
    case 3
    then show ?thesis using eq by (intro keep) (auto dest!: layouts_small_calls)
  next
    case 4
    then show ?thesis using eq do_expand_spaces [OF u1 len] by simp
  next
    case 5
    then show ?thesis using eq do_shrink_spaces [OF u1 len] by simp
  next
    case 6
    then show ?thesis using eq by (intro keep) (auto dest!: layouts_small_calls)
  next
    case 7
    then show ?thesis using eq by (intro keep) (auto dest!: layouts_do_sleep)
  next
    case 8
    then show ?thesis using eq by (intro keep) (auto dest!: layouts_small_calls)
  next
    case 9
    then have "do_clone p1 p2 s1 = Inr (fl, s')" using eq by simp
    then show ?thesis
      by (rule do_clone_layout [OF i1]) (use user_spaces_copy [OF u1] sched_invD(1) [OF i1] in auto)
  next
    case 10
    then have "do_fork s1 = Inr (fl, s')" using eq by simp
    then show ?thesis
      by (rule do_fork_layout [OF i1]) (use user_spaces_copy [OF u1] sched_invD(1) [OF i1] in auto)
  next
    case 11
    then show ?thesis using eq by (intro keep) (auto simp: print_stats_def)
  next
    case 12
    then show ?thesis using eq by (intro keep) (auto simp: result_simps)
  qed (use eq keep in auto)
qed

lemma resume_state [simp]: "world_state (resume f fl s) = s"
  by (cases fl) simp_all

lemma kstep_spaces:
  assumes "kstep mmu w w'" "world_inv w" "user_spaces (world_state w)"
  shows "user_spaces (world_state w')"
  using assms
proof (induction rule: kstep.induct)
  case (program m s rg rg')
  then show ?case using user_spaces_same [of "s\<lparr>mem := m\<rparr>" s] by simp
next
  case (syscall rg n p1 p2 s fl s')
  then show ?case using do_syscall_spaces by (auto simp: world_inv_def)
next
  case (launch s c s1 cpu rflags args fl s2)
  then show ?case using launch_spaces by (auto simp: world_inv_def)
qed (use user_spaces_same in \<open>fastforce dest!: layouts_tick layouts_faults\<close>)+

lemma reachable_spaces:
  "reachable mmu w0 w \<Longrightarrow> world_inv w0 \<Longrightarrow> user_spaces (world_state w0) \<Longrightarrow> user_spaces (world_state w)"
  by (induction rule: reachable.induct) (auto dest: kstep_spaces reachable_inv)

subsection \<open>Properties\<close>

lemma init_swapper_spaces: "user_spaces (init_swapper addr ss cs rflags s\<lparr>current := None\<rparr>)"
  by (auto simp: user_spaces_def layouts_def init_swapper_def Let_def split_beta zero_ctx_def)

text \<open>C17: Memory layout. In every reachable kernel state each user process has the code,
  data, read-only and stack segments at the bounds of \<open>exec_init\<close>, with
  \<open>next_free\<close> page-aligned and between the start and the end of its segment: no
  \<open>expand\<close>, \<open>shrink\<close>, fork, clone or fault takes a segment past its
  end.\<close>

theorem reachable_user_layout:
  assumes "reachable mmu (At_Shell (init_swapper addr ss cs rflags s\<lparr>current := None\<rparr>)) w"
    "c < MAX_PROCESSES" "ctx_type (the_ctx (world_state w) c) = EXEC_CTX_USER"
  shows "user_layout (mms (the_ctx (world_state w) c))"
proof -
  have i: "world_inv (At_Shell (init_swapper addr ss cs rflags s\<lparr>current := None\<rparr>))"
    by (simp add: world_inv_def init_swapper_inv)
  have "user_spaces (world_state w)"
    by (rule reachable_spaces [OF assms(1) i]) (simp add: init_swapper_spaces)
  moreover have "length (ctx_list (world_state w)) = MAX_PROCESSES"
    using reachable_inv [OF assms(1) i] sched_invD(1) unfolding world_inv_def by blast
  ultimately show ?thesis using user_spacesD assms(2,3) by metis
qed

text \<open>The launched kernel has a user context in slot 1.\<close>

lemma booted_user:
  obtains fl :: "int flow" and s2 where "kstep mmu (At_Shell booted) (resume (\<lambda>_. zero_regs) fl s2)" "length (ctx_list s2) = MAX_PROCESSES"
    "ctx_type (the_ctx s2 1) = EXEC_CTX_USER" "user_layout (mms (the_ctx s2 1))"
proof -
  obtain s1 fl s2 where b: "create_context (str ''init'') EXEC_CTX_USER booted = Inr (1, s1)"
    "exec_init zero_regs 0 1 \<lparr>arg_rdi = 0, arg_rsi = 0, arg_rcx = 0, arg_rdx = 0, arg_r8 = 0\<rparr> s1 = Inr (fl, s2)"
    "kstep mmu (At_Shell booted) (resume (\<lambda>_. zero_regs) fl s2)"
    by (rule booted_launch [where mmu = mmu])
  have inv: "sched_inv booted" unfolding booted_def by (rule init_swapper_inv)
  obtain mm where mm: "layouts s2 = (layouts booted)[1 := (EXEC_CTX_USER, mm)]" "user_layout mm" "1 < length (ctx_list booted)"
    by (rule launch_layout [OF inv b(1,2)])
  from arg_cong [OF mm(1), of length] sched_invD(1) [OF inv] have l: "length (ctx_list s2) = MAX_PROCESSES" by simp
  have "(ctx_type (the_ctx s2 1), mms (the_ctx s2 1)) = (EXEC_CTX_USER, mm)"
    using layouts_nth [of 1 s2] l mm(1,3) by simp
  then show ?thesis using that [OF b(3) l] mm(2) by simp
qed

theorem reachable_user_layout_witness:
  "\<exists>w. kstep (\<lambda>_ _ _. None) (At_Shell booted) w \<and> user_layout (mms (the_ctx (world_state w) 1))"
proof -
  obtain fl :: "int flow" and s2 where k: "kstep (\<lambda>_ _ _. None) (At_Shell booted) (resume (\<lambda>_. zero_regs) fl s2)"
    "length (ctx_list s2) = MAX_PROCESSES" "ctx_type (the_ctx s2 1) = EXEC_CTX_USER"
    by (rule booted_user [where mmu = "\<lambda>_ _ _. None"])
  then have "reachable (\<lambda>_ _ _. None) (At_Shell (init_swapper 0 0 0 0 zero_kernel\<lparr>current := None\<rparr>))
      (resume (\<lambda>_. zero_regs) fl s2)"
    using reachable.step [OF reachable.start] by (simp add: booted_def)
  from reachable_user_layout [OF this, of 1] k show ?thesis by (intro exI) auto
qed

text \<open>C19: \<open>expand\<close>, all branches: a request of at most 1024 pages that fits in
  the read-only or data segment returns the old \<open>next_free\<close> and moves it by that many
  pages; any other request returns 0 and changes nothing.\<close>

theorem do_expand_result:
  fixes s :: "'a kernel_scheme" and t :: s32
  assumes "c < length (ctx_list s)" "user_layout (mms (the_ctx s c))"
  defines "g \<equiv> mms (the_ctx s c) (if t = 0 then MM_SEG_RODATA else MM_SEG_DATA)"
  shows "do_expand c n t s =
      (if t \<in> {0, 1} \<and> unat n \<le> 1024 \<and> unat (next_free g) + 4096 * unat n \<le> unat (seg_end g)
       then Inr (Return (next_free g),
         upd_ctx c (upd_seg (if t = 0 then MM_SEG_RODATA else MM_SEG_DATA)
           (\<lambda>g. g\<lparr>next_free := word_of_nat (unat (next_free g) + 4096 * unat n)\<rparr>)) s)
       else Inr (Return 0, s))"
proof -
  define k where "k = (if t = 0 then MM_SEG_RODATA else MM_SEG_DATA)"
  have b: "between g" "unat (seg_end g) < 2 ^ 63"
    using user_layout_bounds [OF assms(2), of k] by (auto simp: g_def k_def)
  have n: "n \<le> MAX_EXPAND_PAGES \<longleftrightarrow> unat n \<le> 1024" by (simp add: word_le_nat_alt)
  show ?thesis
  proof (cases "t \<in> {0, 1} \<and> unat n \<le> 1024")
    case True
    then have k: "(if n > MAX_EXPAND_PAGES then None else map_segment t) = Some k"
      using n by (auto simp: map_segment_def k_def)
    note p = unat_pages [OF n [THEN iffD2]]
    have "unat (next_free g) \<le> unat (seg_end g)" using b(1) by (simp add: between_def word_le_nat_alt)
    then have u: "unat (next_free g + push_bit PAGE_SHIFT n) = unat (next_free g) + 4096 * unat n"
      using p b(2) True by (subst unat_add_lem [THEN iffD1]) auto
    have w: "word_of_nat (unat (next_free g) + 4096 * unat n) = next_free g + push_bit PAGE_SHIFT n"
      unfolding u [symmetric] by simp
    have "upd_ctx c (upd_seg k (\<lambda>g. g\<lparr>next_free := next_free g + push_bit PAGE_SHIFT n\<rparr>)) s =
        upd_ctx c (upd_seg k (\<lambda>g. g\<lparr>next_free := word_of_nat (unat (next_free g) + 4096 * unat n)\<rparr>)) s"
      using w by (simp add: upd_ctx_def the_ctx_def g_def k_def)
    then show ?thesis
      using True k u unfolding do_expand_def g_def [folded k_def, symmetric] k_def [symmetric]
      by (simp add: g_def [folded k_def, symmetric] word_less_nat_alt not_less)
  next
    case False
    then have "(if n > MAX_EXPAND_PAGES then None else map_segment t) = None"
      using n by (auto simp: map_segment_def)
    then show ?thesis using False by (auto simp: do_expand_def)
  qed
qed

text \<open>The demonstration kernel with a user context in slot 1.\<close>

fun demo_mm :: "mm_seg \<Rightarrow> mm_segment" where
  "demo_mm MM_SEG_CODE = \<lparr>seg_start = CODE_START, seg_end = RODATA_START - 1, next_free = CODE_START + 0x8000,
     access_flags = MM_RD OR MM_EX\<rparr>"
| "demo_mm MM_SEG_RODATA = \<lparr>seg_start = RODATA_START, seg_end = DATA_START - 1, next_free = RODATA_START,
     access_flags = MM_RD\<rparr>"
| "demo_mm MM_SEG_DATA = \<lparr>seg_start = DATA_START, seg_end = STACK_START - MAX_STACK_SIZE - 1,
     next_free = DATA_START + 4096, access_flags = MM_RD OR MM_WR\<rparr>"
| "demo_mm MM_SEG_STACK = \<lparr>seg_start = STACK_START - MAX_STACK_SIZE, seg_end = STACK_START,
     next_free = STACK_START - 4096, access_flags = MM_RD OR MM_WR\<rparr>"

definition demo_user :: kernel where
  "demo_user = upd_ctx 1 (\<lambda>ctx. ctx\<lparr>ctx_type := EXEC_CTX_USER, mms := demo_mm\<rparr>) demo"

lemma demo_user_layout: "user_layout demo_mm"
  by (simp add: user_layout_def between_def aligned_def)

lemma demo_user_ctx:
  "1 < length (ctx_list demo_user)" "current demo_user = Some 1" "sched_inv demo_user"
  "the_ctx demo_user 1 = zero_ctx\<lparr>pid := 1, state := RUNNING, ctx_type := EXEC_CTX_USER, mms := demo_mm\<rparr>"
proof -
  show "sched_inv demo_user" unfolding demo_user_def by (rule sched_inv_upd) (use demo_inv in auto)
  then show l: "1 < length (ctx_list demo_user)" using sched_invD(1) by fastforce
  show "current demo_user = Some 1" using demo_inv by (simp add: demo_user_def)
  show "the_ctx demo_user 1 = zero_ctx\<lparr>pid := 1, state := RUNNING, ctx_type := EXEC_CTX_USER, mms := demo_mm\<rparr>"
    using l demo_ctx(2) by (simp add: demo_user_def the_ctx_upd)
qed

theorem do_expand_result_witness:
  "do_expand 1 3 1 demo_user = Inr (Return 0x180001000,
     upd_ctx 1 (upd_seg MM_SEG_DATA (\<lambda>g. g\<lparr>next_free := word_of_nat (unat (next_free g) + 12288)\<rparr>)) demo_user) \<and>
   do_expand 1 1025 1 demo_user = Inr (Return 0, demo_user) \<and> do_expand 1 1 2 demo_user = Inr (Return 0, demo_user)"
  using do_expand_result [OF demo_user_ctx(1), where n = 3 and t = 1]
    do_expand_result [OF demo_user_ctx(1), where n = 1025 and t = 1]
    do_expand_result [OF demo_user_ctx(1), where n = 1 and t = 2]
  by (simp add: demo_user_ctx demo_user_ctx(4) [simplified] demo_user_layout)

subsection \<open>Growing and shrinking\<close>

text \<open>A loop over pages below the end of the address space ends.\<close>

lemma up_loop_returns:
  assumes "unat lim + 4096 < 2 ^ 64"
  shows "\<exists>s'. up_loop body lim v s = Inr s'"
  using assms
proof (induction body lim v s rule: up_loop.induct)
  case (1 body lim v s)
  have "\<not> v + 4096 < v" if "v < lim"
    using that 1(2) by (simp add: word_less_nat_alt unat_word_ariths)
  then show ?case using 1 by (subst up_loop.simps) auto
qed

text \<open>C20: \<open>shrink\<close> undoes \<open>expand\<close>: after a successful
  \<open>expand\<close>, \<open>shrink\<close> by the same number of pages returns the address that
  \<open>expand\<close> returned and restores the process table.\<close>

theorem expand_shrink_roundtrip:
  fixes s :: "'a kernel_scheme"
  assumes "c < length (ctx_list s)" "user_layout (mms (the_ctx s c))"
    "do_expand c n t s = Inr (Return a, s1)" "a \<noteq> 0"
  shows "\<exists>s2. do_shrink c n t s1 = Inr (Return a, s2) \<and> ctx_list s2 = ctx_list s"
proof -
  define k where "k = (if t = 0 then MM_SEG_RODATA else MM_SEG_DATA)"
  define g where "g = mms (the_ctx s c) k"
  define nf where "nf = next_free g + push_bit PAGE_SHIFT n"
  have k: "(if n > MAX_EXPAND_PAGES then None else map_segment t) = Some k" "\<not> nf > seg_end g" "a = next_free g"
    and s1: "s1 = upd_ctx c (upd_seg k (\<lambda>g. g\<lparr>next_free := next_free g + push_bit PAGE_SHIFT n\<rparr>)) s"
    using assms(3,4) by (auto simp: do_expand_def Let_def map_segment_def k_def g_def nf_def split: if_splits)
  have n: "n \<le> MAX_EXPAND_PAGES" "k \<in> {MM_SEG_RODATA, MM_SEG_DATA}" using k(1) map_segment_cases by blast+
  note b = user_layout_bounds [OF assms(2) n(2), folded g_def]
  have t1: "mms (the_ctx s1 c) k = g\<lparr>next_free := nf\<rparr>" using assms(1) by (simp add: s1 the_ctx_upd g_def nf_def)
  have nf0: "nf - push_bit PAGE_SHIFT n = next_free g" by (simp add: nf_def)
  have low: "\<not> next_free g < seg_start g" using b(1) by (simp add: between_def not_less)
  define s1' where "s1' = upd_ctx c (upd_seg k (\<lambda>h. h\<lparr>next_free := next_free g\<rparr>)) s1"
  have "unat nf \<le> unat (seg_end g)" using k(2) by (simp add: word_less_nat_alt not_less)
  then obtain s2 where loop: "up_loop (\<lambda>address s. snd (do_unmap_user (the_ctx s c) address s)) nf (next_free g) s1' = Inr s2"
    using up_loop_returns [of nf] b(2) by fastforce
  have "do_shrink c n t s1 = Inr (Return a, s2)"
    unfolding do_shrink_def k(1) option.case Let_def t1
    using nf0 low loop k(3) by (simp add: s1'_def nf_def)
  moreover have "ctx_list s2 = ctx_list s"
  proof -
    have "ctx_list s2 = ctx_list s1'" using up_loop_keeps [OF loop, where f = ctx_list] by simp
    also have "\<dots> = ctx_list s"
      using assms(1) by (simp add: s1'_def s1 upd_ctx_def g_def the_ctx_def list_update_same_conv)
    finally show ?thesis .
  qed
  ultimately show ?thesis by blast
qed

theorem expand_shrink_roundtrip_witness:
  "\<exists>s1 s2. do_expand 1 3 1 demo_user = Inr (Return 0x180001000, s1) \<and>
     do_shrink 1 3 1 s1 = Inr (Return 0x180001000, s2) \<and> ctx_list s2 = ctx_list demo_user"
proof -
  have e: "do_expand 1 3 1 demo_user = Inr (Return 0x180001000,
     upd_ctx 1 (upd_seg MM_SEG_DATA (\<lambda>g. g\<lparr>next_free := next_free g + 12288\<rparr>)) demo_user)"
    by (simp add: do_expand_def map_segment_def demo_user_ctx demo_user_ctx(4) [simplified])
  show ?thesis
    using expand_shrink_roundtrip [OF demo_user_ctx(1) _ e] e by (simp add: demo_user_ctx demo_user_ctx(4) [simplified] demo_user_layout)
qed

subsection \<open>Page faults\<close>

text \<open>What the handler should do: map a page that is not present and lies below the \<open>next_free\<close> of
  its segment, and of the read-only segment only on a read.\<close>

definition fault_allowed :: "(mm_seg \<Rightarrow> mm_segment) \<Rightarrow> u64 \<Rightarrow> u64 \<Rightarrow> bool" where
  "fault_allowed mm a err \<longleftrightarrow> err AND 1 = 0 \<and>
     (\<exists>k \<in> {MM_SEG_RODATA, MM_SEG_DATA, MM_SEG_STACK}. seg_start (mm k) \<le> a \<and> a < next_free (mm k) \<and>
        (k = MM_SEG_RODATA \<longrightarrow> err AND 2 = 0))"

text \<open>C18: The page fault handler. For a process with the standard layout, a fault installs
  a page and returns to the program exactly when the page is not present and the address is at or
  above the start and below \<open>next_free\<close> of the read-only segment (for a read), of the
  data segment or of the stack segment. Every other fault reports itself and raises
  \<open>SIGSEGV\<close>: protection violations, writes to read-only data, any address of the code
  segment, and the topmost page of the stack, since \<open>next_free\<close> of the stack is one
  page below its end.\<close>

theorem page_fault_decision:
  fixes s :: "'a kernel_scheme"
  assumes "current s = Some c" "user_layout (mms (the_ctx s c))"
  defines "s1 \<equiv> s\<lparr>stats := (stats s)\<lparr>page_faults := page_faults (stats s) + 1\<rparr>\<rparr>"
  shows "do_page_fault mmu a rg err s =
    (if fault_allowed (mms (the_ctx s c)) a err
     then Inr (Return rg, install_page_table (the_ctx s c) a err s1)
     else raise_signal mmu SIGSEGV rg
       (printf ''PF Error @ [RIP: %x] [accessed VA: %x] [error code: %x]\<newline>''
          [Num (entry_rip rg), Num a, Num err] s1))"
proof -
  have "fault_ok (the_ctx s c) a err \<longleftrightarrow> fault_allowed (mms (the_ctx s c)) a err"
    using assms(2) unfolding fault_ok_def fault_allowed_def in_seg_def user_layout_def between_def
    by (auto simp: word_le_nat_alt word_less_nat_alt)
  then show ?thesis
    using assms(1) by (simp add: do_page_fault_def get_current_ctx_def s1_def Let_def)
qed

theorem page_fault_decision_witness:
  "fst (projr (do_page_fault (\<lambda>_ _ _. None) 0x180000800 zero_regs 2 demo_user)) = Return zero_regs \<and>
   do_page_fault (\<lambda>_ _ _. None) 0x140000000 zero_regs 0 demo_user =
     raise_signal (\<lambda>_ _ _. None) SIGSEGV zero_regs
       (printf ''PF Error @ [RIP: %x] [accessed VA: %x] [error code: %x]\<newline>'' [Num 0, Num 0x140000000, Num 0]
         (demo_user\<lparr>stats := (stats demo_user)\<lparr>page_faults := page_faults (stats demo_user) + 1\<rparr>\<rparr>))"
proof -
  have u: "user_layout (mms (the_ctx demo_user 1))" by (simp add: demo_user_ctx(4) demo_user_layout del: One_nat_def)
  have ok: "fault_allowed (mms (the_ctx demo_user 1)) 0x180000800 2" "\<not> fault_allowed (mms (the_ctx demo_user 1)) 0x140000000 0"
    by (simp_all add: demo_user_ctx(4) fault_allowed_def del: One_nat_def)
  note * = page_fault_decision [OF demo_user_ctx(2) u]
  show ?thesis
    using *[where a = "0x180000800" and err = 2] *[where a = "0x140000000" and err = 0] ok
    by (simp add: zero_regs_def del: One_nat_def)
qed

end
