(* ===== verification/Decimal.thy ===== *)
theory Decimal
  imports Console
begin

text \<open>
  What the number directives of \<open>vprintf\<close> print: the digit loop yields the decimal representation,
  so reading the digits back gives the number, also for the most negative \<open>int\<close>, whose negation
  wraps around.
\<close>

definition dec_value :: "u8 list \<Rightarrow> int" where
  "dec_value cs = foldl (\<lambda>v ch. 10 * v + (uint ch - 48)) 0 cs"

lemma dec_value_snoc: "dec_value (cs @ [c]) = 10 * dec_value cs + (uint c - 48)"
  by (simp add: dec_value_def)

lemma digit_char:
  assumes "0 \<le> d" "d < 10"
  shows "uint (48 + word_of_int d :: u8) = 48 + d"
proof -
  have "uint (word_of_int (48 + d) :: u8) = (48 + d) mod 2 ^ 8" by (simp only: uint_word_of_int) simp
  also have "\<dots> = 48 + d" using assms by simp
  finally show ?thesis by simp
qed

lemma sdiv_smod_nonneg:
  fixes t :: int
  assumes "0 \<le> t"
  shows "t sdiv 10 = t div 10" "t smod 10 = t mod 10"
  using assms by (simp_all add: signed_divide_int_def signed_modulo_int_def sgn_if minus_mult_div_eq_mod)

lemma dec_chars_value: "0 \<le> t \<Longrightarrow> dec_value (rev (dec_chars t)) = t"
proof (induction t rule: dec_chars.induct)
  case (1 t)
  show ?case
  proof (cases "t = 0")
    case False
    then have "dec_value (rev (dec_chars (t sdiv 10))) = t sdiv 10"
      using 1 by (simp add: sdiv_smod_nonneg)
    then show ?thesis
      using False 1(2) by (subst dec_chars.simps) (simp add: dec_value_snoc digit_char sdiv_smod_nonneg)
  qed (simp add: dec_chars.simps dec_value_def)
qed

lemma dec_chars_length: "0 \<le> t \<Longrightarrow> t < 10 ^ k \<Longrightarrow> length (dec_chars t) \<le> k"
proof (induction t arbitrary: k rule: dec_chars.induct)
  case (1 t)
  show ?case
  proof (cases "t = 0")
    case False
    then obtain j where k: "k = Suc j" using 1(2,3) by (cases k) auto
    have "t sdiv 10 < 10 ^ j" using 1(2,3) k by (simp add: sdiv_smod_nonneg) 
    then have "length (dec_chars (t sdiv 10)) \<le> j" using 1(1) [OF False] 1(2) by (simp add: sdiv_smod_nonneg)
    then show ?thesis using False k by (subst dec_chars.simps) simp
  qed (simp add: dec_chars.simps)
qed

lemma dec_chars_digits: "0 \<le> t \<Longrightarrow> ch \<in> set (dec_chars t) \<Longrightarrow> 48 \<le> ch \<and> ch \<le> 57"
proof (induction t rule: dec_chars.induct)
  case (1 t)
  have d: "48 \<le> (word_of_int (48 + t mod 10) :: u8) \<and> word_of_int (48 + t mod 10) \<le> (57 :: u8)"
    using digit_char [of "t mod 10"] by (simp add: word_le_def)
  show ?case
  proof (cases "t = 0")
    case False
    have "ch = word_of_int (48 + t smod 10) \<or> ch \<in> set (dec_chars (t sdiv 10))"
      using 1(3) False by (subst (asm) dec_chars.simps) auto
    then show ?thesis using 1(1,2) False d by (auto simp: sdiv_smod_nonneg)
  qed (use 1(3) in \<open>simp add: dec_chars.simps\<close>)
qed

text \<open>The number a directive prints, with its sign.\<close>

definition printed_value :: "u8 list \<Rightarrow> int" where
  "printed_value cs = (if cs \<noteq> [] \<and> hd cs = 45 then - dec_value (tl cs) else dec_value cs)"

lemma sint_neg_s32:
  fixes x :: s32
  assumes "sint x \<noteq> - (2 ^ 31)"
  shows "sint (- x) = - sint x"
proof -
  have "- (2 ^ 31) \<le> sint x" "sint x < 2 ^ 31"
    using sint_ge [of x] sint_lt [of x] by simp_all
  then have "signed_take_bit 31 (- sint x) = - sint x"
    using assms by (intro signed_take_bit_int_eq_self) auto
  then show ?thesis by (simp add: sint_word_ariths)
qed

text \<open>\<open>%d\<close> prints the decimal digits of its argument taken as a C
  \<open>int\<close>, with a minus sign for negative values, in at most 11 characters, for every
  value but the smallest \<open>int\<close>.\<close>

theorem format_d_prints:
  assumes "sint (ucast v :: s32) \<noteq> - (2 ^ 31)"
  shows "printed_value (format_d v) = sint (ucast v :: s32) \<and> length (format_d v) \<le> 11 \<and>
    (\<forall>ch \<in> set (format_d v). ch = 45 \<or> 48 \<le> ch \<and> ch \<le> 57)"
proof -
  define x where "x = (ucast v :: s32)"
  have b: "\<bar>sint x\<bar> < 10 ^ 10" using sint_ge [of x] sint_lt [of x] by (simp add: abs_less_iff)
  consider "x = 0" | "sint x < 0" | "x \<noteq> 0" "0 \<le> sint x" by linarith
  then show ?thesis
  proof cases
    case 1
    then show ?thesis by (simp add: format_d_def x_def [symmetric] printed_value_def dec_value_def)
  next
    case 2
    define t where "t = sint (- x)"
    have t: "t = - sint x" using sint_neg_s32 assms by (simp add: t_def x_def)
    then have "format_d v = str ''-'' @ rev (dec_chars t)"
      using 2 by (auto simp: format_d_def x_def [symmetric] t_def)
    then show ?thesis
      using 2 t b dec_chars_value [of t] dec_chars_length [of t 10] dec_chars_digits [of t]
      by (auto simp: printed_value_def x_def [symmetric])
  next
    case 3
    then have f: "format_d v = rev (dec_chars (sint x))" by (simp add: format_d_def x_def [symmetric])
    have "45 \<notin> set (dec_chars (sint x))" using dec_chars_digits [OF 3(2), of 45] by auto
    then have "rev (dec_chars (sint x)) = [] \<or> hd (rev (dec_chars (sint x))) \<noteq> 45" by (metis hd_in_set set_rev)
    then show ?thesis
      using 3 b dec_chars_value [of "sint x"] dec_chars_length [of "sint x" 10] dec_chars_digits [of "sint x"]
      by (auto simp: printed_value_def f x_def [symmetric])
  qed
qed

theorem format_d_prints_witness:
  "printed_value (format_d 4294967254) = -42 \<and> length (format_d 4294967254) \<le> 11"
  using format_d_prints [of 4294967254] by simp

text \<open>\<open>%d\<close> of the smallest \<open>int\<close> prints a minus sign followed
  by characters before \<open>0\<close>: its negation is negative again.\<close>

theorem format_d_int_min:
  "format_d 0x80000000 = str ''-./,),(-*,(''"
  by (simp add: format_d_def dec_chars.simps signed_divide_int_def signed_modulo_int_def)

end
