(* ===== verification/Lifecycle.thy ===== *)
theory Lifecycle
  imports Segments Decimal
begin

text \<open>
  Birth, switching and death of processes: what \<open>schedule\<close> loads, what \<open>do_fork\<close> and \<open>do_clone\<close>
  put into the new context, what \<open>do_exit\<close> leaves behind, and which sleeper never wakes.
\<close>

subsection \<open>The register frame on the kernel stack\<close>

lemma rd64_store_words_other:
  "\<lbrakk>aligned 3 a; aligned 3 b; \<And>j. j < length ws \<Longrightarrow> b \<noteq> a + 8 * of_nat j\<rbrakk> \<Longrightarrow>
    rd64 (store_words m a ws) b = rd64 m b"
proof (induction ws arbitrary: m a)
  case (Cons w ws)
  have "b \<noteq> a" using Cons.prems(3) [of 0] by simp
  moreover have "b \<noteq> a + 8 + 8 * of_nat j" if "j < length ws" for j
    using Cons.prems(3) [of "Suc j"] that by (simp add: algebra_simps)
  moreover have "aligned 3 (a + 8)" using Cons.prems(1) by (rule aligned_plus) simp
  ultimately show ?case using Cons.IH Cons.prems(1,2) by (simp add: rd64_wr64_other)
qed simp

lemma load_store_words:
  "\<lbrakk>aligned 3 a; length ws < 2 ^ 61\<rbrakk> \<Longrightarrow> load_words (store_words m a ws) a (length ws) = ws"
proof (induction ws arbitrary: m a)
  case (Cons w ws)
  have al: "aligned 3 (a + 8)" using Cons.prems(1) by (rule aligned_plus) simp
  have "a \<noteq> a + 8 + 8 * of_nat j" if "j < length ws" for j
  proof
    assume "a = a + 8 + 8 * of_nat j"
    then have "(of_nat (8 * Suc j) :: u64) = 0" by (simp add: algebra_simps)
    moreover have "unat (of_nat (8 * Suc j) :: u64) = 8 * Suc j"
      using that Cons.prems(2) by (intro unat_of_nat_small) simp
    ultimately show False by (simp only: unat_0) simp
  qed
  then have "rd64 (store_words (wr64 m a w) (a + 8) ws) a = w"
    using Cons.prems(1) al by (simp add: rd64_store_words_other)
  then show ?case using Cons.IH [OF al] Cons.prems(2) by simp
qed simp

lemma wr64_bytes: "8 \<le> unat (x - a) \<Longrightarrow> wr64 m a v x = m x"
  by (auto simp: wr64_def wr32_def add.assoc)

lemma store_words_bytes:
  "\<lbrakk>8 * length ws \<le> unat (x - a)\<rbrakk> \<Longrightarrow> store_words m a ws x = m x"
proof (induction ws arbitrary: m a)
  case (Cons w ws)
  have "unat (x - (a + 8)) = unat (x - a) - 8"
    using Cons.prems unat_sub [of 8 "x - a"] by (simp add: word_le_nat_alt diff_diff_eq)
  then show ?case using Cons.IH [of "a + 8"] Cons.prems by (simp add: wr64_bytes)
qed simp

lemma regs_of_reg_words [simp]: "regs_of_words (reg_words r) = r"
  by (simp add: regs_of_words_def reg_words_def)

text \<open>\<open>schedule\<close> returns to exactly the registers saved in the chosen
  context, with its page tables in \<open>cr3\<close> and its kernel stack in the task state
  segment; only the register frame on that stack is written.\<close>

theorem schedule_resumes:
  fixes s :: "'a kernel_scheme"
  assumes "n < length (ctx_list s)" "aligned 3 (os_rsp (the_ctx s n))"
  shows "\<exists>s'. schedule n s = Inr (Iret (regs (the_ctx s n)), s') \<and> current s' = Some n \<and>
    ctx_list s' = (ctx_list s)[n := (the_ctx s n)\<lparr>state := RUNNING\<rparr>] \<and>
    cr3 s' = ucast (push_bit PAGE_SHIFT (pgd (the_ctx s n))) \<and>
    tss_rsp0 s' = push_bit PAGE_SHIFT (ucast (os_stack_pfn (the_ctx s n) + 1)) \<and>
    (\<forall>x. 160 \<le> unat (x - (os_rsp (the_ctx s n) - 160)) \<longrightarrow> mem s' x = mem s x)"
proof -
  let ?rsp = "os_rsp (the_ctx s n) - 160" and ?w = "reg_words (regs (the_ctx s n))"
  have al: "aligned 3 ?rsp"
    using aligned_plus [OF assms(2), of "- 160"] by (simp add: aligned_def take_bit_minus)
  have l: "length ?w = 20" by (simp add: reg_words_def)
  have "load_words (store_words (mem s) ?rsp ?w) ?rsp 20 = ?w"
    using load_store_words [OF al, of ?w "mem s"] by (simp add: l)
  then show ?thesis
    using assms(1) store_words_bytes [of ?w _ ?rsp "mem s"] l
    by (simp add: schedule_def Let_def return_from_os_def set_tss_stack_ptr_def set_current_ctx_def
        upd_ctx_def the_ctx_def nth_list_update)
qed

theorem schedule_resumes_witness:
  "\<exists>s'. schedule 1 demo_user = Inr (Iret zero_regs, s') \<and> current s' = Some 1"
proof -
  have "aligned 3 (os_rsp (the_ctx demo_user 1))" "regs (the_ctx demo_user 1) = zero_regs"
    by (simp_all add: demo_user_ctx(4) zero_ctx_def del: One_nat_def)
  then show ?thesis using schedule_resumes [OF demo_user_ctx(1)] by metis
qed

subsection \<open>\<open>do_fork\<close> and \<open>do_clone\<close>\<close>

lemma find_unused_Some: "\<exists>i < length cs. state (cs ! i) = UNUSED \<Longrightarrow> \<exists>j. find_unused cs k = Some j"
proof (induction cs arbitrary: k)
  case (Cons a cs)
  then obtain i where i: "i < length (a # cs)" "state ((a # cs) ! i) = UNUSED" by blast
  show ?case
  proof (cases "state a = UNUSED")
    case False
    with i have "i - 1 < length cs" "state (cs ! (i - 1)) = UNUSED" by (cases i; simp)+
    then show ?thesis using Cons.IH [of "Suc k"] False by auto
  qed simp
qed simp

lemma get_new_ctx_Some:
  assumes "sched_inv s" "i < MAX_PROCESSES" "state (the_ctx s i) = UNUSED"
  obtains n s1 where "get_new_ctx s = (Some n, s1)"
proof -
  have "\<exists>i < length (take MAX_PROCESSES (ctx_list s)). state (take MAX_PROCESSES (ctx_list s) ! i) = UNUSED"
    using assms sched_invD(1) [OF assms(1)] by (auto simp: the_ctx_def)
  from find_unused_Some [OF this, of 0] show ?thesis by (auto simp: get_new_ctx_def intro: that)
qed

text \<open>\<open>fork\<close> up to \<open>copy_mm\<close>: an unused slot is taken and filled with a copy of the caller.\<close>

lemma do_fork_start:
  fixes s :: "'a kernel_scheme"
  assumes inv: "sched_inv s" "current s = Some c" and free: "i < MAX_PROCESSES" "state (the_ctx s i) = UNUSED"
  obtains n s2 where "n < MAX_PROCESSES" "state (the_ctx s n) = UNUSED" "c \<noteq> n" "n < length (ctx_list s)"
    "ctx_list s2 = (ctx_list s)[n := (the_ctx s c)\<lparr>pid := of_nat n, ppid := of_nat c\<rparr>]" "mem s2 = mem s" "pglists s2 = pglists s"
    "current s2 = current s" "apic_base s2 = apic_base s"
    "\<And>s3. copy_mm n c s2 = Inr s3 \<Longrightarrow> do_fork s = Inr (Return (of_nat n), setup_child_context n s3)"
proof -
  obtain n s1 where g: "get_new_ctx s = (Some n, s1)" by (rule get_new_ctx_Some [OF inv(1) free])
  note G = get_new_ctx_inv [OF g inv(1)] and D = sched_invD [OF inv(1)]
  have l: "n < length (ctx_list s)" "c \<noteq> n" using G(1,2) D(1) D(4) [OF inv(2)] by auto
  define s2 where "s2 = upd_ctx n (\<lambda>_. (the_ctx s1 c)\<lparr>pid := pid (the_ctx s1 n), ppid := pid (the_ctx s1 c)\<rparr>) s1"
  have c1: "the_ctx s1 c = the_ctx s c" using l(2) by (simp add: G(4) the_ctx_upd)
  have p1: "pid (the_ctx s1 n) = of_nat n" using l(1) by (simp add: G(4) the_ctx_upd)
  have pc: "pid (the_ctx s c) = of_nat c" using D(2-4) inv(2) by blast
  have l2: "ctx_list s2 = (ctx_list s)[n := (the_ctx s c)\<lparr>pid := of_nat n, ppid := of_nat c\<rparr>]"
    unfolding s2_def c1 p1 pc by (simp add: G(4) upd_ctx_def)
  have "ucast (of_nat n :: u32) = (of_nat n :: u64)"
    using G(1) by (intro word_unat_eq_iff [THEN iffD2]) (simp add: unat_of_nat_small)
  then have fork: "do_fork s = Inr (Return (of_nat n), setup_child_context n s3)" if "copy_mm n c s2 = Inr s3" for s3
    using g G(3) inv(2) that by (simp add: do_fork_def get_current_ctx_def Let_def s2_def p1)
  show thesis
    by (rule that [OF G(1,2) l(2,1) l2]) (simp_all add: fork, simp_all add: s2_def G(4) upd_ctx_def)
qed

lemma demo_user_free: "state (the_ctx demo_user 4) = UNUSED"
  using demo_ctx(5) [of 4] by (simp add: demo_user_def the_ctx_upd) (simp add: zero_ctx_def)

text \<open>The bytes of the decimal representation of a small number.\<close>

lemma format_d_small:
  assumes "n \<le> 16"
  shows "length (format_d (ucast (of_nat n :: u32))) \<le> 2"
proof -
  have u: "(ucast (ucast (of_nat n :: u32) :: u64) :: s32) = of_nat n"
    by (rule bit_word_eqI) (simp add: bit_simps)
  have s: "sint (of_nat n :: s32) = int n"
    using assms by (simp add: signed_of_nat signed_take_bit_int_eq_self)
  show ?thesis
    using dec_chars_length [of "int n" 2] assms by (auto simp: format_d_def u s Let_def)
qed

text \<open>C26: \<open>clone\<close> takes an unused slot for a ready thread with the caller's
  page tables, segments and signal handlers, which starts in the given function on the given stack;
  the statistics do not count it.\<close>

theorem do_clone_thread:
  fixes s :: "'a kernel_scheme"
  assumes inv: "sched_inv s" "current s = Some c"
    and free: "i < MAX_PROCESSES" "state (the_ctx s i) = UNUSED"
    and name: "\<And>i. i < MAX_PROCESSES \<Longrightarrow> length (ctx_name (the_ctx s i)) = CNAME_MAX"
       "length (takeWhile (\<lambda>ch. ch \<noteq> 0) (ctx_name (the_ctx s c))) \<le> 61"
  shows "\<exists>n ctx s'. do_clone th_func user_stack s = Inr (Return 0, s') \<and> n < MAX_PROCESSES \<and> state (the_ctx s n) = UNUSED \<and>
    current s' = Some c \<and> ctx_list s' = (ctx_list s)[n := ctx] \<and> stats s' = stats s \<and>
    pid ctx = of_nat n \<and> state ctx = READY \<and> pgd ctx = pgd (the_ctx s c) \<and> mms ctx = mms (the_ctx s c) \<and>
    sighandlers ctx = sighandlers (the_ctx s c) \<and> length (ctx_name ctx) = CNAME_MAX \<and>
    regs ctx = (regs (the_ctx s c))\<lparr>entry_rip := th_func, entry_rsp := user_stack, rbp := user_stack\<rparr>"
proof -
  obtain n s1 where g: "get_new_ctx s = (Some n, s1)" by (rule get_new_ctx_Some [OF inv(1) free])
  note G = get_new_ctx_inv [OF g inv(1)] and D = sched_invD [OF inv(1)]
  have l: "n < length (ctx_list s)" "c < MAX_PROCESSES" "c \<noteq> n"
    using G(1,2) D(1) D(3,4) [OF inv(2)] by auto
  have c1: "the_ctx s1 c = the_ctx s c" "the_ctx s1 n = (the_ctx s n)\<lparr>pid := of_nat n, state := NEW\<rparr>"
    using l by (simp_all add: G(4) the_ctx_upd)
  have pc: "pid (the_ctx s c) = of_nat c" using D(2-4) inv(2) by blast
  define st where "st = fst (os_pfn_alloc OS_PT_REG s1)"
  define ctx where "ctx = clone_ctx th_func user_stack st (the_ctx s c) ((the_ctx s n)\<lparr>pid := of_nat n, state := NEW\<rparr>)"
  define s' where "s' = upd_ctx n (clone_ctx th_func user_stack st (the_ctx s1 c)) (snd (os_pfn_alloc OS_PT_REG s1))"
  have t: "the_ctx s' n = ctx" using l by (simp add: s'_def the_ctx_upd c1 ctx_def G(4))
  have "pid (the_ctx s c) + 1 = of_nat (Suc c)" by (simp add: pc)
  then have "length (format_d (ucast (pid (the_ctx s c) + 1))) \<le> 2"
    using format_d_small [of "Suc c"] l(2) by (simp del: of_nat_Suc)
  then have nm: "length (ctx_name ctx) = CNAME_MAX"
    using name(1) [OF G(1)] name(1) [OF l(2)] name(2)
    by (simp add: ctx_def clone_ctx_def clone_name_def copy_name_def)
  have "do_clone th_func user_stack s = Inr (Return 0, s')"
    using g G(3) inv(2) nm t by (simp add: do_clone_def get_current_ctx_def Let_def split_beta s'_def st_def)
  moreover have "ctx_list s' = (ctx_list s)[n := ctx]"
    using l by (simp add: s'_def upd_ctx_def G(4) ctx_def c1) (simp add: the_ctx_def)
  moreover have "current s' = Some c" "stats s' = stats s"
    using inv(2) by (simp_all add: s'_def G(4))
  ultimately show ?thesis
    by (intro exI [of _ n] exI [of _ ctx] exI [of _ s']) (use G nm in \<open>simp add: ctx_def clone_ctx_def\<close>)
qed

lemma demo_user_names: "i < MAX_PROCESSES \<Longrightarrow> ctx_name (the_ctx demo_user i) = replicate CNAME_MAX 0"
  using demo_cases [of i] sched_invD(1) [OF demo_inv(1)]
  by (auto simp: demo_user_def the_ctx_upd demo_ctxs) (auto simp: zero_ctx_def)

theorem do_clone_thread_witness:
  "\<exists>n ctx s'. do_clone 0x100000100 0x180001000 demo_user = Inr (Return 0, s') \<and>
     ctx_list s' = (ctx_list demo_user)[n := ctx] \<and> stats s' = stats demo_user \<and> mms ctx = demo_mm \<and>
     regs ctx = zero_regs\<lparr>entry_rip := 0x100000100, entry_rsp := 0x180001000, rbp := 0x180001000\<rparr>"
proof -
  have "length (takeWhile (\<lambda>ch. ch \<noteq> 0) (ctx_name (the_ctx demo_user 1))) \<le> 61"
    by (simp only: demo_user_names) simp
  from do_clone_thread [OF demo_user_ctx(3,2) _ demo_user_free _ this, of "0x100000100" "0x180001000"]
  show ?thesis by (auto simp: demo_user_names demo_user_ctx(4) zero_ctx_def simp del: One_nat_def)
qed

subsection \<open>\<open>do_exit\<close> and the sleep of zero ticks\<close>

text \<open>C24: \<open>exit\<close> with another process alive: the caller's context becomes
  unused, the scheduler's choice (a ready context or the swapper) becomes the running one and its
  saved registers are restored; no other context changes.\<close>

theorem do_exit_switches:
  fixes s :: "'a kernel_scheme"
  assumes inv: "sched_inv s" "current s = Some c" "c \<noteq> 0"
    and other: "0 < i" "i < MAX_PROCESSES" "i \<noteq> c" "state (the_ctx s i) \<noteq> UNUSED"
    and stacks: "\<And>j. j < MAX_PROCESSES \<Longrightarrow> aligned 3 (os_rsp (the_ctx s j))"
  shows "\<exists>n s'. do_exit s = Inr (Iret (regs (the_ctx s n)), s') \<and> n \<noteq> c \<and> n < MAX_PROCESSES \<and>
    (n = 0 \<or> state (the_ctx s n) = READY) \<and> current s' = Some n \<and>
    ctx_list s' = (ctx_list s)[c := (the_ctx s c)\<lparr>state := UNUSED\<rparr>, n := (the_ctx s n)\<lparr>state := RUNNING\<rparr>]"
proof -
  note D = sched_invD [OF inv(1)]
  have c: "c < MAX_PROCESSES" "c < length (ctx_list s)" using D(1) D(3) [OF inv(2)] by simp_all
  define s2 where "s2 = upd_ctx c (state_update (\<lambda>_. UNUSED)) (os_pfn_free OS_PT_REG (ucast (os_stack_pfn (the_ctx s c))) s)"
  define s3 where "s3 = s2\<lparr>stats := (stats s2)\<lparr>num_processes := num_processes (stats s2) - 1\<rparr>\<rparr>"
  have t: "the_ctx s2 j = (if j = c then (the_ctx s c)\<lparr>state := UNUSED\<rparr> else the_ctx s j)"
    "the_ctx s3 j = the_ctx s2 j" for j
    using c(2) by (simp_all add: s2_def s3_def the_ctx_upd)
  have l3: "ctx_list s3 = (ctx_list s)[c := (the_ctx s c)\<lparr>state := UNUSED\<rparr>]"
    by (simp add: s3_def s2_def upd_ctx_def the_ctx_def)
  have "proc_exist s2"
    using other by (auto simp: proc_exist_def list_ex_iff t intro!: bexI [of _ i])
  then have ex: "do_exit s = switch_from c s3"
    by (simp add: do_exit_def get_current_ctx_def inv(2) Let_def s2_def [symmetric] s3_def [symmetric])
  define n where "n = next_ready c s3"
  have p: "pick_next_context c s3 = Inr (n, s3)"
    unfolding n_def using pick_next_context_eq [of s3 c c] D(2,4) inv(2) c(1) by (simp add: t)
  have n: "n < MAX_PROCESSES" "n = 0 \<or> is_ready s3 n"
    using next_ready_bounds [OF c(1), of s3] by (auto simp: n_def)
  then have nc: "n \<noteq> c" using inv(3) by (auto simp: is_ready_def t)
  have "n < length (ctx_list s3)" "aligned 3 (os_rsp (the_ctx s3 n))"
    using n(1) D(1) stacks [of n] nc by (simp_all add: l3 t)
  from schedule_resumes [OF this] obtain s' where
    "schedule n s3 = (Inr (Iret (regs (the_ctx s3 n)), s') :: (unit, 'a kernel_scheme) result)" "current s' = Some n"
    "ctx_list s' = (ctx_list s3)[n := (the_ctx s3 n)\<lparr>state := RUNNING\<rparr>]" by blast
  then show ?thesis
    by (intro exI [of _ n] exI [of _ s']) (use ex p n nc in \<open>auto simp: switch_from_def t l3 is_ready_def\<close>)
qed

theorem do_exit_switches_witness:
  "\<exists>s'. do_exit demo_user = Inr (Iret zero_regs, s')"
proof -
  have t: "os_rsp (the_ctx demo_user j) = 0 \<and> regs (the_ctx demo_user j) = zero_regs" if "j < MAX_PROCESSES" for j
    using demo_cases [OF that] sched_invD(1) [OF demo_inv(1)]
    by (auto simp: demo_user_def the_ctx_upd demo_ctxs) (auto simp: zero_ctx_def)
  have "state (the_ctx demo_user 2) = READY" by (simp add: demo_user_def the_ctx_upd demo_ctxs)
  then show ?thesis using do_exit_switches [OF demo_user_ctx(3,2), of 2] t by (auto simp del: One_nat_def)
qed

text \<open>A process that waits with a sleep counter of 0, as after \<open>sleep(0)\<close>,
  is still waiting after any number of timer interrupts: the counter is only examined after it is
  decremented from a positive value.\<close>

theorem sleep_zero_never_wakes:
  assumes "sched_inv (w 0)" "current (w 0) = Some c" "\<And>k. k < N \<Longrightarrow> tick_step mmu (w k) (w (Suc k))"
    and "0 < i" "i < MAX_PROCESSES" "i \<noteq> c" "state (the_ctx (w 0) i) = WAITING" "ticks_to_sleep (the_ctx (w 0) i) = 0"
  shows "state (the_ctx (w N) i) = WAITING \<and> current (w N) \<noteq> Some i"
proof -
  have "sched_inv (w k) \<and> (\<exists>c. c \<noteq> i \<and> current (w k) = Some c) \<and> state (the_ctx (w k) i) = WAITING \<and>
    ticks_to_sleep (the_ctx (w k) i) = 0" if "k \<le> N" for k
    using that
  proof (induction k)
    case (Suc k)
    then obtain c where k: "sched_inv (w k)" "c \<noteq> i" "current (w k) = Some c" "state (the_ctx (w k) i) = WAITING"
      "ticks_to_sleep (the_ctx (w k) i) = 0" by auto
    let ?u = "upd_ctx c (state_update (\<lambda>_. READY)) (sleep_account (w k))"
    have same: "sleep_tick (the_ctx (w k) i) = the_ctx (w k) i" by (rule sleep_tick_waiting(4) [OF k(4,5)])
    have nr: "\<not> is_ready ?u i"
      using k(2,4) assms(5) sched_invD(1) [OF k(1)] same by (simp add: is_ready_def the_ctx_upd the_ctx_sleep_account)
    obtain m where m: "sched_inv (w (Suc k))" "current (w (Suc k)) = Some m" "m = next_ready c ?u"
      and ne: "i \<noteq> m \<Longrightarrow> state (the_ctx (w (Suc k)) i) = state (sleep_tick (the_ctx (w k) i))"
      and ts: "ticks_to_sleep (the_ctx (w (Suc k)) i) = ticks_to_sleep (sleep_tick (the_ctx (w k) i))"
      by (rule tick_step_spec [OF k(1,3) assms(3)]) (use Suc.prems assms(5) k(2) that in \<open>auto 0 0\<close>)
    have "m \<noteq> i" using nr next_ready_bounds(2) [OF sched_invD(3) [OF k(1,3)], of ?u] m(3) assms(4) by auto
    then show ?case using m(1,2) ne ts same k(4,5) by auto
  qed (use assms in auto)
  from this [of N] show ?thesis by auto
qed

text \<open>A kernel in which context 2 sleeps for zero ticks.\<close>

definition demo_zero :: kernel where
  "demo_zero = upd_ctx 2 (\<lambda>ctx. ctx\<lparr>state := WAITING\<rparr>) demo"

theorem sleep_zero_never_wakes_witness:
  "\<exists>s'. tick_step (\<lambda>_ _ _. None) demo_zero s' \<and> state (the_ctx s' 2) = WAITING"
proof -
  have l: "length (ctx_list demo) = MAX_PROCESSES" using sched_invD(1) [OF demo_inv(1)] .
  have l0: "length (ctx_list demo_zero) = MAX_PROCESSES" using l by (simp add: demo_zero_def)
  have t: "the_ctx demo_zero i = (if i = 2 then (the_ctx demo 2)\<lparr>state := WAITING\<rparr> else the_ctx demo i)" for i
    using l by (simp add: demo_zero_def the_ctx_upd)
  have inv: "sched_inv demo_zero" "current demo_zero = Some 1"
  proof -
    show c: "current demo_zero = Some 1" using demo_inv by (simp add: demo_zero_def)
    show "sched_inv demo_zero"
      by (rule sched_invI) (use sched_invD [OF demo_inv(1)] l l0 demo_inv(2) c in \<open>auto simp: t demo_ctxs split: if_splits\<close>)
  qed
  have "ticks_to_alarm (the_ctx demo_zero i) = 0" if "i < MAX_PROCESSES" for i
    using demo_cases [OF that] by (auto simp: t demo_ctxs zero_ctx_def)
  then have "no_alarm demo_zero" using inv by (simp add: no_alarm_def)
  from no_alarm_tick [OF this] obtain rg s' where
    h: "handle_timer_tick (\<lambda>_ _ _. None) zero_regs demo_zero = Inr (Return rg, s')" by blast
  then have st: "tick_step (\<lambda>_ _ _. None) demo_zero s'"
    unfolding tick_step_def by (intro exI [of _ zero_regs] exI [of _ "mem demo_zero"] exI [of _ rg]) simp
  show ?thesis
    using sleep_zero_never_wakes [of "\<lambda>k. if k = 0 then demo_zero else s'" 1 1 "\<lambda>_ _ _. None" 2] inv st
    by (intro exI [of _ s'] conjI) (simp_all add: t demo_ctxs zero_ctx_def)
qed

end
