(* ===== verification/Teardown.thy ===== *)
theory Teardown
  imports Lifecycle Table_Frames Address_Space
begin

text \<open>
  The end of a process: what \<open>pt_cleanup\<close>, \<open>do_cleanup\<close> and the \<open>do_exit\<close> of the last process release.
  The geometry of the page lists is all that a release needs: \<open>do_cleanup\<close> runs after the first release
  of the kernel stack, whose second release breaks the invariant of the allocator.
\<close>

definition pools :: "'a page_state_scheme \<Rightarrow> bool" where
  "pools s \<longleftrightarrow> (\<forall>r. geometry r (pglists s r))"

lemma mm_inv_pools: "mm_inv s \<Longrightarrow> pools s"
  by (simp add: mm_inv_def pools_def pgl_inv_def)

lemma release_spec:
  fixes s :: "'a page_state_scheme"
  assumes "pools s" "own_page r f"
  shows "pools (os_pfn_free r f s)" "taken (os_pfn_free r f s) = taken s - {f}"
    "frame_of a \<notin> bmap_frames \<Longrightarrow> mem (os_pfn_free r f s) a = mem s a"
    "free_pages (pglists (os_pfn_free r f s) r') = free_pages (pglists s r') + (if r' = r then 1 else 0)"
    "os_pfn_free r f s = s\<lparr>mem := mem (os_pfn_free r f s), pglists := pglists (os_pfn_free r f s)\<rparr>"
    "last_free_pos (pglists (os_pfn_free r f s) r') = last_free_pos (pglists s r')"
proof -
  obtain k where k: "region_reserved r \<le> k" "k < region_pages r" "f = page_frame r k"
    using own_pageE [OF assms(2)] .
  have geo: "geometry r (pglists s r)" using assms(1) by (simp add: pools_def)
  have k0: "0 < k" using k(1) by (cases r) auto
  note s = os_pfn_free_in_region [OF geo k0 k(2), folded k(3)]
  show "pools (os_pfn_free r f s)" using assms(1) by (auto simp: s pools_def geometry_def)
  have "page_used (mem (os_pfn_free r f s)) r' j \<longleftrightarrow> \<not> (r' = r \<and> j = k) \<and> page_used (mem s) r' j"
    if "j < region_pages r'" for r' j
    using page_used_clear [OF geo k(2)] page_used_other_region(2) [OF geo k(2) that] that
    by (cases "r' = r") (auto simp: s)
  then show "taken (os_pfn_free r f s) = taken s - {f}"
    unfolding taken_def k(3) using page_frame_inj [OF _ k(2)] by auto
  show "mem (os_pfn_free r f s) a = mem s a" if "frame_of a \<notin> bmap_frames"
    using bmap_update_frame(2) [OF geo k(2) that] by (simp add: s)
  show "os_pfn_free r f s = s\<lparr>mem := mem (os_pfn_free r f s), pglists := pglists (os_pfn_free r f s)\<rparr>"
    by (simp add: s)
  show "free_pages (pglists (os_pfn_free r f s) r') = free_pages (pglists s r') + (if r' = r then 1 else 0)"
    "last_free_pos (pglists (os_pfn_free r f s) r') = last_free_pos (pglists s r')"
    by (simp_all add: s)
qed

subsection \<open>What a release changes\<close>

definition released :: "u64 set \<Rightarrow> (nat \<times> u64) list \<Rightarrow> 'a kernel_scheme \<Rightarrow> 'a kernel_scheme \<Rightarrow> bool" where
  "released W F s s' \<longleftrightarrow> pools s' \<and> taken s' = taken s - snd ` set F \<and>
     (\<forall>a. frame_of a \<notin> bmap_frames \<union> W \<longrightarrow> mem s' a = mem s a) \<and>
     (\<forall>r. free_pages (pglists s' r) =
        free_pages (pglists s r) + of_nat (length (filter (\<lambda>x. level_region (fst x) = r) F))) \<and>
     (\<forall>r. last_free_pos (pglists s' r) = last_free_pos (pglists s r)) \<and> same_kernel s s'"

lemma released_Nil: "pools s \<Longrightarrow> released W [] s s"
  by (simp add: released_def)

lemma releasedD:
  assumes "released W F s s'"
  shows "pools s'" "taken s' = taken s - snd ` set F"
    "frame_of a \<notin> bmap_frames \<Longrightarrow> frame_of a \<notin> W \<Longrightarrow> mem s' a = mem s a"
    "apic_base s' = apic_base s" "ctx_list s' = ctx_list s" "current s' = current s" "os_pmd_pfn s' = os_pmd_pfn s"
    "free_pages (pglists s' r) =
       free_pages (pglists s r) + of_nat (length (filter (\<lambda>x. level_region (fst x) = r) F))" "same_kernel s s'"
    "last_free_pos (pglists s' r) = last_free_pos (pglists s r)"
  using assms same_kernelD(1-3,6) [of s s'] unfolding released_def by simp_all

lemma released_trans:
  assumes "released W F s s1" "released V G s1 s2" "W \<subseteq> U" "V \<subseteq> U"
  shows "released U (F @ G) s s2"
proof -
  have "same_kernel s s2" by (rule same_kernel_trans [OF releasedD(9) [OF assms(1)] releasedD(9) [OF assms(2)]])
  moreover have "mem s2 a = mem s a" if "frame_of a \<notin> bmap_frames \<union> U" for a
    using that assms(3,4) releasedD(3) [OF assms(1), of a] releasedD(3) [OF assms(2), of a]
    by (metis Un_iff subsetD)
  moreover have "taken s2 = taken s - snd ` set (F @ G)"
    unfolding releasedD(2) [OF assms(2)] releasedD(2) [OF assms(1)] by auto
  moreover note releasedD(8,10) [OF assms(2)] releasedD(8,10) [OF assms(1)] releasedD(1) [OF assms(2)]
  ultimately show ?thesis unfolding released_def by simp
qed

lemma released_mono: "released W F s s' \<Longrightarrow> W \<subseteq> V \<Longrightarrow> released V F s s'"
  unfolding released_def by blast

lemma released_one:
  assumes "pools s" "own_page (level_region l) f"
  shows "released W [(l, f)] s (os_pfn_free (level_region l) f s)"
  unfolding released_def
proof (intro conjI allI impI)
  note R = release_spec [OF assms]
  show "pools (os_pfn_free (level_region l) f s)" by (rule R(1))
  show "taken (os_pfn_free (level_region l) f s) = taken s - snd ` set [(l, f)]" using R(2) by simp
  show "mem (os_pfn_free (level_region l) f s) a = mem s a" if "frame_of a \<notin> bmap_frames \<union> W" for a
    using R(3) that by simp
  show "free_pages (pglists (os_pfn_free (level_region l) f s) r) =
    free_pages (pglists s r) + of_nat (length (filter (\<lambda>x. level_region (fst x) = r) [(l, f)]))" for r
    by (simp add: R(4))
  show "last_free_pos (pglists (os_pfn_free (level_region l) f s) r) = last_free_pos (pglists s r)" for r
    by (rule R(6))
  show "same_kernel s (os_pfn_free (level_region l) f s)" by (subst R(5)) (rule same_kernel_pgl)
qed

text \<open>Clearing an entry of a table.\<close>

lemma released_clear:
  assumes "released W F s s'" "aligned 3 ea" "frame_of ea \<in> W" "frame_of ea \<notin> bmap_frames"
  shows "released W F s (s'\<lparr>mem := wr64 (mem s') ea 0\<rparr>)"
proof -
  have out: "wr64 (mem s') ea 0 a = mem s' a" if "frame_of a \<noteq> frame_of ea" for a
    by (rule wr64_frame [OF assms(2) _ that]) simp
  have "page_used (wr64 (mem s') ea 0) r k = page_used (mem s') r k" if "k < region_pages r" for r k
    by (rule page_used_outside [OF that]) (use out assms(4) in metis)
  then have t: "taken (s'\<lparr>mem := wr64 (mem s') ea 0\<rparr>) = taken s'" by (auto simp: taken_def)
  have "frame_of a \<noteq> frame_of ea" if "frame_of a \<notin> bmap_frames \<union> W" for a using that assms(3) by auto
  then have "mem (s'\<lparr>mem := wr64 (mem s') ea 0\<rparr>) a = mem s a" if "frame_of a \<notin> bmap_frames \<union> W" for a
    using that out releasedD(3) [OF assms(1), of a] by simp
  moreover have "same_kernel s (s'\<lparr>mem := wr64 (mem s') ea 0\<rparr>)"
    by (rule same_kernel_trans [OF releasedD(9) [OF assms(1)] same_kernel_write])
  ultimately show ?thesis using releasedD(1,2,8,10) [OF assms(1)] t unfolding released_def by (simp add: pools_def)
qed

subsection \<open>The teardown\<close>

definition apic_outside :: "'a kernel_scheme \<Rightarrow> bool" where
  "apic_outside s \<longleftrightarrow> (\<forall>r. \<not> own_page r (drop_bit PAGE_SHIFT (apic_base s)))"

lemma apic_outsideD: "apic_outside s \<Longrightarrow> own_page r f \<Longrightarrow> \<not> is_apic_base f s"
  by (auto simp: apic_outside_def is_apic_base_def)

lemma apic_outside_released: "released W F s s' \<Longrightarrow> apic_outside s' = apic_outside s"
  by (simp add: apic_outside_def releasedD(4))

text \<open>After the subtree of one entry is gone and the entry cleared, the subtrees of the other entries
  are as before.\<close>

lemma slot_frames_later:
  assumes "released (table_frames F) F s s'" "frames_ok F" "frames_ok (slot_frames (mem s) l p j)"
    and "snd ` set F \<inter> snd ` set (slot_frames (mem s) l p j) = {}"
    and "p \<notin> snd ` set F" "p \<notin> snd ` set (slot_frames (mem s) l p j)" "own_page OS_PT_REG p"
    and "i < 512" "j < 512" "i \<noteq> j"
  shows "slot_frames (wr64 (mem s') (entry_addr (osmap p) (of_nat i)) 0) l p j = slot_frames (mem s) l p j"
proof -
  let ?m = "wr64 (mem s') (entry_addr (osmap p) (of_nat i)) 0"
  note small = own_page_small [OF assms(7)]
  note ea = slot_addr [OF small assms(8)]
  have same: "?m a = mem s a" if "frame_of a \<noteq> p" "frame_of a \<notin> bmap_frames" "frame_of a \<notin> table_frames F" for a
    using wr64_frame [OF ea(1), of 12 a] releasedD(3) [OF assms(1) that(2,3)] that(1) ea(2) by simp
  have "entry_addr (osmap p) (of_nat i) \<noteq> entry_addr (osmap p) (of_nat j)"
    using entry_addr_inj [of "osmap p" "osmap p" "of_nat i" "of_nat j"] slot_unat assms(8-10)
    by (metis aligned_osmap order_refl)
  then have "entry_at ?m p j = entry_at (mem s') p j"
    unfolding entry_at_def by (rule rd64_wr64_other [OF ea(1) slot_addr(1) [OF small assms(9)]])
  also have "\<dots> = entry_at (mem s) p j"
    using releasedD(3) [OF assms(1)] assms(5) table_frames_sub [of F] own_page_not_bmap [OF assms(7)]
    by (intro entry_at_cong [OF small assms(9)]) blast
  finally have e: "entry_at ?m p j = entry_at (mem s) p j" .
  show ?thesis
  proof (cases "entry_at (mem s) p j AND 1 = 0")
    case False
    let ?q = "drop_bit 12 (entry_at (mem s) p j)"
    have sf: "slot_frames (mem s) l p j = pt_frames (mem s) l ?q" using False by (simp add: Let_def)
    note ok = assms(3,4,6) [unfolded sf]
    have "pt_frames ?m l ?q = pt_frames (mem s) l ?q"
    proof (rule pt_frames_cong [OF ok(1)], rule same)
      fix a assume a: "frame_of a \<in> table_frames (pt_frames (mem s) l ?q)"
      then have f: "frame_of a \<in> snd ` set (pt_frames (mem s) l ?q)" using table_frames_sub by blast
      show "frame_of a \<noteq> p" using f ok(3) by blast
      show "frame_of a \<notin> table_frames F" using f ok(2) table_frames_sub [of F] by blast
      show "frame_of a \<notin> bmap_frames"
        using f ok(1) own_page_not_bmap unfolding frames_ok_def by fastforce
    qed
    then show ?thesis using e by (simp add: Let_def)
  qed (use e in \<open>simp add: Let_def\<close>)
qed

lemma pt_entries_releases:
  fixes s :: "'a kernel_scheme"
  assumes IH: "\<And>(s :: 'a kernel_scheme) q. \<lbrakk>pools s; frames_ok (pt_frames (mem s) n q); apic_outside s\<rbrakk> \<Longrightarrow>
      \<exists>s'. pt_cleanup fuel q (int n) s = Inr s' \<and> released (table_frames (pt_frames (mem s) n q)) (pt_frames (mem s) n q) s s'"
    and p: "own_page OS_PT_REG p"
  assumes "pools s" "frames_ok (concat (map (slot_frames (mem s) n p) is))"
    "p \<notin> snd ` set (concat (map (slot_frames (mem s) n p) is))" "distinct is" "set is \<subseteq> {..<512}" "apic_outside s"
  defines "F \<equiv> concat (map (slot_frames (mem s) n p) is)"
  shows "\<exists>s'. pt_entries fuel (osmap p) (int (Suc n)) is s = Inr s' \<and> released (insert p (table_frames F)) F s s'"
  using assms(3-8) unfolding F_def
proof (induction "is" arbitrary: s)
  case Nil
  then show ?case by (simp add: released_Nil)
next
  case (Cons i "is")
  let ?e = "entry_at (mem s) p i"
  let ?G = "concat (map (slot_frames (mem s) n p) is)"
  show ?case
  proof (cases "?e AND 1 = 0")
    case True
    then have "slot_frames (mem s) n p i = []" by simp
    with Cons.IH [of s] Cons.prems True show ?thesis by (simp add: entry_at_def Let_def)
  next
    case False
    let ?F = "pt_frames (mem s) n (drop_bit 12 ?e)"
    have sf: "slot_frames (mem s) n p i = ?F" using False by (simp add: Let_def)
    have cc: "concat (map (slot_frames (mem s) n p) (i # is)) = ?F @ ?G" by (simp only: list.map concat.simps sf)
    note pr = Cons.prems [unfolded cc]
    have ok: "frames_ok ?F" "frames_ok ?G" "snd ` set ?F \<inter> snd ` set ?G = {}" using pr(2) by simp_all
    obtain s1 where s1: "pt_cleanup fuel (drop_bit 12 ?e) (int n) s = Inr s1" "released (table_frames ?F) ?F s s1"
      using IH [OF pr(1) ok(1) pr(6)] by blast
    let ?s2 = "s1\<lparr>mem := wr64 (mem s1) (entry_addr (osmap p) (of_nat i)) 0\<rparr>"
    note ea = slot_addr [OF own_page_small [OF p], of i]
    have R1: "released (insert p (table_frames ?F)) ?F s s1"
      by (rule released_mono [OF s1(2)]) blast
    have R: "released (insert p (table_frames ?F)) ?F s ?s2"
      by (rule released_clear [OF R1]) (use ea pr(5) own_page_not_bmap [OF p] in auto)
    have m2: "mem ?s2 = wr64 (mem s1) (entry_addr (osmap p) (of_nat i)) 0" by simp
    have later: "slot_frames (mem ?s2) n p j = slot_frames (mem s) n p j" if j: "j \<in> set is" for j
    proof -
      have sub: "set (slot_frames (mem s) n p j) \<subseteq> set ?G" using j unfolding set_concat set_map by blast
      have "slot_frames (wr64 (mem s1) (entry_addr (osmap p) (of_nat i)) 0) n p j = slot_frames (mem s) n p j"
        by (rule slot_frames_later [OF s1(2) ok(1) frames_ok_sub [OF ok(2) j]])
          (use ok(3) sub pr(3-5) j p in \<open>auto simp del: split_paired_All\<close>)
      then show ?thesis by (simp only: m2)
    qed
    then have G: "concat (map (slot_frames (mem ?s2) n p) is) = ?G" by (metis (no_types, lifting) map_eq_conv)
    obtain s3 where s3: "pt_entries fuel (osmap p) (int (Suc n)) is ?s2 = Inr s3" "released (insert p (table_frames ?G)) ?G ?s2 s3"
      using Cons.IH [of ?s2, unfolded G] releasedD(1) [OF R] ok(2) pr(3-6) apic_outside_released [OF R] by auto
    have "pt_entries fuel (osmap p) (int (Suc n)) (i # is) s = Inr s3"
      using s1(1) s3(1) False by (simp add: entry_at_def Let_def)
    moreover have "released (insert p (table_frames (?F @ ?G))) (?F @ ?G) s s3"
      by (rule released_trans [OF R s3(2)]) auto
    ultimately show ?thesis unfolding cc by blast
  qed
qed

lemma pt_cleanup_releases:
  fixes s :: "'a kernel_scheme"
  assumes "pools s" "frames_ok (pt_frames (mem s) l p)" "apic_outside s" "l < fuel"
  shows "\<exists>s'. pt_cleanup fuel p (int l) s = Inr s' \<and>
    released (table_frames (pt_frames (mem s) l p)) (pt_frames (mem s) l p) s s'"
  using assms
proof (induction l arbitrary: fuel p s)
  case 0
  then have "own_page USER_REG p" by (simp add: level_region_def)
  then have "pt_cleanup fuel p (int 0) s = Inr (os_pfn_free USER_REG p s)"
    using 0(4) apic_outsideD [OF 0(3)] by (cases fuel) simp_all
  then show ?case using released_one [of s 0 p] 0(1,2) by (simp add: level_region_def)
next
  case (Suc l)
  obtain n where n: "fuel = Suc n" "l < n" using Suc.prems(4) by (cases fuel) auto
  let ?F = "concat (map (slot_frames (mem s) l p) (table_slots (Suc l)))"
  have F: "pt_frames (mem s) (Suc l) p = ?F @ [(Suc l, p)]" by (simp only: pt_frames.simps)
  have p: "own_page OS_PT_REG p" using frames_ok_Suc(1) [OF Suc.prems(2)] .
  have ok: "frames_ok ?F" "p \<notin> snd ` set ?F" using Suc.prems(2) unfolding F by simp_all
  have sl: "distinct (table_slots (Suc l))" "set (table_slots (Suc l)) \<subseteq> {..<512}"
    using table_slots_less by (auto simp: table_slots_def)
  obtain s1 where s1: "pt_entries n (osmap p) (int (Suc l)) (table_slots (Suc l)) s = Inr s1"
      "released (insert p (table_frames ?F)) ?F s s1"
    using pt_entries_releases [OF Suc.IH [OF _ _ _ n(2)] p Suc.prems(1) ok sl Suc.prems(3)] by blast
  have ap: "\<not> is_apic_base p s1" "\<not> is_apic_base p s"
    using apic_outsideD [OF _ p] apic_outside_released [OF s1(2)] Suc.prems(3) by simp_all
  have slots: "[if int (Suc l) = 3 then 1 else 0..<512] = table_slots (Suc l)" by (simp add: table_slots_def)
  have "pt_cleanup fuel p (int (Suc l)) s = Inr (os_pfn_free OS_PT_REG p s1)"
    using s1(1) ap unfolding n(1) pt_cleanup.simps slots by simp
  moreover have one: "released {} [(Suc l, p)] s1 (os_pfn_free OS_PT_REG p s1)"
    using released_one [OF releasedD(1) [OF s1(2)], of "Suc l" p "{}"] p by (simp add: level_region_def)
  have "released (insert p (table_frames ?F)) (?F @ [(Suc l, p)]) s (os_pfn_free OS_PT_REG p s1)"
    by (rule released_trans [OF s1(2) one]) auto
  ultimately show ?case unfolding F by simp
qed

subsection \<open>The last process leaves\<close>

text \<open>Where the large page of the interrupt controller is entered: the tables on the way belong to the
  page-table region.\<close>

definition apic_mapped :: "memory \<Rightarrow> u64 \<Rightarrow> u64 \<Rightarrow> u64 \<Rightarrow> bool" where
  "apic_mapped m p base ea \<longleftrightarrow>
     (let address = push_bit 21 (drop_bit 21 base);
          pgde = entry_at m p (unat (pgd_index address));
          pude = entry_at m (drop_bit 12 pgde) (unat (pud_index address))
      in pgde AND 1 \<noteq> 0 \<and> pude AND 1 \<noteq> 0 \<and> own_page OS_PT_REG (drop_bit 12 pgde) \<and> own_page OS_PT_REG (drop_bit 12 pude) \<and>
         ea = entry_addr (osmap (drop_bit 12 pude)) (pmd_index address) \<and> rd64 m ea AND 1 \<noteq> 0)"

lemma bit0_and: "(e :: u64) AND 1 \<noteq> 0 \<longleftrightarrow> e AND 1 = 1"
  by (simp add: and_one_eq)

lemma remove_apic_eq:
  assumes "apic_mapped (mem s) p (apic_base s) ea"
  shows "remove_apic_mapping p s = Inr (s\<lparr>mem := wr64 (mem s) ea 0\<rparr>)"
  using assms unfolding apic_mapped_def remove_apic_mapping_def Let_def bit0_and
  by (elim conjE, hypsubst) (simp add: entry_at_def osmap_def)

lemma apic_mapped_facts:
  assumes "apic_mapped m p base ea"
  obtains t where "own_page OS_PT_REG t" "aligned 3 ea" "frame_of ea = t"
  using assms unfolding apic_mapped_def Let_def
  by (metis aligned_osmap entry_addr_aligned entry_addr_frame frame_of_osmap index_less(3) order_refl own_page_small)

text \<open>The release of pages changes neither.\<close>

lemma apic_mapped_cong:
  assumes "apic_mapped m p base ea" "own_page OS_PT_REG p" "\<And>a. own_page OS_PT_REG (frame_of a) \<Longrightarrow> m' a = m a"
  shows "apic_mapped m' p base ea"
proof -
  have e: "entry_at m' q i = entry_at m q i" if "own_page OS_PT_REG q" "i < 512" for q i
    by (rule entry_at_cong [OF own_page_small [OF that(1)] that(2)]) (use that(1) assms(3) in auto)
  have ea: "rd64 m' ea = rd64 m ea"
    by (rule apic_mapped_facts [OF assms(1)], rule rd64_cong [where n = 12])
      (use assms(3) in auto)
  show ?thesis using assms(1,2) unfolding apic_mapped_def Let_def ea
    by (elim conjE, intro conjI) (assumption | simp add: e)+
qed

lemma released_printf:
  "released W F s s' \<Longrightarrow> released W F s (printf f as s')" "released W F (printf f as s) s' \<Longrightarrow> released W F s s'"
proof -
  have "pools (printf f as s') = pools s'" "taken (printf f as s') = taken s'" "taken (printf f as s) = taken s"
    by (simp_all add: pools_def taken_def)
  moreover note k = same_kernel_trans [OF _ same_kernel_printf, of s s' f as] same_kernel_trans [OF same_kernel_printf, of f as s s']
  ultimately show "released W F s s' \<Longrightarrow> released W F s (printf f as s')" "released W F (printf f as s) s' \<Longrightarrow> released W F s s'"
    using k unfolding released_def by simp_all
qed

lemma do_cleanup_releases:
  fixes s :: "'a kernel_scheme"
  assumes c: "current s = Some c" "c < length (ctx_list s)" and inv: "pools s" "apic_outside s"
    and own: "own_page OS_PT_REG (ucast (os_stack_pfn (the_ctx s c)))" "own_page OS_PT_REG (os_pmd_pfn s)"
    and p: "apic_mapped (mem s) (ucast (pgd (the_ctx s c))) (apic_base s) ea"
    and F: "frames_ok (pt_frames (wr64 (mem s) ea 0) 4 (ucast (pgd (the_ctx s c))))"
  defines "F \<equiv> pt_frames (wr64 (mem s) ea 0) 4 (ucast (pgd (the_ctx s c)))"
  shows "\<exists>s'. do_cleanup s = Inr (Shell, s') \<and> current s' = None \<and>
    ctx_list s' = (ctx_list s)[c := (the_ctx s c)\<lparr>state := UNUSED\<rparr>] \<and>
    taken s' = taken s - {ucast (os_stack_pfn (the_ctx s c)), os_pmd_pfn s} - snd ` set F \<and>
    (\<forall>r. free_pages (pglists s' r) = free_pages (pglists s r) +
       of_nat (length (filter (\<lambda>x. level_region (fst x) = r) F)) + (if r = OS_PT_REG then 2 else 0))"
proof -
  let ?ctx = "the_ctx s c" and ?p = "ucast (pgd (the_ctx s c)) :: u64"
  define s1 where "s1 = printf ''Cleaned up %s process\<newline>'' [Str (Some (ctx_name ?ctx))] s"
  define s2 where "s2 = os_pfn_free OS_PT_REG (ucast (os_stack_pfn ?ctx)) s1"
  define s3 where "s3 = printf ''GemOS shell again!\<newline>'' [Str (Some (ctx_name ?ctx))] s2"
  define s4 where "s4 = s3\<lparr>mem := wr64 (mem s3) ea 0\<rparr>"
  obtain t where t: "own_page OS_PT_REG t" "aligned 3 ea" "frame_of ea = t" by (rule apic_mapped_facts [OF p])
  have "released {t} [(1, ucast (os_stack_pfn ?ctx))] s1 s2"
    unfolding s2_def using released_one [of s1 1 "ucast (os_stack_pfn ?ctx)" "{t}"] inv(1) own(1)
    by (simp add: level_region_def pools_def s1_def)
  then have R3: "released {t} [(1, ucast (os_stack_pfn ?ctx))] s s3"
    unfolding s3_def using released_printf(1) released_printf(2) [of _ _ _ _ s, folded s1_def] s1_def by blast
  have R4: "released {t} [(1, ucast (os_stack_pfn ?ctx))] s s4"
    unfolding s4_def by (rule released_clear [OF R3 t(2)]) (use t own_page_not_bmap in auto)
  have "mem s3 a = mem s a" if "frame_of a \<notin> bmap_frames" for a
    using that unfolding s3_def mem_printf s2_def
    using release_spec(3) [of s1 OS_PT_REG "ucast (os_stack_pfn ?ctx)" a] inv(1) own(1) by (simp add: s1_def pools_def)
  note out = this
  have pp: "own_page OS_PT_REG ?p" using F frames_ok_Suc(1) [of "wr64 (mem s) ea 0" 3 ?p] by (simp add: numeral_eq_Suc)
  have am: "apic_mapped (mem s3) ?p (apic_base s3) ea"
    unfolding releasedD(4) [OF R3] by (rule apic_mapped_cong [OF p pp out [OF own_page_not_bmap]])
  have "pt_frames (mem s4) 4 ?p = F" unfolding F_def
  proof (rule pt_frames_cong [OF F])
    fix a assume "frame_of a \<in> table_frames (pt_frames (wr64 (mem s) ea 0) 4 ?p)"
    then have "frame_of a \<notin> bmap_frames" using own_page_not_bmap table_frames_own [OF F] by blast
    from wr64_same [of "mem s3" a "mem s", OF out [OF this]] show "mem s4 a = wr64 (mem s) ea 0 a" by (simp add: s4_def)
  qed
  note F4 = this
  have "apic_outside s4" using apic_outside_released [OF R4] inv(2) by simp
  from pt_cleanup_releases [of s4 4 ?p 5, unfolded F4, OF releasedD(1) [OF R4] F [folded F_def] this]
  obtain s5 where s5: "pt_cleanup 5 ?p 4 s4 = Inr s5" "released (table_frames F) F s4 s5" by auto
  define s6 where "s6 = os_pfn_free OS_PT_REG (os_pmd_pfn s5) s5"
  have "released {} [(1, os_pmd_pfn s)] s5 s6"
    using released_one [of s5 1 "os_pmd_pfn s" "{}"] releasedD(1,7) [OF s5(2)] releasedD(7) [OF R4] own(2)
    by (simp add: s6_def level_region_def)
  from released_trans [OF released_trans [OF R4 s5(2) subset_UNIV subset_UNIV] this subset_UNIV subset_UNIV]
  have R: "released UNIV (([(1, ucast (os_stack_pfn ?ctx))] @ F) @ [(1, os_pmd_pfn s)]) s s6" .
  have lr: "level_region (Suc 0) = OS_PT_REG" by (simp add: level_region_def)
  let ?s' = "(upd_ctx c (state_update (\<lambda>_. UNUSED)) s6)\<lparr>current := None\<rparr>"
  have "do_cleanup s = Inr (Shell, ?s')"
    using c(1) s5(1) remove_apic_eq [OF am]
    by (simp add: do_cleanup_def Let_def s1_def [symmetric] s2_def [symmetric] s3_def [symmetric] s4_def [symmetric] s6_def [symmetric])
  moreover have "ctx_list ?s' = (ctx_list s)[c := ?ctx\<lparr>state := UNUSED\<rparr>]"
    using releasedD(5) [OF R] by (simp add: upd_ctx_def the_ctx_def)
  moreover have "taken ?s' = taken s - {ucast (os_stack_pfn ?ctx), os_pmd_pfn s} - snd ` set F"
    using releasedD(2) [OF R] by (auto simp: taken_def)
  moreover have "free_pages (pglists ?s' r) = free_pages (pglists s r) +
       of_nat (length (filter (\<lambda>x. level_region (fst x) = r) F)) + (if r = OS_PT_REG then 2 else 0)" for r
    using releasedD(8) [OF R, of r] by (cases "r = OS_PT_REG") (simp_all add: lr upd_ctx_def eq_commute [of OS_PT_REG])
  ultimately show ?thesis by (intro exI [of _ ?s']) simp
qed

text \<open>\<open>do_exit\<close> of the last process releases its kernel stack, and then once more in \<open>do_cleanup\<close>.\<close>

lemma do_exit_last:
  fixes s :: "'a kernel_scheme"
  assumes c: "current s = Some c" "c < length (ctx_list s)" and inv: "pools s" "apic_outside s"
    and alone: "\<And>i. 0 < i \<Longrightarrow> i < MAX_PROCESSES \<Longrightarrow> i \<noteq> c \<Longrightarrow> state (the_ctx s i) = UNUSED"
    and own: "own_page OS_PT_REG (ucast (os_stack_pfn (the_ctx s c)))" "own_page OS_PT_REG (os_pmd_pfn s)"
    and p: "apic_mapped (mem s) (ucast (pgd (the_ctx s c))) (apic_base s) ea"
    and F: "frames_ok (pt_frames (wr64 (mem s) ea 0) 4 (ucast (pgd (the_ctx s c))))"
  defines "F \<equiv> pt_frames (wr64 (mem s) ea 0) 4 (ucast (pgd (the_ctx s c)))"
  shows "\<exists>s'. do_exit s = Inr (Shell, s') \<and> current s' = None \<and>
    ctx_list s' = (ctx_list s)[c := (the_ctx s c)\<lparr>state := UNUSED\<rparr>] \<and>
    taken s' = taken s - {ucast (os_stack_pfn (the_ctx s c)), os_pmd_pfn s} - snd ` set F \<and>
    (\<forall>r. free_pages (pglists s' r) = free_pages (pglists s r) +
       of_nat (length (filter (\<lambda>x. level_region (fst x) = r) F)) + (if r = OS_PT_REG then 3 else 0))"
proof -
  let ?ctx = "the_ctx s c" and ?p = "ucast (pgd (the_ctx s c)) :: u64"
  define s1 where "s1 = os_pfn_free OS_PT_REG (ucast (os_stack_pfn ?ctx)) s"
  define s2 where "s2 = upd_ctx c (state_update (\<lambda>_. UNUSED)) s1"
  define s3 where "s3 = s2\<lparr>stats := (stats s2)\<lparr>num_processes := num_processes (stats s2) - 1\<rparr>\<rparr>"
  note R1 = release_spec [OF inv(1) own(1), folded s1_def]
  have k1: "same_kernel s s1" by (subst R1(5)) (rule same_kernel_pgl)
  note K = same_kernelD [OF k1]
  have t: "the_ctx s3 c = ?ctx\<lparr>state := UNUSED\<rparr>" "current s3 = Some c" "mem s3 = mem s1" "pglists s3 = pglists s1"
    "apic_base s3 = apic_base s" "os_pmd_pfn s3 = os_pmd_pfn s" "ctx_list s3 = (ctx_list s)[c := ?ctx\<lparr>state := UNUSED\<rparr>]"
    using c K by (simp_all add: s3_def s2_def upd_ctx_def the_ctx_def)
  have "\<not> proc_exist s2"
    using alone c(2) K(8) by (auto simp: proc_exist_def list_ex_iff s2_def the_ctx_upd K(1))
  then have ex: "do_exit s = bind_result (do_cleanup s3) (\<lambda>_. switch_from c)"
    by (simp add: do_exit_def get_current_ctx_def c(1) Let_def s1_def [symmetric] s2_def [symmetric] s3_def [symmetric])
  have pp: "own_page OS_PT_REG ?p" using F frames_ok_Suc(1) [of "wr64 (mem s) ea 0" 3 ?p] by (simp add: numeral_eq_Suc)
  have F3: "pt_frames (wr64 (mem s3) ea 0) 4 ?p = F" unfolding F_def
  proof (rule pt_frames_cong [OF F])
    fix a assume "frame_of a \<in> table_frames (pt_frames (wr64 (mem s) ea 0) 4 ?p)"
    then have "frame_of a \<notin> bmap_frames" using own_page_not_bmap table_frames_own [OF F] by blast
    from wr64_same [of "mem s1" a "mem s", OF R1(3) [OF this]] show "wr64 (mem s3) ea 0 a = wr64 (mem s) ea 0 a" by (simp add: t(3))
  qed
  have am: "apic_mapped (mem s3) ?p (apic_base s3) ea"
    unfolding t(3,5) by (rule apic_mapped_cong [OF p pp R1(3) [OF own_page_not_bmap]])
  have "\<exists>s'. do_cleanup s3 = Inr (Shell, s') \<and> current s' = None \<and>
    ctx_list s' = (ctx_list s3)[c := (the_ctx s3 c)\<lparr>state := UNUSED\<rparr>] \<and>
    taken s' = taken s3 - {ucast (os_stack_pfn (the_ctx s3 c)), os_pmd_pfn s3} - snd ` set (pt_frames (wr64 (mem s3) ea 0) 4 (ucast (pgd (the_ctx s3 c)))) \<and>
    (\<forall>r. free_pages (pglists s' r) = free_pages (pglists s3 r) +
       of_nat (length (filter (\<lambda>x. level_region (fst x) = r) (pt_frames (wr64 (mem s3) ea 0) 4 (ucast (pgd (the_ctx s3 c)))))) + (if r = OS_PT_REG then 2 else 0))"
    by (rule do_cleanup_releases)
      (use c inv R1(1) own am F F3 in \<open>simp_all add: t pools_def apic_outside_def F_def\<close>)
  then obtain s' where s': "do_cleanup s3 = Inr (Shell, s')" "current s' = None"
    "ctx_list s' = (ctx_list s)[c := ?ctx\<lparr>state := UNUSED\<rparr>]"
    "taken s' = taken s3 - {ucast (os_stack_pfn ?ctx), os_pmd_pfn s} - snd ` set F"
    "\<And>r. free_pages (pglists s' r) = free_pages (pglists s1 r) +
       of_nat (length (filter (\<lambda>x. level_region (fst x) = r) F)) + (if r = OS_PT_REG then 2 else 0)"
    using F3 t by auto
  have "taken s3 = taken s - {ucast (os_stack_pfn ?ctx)}" using R1(2) t(3) by (simp add: taken_def)
  then have "taken s' = taken s - {ucast (os_stack_pfn ?ctx), os_pmd_pfn s} - snd ` set F" using s'(4) by auto
  moreover have "free_pages (pglists s' r) = free_pages (pglists s r) +
       of_nat (length (filter (\<lambda>x. level_region (fst x) = r) F)) + (if r = OS_PT_REG then 3 else 0)" for r
    using s'(5) [of r] R1(4) [of r] by simp
  ultimately show ?thesis using ex s'(1-3) by (intro exI [of _ s']) (simp add: result_simps)
qed

end
