(* ===== verification/Program_Run.thy ===== *)
theory Program_Run
  imports Teardown Space_Build
begin

text \<open>
  The start of a program and the exit of the last one: which frames \<open>exec_init\<close> takes from the page
  allocator, and that \<open>do_exit\<close> gives back the frames of the process, whatever its tree has become.
\<close>

subsection \<open>\<open>install_os_pts\<close>\<close>

lemma rooted_outside:
  fixes s :: "'a kernel_scheme"
  assumes r: "rooted B p u J s" and f: "f \<in> B" "f \<notin> bmap_frames" "\<And>a. frame_of a \<noteq> f \<Longrightarrow> m a = mem s a"
  shows "rooted B p u J (s\<lparr>mem := m\<rparr>)" "stock r n (s\<lparr>mem := m\<rparr>) = stock r n s"
proof -
  note R = rootedD [OF r]
  have "(\<lambda>_. m) (mem s) a = mem s a" if "frame_of a \<in> bmap_frames" for a using f(2) that by (intro f(3)) auto
  note U = mem_update_outside [OF buildsD(1) [OF R(1)] this]
  have ne: "t \<noteq> f" if "(l, t) \<in> set (pt_frames (mem s) 4 p)" for l t using node_facts(5) [OF R(1) that] f(1) by auto
  have T: "pt_frames m 4 p = pt_frames (mem s) 4 p"
  proof (rule pt_frames_cong [OF buildsD(3) [OF R(1)]])
    fix a assume "frame_of a \<in> table_frames (pt_frames (mem s) 4 p)"
    then show "m a = mem s a" using ne f(3) by (auto simp: table_frames_def)
  qed
  have e: "entry_at m t i = entry_at (mem s) t i" if "(l, t) \<in> set (pt_frames (mem s) 4 p)" "i < 512" for l t i
    by (rule entry_at_cong [OF node_facts(2) [OF R(1) that(1)] that(2)]) (use ne [OF that(1)] f(3) in auto)
  show "stock r n (s\<lparr>mem := m\<rparr>) = stock r n s" by (rule U(3))
  show "rooted B p u J (s\<lparr>mem := m\<rparr>)"
    using r U(1,2) e [OF R(6), of 0] e [OF R(4)] by (simp add: rooted_def builds_def T)
qed

lemma os_map_loop_frame:
  assumes "unat f < 131072" "n \<le> 512" "frame_of a \<noteq> f"
  shows "os_map_loop (osmap f) fl n m a = m a"
  using assms(2)
proof (induction n)
  case (Suc n)
  then show ?case using entry_write_other [OF assms(1) _ assms(3), of n] by (simp add: os_map_loop_def)
qed (simp add: os_map_loop_def)

lemma same_builds:
  "rooted B p u J (s\<lparr>os_pmd_pfn := x\<rparr>) = rooted B p u J s" "stock r n (s\<lparr>os_pmd_pfn := x\<rparr>) = stock r n s"
  by (simp_all add: rooted_def builds_def mm_inv_def taken_def stock_def stock_set_def)

text \<open>The table for the kernel's own memory hangs below slot 0 of \<open>u\<close>; the frame is not one of the tree that the
  teardown visits.\<close>

lemma os_table_rooted:
  fixes s :: "'a kernel_scheme"
  assumes r: "rooted B p u J s" "stock OS_PT_REG (Suc n) s" and al: "os_pfn_alloc OS_PT_REG s = (q, s1)"
  defines "s' \<equiv> s1\<lparr>mem := wr64 (mem s1) (osmap u) (osmap (ucast q) OR 3)\<rparr>"
  shows "rooted (insert (ucast q) B) p u (insert 0 J) s'" "stock OS_PT_REG n s'" "same_kernel s s'"
    "own_page OS_PT_REG (ucast q)" "ucast q \<notin> taken s"
proof -
  note R = rootedD [OF r(1)] and U = rootedD(4) [OF r(1)]
  note inv = buildsD(1) [OF R(1)] and can = stock_can(1) [OF r(2)] and nt = node_facts [OF R(1) U]
  let ?v = "osmap (ucast q) OR 3"
  have e0: "entry_addr (osmap u) (of_nat 0) = osmap u" by (simp add: entry_addr_def)
  note ea = slot_addr [OF nt(2), of 0, unfolded e0]
  show own: "own_page OS_PT_REG (ucast q)" by (rule alloc_own_page [OF inv can al])
  have s': "s' = mem_update (\<lambda>m. wr64 m (osmap u) ?v) s1" by (cases s1) (simp add: s'_def)
  have fe: "frame_of (osmap u) \<in> taken s" "frame_of (osmap u) \<notin> bmap_frames" and al3: "aligned 3 (osmap u)"
    using ea nt by simp_all
  note H = pt_store.hook(1-3) [OF inv r(2) al al3 fe, where v = ?v, folded s']
      pt_store.hook(4,5) [OF inv r(2) al al3 fe]
      pt_store.hook(7) [OF inv r(2) al al3 fe, where v = ?v, folded s']
  show "stock OS_PT_REG n s'" by (rule H(2))
  show "ucast q \<notin> taken s" by (rule H(4))
  show "same_kernel s s'" unfolding s' by (rule same_kernel_trans [OF same_kernel_alloc [OF inv can al] same_kernel_update])
  have same: "mem s' a = wr64 (mem s) (entry_addr (osmap u) (of_nat 0)) ?v a" if "frame_of a \<in> taken s" "frame_of a \<notin> bmap_frames" for a
    unfolding e0 by (rule H(6) [OF that])
  have "mset (pt_frames (mem s') 4 p) = mset (pt_frames (mem s) 4 p)"
  proof (rule pt_frames_skip [OF buildsD(3) [OF R(1)] U same])
    fix a assume "frame_of a \<in> table_frames (pt_frames (mem s) 4 p)"
    then obtain l where "(l, frame_of a) \<in> set (pt_frames (mem s) 4 p)" by (auto simp: table_frames_def)
    from node_facts(3,4) [OF R(1) this] show "frame_of a \<in> taken s" "frame_of a \<notin> bmap_frames" .
  qed
  then have st: "set (pt_frames (mem s') 4 p) = set (pt_frames (mem s) 4 p)" "frames_ok (pt_frames (mem s') 4 p)"
    using frames_ok_mset buildsD(3) [OF R(1)] mset_eq_setD by metis+
  have "ucast q \<notin> snd ` set (pt_frames (mem s) 4 p)" using H(4) buildsD(4) [OF R(1)] by simp
  then have b: "builds (insert (ucast q) B) p s'"
    using buildsD [OF R(1)] H(1,3) st by (auto simp: builds_def)
  have up: "u \<noteq> p" using node_inj [OF R(1) U] R(6) by fastforce
  show "rooted (insert (ucast q) B) p u (insert 0 J) s'"
    by (rule rooted_keep(1) [OF r(1) U _ up b _ same]) (simp_all add: st)
qed

text \<open>Writing back what an entry holds changes nothing.\<close>

lemma rd32_bytes:
  "ucast (rd32 m a) = m a" "ucast (drop_bit 8 (rd32 m a)) = m (a + 1)"
  "ucast (drop_bit 16 (rd32 m a)) = m (a + 2)" "ucast (drop_bit 24 (rd32 m a)) = m (a + 3)"
  unfolding rd32_def by (rule bit_word_eqI; force simp: bit_simps dest: bit_imp_le_length)+

lemma wr32_rd32: "wr32 m a (rd32 m a) = m"
  by (rule ext) (simp add: wr32_def rd32_bytes)

lemma rd64_halves: "ucast (rd64 m a) = rd32 m a" "ucast (drop_bit 32 (rd64 m a)) = rd32 m (a + 4)"
  unfolding rd64_def by (rule bit_word_eqI; force simp: bit_simps dest: bit_imp_le_length)+

lemma wr64_rd64: "rd64 m a = v \<Longrightarrow> wr64 m a v = m"
  by (drule sym) (simp add: wr64_def rd64_halves wr32_rd32)

lemmas apic_level_rooted = level_rooted [where present = "\<lambda>e. e AND 1 \<noteq> 0" and nxt = "\<lambda>e. push_bit 12 (drop_bit 12 e)",
    OF _ _ _ _ _ _ table_flags(4-6) clears_simps(1), folded apic_level_def]

lemma apic_level_root:
  assumes "rooted B p u J s"
  shows "apic_level (osmap p) 0 s = (osmap u, s)"
proof -
  note R = rootedD [OF assms]
  show ?thesis using R(2,3) by (simp add: apic_level_def table_level_def Let_def entry_at_def osmap_def)
qed

lemma same_kernel_pmd:
  assumes "same_kernel s s1"
  shows "same_kernel (s\<lparr>os_pmd_pfn := x\<rparr>) (s1\<lparr>os_pmd_pfn := x\<rparr>)"
proof -
  obtain m c pgl where "s1 = s\<lparr>mem := m, console := c, pglists := pgl\<rparr>" using assms by (auto simp: same_kernel_def)
  then show ?thesis by (intro same_kernelI [where m = m and c = c and pgl = pgl]) simp
qed

lemma install_apic_mapping_eq:
  assumes "address = push_bit 21 (drop_bit 21 (apic_base s))"
    and "apic_level (push_bit 12 p) (pgd_index address) s = (b1, s1)" "apic_level b1 (pud_index address) s1 = (b2, s2)"
    and "rd64 (mem s2) (entry_addr b2 (pmd_index address)) = 0"
  obtains v where "v AND 1 \<noteq> 0"
    "install_apic_mapping p s = s2\<lparr>mem := wr64 (mem s2) (entry_addr b2 (pmd_index address)) v\<rparr>"
proof
  let ?v = "if global_mapping (config s) \<noteq> 0 \<and> adv_global (config s) \<noteq> 0 then address OR 0x183 OR push_bit 52 1
     else if global_mapping (config s) \<noteq> 0 then address OR 0x183 else address OR 0x83"
  show "?v AND 1 \<noteq> 0" by (rule bit_0_present) (simp add: bit_or_iff)
  show "install_apic_mapping p s = s2\<lparr>mem := wr64 (mem s2) (entry_addr b2 (pmd_index address)) ?v\<rparr>"
    unfolding install_apic_mapping_def assms(1) [symmetric] Let_def assms(2,3) prod.case assms(4) by simp
qed

text \<open>The whole of \<open>install_os_pts\<close>: one frame beside the tree, and one large page for the interrupt controller.\<close>

lemma install_os_pts_rooted:
  fixes s :: "'a kernel_scheme"
  assumes r: "rooted B p u J s" "stock OS_PT_REG (Suc (Suc n)) s" "p = ucast pl4" "0 \<notin> J"
    and a: "address = push_bit 21 (drop_bit 21 (apic_base s))" "pgd_index address = 0" "pud_index address = of_nat j"
      "j \<in> set (table_slots 3)" "j \<notin> J"
  obtains q ea s' where "install_os_pts pl4 s = (0, s')" "own_page OS_PT_REG q" "q \<notin> taken s" "os_pmd_pfn s' = q"
    "same_kernel (s\<lparr>os_pmd_pfn := q\<rparr>) s'" "apic_mapped (mem s') p (apic_base s) ea"
    "rooted (insert q B) p u (insert j (insert 0 J)) (s'\<lparr>mem := wr64 (mem s') ea 0\<rparr>)"
    "aligned 3 ea" "(2, frame_of ea) \<in> set (pt_frames (wr64 (mem s') ea 0) 4 p)"
proof -
  note R = rootedD [OF r(1)]
  have e0: "entry_addr b 0 = b" for b by (simp add: entry_addr_def)
  have pb: "push_bit 12 (ucast pl4) = osmap p" by (simp add: r(3) osmap_def)
  have "entry_at (mem s) p 0 \<noteq> 0" using R(2) by auto
  moreover have "entry_at (mem s) p 0 AND FLAG_MASK = osmap u"
    using masked_entry(1) [of "entry_at (mem s) p 0"] R(3) node_facts(2) [OF R(1,4)] by simp
  ultimately have l1: "table_level (\<lambda>e. e \<noteq> 0) (\<lambda>e. e AND FLAG_MASK) 3 (\<lambda>m _. m) (osmap p) 0 s = (osmap u, s)"
    by (simp add: table_level_def Let_def entry_at_def)
  have z: "rd64 (mem s) (osmap u) = 0" using R(5) [of 0] r(4) by (simp add: entry_at_def e0)
  obtain q s1 where al: "os_pfn_alloc OS_PT_REG s = (q, s1)" by fastforce
  note T = os_table_rooted [OF r(1,2) al]
  let ?s2 = "s1\<lparr>mem := wr64 (mem s1) (osmap u) (osmap (ucast q) OR 3)\<rparr>"
  let ?m3 = "os_map_loop (osmap (ucast q)) (if global_mapping (config s) \<noteq> 0 then 0x183 else 0x83) OS_PT_MAPS (mem ?s2)"
  let ?s3 = "?s2\<lparr>os_pmd_pfn := ucast q, mem := ?m3\<rparr>"
  have r3: "rooted (insert (ucast q) B) p u (insert 0 J) ?s3" "stock OS_PT_REG (Suc n) ?s3"
    using rooted_outside(1) [of "insert (ucast q) B" p u "insert 0 J" "?s2\<lparr>os_pmd_pfn := ucast q\<rparr>" "ucast q" ?m3]
      rooted_outside(2) [of "insert (ucast q) B" p u "insert 0 J" "?s2\<lparr>os_pmd_pfn := ucast q\<rparr>" "ucast q" ?m3 OS_PT_REG]
      os_map_loop_frame [OF own_page_small [OF T(4)]] T(1,2) own_page_not_bmap [OF T(4)]
    by (simp_all add: same_builds)
  have os: "install_os_pts pl4 s = (0, install_apic_mapping p ?s3)"
    using l1 z al by (simp add: install_os_pts_def pb r(3) Let_def)
  note R3 = rootedD [OF r3(1)]
  have up: "u \<noteq> p" using node_inj [OF R(1) R(4)] R(6) by fastforce
  have u3: "(Suc (Suc 1), u) \<in> set (pt_frames (mem ?s3) 4 p)" using R3(4) by (simp add: numeral_3_eq_3)
  have j3: "j \<in> set (table_slots (Suc (Suc 1)))" using a(4) by (simp add: numeral_3_eq_3)
  have "j \<noteq> 0" using a(4) by (auto simp: table_slots_def)
  then have z3: "entry_at (mem ?s3) u j = 0" using R3(5) [of j] table_slots_less [OF a(4)] a(5) by simp
  obtain f s4 where l2: "apic_level (osmap u) (of_nat j) ?s3 = (osmap f, s4)"
    "rooted (insert (ucast q) B) p u (if u = u then insert j (insert 0 J) else insert 0 J) s4" "same_kernel ?s3 s4"
    "(Suc 1, f) \<in> set (pt_frames (mem s4) 4 p)" "f \<noteq> p" "f \<noteq> u" "\<And>j. j < 512 \<Longrightarrow> entry_at (mem s4) f j = 0"
    "entry_at (mem s4) u j = osmap f OR 3"
    by (rule apic_level_rooted [OF r3 u3 j3 up z3], rule that; assumption)
  have r4: "rooted (insert (ucast q) B) p u (insert j (insert 0 J)) s4" using l2(2) by simp
  note R4 = rootedD [OF r4] and nf = node_facts [OF rootedD(1) [OF r4] l2(4)]
  define c where "c = unat (pmd_index address)"
  have c: "c < 512" "pmd_index address = of_nat c" by (simp_all add: c_def)
  define ea where "ea = entry_addr (osmap f) (of_nat c)"
  have al3: "aligned 3 ea" "frame_of ea = f" using slot_addr [OF nf(2) c(1)] by (simp_all add: ea_def)
  have e4: "rd64 (mem s4) ea = 0" using l2(7) [OF c(1)] by (simp add: ea_def entry_at_def)
  have k1: "same_kernel s s1" by (rule same_kernel_alloc [OF buildsD(1) [OF R(1)] stock_can(1) [OF r(2)] al])
  have a3: "address = push_bit 21 (drop_bit 21 (apic_base ?s3))" using a(1) same_kernelD(6) [OF k1] by simp
  have "apic_level (push_bit 12 p) (pgd_index address) ?s3 = (osmap u, ?s3)"
    using apic_level_root [OF r3(1)] by (simp only: a(2) osmap_def)
  moreover have "apic_level (osmap u) (pud_index address) ?s3 = (osmap f, s4)" using l2(1) by (simp only: a(3))
  moreover have "rd64 (mem s4) (entry_addr (osmap f) (pmd_index address)) = 0" using e4 by (simp only: ea_def c(2))
  ultimately obtain v where v: "v AND 1 \<noteq> 0"
    and ia: "install_apic_mapping p ?s3 = s4\<lparr>mem := wr64 (mem s4) (entry_addr (osmap f) (pmd_index address)) v\<rparr>"
    by (rule install_apic_mapping_eq [OF a3])
  let ?s' = "s4\<lparr>mem := wr64 (mem s4) ea v\<rparr>"
  have m': "wr64 (mem ?s') ea 0 = mem s4" using wr64_rd64 [OF e4] by simp
  have other: "entry_at (mem ?s') t i = entry_at (mem s4) t i" if "(l, t) \<in> set (pt_frames (mem s4) 4 p)" "t \<noteq> f" "i < 512" for l t i
    using entry_at_cong [OF node_facts(2) [OF R4(1) that(1)] that(3), of "mem ?s'" "mem s4"]
      entry_write_other [OF nf(2) c(1)] that(2) by (simp add: ea_def)
  have e1: "entry_at (mem ?s') p 0 = entry_at (mem s4) p 0" "entry_at (mem ?s') u j = osmap f OR 3"
    using other [OF R4(6)] other [OF R4(4)] l2(5,6,8) table_slots_less [OF a(4)] by auto
  note V = entry_value [OF nf(2) table_flags(5,6)]
  have uj: "unat (pud_index address) = j" using a(3) slot_unat [OF table_slots_less [OF a(4)]] by simp
  have "apic_mapped (mem ?s') p (apic_base s) ea"
    unfolding apic_mapped_def Let_def a(1) [symmetric] a(2) uj
    using e1 R4(2,3) V node_facts(1) [OF R4(1,4)] nf(1) al3(1) v
    by (simp add: level_region_def c(2) ea_def)
  moreover have "rooted (insert (ucast q) B) p u (insert j (insert 0 J)) (?s'\<lparr>mem := wr64 (mem ?s') ea 0\<rparr>)"
    using r4 unfolding m' by simp
  moreover have "same_kernel (s\<lparr>os_pmd_pfn := ucast q\<rparr>) ?s'"
  proof -
    have "same_kernel (s\<lparr>os_pmd_pfn := ucast q\<rparr>) (?s2\<lparr>os_pmd_pfn := ucast q\<rparr>)"
      by (rule same_kernel_pmd [OF same_kernel_trans [OF k1 same_kernel_write]])
    then have "same_kernel (s\<lparr>os_pmd_pfn := ucast q\<rparr>) ?s3" by (rule same_kernel_trans [OF _ same_kernel_write])
    then show ?thesis using same_kernel_trans [OF _ same_kernel_trans [OF l2(3) same_kernel_write]] by blast
  qed
  moreover have "os_pmd_pfn ?s' = ucast q" using same_kernelD(3) [OF l2(3)] by simp
  moreover have "(2, frame_of ea) \<in> set (pt_frames (wr64 (mem ?s') ea 0) 4 p)"
    unfolding m' al3(2) using l2(4) by (simp add: numeral_2_eq_2)
  ultimately show ?thesis using that [of ?s' "ucast q" ea] os ia T(4,5) al3(1) unfolding ea_def c(2) by simp
qed

subsection \<open>\<open>exec_init\<close>\<close>

lemma segment_indices:
  "pgd_index CODE_START = 0" "pud_index CODE_START = of_nat 4" "pte_index CODE_START = 0"
  "pgd_index DATA_START = 0" "pud_index DATA_START = of_nat 6"
  "pgd_index (STACK_START - 4096) = 0" "pud_index (STACK_START - 4096) = of_nat 31"
  by (simp_all add: pgd_index_def pud_index_def pte_index_def)

lemma rooted_ctx [simp]:
  "rooted B p u J (upd_ctx c f s) = rooted B p u J s" "stock r n (upd_ctx c f s) = stock r n s"
  "mm_inv (upd_ctx c f s) = mm_inv s" "taken (upd_ctx c f s) = taken s" "apic_base (upd_ctx c f s) = apic_base s"
  by (simp_all add: rooted_def builds_def mm_inv_def taken_def stock_def stock_set_def upd_ctx_def)

text \<open>Only context \<open>c\<close> changes, and it keeps its kernel stack.\<close>

definition tracks :: "nat \<Rightarrow> 'a kernel_scheme \<Rightarrow> 'a kernel_scheme \<Rightarrow> bool" where
  "tracks c s s' \<longleftrightarrow> ctx_list s' = (ctx_list s)[c := the_ctx s' c] \<and>
     os_stack_pfn (the_ctx s' c) = os_stack_pfn (the_ctx s c) \<and> apic_base s' = apic_base s"

lemma tracks_refl: "tracks c s s"
  by (simp add: tracks_def the_ctx_def)

lemma tracks_same: "tracks c s s1 \<Longrightarrow> same_kernel s1 s2 \<Longrightarrow> tracks c s s2"
  using same_kernelD(1,6,8) [of s1 s2] by (simp add: tracks_def)

lemma tracks_upd:
  assumes "tracks c s s1" "c < length (ctx_list s)" "\<And>x. os_stack_pfn (f x) = os_stack_pfn x"
  shows "tracks c s (upd_ctx c f s1)"
proof -
  have "c < length (ctx_list s1)" using assms(1,2) by (simp add: tracks_def)
  then show ?thesis using assms(1,3) by (simp add: tracks_def the_ctx_upd) (simp add: upd_ctx_def)
qed

lemma tracks_length: "tracks c s s' \<Longrightarrow> length (ctx_list s') = length (ctx_list s)"
  unfolding tracks_def by (metis length_list_update)

lemma tracks_trans: "tracks c s s1 \<Longrightarrow> tracks c s1 s2 \<Longrightarrow> tracks c s s2"
  unfolding tracks_def by (metis list_update_overwrite)

lemma exec_code_rooted:
  fixes s :: "'a kernel_scheme"
  assumes inv: "mm_inv s" "stock OS_PT_REG (4 + n) s" "stock USER_REG (8 + k) s" "c < length (ctx_list s)"
    and code: "seg_start (mms (the_ctx s c) MM_SEG_CODE) = CODE_START"
  obtains p u q s' where "exec_code c s = (osmap p, q, s')" "p = ucast (pgd (the_ctx s' c))" "p \<notin> taken s"
    "rooted (taken s) p u {4} s'" "stock OS_PT_REG n s'" "stock USER_REG k s'" "tracks c s s'"
    "seg_start (mms (the_ctx s' c) MM_SEG_DATA) = seg_start (mms (the_ctx s c) MM_SEG_DATA)"
    "mms (the_ctx s' c) MM_SEG_STACK = mms (the_ctx s c) MM_SEG_STACK" "current s' = current s" "own_page USER_REG (ucast q)"
proof -
  obtain np s1 where al: "os_pfn_alloc OS_PT_REG s = (np, s1)" by fastforce
  have st: "stock OS_PT_REG (Suc (3 + n)) s" using inv(2) by simp
  note can = stock_can(1) [OF st]
  define p where "p = (ucast np :: u64)"
  define s2 where "s2 = upd_ctx c (pgd_update (\<lambda>_. np)) s1"
  define s3 where "s3 = s2\<lparr>mem := bzero (mem s2) (osmap p) PAGE_SIZE\<rparr>"
  have own: "own_page OS_PT_REG p" unfolding p_def by (rule alloc_own_page [OF inv(1) can al])
  have zero: "mem s1 a = 0" if "frame_of a = p" for a
    using pt_pool.alloc_zero [OF inv(1) can al] that by (simp add: p_def)
  have m2: "mem s2 = mem s1" "pglists s2 = pglists s1" by (simp_all add: s2_def upd_ctx_def)
  have "mem s3 = mem s1"
    using bzero_page [of "osmap p" "mem s1"] zero frame_of_osmap [OF own_page_small [OF own]] m2
    by (auto simp: s3_def)
  then have m3: "mem s3 = mem s1" "pglists s3 = pglists s1" using m2 by (simp_all add: s3_def)
  note A = page_pool.alloc_inv [OF inv(1) can al] page_pool.alloc_fresh [OF inv(1) can al, folded p_def]
    page_pool.alloc_used [OF inv(1) can al, folded p_def] page_pool.own_used [OF inv(1)]
  have T: "pt_frames (mem s1) 4 p = [(4, p)]"
    using pt_frames_empty [OF own_page_small [OF own], of "mem s1" 3] zero by (simp add: numeral_eq_Suc)
  have b1: "builds (taken s) p s1" using A own by (simp add: builds_def T level_region_def)
  have b3: "builds (taken s) p s3" "stock OS_PT_REG (3 + n) s3" "stock USER_REG (8 + k) s3"
    using b1 stock_alloc [OF inv(1) st al] stock_other [OF inv(1) can al, of USER_REG "8 + k"] inv(3) m3
    by (simp_all add: builds_def mm_inv_def taken_def stock_def stock_set_def)
  have e0: "entry_at (mem s3) p 0 = 0" using empty_entry [OF zero own_page_small [OF own]] m3(1) by simp
  have b3': "stock OS_PT_REG (Suc (Suc (Suc n))) s3" using b3(2) by (simp add: numeral_eq_Suc)
  obtain u s4 where F: "\<And>a. pgd_index a = 0 \<Longrightarrow> ptable_levels (osmap p) a s3 = ptable_levels (osmap p) a s4"
    "rooted (taken s) p u {} s4" "stock OS_PT_REG (Suc (Suc n)) s4" "\<And>n. stock USER_REG n s4 = stock USER_REG n s3" "same_kernel s3 s4"
    by (rule first_table [OF b3(1) b3' e0], rule that; assumption)
  have su: "stock USER_REG (Suc 7 + k) s4" using F(4) b3(3) by simp
  obtain q s5 where I: "install_ptable_multi (osmap p) CODE_START (Suc 7) 0 s4 = (q, s5)" "rooted (taken s) p u (insert 4 {}) s5"
    "stock OS_PT_REG n s5" "stock USER_REG k s5" "same_kernel s4 s5" "own_page USER_REG (ucast q)"
    by (rule install_ptable_multi_rooted [OF F(2,3) su segment_indices(1,2)], simp add: table_slots_def, simp, simp add: segment_indices(3),
      rule that; assumption)
  have I3: "install_ptable_multi (osmap p) CODE_START CODE_PAGES 0 s3 = (q, s5)"
    using I(1) F(1) [OF segment_indices(1)] by (simp add: install_ptable_multi_def)
  have t3: "tracks c s s3"
    unfolding s3_def s2_def
    by (rule tracks_same [OF tracks_upd [OF tracks_same [OF tracks_refl same_kernel_alloc [OF inv(1) can al]] inv(4)] same_kernel_write]) simp
  have cl: "c < length (ctx_list s1)" using inv(4) same_kernelD(1) [OF same_kernel_alloc [OF inv(1) can al]] by simp
  have x3: "the_ctx s3 c = (the_ctx s c)\<lparr>pgd := np\<rparr>"
    using cl same_kernelD(8) [OF same_kernel_alloc [OF inv(1) can al]] by (simp add: s3_def s2_def the_ctx_upd)
  note k5 = same_kernel_trans [OF F(5) I(5)]
  have c5: "c < length (ctx_list s5)" "the_ctx s5 c = the_ctx s3 c" using cl same_kernelD(1,8) [OF k5] by (simp_all add: s3_def s2_def)
  let ?f = "upd_seg MM_SEG_CODE (\<lambda>g. g\<lparr>next_free := seg_start g + push_bit 12 (of_nat CODE_PAGES)\<rparr>)"
  have "exec_code c s = (osmap p, q, upd_ctx c ?f s5)"
    unfolding exec_code_def al Let_def prod.case p_def [symmetric] s2_def [symmetric] s3_def [symmetric]
    using I3 code by (simp add: x3)
  moreover have "tracks c s (upd_ctx c ?f s5)" by (rule tracks_upd [OF tracks_same [OF t3 k5] inv(4)]) simp
  ultimately show ?thesis
    using that [of p q "upd_ctx c ?f s5" u] I A(2) c5 x3 same_kernelD(2) [OF k5] same_kernelD(2) [OF same_kernel_alloc [OF inv(1) can al]]
    by (simp add: the_ctx_upd p_def s3_def s2_def)
qed

lemma exec_data_rooted:
  fixes s :: "'a kernel_scheme"
  assumes r: "rooted B p u {4} s" "stock OS_PT_REG (2 + n) s" "stock USER_REG (Suc k) s" "c < length (ctx_list s)"
    and data: "seg_start (mms (the_ctx s c) MM_SEG_DATA) = DATA_START"
  shows "rooted B p u {6, 4} (exec_data (osmap p) c s)" "stock OS_PT_REG n (exec_data (osmap p) c s)"
    "stock USER_REG k (exec_data (osmap p) c s)" "tracks c s (exec_data (osmap p) c s)"
    "pgd (the_ctx (exec_data (osmap p) c s) c) = pgd (the_ctx s c)"
    "mms (the_ctx (exec_data (osmap p) c s) c) MM_SEG_STACK = mms (the_ctx s c) MM_SEG_STACK"
proof -
  have st: "stock OS_PT_REG (Suc (Suc n)) s" using r(2) by simp
  obtain q s1 where I: "install_ptable (osmap p) (mms (the_ctx s c) MM_SEG_DATA) 0 0 s = (q, s1)" "rooted B p u (insert 6 {4}) s1"
    "stock OS_PT_REG n s1" "stock USER_REG k s1" "same_kernel s s1"
    by (rule install_ptable_rooted [OF r(1) st r(3) data [symmetric] segment_indices(4,5)], simp add: table_slots_def, simp,
      rule that; assumption)
  let ?f = "upd_seg MM_SEG_DATA (\<lambda>g. g\<lparr>next_free := seg_start g + 4096\<rparr>)"
  have e: "exec_data (osmap p) c s = upd_ctx c ?f s1" using I(1) by (simp add: exec_data_def)
  have x: "c < length (ctx_list s1)" "the_ctx s1 c = the_ctx s c" using r(4) same_kernelD(1,8) [OF I(5)] by simp_all
  show "tracks c s (exec_data (osmap p) c s)"
    unfolding e by (rule tracks_upd [OF tracks_same [OF tracks_refl I(5)] r(4)]) simp
  show "rooted B p u {6, 4} (exec_data (osmap p) c s)" "stock OS_PT_REG n (exec_data (osmap p) c s)"
    "stock USER_REG k (exec_data (osmap p) c s)" "pgd (the_ctx (exec_data (osmap p) c s) c) = pgd (the_ctx s c)"
    "mms (the_ctx (exec_data (osmap p) c s) c) MM_SEG_STACK = mms (the_ctx s c) MM_SEG_STACK"
    using I x by (simp_all add: e the_ctx_upd)
qed

lemma exec_stack_rooted:
  fixes s :: "'a kernel_scheme"
  assumes r: "rooted B p u {6, 4} s" "stock OS_PT_REG (2 + n) s" "stock USER_REG (Suc k) s" "c < length (ctx_list s)"
    and stack: "seg_end (mms (the_ctx s c) MM_SEG_STACK) = STACK_START"
  shows "rooted B p u {31, 6, 4} (exec_stack (osmap p) c s)" "stock OS_PT_REG n (exec_stack (osmap p) c s)"
    "tracks c s (exec_stack (osmap p) c s)" "pgd (the_ctx (exec_stack (osmap p) c s) c) = pgd (the_ctx s c)"
proof -
  let ?f = "upd_seg MM_SEG_STACK (\<lambda>g. g\<lparr>seg_start := seg_end g - 4096\<rparr>)"
  let ?s1 = "upd_ctx c ?f s"
  have a: "STACK_START - 4096 = seg_start (mms (the_ctx ?s1 c) MM_SEG_STACK)" using r(4) stack by (simp add: the_ctx_upd)
  have st: "stock OS_PT_REG (Suc (Suc n)) ?s1" "stock USER_REG (Suc k) ?s1" "rooted B p u {6, 4} ?s1" using r by simp_all
  obtain q s2 where I: "install_ptable (osmap p) (mms (the_ctx ?s1 c) MM_SEG_STACK) 0 0 ?s1 = (q, s2)" "rooted B p u (insert 31 {6, 4}) s2"
    "stock OS_PT_REG n s2" "stock USER_REG k s2" "same_kernel ?s1 s2"
    by (rule install_ptable_rooted [OF st(3,1,2) a segment_indices(6,7)], simp add: table_slots_def, simp, rule that; assumption)
  let ?g = "upd_seg MM_SEG_STACK (\<lambda>g. g\<lparr>seg_start := seg_start (mms (the_ctx s c) MM_SEG_STACK)\<rparr>)"
  let ?h = "upd_seg MM_SEG_STACK (\<lambda>g. g\<lparr>next_free := seg_end g - 4096\<rparr>)"
  have e: "exec_stack (osmap p) c s = upd_ctx c ?h (upd_ctx c ?g s2)"
    unfolding exec_stack_def Let_def I(1) prod.case by (rule refl)
  have x: "c < length (ctx_list s2)" "the_ctx s2 c = the_ctx ?s1 c" using r(4) same_kernelD(1,8) [OF I(5)] by simp_all
  show "tracks c s (exec_stack (osmap p) c s)"
    unfolding e
    by (rule tracks_upd [OF tracks_upd [OF tracks_same [OF tracks_upd [OF tracks_refl r(4)] I(5)] r(4)] r(4)]) simp_all
  show "rooted B p u {31, 6, 4} (exec_stack (osmap p) c s)" "stock OS_PT_REG n (exec_stack (osmap p) c s)"
    "pgd (the_ctx (exec_stack (osmap p) c s) c) = pgd (the_ctx s c)"
    using I x r(4) by (simp_all add: e the_ctx_upd)
qed

text \<open>The copy of the program's image goes to pages of the user region.\<close>

lemma memcpy_loop_other:
  assumes "\<And>i. i < n \<Longrightarrow> a \<noteq> d + of_nat i"
  shows "memcpy_loop m d s n a = m a"
  using assms
proof (induction n arbitrary: m d s)
  case (Suc n)
  have "a \<noteq> d + 1 + of_nat i" if "i < n" for i using Suc.prems [of "Suc i"] that by (simp add: algebra_simps)
  then show ?case using Suc.IH [of "d + 1"] Suc.prems [of 0] by simp
qed simp

lemma image_copy_other:
  assumes "own_page USER_REG f" "own_page OS_PT_REG (frame_of a) \<or> frame_of a \<in> bmap_frames"
  shows "memcpy m (push_bit 12 f) 0x200000 (push_bit 12 (of_nat CODE_PAGES)) a = m a"
proof -
  have lo: "25604 \<le> unat f" "unat f < 131072" using assms(1) by (simp_all add: own_page_def)
  have hi: "unat (frame_of a) < 25604"
    using assms(2)
  proof
    assume "frame_of a \<in> bmap_frames"
    then obtain r where "unat (frame_of a) < region_base r + region_reserved r" by (auto simp: bmap_frames_iff)
    then show ?thesis by (cases r) auto
  qed (simp add: own_page_def)
  have "a \<noteq> push_bit 12 f + of_nat i" if "i < 32768" for i
  proof
    assume a: "a = push_bit 12 f + of_nat i"
    have "unat (push_bit 12 f) = 4096 * unat f" using lo(2) by (simp add: push_bit_eq_mult unat_word_ariths)
    then have "unat a = 4096 * unat f + i" using a lo(2) that by (simp add: unat_word_ariths unat_of_nat_small)
    then have "unat (frame_of a) = unat f + i div 4096" by (simp add: unat_drop)
    then show False using hi lo(1) by simp
  qed
  then show ?thesis unfolding memcpy_def by (intro memcpy_loop_other) simp
qed

lemma apic_indices:
  fixes base :: u64
  assumes "0x40000000 \<le> base" "base < 0x100000000"
  defines "address \<equiv> push_bit 21 (drop_bit 21 base)"
  shows "pgd_index address = 0" "unat (pud_index address) \<in> {1, 2, 3}"
proof -
  have u: "2 ^ 30 \<le> unat base" "unat base < 2 ^ 32" using assms(1,2) by (simp_all add: word_le_nat_alt word_less_nat_alt)
  then have "take_bit 32 base = base" by (simp add: word_unat_eq_iff unsigned_take_bit_eq take_bit_nat_eq_self)
  then have b: "bit base n \<Longrightarrow> n < 32" for n by (metis bit_take_bit_iff)
  show "pgd_index address = 0"
    by (rule bit_word_eqI) (use b in \<open>force simp: bit_index address_def bit_simps\<close>)
  have "pud_index address = drop_bit 30 base"
    by (rule bit_word_eqI) (use b in \<open>force simp: bit_index address_def bit_simps add.commute\<close>)
  then have "unat (pud_index address) = unat base div 2 ^ 30" by (simp add: unat_drop)
  then show "unat (pud_index address) \<in> {1, 2, 3}" using u by auto
qed

lemma apic_far: "0x40000000 \<le> base \<Longrightarrow> \<not> own_page r (drop_bit 12 base)" for base :: u64
proof
  assume "0x40000000 \<le> base" "own_page r (drop_bit 12 base)"
  then show False using own_page_small [of r "drop_bit 12 base"] by (simp add: unat_drop word_le_nat_alt)
qed

lemma exec_init_frames:
  fixes s :: "'a kernel_scheme"
  assumes inv: "mm_inv s" "stock OS_PT_REG 10 s" "stock USER_REG 10 s" "c < length (ctx_list s)"
    and segs: "seg_start (mms (the_ctx s c) MM_SEG_CODE) = CODE_START" "seg_start (mms (the_ctx s c) MM_SEG_DATA) = DATA_START"
      "seg_end (mms (the_ctx s c) MM_SEG_STACK) = STACK_START"
    and apic: "0x40000000 \<le> apic_base s" "apic_base s < 0x100000000"
  obtains ea s' rg where "exec_init cpu rflags c args s = Inr (Iret rg, s')" "mm_inv s'"
    "apic_mapped (mem s') (ucast (pgd (the_ctx s' c))) (apic_base s') ea"
    "frames_ok (pt_frames (wr64 (mem s') ea 0) 4 (ucast (pgd (the_ctx s' c))))"
    "own_page OS_PT_REG (os_pmd_pfn s')" "os_pmd_pfn s' \<notin> snd ` set (pt_frames (wr64 (mem s') ea 0) 4 (ucast (pgd (the_ctx s' c))))"
    "taken s \<inter> insert (os_pmd_pfn s') (snd ` set (pt_frames (wr64 (mem s') ea 0) 4 (ucast (pgd (the_ctx s' c))))) = {}"
    "taken s' = taken s \<union> insert (os_pmd_pfn s') (snd ` set (pt_frames (wr64 (mem s') ea 0) 4 (ucast (pgd (the_ctx s' c)))))"
    "tracks c s s'" "current s' = Some c" "state (the_ctx s' c) = RUNNING"
    "aligned 3 ea" "(2, frame_of ea) \<in> set (pt_frames (wr64 (mem s') ea 0) 4 (ucast (pgd (the_ctx s' c))))"
proof -
  define s1 where "s1 = printf ''Setting up init process ...\<newline>'' [] s"
  have s1: "mm_inv s1" "stock OS_PT_REG (4 + (2 + (2 + 2))) s1" "stock USER_REG (8 + (Suc (Suc 0))) s1" "taken s1 = taken s"
    "the_ctx s1 c = the_ctx s c" "c < length (ctx_list s1)" "ctx_list s1 = ctx_list s"
    using inv by (simp_all add: s1_def mm_inv_def taken_def stock_def stock_set_def)
  have k1: "same_kernel s s1" unfolding s1_def by (rule same_kernel_printf)
  obtain p u q s2 where C: "exec_code c s1 = (osmap p, q, s2)" "p = ucast (pgd (the_ctx s2 c))" "p \<notin> taken s1"
    "rooted (taken s1) p u {4} s2" "stock OS_PT_REG (2 + (2 + 2)) s2" "stock USER_REG (Suc (Suc 0)) s2" "tracks c s1 s2"
    "seg_start (mms (the_ctx s2 c) MM_SEG_DATA) = seg_start (mms (the_ctx s1 c) MM_SEG_DATA)"
    "mms (the_ctx s2 c) MM_SEG_STACK = mms (the_ctx s1 c) MM_SEG_STACK" "current s2 = current s1" "own_page USER_REG (ucast q)"
    by (rule exec_code_rooted [OF s1(1-3,6)], use segs s1(5) in simp, rule that; assumption)
  define s3 where "s3 = exec_data (osmap p) c s2"
  define s4 where "s4 = exec_stack (osmap p) c s3"
  have l2: "c < length (ctx_list s2)" using tracks_length [OF C(7)] s1(6) by simp
  note D = exec_data_rooted [OF C(4,5,6) l2, folded s3_def]
  have d: "seg_start (mms (the_ctx s2 c) MM_SEG_DATA) = DATA_START" using C(8) s1(5) segs(2) by simp
  have l3: "c < length (ctx_list s3)" using tracks_length [OF D(4) [OF d]] l2 by simp
  have e: "seg_end (mms (the_ctx s3 c) MM_SEG_STACK) = STACK_START" using D(6) [OF d] C(9) s1(5) segs(3) by simp
  note E = exec_stack_rooted [OF D(1-3) [OF d] l3 e, folded s4_def]
  have t4: "tracks c s s4"
    using tracks_trans [OF tracks_trans [OF tracks_trans [OF tracks_same [OF tracks_refl k1] C(7)] D(4) [OF d]] E(3)] .
  define address where "address = push_bit 21 (drop_bit 21 (apic_base s4))"
  have ab: "apic_base s4 = apic_base s" using t4 by (simp add: tracks_def)
  note A = apic_indices [OF apic, folded ab, folded address_def]
  define j where "j = unat (pud_index address)"
  have j: "pud_index address = of_nat j" "j \<in> set (table_slots 3)" "j \<notin> {31, 6, 4}"
    using A(2) by (auto simp: j_def table_slots_def)
  have p4: "p = ucast (pgd (the_ctx s4 c))" using C(2) D(5) [OF d] E(4) by simp
  have st4: "stock OS_PT_REG (Suc (Suc 0)) s4" using E(2) by (simp add: numeral_2_eq_2)
  have z4: "0 \<notin> {31, 6, 4 :: nat}" by simp
  obtain f ea s5 where O: "install_os_pts (pgd (the_ctx s4 c)) s4 = (0, s5)" "own_page OS_PT_REG f" "f \<notin> taken s4" "os_pmd_pfn s5 = f"
    "same_kernel (s4\<lparr>os_pmd_pfn := f\<rparr>) s5" "apic_mapped (mem s5) p (apic_base s4) ea"
    "rooted (insert f (taken s1)) p u (insert j (insert 0 {31, 6, 4})) (s5\<lparr>mem := wr64 (mem s5) ea 0\<rparr>)"
    "aligned 3 ea" "(2, frame_of ea) \<in> set (pt_frames (wr64 (mem s5) ea 0) 4 p)"
    by (rule install_os_pts_rooted [OF E(1) st4 p4 z4 address_def A(1) j], rule that; assumption)
  define F where "F = pt_frames (wr64 (mem s5) ea 0) 4 p"
  have R: "mm_inv (s5\<lparr>mem := wr64 (mem s5) ea 0\<rparr>)" "frames_ok F" "taken (s5\<lparr>mem := wr64 (mem s5) ea 0\<rparr>) = insert f (taken s) \<union> snd ` set F"
    "insert f (taken s) \<inter> snd ` set F = {}"
    using buildsD [OF rootedD(1) [OF O(7)]] s1(4) by (simp_all add: F_def)
  define m where "m = memcpy (mem s5) (push_bit 12 (ucast q)) 0x200000 (push_bit 12 (of_nat CODE_PAGES))"
  have m: "m a = mem s5 a" if "own_page OS_PT_REG (frame_of a) \<or> frame_of a \<in> bmap_frames" for a
    unfolding m_def by (rule image_copy_other [OF C(11) that])
  define s6 where "s6 = set_tss_stack_ptr c s5"
  define s7 where "s7 = s6\<lparr>stats := (stats s6)\<lparr>num_processes := num_processes (stats s6) + 1\<rparr>\<rparr>"
  define s8 where "s8 = s7\<lparr>mem := memcpy (mem s7) (push_bit 12 (ucast q)) 0x200000 (push_bit 12 (of_nat CODE_PAGES))\<rparr>"
  define s9 where "s9 = upd_ctx c (state_update (\<lambda>_. RUNNING)) (set_current_ctx (Some c) s8)"
  define s' where "s' = (printf ''Page table setup done, launching init ...\<newline>'' [] s9)
    \<lparr>cr3 := push_bit 12 (ucast (pgd (the_ctx s4 c)))\<rparr>"
  have x: "mem s' = m" "pglists s' = pglists s5" "os_pmd_pfn s' = f" "apic_base s' = apic_base s" "current s' = Some c"
    "ctx_list s' = ctx_list s9"
    using O(4) same_kernelD(6) [OF O(5)] ab
    by (simp_all add: s'_def s9_def s8_def s7_def s6_def set_tss_stack_ptr_def set_current_ctx_def m_def upd_ctx_def printf_def split: option.split)
  have l5: "c < length (ctx_list s5)" "ctx_list s5 = ctx_list s4"
    using same_kernelD(1) [OF O(5)] tracks_length [OF t4] inv(4) by simp_all
  have c9: "ctx_list s9 = (ctx_list s4)[c := (the_ctx s4 c)\<lparr>state := RUNNING\<rparr>]"
    using l5(2) by (simp add: s9_def s8_def s7_def s6_def set_tss_stack_ptr_def set_current_ctx_def upd_ctx_def the_ctx_def)
  have c': "the_ctx s' c = (the_ctx s4 c)\<lparr>state := RUNNING\<rparr>" using x(6) c9 l5 by (simp add: the_ctx_def)
  have t': "tracks c s s'"
  proof -
    have "ctx_list s4 = (ctx_list s)[c := the_ctx s4 c]" "os_stack_pfn (the_ctx s4 c) = os_stack_pfn (the_ctx s c)"
      using t4 by (simp_all add: tracks_def)
    then show ?thesis using x(4,6) c9 c' by (simp add: tracks_def)
  qed
  obtain rg where ex: "exec_init cpu rflags c args s = Inr (Iret rg, s')"
    unfolding exec_init_def s1_def [symmetric] Let_def C(1) prod.case s3_def [symmetric] s4_def [symmetric] O(1)
      s6_def [symmetric] s7_def [symmetric] s8_def [symmetric] s9_def [symmetric] s'_def [symmetric] by simp
  have p': "ucast (pgd (the_ctx s' c)) = p" using p4 c' by simp
  have pf: "pt_frames (wr64 (mem s') ea 0) 4 p = F"
    unfolding F_def
  proof (rule pt_frames_cong)
    show "frames_ok (pt_frames (wr64 (mem s5) ea 0) 4 p)" using R(2) by (simp add: F_def)
    fix a assume "frame_of a \<in> table_frames (pt_frames (wr64 (mem s5) ea 0) 4 p)"
    then have "own_page OS_PT_REG (frame_of a)" using table_frames_own R(2) by (simp add: F_def)
    then show "wr64 (mem s') ea 0 a = wr64 (mem s5) ea 0 a" unfolding x(1) by (intro wr64_same m) simp
  qed
  have pp: "own_page OS_PT_REG p" using node_facts(1) [OF rootedD(1,6) [OF O(7)]] by (simp add: level_region_def)
  have am: "apic_mapped (mem s') p (apic_base s') ea"
    using apic_mapped_cong [OF O(6) pp m] unfolding x(1,4) ab by blast
  obtain t where "own_page OS_PT_REG t" "aligned 3 ea" "frame_of ea = t" by (rule apic_mapped_facts [OF O(6)])
  then have ea: "aligned 3 ea" "frame_of ea \<notin> bmap_frames" using own_page_not_bmap by auto
  have u: "page_used (mem s') r k = page_used (wr64 (mem s5) ea 0) r k" if "k < region_pages r" for r k
  proof (rule page_used_outside [OF that])
    fix a assume a: "frame_of a \<in> bmap_frames"
    then have "wr64 (mem s5) ea 0 a = mem s5 a" using ea(2) by (intro wr64_frame [OF ea(1), of 12]) auto
    then show "mem s' a = wr64 (mem s5) ea 0 a" using m [of a] a x(1) by simp
  qed
  have tk: "taken s' = taken (s5\<lparr>mem := wr64 (mem s5) ea 0\<rparr>)" using u by (auto simp: taken_def)
  have "free_set (mem s') r = free_set (wr64 (mem s5) ea 0) r" for r using u by (auto simp: free_set_def)
  moreover have "page_used (mem s') r k = page_used (wr64 (mem s5) ea 0) r k" if "k < region_reserved r" for r k
    using that region_bounds(5) [of r] by (intro u) simp
  ultimately have "mm_inv s'" using R(1) by (auto simp: mm_inv_def pgl_inv_def x(2))
  moreover have "f \<notin> taken s" using O(3) buildsD(4) [OF rootedD(1) [OF E(1)]] s1(4) by simp
  ultimately show ?thesis
    using that [OF ex, of ea] am R(2-4) tk O(2) t' x(3-5) c' O(8) O(9) [folded F_def] unfolding p' pf by auto
qed

subsection \<open>A concrete system\<close>

text \<open>The swapper waits in the shell, no process has started.\<close>

definition idle_kernel :: kernel where
  "idle_kernel = init_pagelists (zero_kernel\<lparr>ctx_list := zero_ctx\<lparr>state := READY\<rparr> # replicate (MAX_PROCESSES - 1) zero_ctx\<rparr>)"

lemma idle_kernel_ctx:
  "the_ctx idle_kernel 0 = zero_ctx\<lparr>state := READY\<rparr>" "0 < i \<Longrightarrow> i < MAX_PROCESSES \<Longrightarrow> the_ctx idle_kernel i = zero_ctx"
  "length (ctx_list idle_kernel) = MAX_PROCESSES" "current idle_kernel = None" "apic_base idle_kernel = 0xfee00000"
  by (simp_all add: idle_kernel_def init_pagelists_eq the_ctx_def zero_kernel_def nth_Cons')

lemma idle_kernel_inv:
  "mm_inv idle_kernel" "sched_inv idle_kernel" "stock OS_PT_REG 11 idle_kernel" "stock OS_PT_REG 10 idle_kernel"
  "stock USER_REG 10 idle_kernel"
proof -
  have z: "mem (zero_kernel\<lparr>ctx_list := zero_ctx\<lparr>state := READY\<rparr> # replicate (MAX_PROCESSES - 1) zero_ctx\<rparr>) a = 0" for a
    by (simp add: zero_kernel_def)
  note B = init_pagelists_boot [OF z, folded idle_kernel_def]
  show "mm_inv idle_kernel" by (rule B(1))
  show "stock OS_PT_REG 11 idle_kernel" "stock OS_PT_REG 10 idle_kernel" "stock USER_REG 10 idle_kernel"
    by (rule stock_prefix [OF B(2)], simp add: scan_window_def)+
  show "sched_inv idle_kernel"
  proof (rule sched_invI)
    fix i assume i: "i < MAX_PROCESSES"
    have "(i = 0 \<and> the_ctx idle_kernel i = zero_ctx\<lparr>state := READY\<rparr>) \<or> the_ctx idle_kernel i = zero_ctx \<and> 0 < i"
      using idle_kernel_ctx(1) idle_kernel_ctx(2) [OF _ i] by (cases "i = 0") (hypsubst, blast, blast)
    then have "i = 0 \<and> pid (the_ctx idle_kernel i) = 0 \<and> state (the_ctx idle_kernel i) = READY \<or>
        0 < i \<and> state (the_ctx idle_kernel i) = UNUSED"
      by (elim disjE conjE) (simp_all only: zero_ctx_def exec_context.simps refl simp_thms)
    then show "state (the_ctx idle_kernel i) \<noteq> UNUSED \<or> i = 0 \<Longrightarrow> pid (the_ctx idle_kernel i) = of_nat i"
      "state (the_ctx idle_kernel i) = RUNNING \<Longrightarrow> current idle_kernel = Some i"
      by auto
  qed (simp_all add: idle_kernel_ctx(3,4))
qed

subsection \<open>From the shell and back\<close>

lemma create_context_frames:
  fixes s :: "'a kernel_scheme"
  assumes "mm_inv s" "stock OS_PT_REG (Suc n) s" "sched_inv s" "i < MAX_PROCESSES" "state (the_ctx s i) = UNUSED"
  obtains c s1 where "create_context name ty s = Inr (c, s1)" "mm_inv s1" "stock OS_PT_REG n s1"
    "\<And>k. stock USER_REG k s1 = stock USER_REG k s" "ctx_list s1 = (ctx_list s)[c := the_ctx s1 c]" "apic_base s1 = apic_base s"
    "mms (the_ctx s1 c) = user_segments (mms (the_ctx s c))" "own_page OS_PT_REG (ucast (os_stack_pfn (the_ctx s1 c)))"
    "ucast (os_stack_pfn (the_ctx s1 c)) \<notin> taken s" "taken s1 = insert (ucast (os_stack_pfn (the_ctx s1 c))) (taken s)"
    "c < MAX_PROCESSES" "state (the_ctx s c) = UNUSED"
proof -
  obtain c s0 where g: "get_new_ctx s = (Some c, s0)" by (rule get_new_ctx_Some [OF assms(3-5)])
  note G = get_new_ctx_inv [OF g assms(3)]
  have inv: "mm_inv s0" "stock OS_PT_REG (Suc n) s0" "\<And>k. stock USER_REG k s0 = stock USER_REG k s" "taken s0 = taken s"
    using assms(1,2) by (simp_all add: G(4))
  obtain q s2 where al: "os_pfn_alloc OS_PT_REG s0 = (q, s2)" by fastforce
  note can = stock_can(1) [OF inv(2)]
  note K = same_kernelD [OF same_kernel_alloc [OF inv(1) can al]]
  let ?f = "\<lambda>ctx. ctx\<lparr>state := NEW, ctx_type := ty, used_mem := 0, pgd := 0, os_stack_pfn := q,
      os_rsp := osmap (ucast (q + 1)), ctx_name := copy_name name (ctx_name ctx), mms := user_segments (mms ctx)\<rparr>"
  have eq: "create_context name ty s = Inr (c, upd_ctx c ?f s2)" by (simp add: create_context_def g al)
  have l: "c < length (ctx_list s)" "c < length (ctx_list s0)" "c < length (ctx_list s2)"
    using G(1) sched_invD(1) [OF assms(3)] K(1) by (simp_all add: G(4))
  have x: "the_ctx (upd_ctx c ?f s2) c = ?f ((the_ctx s c)\<lparr>pid := of_nat c, state := NEW\<rparr>)"
    using l K(8) by (simp add: the_ctx_upd G(4))
  have cl: "ctx_list (upd_ctx c ?f s2) = (ctx_list s)[c := the_ctx (upd_ctx c ?f s2) c]"
    unfolding x using l K(1) by (simp add: upd_ctx_def G(4) the_ctx_def)
  have "apic_base s2 = apic_base s" using K(6) by (simp add: G(4))
  then show ?thesis
    using that [OF eq _ _ _ cl] page_pool.alloc_inv [OF inv(1) can al] stock_alloc [OF inv(1,2) al]
      stock_other [OF inv(1) can al, of USER_REG] inv(3,4) alloc_own_page [OF inv(1) can al] G(1,2)
      page_pool.alloc_fresh [OF inv(1) can al] page_pool.alloc_used [OF inv(1) can al] x
    by simp
qed

text \<open>The exit of the last process, whatever it has done to its address space, as long as the frames in use
  are those of \<open>s\<close>, its kernel stack, the table of the kernel's memory and its tree.\<close>

lemma exit_gives_back:
  fixes s s2 :: "'a kernel_scheme"
  assumes inv: "mm_inv s" "mm_inv s2" and c: "current s2 = Some c" "c < length (ctx_list s2)"
    and alone: "\<And>i. 0 < i \<Longrightarrow> i < MAX_PROCESSES \<Longrightarrow> i \<noteq> c \<Longrightarrow> state (the_ctx s2 i) = UNUSED"
    and apic: "0x40000000 \<le> apic_base s2" "apic_mapped (mem s2) (ucast (pgd (the_ctx s2 c))) (apic_base s2) ea"
    and k: "own_page OS_PT_REG (ucast (os_stack_pfn (the_ctx s2 c)))" "ucast (os_stack_pfn (the_ctx s2 c)) \<notin> taken s"
    and d: "own_page OS_PT_REG (os_pmd_pfn s2)" "os_pmd_pfn s2 \<notin> insert (ucast (os_stack_pfn (the_ctx s2 c))) (taken s)"
    and F: "frames_ok F" "F = pt_frames (wr64 (mem s2) ea 0) 4 (ucast (pgd (the_ctx s2 c)))"
      "insert (os_pmd_pfn s2) (insert (ucast (os_stack_pfn (the_ctx s2 c))) (taken s)) \<inter> snd ` set F = {}"
      "taken s2 = insert (os_pmd_pfn s2) (insert (ucast (os_stack_pfn (the_ctx s2 c))) (taken s)) \<union> snd ` set F"
  obtains s3 where "do_exit s2 = Inr (Shell, s3)" "current s3 = None"
    "ctx_list s3 = (ctx_list s2)[c := (the_ctx s2 c)\<lparr>state := UNUSED\<rparr>]" "taken s3 = taken s"
    "\<And>r. free_pages (pglists s3 r) = free_pages (pglists s r) + (if r = OS_PT_REG then 1 else 0)" "\<not> mm_inv s3"
proof -
  define k where "k = (ucast (os_stack_pfn (the_ctx s2 c)) :: u64)"
  note k' = k [folded k_def] and d' = d [folded k_def] and F' = F(3,4) [folded k_def]
  have out: "apic_outside s2" using apic_far [OF apic(1)] by (simp add: apic_outside_def)
  obtain s3 where X: "do_exit s2 = Inr (Shell, s3)" "current s3 = None" "ctx_list s3 = (ctx_list s2)[c := (the_ctx s2 c)\<lparr>state := UNUSED\<rparr>]"
    "taken s3 = taken s2 - {k, os_pmd_pfn s2} - snd ` set F"
    "\<And>r. free_pages (pglists s3 r) = free_pages (pglists s2 r) +
       of_nat (length (filter (\<lambda>x. level_region (fst x) = r) F)) + (if r = OS_PT_REG then 3 else 0)"
    using do_exit_last [OF c mm_inv_pools [OF inv(2)] out alone k(1) d(1) apic(2), folded F(2)] F(1) unfolding k_def by blast
  have G: "frames_ok ([(1, k), (1, os_pmd_pfn s2)] @ F)"
    unfolding frames_ok_append using F(1) F' d' k' by (auto simp: frames_ok_def level_region_def)
  have free: "free_pages (pglists s r) = free_pages (pglists s2 r) +
      of_nat (length (filter (\<lambda>x. level_region (fst x) = r) ([(1, k), (1, os_pmd_pfn s2)] @ F)))" for r
    by (rule free_count_taken [OF inv G]) (use F' k' d' in auto)
  have tk: "taken s3 = taken s" unfolding X(4) using F' k' d' by auto
  have cnt: "free_pages (pglists s3 r) = free_pages (pglists s r) + (if r = OS_PT_REG then 1 else 0)" for r
    unfolding X(5) free by (simp add: level_region_def)
  have "\<not> mm_inv s3"
  proof
    assume "mm_inv s3"
    then have "unat (free_pages (pglists s3 OS_PT_REG)) = unat (free_pages (pglists s OS_PT_REG))"
      using mm_invD [of s3 OS_PT_REG] mm_invD [OF inv(1), of OS_PT_REG] free_set_taken [OF tk, of OS_PT_REG] by (simp add: pgl_inv_def)
    then show False using cnt [of OS_PT_REG] by (simp add: word_unat_eq_iff [symmetric])
  qed
  then show ?thesis using that [OF X(1-3) tk cnt] by blast
qed

lemma idle_create:
  obtains c s1 where "create_context name ty idle_kernel = Inr (c, s1)" "mm_inv s1" "stock OS_PT_REG 10 s1" "stock USER_REG 10 s1"
    "c < length (ctx_list s1)" "seg_start (mms (the_ctx s1 c) MM_SEG_CODE) = CODE_START"
    "seg_start (mms (the_ctx s1 c) MM_SEG_DATA) = DATA_START" "seg_end (mms (the_ctx s1 c) MM_SEG_STACK) = STACK_START"
    "0x40000000 \<le> apic_base s1" "apic_base s1 < 0x100000000"
proof -
  have st: "stock OS_PT_REG (Suc 10) idle_kernel" using idle_kernel_inv(3) by simp
  have one: "1 < MAX_PROCESSES" "state (the_ctx idle_kernel 1) = UNUSED" by (simp_all add: idle_kernel_ctx) (simp add: zero_ctx_def)
  obtain c s1 where C: "create_context name ty idle_kernel = Inr (c, s1)" "mm_inv s1" "stock OS_PT_REG 10 s1"
    "\<And>k. stock USER_REG k s1 = stock USER_REG k idle_kernel" "ctx_list s1 = (ctx_list idle_kernel)[c := the_ctx s1 c]"
    "apic_base s1 = apic_base idle_kernel" "mms (the_ctx s1 c) = user_segments (mms (the_ctx idle_kernel c))"
    "own_page OS_PT_REG (ucast (os_stack_pfn (the_ctx s1 c)))"
    "ucast (os_stack_pfn (the_ctx s1 c)) \<notin> taken idle_kernel"
    "taken s1 = insert (ucast (os_stack_pfn (the_ctx s1 c))) (taken idle_kernel)" "c < MAX_PROCESSES" "state (the_ctx idle_kernel c) = UNUSED"
    by (rule create_context_frames [OF idle_kernel_inv(1) st idle_kernel_inv(2) one, where name = name and ty = ty], rule that; assumption)
  have "length (ctx_list s1) = MAX_PROCESSES" using C(5) idle_kernel_ctx(3) by (metis length_list_update)
  then show ?thesis using that [OF C(1-3)] C(4,6,7,11) idle_kernel_inv(5) idle_kernel_ctx(5) by simp
qed

text \<open>C11: \<open>exec_init\<close> with enough frames in stock enters the program; the
  frames in use are then those from before, the table of the kernel's own memory and the frames of
  the tree of page tables that \<open>pt_cleanup\<close> will visit, all of them fresh, distinct and
  in their regions, and the large page of the interrupt controller is entered in the tree.\<close>

theorem exec_init_owns_its_frames:
  fixes s :: "'a kernel_scheme"
  assumes "mm_inv s" "stock OS_PT_REG 10 s" "stock USER_REG 10 s" "c < length (ctx_list s)"
    and "seg_start (mms (the_ctx s c) MM_SEG_CODE) = CODE_START" "seg_start (mms (the_ctx s c) MM_SEG_DATA) = DATA_START"
      "seg_end (mms (the_ctx s c) MM_SEG_STACK) = STACK_START"
    and "0x40000000 \<le> apic_base s" "apic_base s < 0x100000000"
  shows "\<exists>rg s' ea. exec_init cpu rflags c args s = Inr (Iret rg, s') \<and> mm_inv s' \<and>
    apic_mapped (mem s') (ucast (pgd (the_ctx s' c))) (apic_base s') ea \<and>
    frames_ok ((1, os_pmd_pfn s') # pt_frames (wr64 (mem s') ea 0) 4 (ucast (pgd (the_ctx s' c)))) \<and>
    taken s \<inter> insert (os_pmd_pfn s') (snd ` set (pt_frames (wr64 (mem s') ea 0) 4 (ucast (pgd (the_ctx s' c))))) = {} \<and>
    taken s' = taken s \<union> insert (os_pmd_pfn s') (snd ` set (pt_frames (wr64 (mem s') ea 0) 4 (ucast (pgd (the_ctx s' c)))))"
proof -
  obtain ea s' rg where E: "exec_init cpu rflags c args s = Inr (Iret rg, s')" "mm_inv s'"
    "apic_mapped (mem s') (ucast (pgd (the_ctx s' c))) (apic_base s') ea"
    "frames_ok (pt_frames (wr64 (mem s') ea 0) 4 (ucast (pgd (the_ctx s' c))))"
    "own_page OS_PT_REG (os_pmd_pfn s')" "os_pmd_pfn s' \<notin> snd ` set (pt_frames (wr64 (mem s') ea 0) 4 (ucast (pgd (the_ctx s' c))))"
    "taken s \<inter> insert (os_pmd_pfn s') (snd ` set (pt_frames (wr64 (mem s') ea 0) 4 (ucast (pgd (the_ctx s' c))))) = {}"
    "taken s' = taken s \<union> insert (os_pmd_pfn s') (snd ` set (pt_frames (wr64 (mem s') ea 0) 4 (ucast (pgd (the_ctx s' c)))))"
    "tracks c s s'" "current s' = Some c" "state (the_ctx s' c) = RUNNING" "aligned 3 ea"
    "(2, frame_of ea) \<in> set (pt_frames (wr64 (mem s') ea 0) 4 (ucast (pgd (the_ctx s' c))))"
    by (rule exec_init_frames [OF assms], rule that; assumption)
  then show ?thesis by (intro exI [of _ rg] exI [of _ s'] exI [of _ ea]) (auto simp: frames_ok_def level_region_def)
qed

theorem exec_init_owns_its_frames_witness:
  "\<exists>c s1 rg s2. create_context (str ''init'') 1 idle_kernel = Inr (c, s1) \<and>
     exec_init zero_regs 0x202 c \<lparr>arg_rdi = 0, arg_rsi = 0, arg_rcx = 0, arg_rdx = 0, arg_r8 = 0\<rparr> s1 = Inr (Iret rg, s2) \<and>
     os_pmd_pfn s2 \<notin> taken s1 \<and> os_pmd_pfn s2 \<in> taken s2"
proof -
  obtain c s1 where C: "create_context (str ''init'') 1 idle_kernel = Inr (c, s1)" "mm_inv s1" "stock OS_PT_REG 10 s1" "stock USER_REG 10 s1"
    "c < length (ctx_list s1)" "seg_start (mms (the_ctx s1 c) MM_SEG_CODE) = CODE_START"
    "seg_start (mms (the_ctx s1 c) MM_SEG_DATA) = DATA_START" "seg_end (mms (the_ctx s1 c) MM_SEG_STACK) = STACK_START"
    "0x40000000 \<le> apic_base s1" "apic_base s1 < 0x100000000"
    by (rule idle_create [where name = "str ''init''" and ty = 1])
  from exec_init_owns_its_frames [OF C(2-), where cpu = zero_regs and rflags = "0x202" and
      args = "\<lparr>arg_rdi = 0, arg_rsi = 0, arg_rcx = 0, arg_rdx = 0, arg_r8 = 0\<rparr>"]
  show ?thesis using C(1) by blast
qed

text \<open>C12: The teardown of an address space: on a tree of page tables whose frames are
  distinct, in use and in their regions, \<open>pt_cleanup\<close> with depth 5 returns, releases
  exactly the frames of the tree, each counted once in the page list of its region, keeps the
  allocator's invariant, and writes only to the tables of the tree and the bitmaps.\<close>

theorem pt_cleanup_gives_back:
  fixes s :: "'a kernel_scheme"
  assumes "mm_inv s" "frames_ok (pt_frames (mem s) 4 p)" "snd ` set (pt_frames (mem s) 4 p) \<subseteq> taken s" "apic_outside s"
  shows "\<exists>s'. pt_cleanup 5 p 4 s = Inr s' \<and> mm_inv s' \<and> taken s' = taken s - snd ` set (pt_frames (mem s) 4 p) \<and>
    (\<forall>r. free_pages (pglists s' r) =
       free_pages (pglists s r) + of_nat (length (filter (\<lambda>x. level_region (fst x) = r) (pt_frames (mem s) 4 p)))) \<and>
    (\<forall>a. frame_of a \<notin> bmap_frames \<longrightarrow> frame_of a \<notin> table_frames (pt_frames (mem s) 4 p) \<longrightarrow> mem s' a = mem s a) \<and>
    ctx_list s' = ctx_list s \<and> current s' = current s"
proof -
  let ?F = "pt_frames (mem s) 4 p"
  obtain s' where s': "pt_cleanup 5 p 4 s = Inr s'" "released (table_frames ?F) ?F s s'"
    using pt_cleanup_releases [OF mm_inv_pools [OF assms(1)] assms(2,4), of 5] by auto
  note R = releasedD [OF s'(2)]
  have "pgl_inv (mem s') r (pglists s' r)" for r
  proof -
    have P: "pgl_inv (mem s) r (pglists s r)" using assms(1) by (simp add: mm_inv_def)
    let ?K = "{k. k < region_pages r \<and> page_frame r k \<in> snd ` set ?F}"
    let ?n = "length (filter (\<lambda>x. level_region (fst x) = r) ?F)"
    have "free_set (mem s') r = free_set (mem s) r \<union> ?K" "free_set (mem s) r \<inter> ?K = {}"
      unfolding free_set_not_taken R(2) using assms(3) by auto
    moreover have "finite (free_set (mem s) r)" "finite ?K" by (simp_all add: free_set_def)
    ultimately have c: "card (free_set (mem s') r) = unat (free_pages (pglists s r)) + ?n"
      using P region_count [OF assms(2), of r] by (simp add: card_Un_disjoint pgl_inv_def)
    have "free_set (mem s') r \<subseteq> {..<region_pages r}" by (auto simp: free_set_def)
    then have "card (free_set (mem s') r) \<le> region_pages r" using card_mono [OF finite_lessThan] by fastforce
    then have "card (free_set (mem s') r) < 4294967296" using region_bounds(2) [of r] by simp
    then have "unat (free_pages (pglists s' r)) = card (free_set (mem s') r)"
      unfolding R(8) c by (simp add: unat_word_ariths unat_of_nat)
    moreover have "page_used (mem s') r k" if "k < region_reserved r" for k
    proof -
      have k: "k < region_pages r" using that region_bounds(5) [of r] by simp
      have "page_frame r k \<in> taken s" using P that taken_iff [OF k, of s] by (simp add: pgl_inv_def)
      moreover have "page_frame r k \<notin> snd ` set ?F"
      proof
        assume "page_frame r k \<in> snd ` set ?F"
        then obtain l where "(l, page_frame r k) \<in> set ?F" by auto
        then have "page_frame r k \<notin> bmap_frames" using assms(2) own_page_not_bmap by (fastforce simp: frames_ok_def)
        moreover have "page_frame r k \<in> bmap_frames"
          unfolding bmap_frames_iff by (rule exI [of _ r]) (simp add: unat_page_frame [OF k] that)
        ultimately show False by contradiction
      qed
      ultimately show ?thesis using R(2) taken_iff [OF k, of s'] by simp
    qed
    ultimately show ?thesis using P R(1) [unfolded pools_def] R(10) by (simp add: pgl_inv_def)
  qed
  then have "mm_inv s'" by (simp add: mm_inv_def)
  then show ?thesis using s'(1) R by blast
qed

theorem pt_cleanup_gives_back_witness:
  "\<exists>c s1 p q s2 s3. create_context (str ''init'') 1 idle_kernel = Inr (c, s1) \<and> exec_code c s1 = (osmap p, q, s2) \<and>
     pt_cleanup 5 p 4 s2 = Inr s3 \<and> taken s3 = taken s1 \<and> p \<in> taken s2"
proof -
  obtain c s1 where C: "create_context (str ''init'') 1 idle_kernel = Inr (c, s1)" "mm_inv s1" "stock OS_PT_REG 10 s1" "stock USER_REG 10 s1"
    "c < length (ctx_list s1)" "seg_start (mms (the_ctx s1 c) MM_SEG_CODE) = CODE_START"
    "seg_start (mms (the_ctx s1 c) MM_SEG_DATA) = DATA_START" "seg_end (mms (the_ctx s1 c) MM_SEG_STACK) = STACK_START"
    "0x40000000 \<le> apic_base s1" "apic_base s1 < 0x100000000"
    by (rule idle_create [where name = "str ''init''" and ty = 1])
  have st: "stock OS_PT_REG (4 + 6) s1" "stock USER_REG (8 + 2) s1" using C(3,4) by simp_all
  obtain p u q s2 where E: "exec_code c s1 = (osmap p, q, s2)" "p = ucast (pgd (the_ctx s2 c))" "p \<notin> taken s1"
    "rooted (taken s1) p u {4} s2" "stock OS_PT_REG 6 s2" "stock USER_REG 2 s2" "tracks c s1 s2"
    "seg_start (mms (the_ctx s2 c) MM_SEG_DATA) = seg_start (mms (the_ctx s1 c) MM_SEG_DATA)"
    "mms (the_ctx s2 c) MM_SEG_STACK = mms (the_ctx s1 c) MM_SEG_STACK" "current s2 = current s1" "own_page USER_REG (ucast q)"
    by (rule exec_code_rooted [OF C(2) st C(5,6)], rule that; assumption)
  note B = buildsD [OF rootedD(1) [OF E(4)]]
  have "apic_base s2 = apic_base s1" using E(7) by (simp add: tracks_def)
  then have "apic_outside s2"
    using apic_far [OF C(9)] by (simp add: apic_outside_def)
  from pt_cleanup_gives_back [OF B(1,3) _ this] obtain s3 where
    "pt_cleanup 5 p 4 s2 = Inr s3" "taken s3 = taken s2 - snd ` set (pt_frames (mem s2) 4 p)"
    using B(4) by auto
  moreover have "p \<in> snd ` set (pt_frames (mem s2) 4 p)" using image_eqI [OF _ root_in_frames, of p snd] by simp
  ultimately show ?thesis using C(1) E(1) B(4,5) by (intro exI [of _ c] exI [of _ s1] exI [of _ p] exI [of _ q] exI [of _ s2] exI [of _ s3]) auto
qed

end
