(* ===== verification/Page_Fork.thy ===== *)
theory Page_Fork
  imports Table_Copy Program_Run Lifecycle
begin

text \<open>
  What \<open>copy_mm\<close> gives the child of a \<open>fork\<close>: its own tables, new pages with the content of the
  parent's data and stack pages, and the parent's own frames for code and read-only data. \<open>forking\<close>
  holds while the copies are made: nothing that was in use before is written.
\<close>

subsection \<open>Copying one page\<close>

definition forking :: "exec_context \<Rightarrow> 'a page_state_scheme \<Rightarrow> 'a page_state_scheme \<Rightarrow> bool" where
  "forking ch s0 s \<longleftrightarrow> mm_inv s \<and> tree_inv (mem s) (root ch) (live s) \<and> plain (mem s) (root ch) \<and> live s0 \<subseteq> live s \<and>
     live s0 \<inter> tables (mem s) (root ch) = {} \<and> (\<forall>x. frame_of x \<in> live s0 \<longrightarrow> mem s x = mem s0 x)"

lemma forkingD:
  assumes "forking ch s0 s"
  shows "mm_inv s" "tree_inv (mem s) (root ch) (live s)" "plain (mem s) (root ch)" "live s0 \<subseteq> live s"
    "live s0 \<inter> tables (mem s) (root ch) = {}" "\<And>x. frame_of x \<in> live s0 \<Longrightarrow> mem s x = mem s0 x"
  using assms by (simp_all add: forking_def)

lemma forking_installs:
  assumes "forking ch s0 s" "installs (root ch) s s'"
  shows "forking ch s0 s'"
proof -
  note F = forkingD [OF assms(1)] and I = installsD [OF assms(2)]
  have "mem s' x = mem s0 x" if "frame_of x \<in> live s0" for x
  proof -
    have "frame_of x \<in> live s - tables (mem s) (root ch)" using that F(4,5) by blast
    then show ?thesis using I(6) F(6) [OF that] by simp
  qed
  moreover have "live s0 \<inter> tables (mem s') (root ch) = {}" using F(4,5) I(5) by blast
  ultimately show ?thesis using I(1-4) F(4) by (auto simp: forking_def)
qed

text \<open>Every user mapping leads to a frame in use.\<close>

definition user_frames :: "exec_context \<Rightarrow> 'a page_state_scheme \<Rightarrow> bool" where
  "user_frames ctx s \<longleftrightarrow> (\<forall>a e. user_map (mem s) ctx a = Some e \<longrightarrow> drop_bit 12 e \<in> live s)"

lemma user_frame_facts:
  fixes e :: u64
  assumes "drop_bit 12 e \<in> live s"
  shows "e AND FLAG_MASK = osmap (drop_bit 12 e)" "frame_of (osmap (drop_bit 12 e)) = drop_bit 12 e"
    "ucast (ucast (drop_bit 12 (e AND FLAG_MASK)) :: u32) = drop_bit 12 e" "(ucast (drop_bit 12 (e AND FLAG_MASK)) :: u32) \<noteq> 0"
proof -
  note small = live_small [OF assms]
  show m: "e AND FLAG_MASK = osmap (drop_bit 12 e)" by (rule masked_entry(1) [OF small])
  show f: "frame_of (osmap (drop_bit 12 e)) = drop_bit 12 e" by (rule frame_of_osmap [OF small])
  have "unat (ucast (drop_bit 12 e) :: u32) = unat (drop_bit 12 e)"
    using small by (simp add: unsigned_ucast_eq take_bit_nat_eq_self)
  then show u: "ucast (ucast (drop_bit 12 (e AND FLAG_MASK)) :: u32) = drop_bit 12 e"
    unfolding m f by (simp only: word_unat_eq_iff unat_ucast_u64)
  show "(ucast (drop_bit 12 (e AND FLAG_MASK)) :: u32) \<noteq> 0" using u assms zero_not_live by (metis ucast_0)
qed

lemma space_cong:
  assumes "tree_inv m (root ctx) (live s)" "\<And>x. frame_of x \<in> live s \<Longrightarrow> m' x = m x"
  shows "get_user_pte m' ctx a = get_user_pte m ctx a" "user_map m' ctx a = user_map m ctx a"
proof -
  have l: "length (upath a) \<le> 3" by simp
  have t: "table_at m' (root ctx) (upath a) = table_at m (root ctx) (upath a)"
    by (rule table_at_cong [OF assms upath_ok(1) l])
  have e: "rd64 m' (entry_addr u (pte_index a)) = rd64 m (entry_addr u (pte_index a))"
    if "table_at m (root ctx) (upath a) = Some u" for u
    using tree_entry_frame [OF assms(1) upath_ok(1) l that index_less(4)] assms(2) by (intro rd64_cong [where n = 12]) auto
  show "get_user_pte m' ctx a = get_user_pte m ctx a"
    using t e by (simp add: get_user_pte_eq split: option.split)
  then show "user_map m' ctx a = user_map m ctx a"
    using e by (auto simp: user_map_def get_user_pte_eq Let_def split: option.splits if_splits)
qed

definition fork_page ::
  "bool \<Rightarrow> u64 \<Rightarrow> exec_context \<Rightarrow> mm_segment \<Rightarrow> u64 \<Rightarrow> 'a kernel_scheme \<Rightarrow> 'a kernel_scheme" where
  "fork_page priv = (if priv then copy_private_page else copy_shared_page)"

text \<open>The frame \<open>f\<close> of the child stands for the one that the parent's entry \<open>e\<close> names.\<close>

definition copy_of :: "bool \<Rightarrow> exec_context \<Rightarrow> 'a page_state_scheme \<Rightarrow> u64 \<Rightarrow> 'a page_state_scheme \<Rightarrow> u64 \<Rightarrow> bool" where
  "copy_of priv ch s0 e s f \<longleftrightarrow>
     (if priv then own_page USER_REG f \<and> f \<notin> live s0 \<and> f \<in> live s - tables (mem s) (root ch) \<and>
        (\<forall>x. frame_of x = 0 \<longrightarrow> mem s (osmap f + x) = mem s0 (osmap (drop_bit 12 e) + x))
      else f = drop_bit 12 e)"

lemma osmap_offset:
  assumes "unat f < 131072" "frame_of x = 0"
  shows "frame_of (osmap f + x) = f"
proof -
  have x: "unat x < 4096" using assms(2) by (simp add: drop_bit_eq_0_iff_less word_less_nat_alt)
  have "aligned 12 (osmap f)" by simp
  from aligned_add [OF this, of x] x show ?thesis by (simp add: frame_of_osmap [OF assms(1)])
qed

text \<open>The content of a page, copied to another frame.\<close>

lemma page_copied:
  assumes "unat f < 131072" "unat g < 131072" "f \<noteq> g"
  shows "frame_of x = 0 \<Longrightarrow> memcpy m (osmap f) (osmap g) 4096 (osmap f + x) = m (osmap g + x)"
    "frame_of a \<noteq> f \<Longrightarrow> memcpy m (osmap f) (osmap g) 4096 a = m a"
proof -
  have ne: "osmap f \<noteq> osmap g" using frame_of_osmap assms by metis
  note M = memcpy_page [of "osmap f" "osmap g" m, OF aligned_osmap aligned_osmap ne, OF order_refl order_refl]
  show "memcpy m (osmap f) (osmap g) 4096 (osmap f + x) = m (osmap g + x)" if x: "frame_of x = 0"
  proof -
    have "unat x < 2 ^ 12" using x by (simp add: drop_bit_eq_0_iff_less word_less_nat_alt)
    from aligned_add(2) [OF _ this, of "osmap f"] show ?thesis
      using M osmap_offset [OF assms(1) x] frame_of_osmap [OF assms(1)] by simp
  qed
  show "memcpy m (osmap f) (osmap g) 4096 a = m a" if "frame_of a \<noteq> f"
    using M frame_of_osmap [OF assms(1)] that by simp
qed

text \<open>The content of one frame that is not a table changes.\<close>

lemma data_update:
  fixes s :: "'a kernel_scheme"
  assumes inv: "mm_inv s" "tree_inv (mem s) b (live s)" and f: "f \<in> live s - tables (mem s) b" "\<forall>a. frame_of a \<noteq> f \<longrightarrow> m a = mem s a"
  defines "s' \<equiv> s\<lparr>mem := m\<rparr>"
  shows "mm_inv s'" "taken s' = taken s" "live s' = live s" "stock r n s' = stock r n s" "tree_inv m b (live s)"
    "path_ok p \<Longrightarrow> length p \<le> 3 \<Longrightarrow> table_at m b p = table_at (mem s) b p" "tables m b = tables (mem s) b"
    "plain (mem s) b \<Longrightarrow> plain m b" "b = root ctx \<Longrightarrow> user_map m ctx x = user_map (mem s) ctx x"
proof -
  have s': "s' = mem_update (\<lambda>_. m) s" by (simp add: s'_def)
  have out: "(\<lambda>_. m) (mem s) a = mem s a" if "frame_of a \<in> bmap_frames" for a
  proof -
    have "frame_of a \<noteq> f" using f(1) that by (auto simp: live_def)
    then show ?thesis using f(2) by simp
  qed
  show "mm_inv s'" "taken s' = taken s" "stock r n s' = stock r n s"
    unfolding s' using mem_update_outside [OF inv(1), of "\<lambda>_. m", OF out] by blast+
  then show "live s' = live s" by (simp add: live_def)
  let ?fr = "tables (mem s) b"
  have T: "tree_inv (mem s) b ?fr" by (rule tree_inv_frames [OF inv(2) subset_refl])
  have keep: "m a = mem s a" if "frame_of a \<in> ?fr" for a
  proof -
    have "frame_of a \<noteq> f" using f(1) that by auto
    then show ?thesis using f(2) by simp
  qed
  have sub: "?fr \<subseteq> live s" using inv(2) unfolding tree_inv_def tables_def by blast
  show "tree_inv m b (live s)" by (rule tree_inv_cong [OF T keep sub])
  show "path_ok p \<Longrightarrow> length p \<le> 3 \<Longrightarrow> table_at m b p = table_at (mem s) b p" by (rule table_at_cong [OF T keep])
  show "tables m b = tables (mem s) b" by (rule tables_cong [OF T keep])
  show "plain (mem s) b \<Longrightarrow> plain m b" by (rule plain_cong [OF T keep])
  assume b: "b = root ctx"
  show "user_map m ctx x = user_map (mem s) ctx x"
    using user_map_leaf [of m ctx s x] user_map_leaf [of "mem s" ctx s x] \<open>tree_inv m b (live s)\<close> inv(2)
      leaf_at_cong [OF T keep, of "upath x" "pte_index x"] b by simp
qed

lemma forking_data:
  fixes s :: "'a kernel_scheme"
  assumes "forking ch s0 s" "f \<in> live s - tables (mem s) (root ch)" "f \<notin> live s0" "\<forall>a. frame_of a \<noteq> f \<longrightarrow> m a = mem s a"
  shows "forking ch s0 (s\<lparr>mem := m\<rparr>)"
proof -
  note F = forkingD [OF assms(1)]
  note D = data_update [OF F(1,2) assms(2,4)]
  have "m x = mem s0 x" if x: "frame_of x \<in> live s0" for x
  proof -
    have "frame_of x \<noteq> f" using x assms(3) by auto
    then show ?thesis using assms(4) F(6) [OF x] by simp
  qed
  then show ?thesis unfolding forking_def using D(1,3,5,7) D(8) [OF F(3)] F(4,5) by simp
qed

text \<open>The effect of one round of the loops of \<open>copy_mm\<close>.\<close>

definition page_forked ::
  "exec_context \<Rightarrow> 'a page_state_scheme \<Rightarrow> bool \<Rightarrow> mm_segment \<Rightarrow> u64 \<Rightarrow> u64 \<Rightarrow> u64 \<Rightarrow>
     'a page_state_scheme \<Rightarrow> 'a page_state_scheme \<Rightarrow> bool" where
  "page_forked ch s0 priv seg v e f s s' \<longleftrightarrow> forking ch s0 s' \<and> copy_of priv ch s0 e s' f \<and> (priv \<longrightarrow> f \<notin> live s) \<and>
     (\<forall>x. user_map (mem s') ch x = (if page_of x = page_of v then Some (osmap f OR seg_flags seg) else user_map (mem s) ch x)) \<and>
     (\<forall>g \<in> live s - tables (mem s) (root ch). g \<in> live s' - tables (mem s') (root ch) \<and> (\<forall>x. frame_of x = g \<longrightarrow> mem s' x = mem s x)) \<and>
     only_along (upath v) (mem s) (mem s') (root ch)"

lemma fork_page_step:
  fixes s s0 :: "'a kernel_scheme" and seg :: mm_segment
  assumes fk: "forking ch s0 s" and par: "tree_inv (mem s0) (root par) (live s0)" "user_frames par s0"
    and v: "v \<noteq> 0" "user_map (mem s0) par v = Some e"
    and st: "stock OS_PT_REG (3 + n) s" "stock USER_REG ((if priv then 1 else 0) + k) s"
  defines "s' \<equiv> fork_page priv (root ch) par seg v s"
  shows "\<exists>f. page_forked ch s0 priv seg v e f s s'" "stock OS_PT_REG n s'" "stock USER_REG k s'"
proof -
  note F = forkingD [OF fk]
  obtain t where t: "get_user_pte (mem s0) par v = entry_addr t (pte_index v)" "entry_addr t (pte_index v) \<noteq> 0"
      "rd64 (mem s0) (entry_addr t (pte_index v)) = e" "table_at (mem s0) (root par) (upath v) = Some t"
    by (rule user_map_SomeD [OF par(1) v(2)])
  let ?pte = "entry_addr t (pte_index v)"
  have l: "length (upath v) \<le> 3" by simp
  note fp = tree_entry_frame [OF par(1) upath_ok(1) l t(4) index_less(4)]
  have pte: "get_user_pte (mem s) par v = ?pte" using space_cong(1) [OF par(1) F(6)] t(1) by simp
  have rd: "rd64 m ?pte = e" if "\<And>x. frame_of x \<in> live s0 \<Longrightarrow> m x = mem s0 x" for m
    using rd64_cong [OF fp(1), where n = 12 and m = m and m' = "mem s0"] fp(2,3) t(3) that by auto
  have e: "drop_bit 12 e \<in> live s0" using par(2) v(2) unfolding user_frames_def by blast
  note E = user_frame_facts [OF e]
  define u where "u = (if priv then 0 else ucast (drop_bit 12 (e AND FLAG_MASK)) :: u32)"
  have uz: "u = 0 \<longleftrightarrow> priv" using E(4) by (simp add: u_def)
  obtain q s1 where i: "install_ptable (root ch) seg v u s = (q, s1)" by fastforce
  have st': "stock USER_REG ((if u = 0 then 1 else 0) + k) s" using st(2) uz by simp
  note I = install_ptable_step [OF F(1-3) st(1) st' v(1) i]
  note ID = installsD [OF I(1)] and fk1 = forking_installs [OF fk I(1)]
  have kept: "g \<in> live s1 - tables (mem s1) (root ch) \<and> (\<forall>x. frame_of x = g \<longrightarrow> mem s1 x = mem s x)"
    if "g \<in> live s - tables (mem s) (root ch)" for g using that ID(4-6) by blast
  have "(\<exists>f. page_forked ch s0 priv seg v e f s s') \<and> stock OS_PT_REG n s' \<and> stock USER_REG k s'"
  proof (cases priv)
    case False
    then have s': "s' = s1"
      using i pte t(2) rd [OF F(6)] by (simp add: s'_def fork_page_def copy_shared_page_def Let_def u_def)
    have f: "ucast q = drop_bit 12 e" using I(6) uz E(3) False by (simp add: u_def)
    have "page_forked ch s0 priv seg v e (ucast q) s s'"
      using fk1 I(4,5) kept f False by (simp add: page_forked_def copy_of_def s')
    then show ?thesis using I(2,3) s' by blast
  next
    case True
    define m where "m = memcpy (mem s1) (osmap (ucast q)) (osmap (drop_bit 12 e)) 4096"
    have s': "s' = s1\<lparr>mem := m\<rparr>"
      using i pte t(2) rd [OF forkingD(6) [OF fk1]] True E(1)
      by (simp add: s'_def fork_page_def copy_private_page_def Let_def u_def m_def)
    have f: "own_page USER_REG (ucast q)" "ucast q \<notin> live s" "ucast q \<in> live s1 - tables (mem s1) (root ch)"
      using I(7) uz True by simp_all
    note small = live_small [OF DiffD1 [OF f(3)]] live_small [OF e]
    have ne: "ucast q \<noteq> drop_bit 12 e" using f(2) subsetD [OF F(4) e] by metis
    note C = page_copied [OF small ne, where m = "mem s1", folded m_def]
    have out: "\<forall>a. frame_of a \<noteq> ucast q \<longrightarrow> m a = mem s1 a" using C(2) by blast
    note D = data_update [OF ID(1,2) f(3) out, folded s']
    have m': "mem s' = m" by (simp add: s')
    have "forking ch s0 s'"
      unfolding s' by (rule forking_data [OF fk1 f(3) _ out]) (use f(2) F(4) in blast)
    moreover have "copy_of priv ch s0 e s' (ucast q)"
    proof -
      have "m (osmap (ucast q) + x) = mem s0 (osmap (drop_bit 12 e) + x)" if "frame_of x = 0" for x
        using C(1) [OF that] forkingD(6) [OF fk1] osmap_offset [OF small(2) that] e by simp
      moreover have "ucast q \<notin> live s0" using f(2) F(4) by blast
      ultimately show ?thesis using f(1,3) D(3,7) True by (simp add: copy_of_def m')
    qed
    moreover have "user_map m ch x = (if page_of x = page_of v then Some (osmap (ucast q) OR seg_flags seg) else user_map (mem s) ch x)" for x
      using D(9) [OF refl] I(4) [of x] by simp
    moreover have "g \<in> live s' - tables m (root ch) \<and> (\<forall>x. frame_of x = g \<longrightarrow> m x = mem s x)"
      if "g \<in> live s - tables (mem s) (root ch)" for g
    proof -
      have "g \<noteq> ucast q" using f(2) that by blast
      then have "m x = mem s1 x" if "frame_of x = g" for x using C(2) that by blast
      then show ?thesis using kept [OF that] D(3,7) by simp
    qed
    moreover have "only_along (upath v) (mem s) m (root ch)" using I(5) D(6) unfolding only_along_def by simp
    ultimately have "page_forked ch s0 priv seg v e (ucast q) s s'" using f(2) by (simp add: page_forked_def m')
    then show ?thesis using I(2,3) D(4) by blast
  qed
  then show "\<exists>f. page_forked ch s0 priv seg v e f s s'" "stock OS_PT_REG n s'" "stock USER_REG k s'" by blast+
qed

lemma fork_page_absent:
  fixes s s0 :: "'a kernel_scheme"
  assumes "forking ch s0 s" "tree_inv (mem s0) (root par) (live s0)" "user_map (mem s0) par v = None"
  shows "fork_page priv (root ch) par seg v s = s"
proof -
  have "get_user_pte (mem s) par v = 0"
    using space_cong(1) [OF assms(2) forkingD(6) [OF assms(1)]] assms(3) by (simp add: user_map_def Let_def split: if_splits)
  then show ?thesis by (simp add: fork_page_def copy_private_page_def copy_shared_page_def)
qed

subsection \<open>Copying a list of pages\<close>

text \<open>The pages to copy: whether the child gets a page of its own, the segment, the address.\<close>

type_synonym fork_item = "bool \<times> mm_segment \<times> u64"

definition fork_item :: "u64 \<Rightarrow> exec_context \<Rightarrow> fork_item \<Rightarrow> 'a kernel_scheme \<Rightarrow> 'a kernel_scheme" where
  "fork_item b par = (\<lambda>(priv, seg, v). fork_page priv b par seg v)"

definition present_items :: "exec_context \<Rightarrow> 'a page_state_scheme \<Rightarrow> fork_item list \<Rightarrow> fork_item list" where
  "present_items par s = filter (\<lambda>(priv, seg, v). user_map (mem s) par v \<noteq> None)"

text \<open>The child's address space holds a copy of each page of the list that the parent has, in the frame
  that \<open>F\<close> names, private copies in different frames, and nothing else.\<close>

definition space_copied ::
  "fork_item list \<Rightarrow> exec_context \<Rightarrow> exec_context \<Rightarrow> (u64 \<Rightarrow> u64) \<Rightarrow> 'a page_state_scheme \<Rightarrow> 'a page_state_scheme \<Rightarrow> bool" where
  "space_copied xs par ch F s0 s \<longleftrightarrow>
     (\<forall>(priv, seg, v) \<in> set (present_items par s0 xs).
        user_map (mem s) ch v = Some (osmap (F v) OR seg_flags seg) \<and> copy_of priv ch s0 (the (user_map (mem s0) par v)) s (F v)) \<and>
     inj_on F {v. \<exists>seg. (True, seg, v) \<in> set (present_items par s0 xs)} \<and>
     (\<forall>x. (\<forall>(priv, seg, v) \<in> set (present_items par s0 xs). page_of x \<noteq> page_of v) \<longrightarrow> user_map (mem s) ch x = None)"

definition paths_of :: "fork_item list \<Rightarrow> memory \<Rightarrow> u64 \<Rightarrow> bool" where
  "paths_of xs m b \<longleftrightarrow> (\<forall>q u. path_ok q \<longrightarrow> length q \<le> 3 \<longrightarrow> q \<noteq> [] \<longrightarrow> table_at m b q = Some u \<longrightarrow>
     (\<exists>(priv, seg, v) \<in> set xs. \<exists>r. upath v = q @ r))"

lemma present_items_simps [simp]:
  "present_items par s [] = []"
  "present_items par s (xs @ [(priv, seg, v)]) = present_items par s xs @ (if user_map (mem s) par v = None then [] else [(priv, seg, v)])"
  by (simp_all add: present_items_def)

lemma present_sub: "set (present_items par s xs) \<subseteq> set xs"
  by (auto simp: present_items_def)

lemma copy_of_keep:
  fixes s :: "'a page_state_scheme"
  assumes "copy_of priv ch s0 e s f" "\<And>g. g \<in> live s - tables (mem s) (root ch) \<Longrightarrow> g \<in> live s' - tables (mem s') (root ch)"
    "\<And>g x. g \<in> live s - tables (mem s) (root ch) \<Longrightarrow> frame_of x = g \<Longrightarrow> mem s' x = mem s x"
  shows "copy_of priv ch s0 e s' f"
proof (cases priv)
  case True
  then have f: "f \<in> live s - tables (mem s) (root ch)" using assms(1) by (simp add: copy_of_def)
  have "mem s' (osmap f + x) = mem s (osmap f + x)" if "frame_of x = 0" for x
    by (rule assms(3) [OF f]) (rule osmap_offset [OF live_small [OF DiffD1 [OF f]] that])
  then show ?thesis using assms(1) assms(2) [OF f] True by (simp add: copy_of_def)
qed (use assms(1) in \<open>simp add: copy_of_def\<close>)

text \<open>One more page.\<close>

lemma space_copied_snoc:
  assumes c: "space_copied xs par ch F s0 s" and pf: "page_forked ch s0 priv seg v e f s s'"
    and v: "user_map (mem s0) par v = Some e" "page_of v \<notin> (\<lambda>(_, _, v). page_of v) ` set xs"
  shows "space_copied (xs @ [(priv, seg, v)]) par ch (F(v := f)) s0 s'"
proof -
  note P = pf [unfolded page_forked_def] and C = c [unfolded space_copied_def]
  let ?xs = "present_items par s0 xs"
  have ne: "w \<noteq> v" "page_of w \<noteq> page_of v" if "(pr, g, w) \<in> set ?xs" for pr g w
  proof -
    have "(pr, g, w) \<in> set xs" using present_sub that by blast
    then have "page_of w \<in> (\<lambda>(_, _, v). page_of v) ` set xs" by force
    then show "page_of w \<noteq> page_of v" using v(2) by metis
    then show "w \<noteq> v" by blast
  qed
  have old: "user_map (mem s') ch w = Some (osmap ((F(v := f)) w) OR seg_flags g) \<and>
      copy_of pr ch s0 (the (user_map (mem s0) par w)) s' ((F(v := f)) w)" if "(pr, g, w) \<in> set ?xs" for pr g w
  proof -
    have "user_map (mem s) ch w = Some (osmap (F w) OR seg_flags g)" "copy_of pr ch s0 (the (user_map (mem s0) par w)) s (F w)"
      using C that by auto
    moreover from this(2) have "copy_of pr ch s0 (the (user_map (mem s0) par w)) s' (F w)"
      by (rule copy_of_keep) (use P in blast)+
    ultimately show ?thesis using P ne [OF that] by simp
  qed
  have inj: "inj_on (F(v := f)) {w. \<exists>g. (True, g, w) \<in> set (present_items par s0 (xs @ [(priv, seg, v)]))}"
  proof (rule inj_onI)
    fix a b assume ab: "a \<in> {w. \<exists>g. (True, g, w) \<in> set (present_items par s0 (xs @ [(priv, seg, v)]))}"
      "b \<in> {w. \<exists>g. (True, g, w) \<in> set (present_items par s0 (xs @ [(priv, seg, v)]))}" "(F(v := f)) a = (F(v := f)) b"
    have mem: "F w \<in> live s" if "(True, g, w) \<in> set ?xs" for g w using C that by (auto simp: copy_of_def)
    consider g h where "(True, g, a) \<in> set ?xs" "(True, h, b) \<in> set ?xs" | g where "(True, g, a) \<in> set ?xs" "b = v" priv
      | g where "a = v" priv "(True, g, b) \<in> set ?xs" | "a = v" "b = v" using ab(1,2) v(1) by auto
    then show "a = b"
    proof cases
      case 1
      then have "F a = F b" using ab(3) ne by simp
      then show ?thesis using C 1 unfolding inj_on_def by blast
    next
      case 2
      then have "F a = f" using ab(3) ne by simp
      then show ?thesis using mem [OF 2(1)] P 2(3) by simp
    next
      case 3
      then have "F b = f" using ab(3) ne by simp
      then show ?thesis using mem [OF 3(3)] P 3(2) by simp
    qed simp
  qed
  have none: "user_map (mem s') ch x = None"
    if "\<forall>(pr, g, w) \<in> set (present_items par s0 (xs @ [(priv, seg, v)])). page_of x \<noteq> page_of w" for x
  proof -
    have "page_of x \<noteq> page_of v" "\<forall>(pr, g, w) \<in> set ?xs. page_of x \<noteq> page_of w" using that v(1) by auto
    then show ?thesis using C P by simp
  qed
  have new: "user_map (mem s') ch v = Some (osmap f OR seg_flags seg)" "copy_of priv ch s0 e s' f" using P by simp_all
  have all: "user_map (mem s') ch w = Some (osmap ((F(v := f)) w) OR seg_flags g) \<and>
      copy_of pr ch s0 (the (user_map (mem s0) par w)) s' ((F(v := f)) w)"
    if "(pr, g, w) \<in> set (present_items par s0 (xs @ [(priv, seg, v)]))" for pr g w
  proof (cases "(pr, g, w) \<in> set ?xs")
    case False
    then have "pr = priv" "g = seg" "w = v" using that v(1) by auto
    then show ?thesis using new v(1) by simp
  qed (rule old)
  show ?thesis
    unfolding space_copied_def using inj none all by (intro conjI ballI allI impI) (blast | clarify)+
qed

lemma fork_fold:
  fixes s0 s1 :: "'a kernel_scheme"
  assumes start: "forking ch s0 s1" "\<And>x. user_map (mem s1) ch x = None" "paths_of [] (mem s1) (root ch)"
    and par: "tree_inv (mem s0) (root par) (live s0)" "user_frames par s0"
    and xs: "distinct (map (\<lambda>(_, _, v). page_of v) xs)" "\<forall>(_, _, v) \<in> set xs. v \<noteq> 0"
    and st: "stock OS_PT_REG (3 * length (present_items par s0 xs) + n) s1"
      "stock USER_REG (length (filter fst (present_items par s0 xs)) + k) s1"
  defines "s \<equiv> fold (fork_item (root ch) par) xs s1"
  shows "forking ch s0 s \<and> (\<exists>F. space_copied xs par ch F s0 s) \<and> paths_of xs (mem s) (root ch) \<and>
    stock OS_PT_REG n s \<and> stock USER_REG k s"
  unfolding s_def using xs st
proof (induction xs arbitrary: n k rule: rev_induct)
  case Nil
  then show ?case using start by (simp add: space_copied_def)
next
  case (snoc x xs)
  obtain priv seg v where x: "x = (priv, seg, v)" by (cases x)
  define s2 where "s2 = fold (fork_item (root ch) par) xs s1"
  have step: "fold (fork_item (root ch) par) (xs @ [x]) s1 = fork_page priv (root ch) par seg v s2"
    by (simp add: s2_def x fork_item_def)
  have v: "v \<noteq> 0" "page_of v \<notin> (\<lambda>(_, _, v). page_of v) ` set xs" using snoc.prems(1,2) by (simp_all add: x)
  have hyp: "distinct (map (\<lambda>(_, _, v). page_of v) xs)" "\<forall>(_, _, v) \<in> set xs. v \<noteq> 0" using snoc.prems(1,2) by simp_all
  have mono: "paths_of xs m b \<Longrightarrow> paths_of (xs @ [x]) m b" for m b unfolding paths_of_def by fastforce
  show ?case
  proof (cases "user_map (mem s0) par v")
    case None
    have IH: "forking ch s0 s2 \<and> (\<exists>F. space_copied xs par ch F s0 s2) \<and> paths_of xs (mem s2) (root ch) \<and>
        stock OS_PT_REG n s2 \<and> stock USER_REG k s2"
      unfolding s2_def by (rule snoc.IH [OF hyp]) (use snoc.prems(3,4) None in \<open>simp_all add: x\<close>)
    have "fork_page priv (root ch) par seg v s2 = s2"
      by (rule fork_page_absent [OF conjunct1 [OF IH] par(1) None])
    moreover have "space_copied (xs @ [x]) par ch F s0 s2 = space_copied xs par ch F s0 s2" for F
      using None by (simp add: space_copied_def x)
    ultimately show ?thesis using IH mono unfolding step by auto
  next
    case (Some e)
    have IH: "forking ch s0 s2 \<and> (\<exists>F. space_copied xs par ch F s0 s2) \<and> paths_of xs (mem s2) (root ch) \<and>
        stock OS_PT_REG (3 + n) s2 \<and> stock USER_REG ((if priv then 1 else 0) + k) s2"
      unfolding s2_def by (rule snoc.IH [OF hyp]) (cases priv; use snoc.prems(3,4) Some in \<open>simp add: x algebra_simps\<close>)+
    then have fk: "forking ch s0 s2" and st: "stock OS_PT_REG (3 + n) s2" "stock USER_REG ((if priv then 1 else 0) + k) s2" by blast+
    note S = fork_page_step [OF fk par v(1) Some st, where seg = seg]
    obtain f where f: "page_forked ch s0 priv seg v e f s2 (fork_page priv (root ch) par seg v s2)" using S(1) by blast
    obtain F where "space_copied xs par ch F s0 s2" using IH by blast
    from space_copied_snoc [OF this f Some v(2)]
    have "\<exists>F. space_copied (xs @ [x]) par ch F s0 (fork_page priv (root ch) par seg v s2)" unfolding x by blast
    moreover have "paths_of (xs @ [x]) (mem (fork_page priv (root ch) par seg v s2)) (root ch)"
      using IH f unfolding page_forked_def only_along_def paths_of_def x by fastforce
    moreover have "forking ch s0 (fork_page priv (root ch) par seg v s2)" using f by (simp add: page_forked_def)
    ultimately show ?thesis using S(2,3) unfolding step by blast
  qed
qed

end
