(* ===== verification/Kernel_Entries.thy ===== *)
theory Kernel_Entries
  imports Table_Copy Program_Run
begin

text \<open>
  The kernel's own entries in the tables of a process: \<open>install_os_pts\<close> and \<open>install_apic_mapping\<close> add
  tables and large pages that user mode cannot reach. \<open>shields L s s'\<close> says that the user mappings are
  the same, and the memory of the frames \<open>L\<close> too, apart from those that are tables.
\<close>

definition shields :: "u64 \<Rightarrow> u64 set \<Rightarrow> 'a page_state_scheme \<Rightarrow> 'a page_state_scheme \<Rightarrow> bool" where
  "shields b L s s' \<longleftrightarrow> mm_inv s' \<and> tree_inv (mem s') b (live s') \<and> live s \<subseteq> live s' \<and>
     (\<forall>p. path_ok p \<longrightarrow> length p \<le> 3 \<longrightarrow> table_at (mem s') b p = table_at (mem s) b p) \<and>
     (\<forall>q j. path_ok q \<longrightarrow> length q = 3 \<longrightarrow> unat j < 512 \<longrightarrow> leaf_at (mem s') b q j = leaf_at (mem s) b q j) \<and>
     (\<forall>x. frame_of x \<in> L - tables (mem s) b \<longrightarrow> mem s' x = mem s x)"

lemma tables_paths:
  assumes "\<And>p. path_ok p \<Longrightarrow> length p \<le> 3 \<Longrightarrow> table_at m' b p = table_at m b p"
  shows "tables m' b = tables m b"
proof -
  have "(path_ok p \<and> length p \<le> 3 \<and> table_at m' b p = Some t) = (path_ok p \<and> length p \<le> 3 \<and> table_at m b p = Some t)" for p t
    using assms [of p] by auto
  then show ?thesis unfolding tables_def by simp
qed

lemma shieldsD:
  assumes "shields b L s s'"
  shows "mm_inv s'" "tree_inv (mem s') b (live s')" "live s \<subseteq> live s'"
    "path_ok p \<Longrightarrow> length p \<le> 3 \<Longrightarrow> table_at (mem s') b p = table_at (mem s) b p"
    "path_ok q \<Longrightarrow> length q = 3 \<Longrightarrow> unat j < 512 \<Longrightarrow> leaf_at (mem s') b q j = leaf_at (mem s) b q j"
    "frame_of x \<in> L - tables (mem s) b \<Longrightarrow> mem s' x = mem s x" "tables (mem s') b = tables (mem s) b"
  using assms tables_paths [of "mem s'" b "mem s"] unfolding shields_def by blast+

lemma shields_refl: "mm_inv s \<Longrightarrow> tree_inv (mem s) b (live s) \<Longrightarrow> shields b L s s"
  by (simp add: shields_def)

lemma shields_trans:
  assumes "shields b L s s'" "shields b L s' s''"
  shows "shields b L s s''"
proof -
  note A = shieldsD [OF assms(1)] and B = shieldsD [OF assms(2)]
  show ?thesis unfolding shields_def using B(1,2) A(3-7) B(3-7) by auto
qed

lemma shields_pmd [simp]: "shields b L s (s'\<lparr>os_pmd_pfn := x\<rparr>) = shields b L s s'"
  by (simp add: shields_def mm_inv_def live_def taken_def)

text \<open>An entry that is not for user mode is overwritten by another one.\<close>

lemma kernel_entry_tree:
  assumes tree: "tree_inv m b fr" and ea: "aligned 3 ea" "\<not> user_entry (rd64 m ea)"
    and m': "\<And>a. frame_of a \<in> fr \<Longrightarrow> m' a = wr64 m ea v a" "\<not> user_entry v"
  shows "path_ok p \<Longrightarrow> length p \<le> 3 \<Longrightarrow> table_at m' b p = table_at m b p" "tree_inv m' b fr"
    "path_ok q \<Longrightarrow> length q = 3 \<Longrightarrow> unat j < 512 \<Longrightarrow> leaf_at m' b q j = leaf_at m b q j"
proof -
  have rd: "rd64 m' (entry_addr t i) = (if entry_addr t i = ea then v else rd64 m (entry_addr t i))"
    if "path_ok p" "length p \<le> 3" "table_at m b p = Some t" "unat i < 512" for p t i
  proof -
    note e = tree_entry_frame [OF tree that]
    have "rd64 m' (entry_addr t i) = rd64 (wr64 m ea v) (entry_addr t i)"
      by (rule rd64_cong [OF e(1), of 12]) (use e(2,3) m'(1) in auto)
    then show ?thesis using rd64_wr64_other [OF ea(1) e(1)] ea(1) by auto
  qed
  show T: "table_at m' b p = table_at m b p" if "path_ok p" "length p \<le> 3" for p
    using that
  proof (induction p rule: rev_induct)
    case (snoc j p)
    then show ?case using rd [of p _ j] ea(2) m'(2) by (auto simp: table_at_snoc split: option.split)
  qed simp
  show "tree_inv m' b fr" using tree T unfolding tree_inv_def by auto
  show "leaf_at m' b q j = leaf_at m b q j" if q: "path_ok q" "length q = 3" "unat j < 512"
    using T [of q] rd [of q _ j] q ea(2) m'(2) by (auto simp: leaf_at_def Let_def split: option.split)
qed

lemma shields_hook:
  fixes s :: "'a kernel_scheme"
  assumes inv: "mm_inv s" "tree_inv (mem s) b (live s)" "stock OS_PT_REG (Suc n) s" "L \<subseteq> live s"
    and ea: "aligned 3 ea" "frame_of ea \<in> live s" "frame_of ea \<notin> L - tables (mem s) b" "\<not> user_entry (rd64 (mem s) ea)"
    and v: "\<not> user_entry (osmap (ucast f) OR 3)" and al: "os_pfn_alloc OS_PT_REG s = (f, s1)"
  defines "s' \<equiv> s1\<lparr>mem := wr64 (mem s1) ea (osmap (ucast f) OR 3)\<rparr>"
  shows "shields b L s s'" "stock OS_PT_REG n s'" "ucast f \<notin> live s" "live s' = insert (ucast f) (live s)"
    "frame_of a = ucast f \<Longrightarrow> mem s' a = 0"
    "frame_of a \<in> live s \<Longrightarrow> mem s' a = wr64 (mem s) ea (osmap (ucast f) OR 3) a"
proof -
  let ?v = "osmap (ucast f) OR 3 :: u64"
  have u: "s' = mem_update (\<lambda>m. wr64 m ea ?v) s1" by (simp add: s'_def mem_update_eq)
  have fe: "frame_of ea \<in> taken s" "frame_of ea \<notin> bmap_frames" using ea(2) by (auto simp: live_def)
  note H = pt_store.hook(1-3) [OF inv(1,3) al ea(1) fe, where v = ?v, folded u]
    pt_store.hook(4,5) [OF inv(1,3) al ea(1) fe]
    pt_store.hook(6,7) [OF inv(1,3) al ea(1) fe, where v = ?v, folded u]
  show "stock OS_PT_REG n s'" by (rule H(2))
  show nl: "ucast f \<notin> live s" using H(4) by (simp add: live_def)
  show lv: "live s' = insert (ucast f) (live s)" using H(3,5) by (auto simp: live_def)
  show "frame_of a = ucast f \<Longrightarrow> mem s' a = 0" by (rule H(6))
  have same: "mem s' a = wr64 (mem s) ea ?v a" if "frame_of a \<in> live s" for a
    using H(7) that by (auto simp: live_def)
  then show "frame_of a \<in> live s \<Longrightarrow> mem s' a = wr64 (mem s) ea ?v a" .
  note K = kernel_entry_tree [OF inv(2) ea(1,4) same v]
  have "mem s' x = mem s x" if "frame_of x \<in> L - tables (mem s) b" for x
  proof -
    have "frame_of x \<noteq> frame_of ea" using that ea(3) by auto
    then show ?thesis using same [of x] that inv(4) wr64_frame [OF ea(1), of 12 x] by auto
  qed
  moreover have "tree_inv (mem s') b (live s')" by (rule tree_inv_cong [OF K(2)]) (use lv in auto)
  ultimately show "shields b L s s'" using H(1) K(1,3) lv by (auto simp: shields_def)
qed

lemma tables_live: "tree_inv m b fr \<Longrightarrow> tables m b \<subseteq> fr"
  unfolding tree_inv_def tables_def by blast

text \<open>A frame that is neither a table nor shielded may change.\<close>

lemma shields_frame:
  fixes s :: "'a kernel_scheme"
  assumes inv: "mm_inv s" "tree_inv (mem s) b (live s)" and f: "f \<in> live s" "f \<notin> tables (mem s) b" "f \<notin> L"
    and m: "\<forall>a. frame_of a \<noteq> f \<longrightarrow> m a = mem s a"
  shows "shields b L s (s\<lparr>mem := m\<rparr>)" "stock r n (s\<lparr>mem := m\<rparr>) = stock r n s" "live (s\<lparr>mem := m\<rparr>) = live s"
proof -
  have out: "(\<lambda>_. m) (mem s) a = mem s a" if "frame_of a \<in> bmap_frames" for a
  proof -
    have "frame_of a \<noteq> f" using f(1) that by (auto simp: live_def)
    then show ?thesis using m by simp
  qed
  note M = mem_update_outside [OF inv(1), of "\<lambda>_. m", OF out]
  show "stock r n (s\<lparr>mem := m\<rparr>) = stock r n s" by (rule M(3))
  show lv: "live (s\<lparr>mem := m\<rparr>) = live s" using M(2) by (simp add: live_def)
  let ?fr = "tables (mem s) b"
  have T: "tree_inv (mem s) b ?fr" by (rule tree_inv_frames [OF inv(2) subset_refl])
  have keep: "m a = mem s a" if "frame_of a \<in> ?fr" for a
  proof -
    have "frame_of a \<noteq> f" using f(2) that by auto
    then show ?thesis using m by simp
  qed
  have "m x = mem s x" if "frame_of x \<in> L - ?fr" for x
  proof -
    have "frame_of x \<noteq> f" using f(3) that by auto
    then show ?thesis using m by simp
  qed
  moreover have "tree_inv m b (live s)" by (rule tree_inv_cong [OF T keep tables_live [OF inv(2)]])
  ultimately show "shields b L s (s\<lparr>mem := m\<rparr>)"
    using M(1) lv table_at_cong [OF T keep] leaf_at_cong [OF T keep] by (simp add: shields_def)
qed

lemma kernel_flags: "\<not> user_entry (osmap f OR 3)"
proof -
  have "bit (3 :: u64) n \<longleftrightarrow> n < 2" for n
    using bit_mask_iff [of 2 n, where ?'a = "64 word"] by (simp add: mask_eq_exp_minus_1) linarith
  then have "\<not> bit (3 :: u64) 2" by simp
  then show ?thesis by (simp add: user_entry_bits bit_or_iff osmap_def bit_push_bit_iff)
qed

subsection \<open>\<open>install_apic_mapping\<close>\<close>

lemma apic_shields:
  fixes s :: "'a kernel_scheme"
  assumes inv: "mm_inv s" "tree_inv (mem s) b (live s)" "stock OS_PT_REG (Suc n) s" "L \<subseteq> live s" "b = push_bit 12 p"
    and t: "aligned 12 t" "frame_of t \<in> live s" "frame_of t \<notin> L - tables (mem s) b"
    and e: "rd64 (mem s) (entry_addr b 0) AND 1 \<noteq> 0" "push_bit 12 (drop_bit 12 (rd64 (mem s) (entry_addr b 0))) = t"
      "rd64 (mem s) (entry_addr t (of_nat j)) = 0" "j < 4"
    and a: "address = push_bit 21 (drop_bit 21 (apic_base s))" "pgd_index address = 0" "pud_index address = of_nat j"
  shows "shields b L s (install_apic_mapping p s)" "stock OS_PT_REG n (install_apic_mapping p s)"
proof -
  obtain f s1 where al: "os_pfn_alloc OS_PT_REG s = (f, s1)" by fastforce
  have j: "unat (of_nat j :: u64) < 512" using e(4) by (simp add: slot_unat)
  let ?ea = "entry_addr t (of_nat j)"
  define s2 where "s2 = s1\<lparr>mem := wr64 (mem s1) ?ea (osmap (ucast f) OR 3)\<rparr>"
  have ea: "aligned 3 ?ea" "frame_of ?ea = frame_of t" using t(1) j by (simp_all add: entry_addr_aligned entry_addr_frame)
  have l1: "apic_level (push_bit 12 p) (pgd_index address) s = (t, s)"
    using e(1,2) by (simp only: a(2) inv(5) [symmetric]) (simp add: apic_level_def table_level_def Let_def)
  have l2: "apic_level t (pud_index address) s = (osmap (ucast f), s2)"
    using e(3) al by (simp only: a(3)) (simp add: apic_level_def table_level_def Let_def s2_def)
  note H = shields_hook [OF inv(1-4) ea(1) _ _ _ kernel_flags al, folded s2_def]
  have H1: "shields b L s s2" "stock OS_PT_REG n s2" "ucast f \<notin> live s" "live s2 = insert (ucast f) (live s)"
    "frame_of x = ucast f \<Longrightarrow> mem s2 x = 0" for x
    by (rule H; use t(2,3) ea(2) e(3) in simp)+
  note S = shieldsD [OF H1(1)]
  have p: "unat (pmd_index address) < 512" by simp
  let ?pmd = "entry_addr (osmap (ucast f)) (pmd_index address)"
  have z: "rd64 (mem s2) ?pmd = 0" by (rule zero_table [OF H1(5) p])
  obtain v where v: "install_apic_mapping p s = s2\<lparr>mem := wr64 (mem s2) ?pmd v\<rparr>"
    unfolding install_apic_mapping_def a(1) [symmetric] Let_def l1 l2 prod.case z by auto
  have out: "\<forall>x. frame_of x \<noteq> ucast f \<longrightarrow> wr64 (mem s2) ?pmd v x = mem s2 x"
    using wr64_frame [of ?pmd 12 _ "mem s2" v] by (simp add: entry_addr_aligned entry_addr_frame)
  have f: "ucast f \<in> live s2" "ucast f \<notin> tables (mem s2) b" "ucast f \<notin> L"
    using H1(3,4) S(7) tables_live [OF inv(2)] inv(4) by auto
  note F = shields_frame [OF S(1,2) f out, folded v]
  show "shields b L s (install_apic_mapping p s)" by (rule shields_trans [OF H1(1) F(1)])
  show "stock OS_PT_REG n (install_apic_mapping p s)" using F(2) H1(2) by simp
qed

subsection \<open>\<open>install_os_pts\<close>\<close>

text \<open>None of the operations on page tables changes the base address of the interrupt controller.\<close>

lemma apic_os_pfn_alloc [simp, frame_simps]: "apic_base (snd (os_pfn_alloc r s)) = apic_base s"
  by (simp add: os_pfn_alloc_def Let_def split_beta printf_def split: option.split)

lemma apic_table_level [simp, frame_simps]: "apic_base (snd (table_level pr nt fl cl b i s)) = apic_base s"
  by (simp add: table_level_def Let_def split_beta)

lemma apic_install_ptable [simp, frame_simps]: "apic_base (snd (install_ptable b mm a u s)) = apic_base s"
  by (simp add: install_ptable_def ptable_levels_def ptable_level_def Let_def split_beta)

lemma apic_copy_page [simp, frame_simps]:
  "apic_base (copy_shared_page b par seg a s) = apic_base s" "apic_base (copy_private_page b par seg a s) = apic_base s"
  by (simp_all add: copy_shared_page_def copy_private_page_def Let_def split_beta)

text \<open>The table for the first 512 GB: the one that user mappings use, or a new one.\<close>

lemma os_first_table:
  fixes s :: "'a kernel_scheme"
  assumes inv: "mm_inv s" "tree_inv (mem s) b (live s)" "plain (mem s) b" "stock OS_PT_REG (Suc n) s" "L \<subseteq> live s"
    and none: "\<forall>j<4. table_at (mem s) b [0, of_nat j] = None"
    and eq: "table_level (\<lambda>e. e \<noteq> 0) (\<lambda>e. e AND FLAG_MASK) 0x3 (\<lambda>m _. m) b 0 s = (t, s1)"
  shows "shields b L s s1" "stock OS_PT_REG n s1" "aligned 12 t" "frame_of t \<in> live s1" "frame_of t \<notin> L - tables (mem s) b"
    "frame_of t \<noteq> frame_of b" "j < 4 \<Longrightarrow> rd64 (mem s1) (entry_addr t (of_nat j)) = 0"
    "rd64 (mem s1) (entry_addr b 0) AND 1 \<noteq> 0" "push_bit 12 (drop_bit 12 (rd64 (mem s1) (entry_addr b 0))) = t"
proof -
  let ?e = "rd64 (mem s) (entry_addr b 0)"
  have r: "path_ok []" "length [] \<le> (2::nat)" "table_at (mem s) b [] = Some b" "unat (0 :: u64) < 512" by simp_all
  note pe = plain_entry_facts [OF plainD [OF inv(3) r]]
  have r3: "length [] \<le> (3::nat)" by simp
  note ea = tree_entry_frame [OF inv(2) r(1) r3 r(3,4)]
  have bt: "frame_of b \<in> tables (mem s) b" unfolding tables_def using r(1,3) by fastforce
  have "shields b L s s1 \<and> stock OS_PT_REG n s1 \<and> aligned 12 t \<and> frame_of t \<in> live s1 \<and> frame_of t \<notin> L - tables (mem s) b \<and>
    frame_of t \<noteq> frame_of b \<and> (\<forall>j<4. rd64 (mem s1) (entry_addr t (of_nat j)) = 0) \<and>
    rd64 (mem s1) (entry_addr b 0) AND 1 \<noteq> 0 \<and> push_bit 12 (drop_bit 12 (rd64 (mem s1) (entry_addr b 0))) = t"
  proof (cases "user_entry ?e")
    case True
    then have s1: "s1 = s" "t = tab_of ?e" using eq pe(1,3) by (auto simp: table_level_def Let_def)
    have q: "path_ok [0]" "length [0 :: u64] \<le> 2" "length [0 :: u64] \<le> 3" by simp_all
    have t: "table_at (mem s) b [0] = Some t" using True s1(2) by (simp add: Let_def)
    note T = tree_invD [OF inv(2) q(1,3) t]
    have "t \<noteq> b" using T(3) [of "[]"] by auto
    moreover have "x = push_bit 12 (frame_of x)" if "aligned 12 x" for x :: u64
      using that bits_ident [of 12 x] by (simp add: aligned_def)
    ultimately have ne: "frame_of t \<noteq> frame_of b" using T(1) inv(2) unfolding tree_inv_def by metis
    have zero: "rd64 (mem s) (entry_addr t (of_nat j)) = 0" if "j < 4" for j
    proof -
      have "plain_entry (rd64 (mem s) (entry_addr t (of_nat j)))"
        by (rule plainD [OF inv(3) q(1,2) t]) (use that in \<open>simp add: slot_unat\<close>)
      moreover have "\<not> user_entry (rd64 (mem s) (entry_addr t (of_nat j)))"
        using none that table_at_snoc [of "mem s" b "[0]" "of_nat j"] t by (auto split: if_splits)
      ultimately show ?thesis by (simp add: plain_entry_def)
    qed
    have "frame_of t \<in> tables (mem s) b" unfolding tables_def using q(1,3) t by blast
    moreover have "stock OS_PT_REG n s" using inv(4) by (simp add: stock_def)
    ultimately show ?thesis
      using shields_refl [OF inv(1,2)] T(1,2) ne zero pe(2,4) True s1 by auto
  next
    case False
    obtain f u where al: "os_pfn_alloc OS_PT_REG s = (f, u)" by fastforce
    have s1: "t = osmap (ucast f)" "s1 = u\<lparr>mem := wr64 (mem u) (entry_addr b 0) (osmap (ucast f) OR 3)\<rparr>"
      using eq False pe(1) al by (auto simp: table_level_def Let_def)
    have H: "shields b L s s1" "stock OS_PT_REG n s1" "ucast f \<notin> live s" "live s1 = insert (ucast f) (live s)"
      "\<And>x. frame_of x = ucast f \<Longrightarrow> mem s1 x = 0"
      "\<And>x. frame_of x \<in> live s \<Longrightarrow> mem s1 x = wr64 (mem s) (entry_addr b 0) (osmap (ucast f) OR 3) x"
      unfolding s1(2) by (rule shields_hook [OF inv(1,2,4,5) ea(1,2) _ False kernel_flags al]; use ea(3) bt in simp)+
    have "rd64 (mem s1) (entry_addr b 0) = rd64 (wr64 (mem s) (entry_addr b 0) (osmap (ucast f) OR 3)) (entry_addr b 0)"
      by (rule rd64_cong [OF ea(1), of 12]) (use ea(2) H(6) in auto)
    then have e: "rd64 (mem s1) (entry_addr b 0) = osmap (ucast f) OR 3" using ea(1) by simp
    have fl: "ucast f \<in> live s1" using H(4) by simp
    note V = entry_value [OF live_small [OF fl] table_flags(5,6)]
    have "rd64 (mem s1) (entry_addr t (of_nat j)) = 0" if "j < 4" for j
      unfolding s1(1) by (rule zero_table [OF H(5)]) (use that in \<open>simp_all add: slot_unat\<close>)
    moreover have "frame_of b \<noteq> ucast f" using tables_live [OF inv(2)] bt H(3) by auto
    moreover have "ucast f \<notin> L" using H(3) inv(5) by blast
    ultimately show ?thesis using H(1,2) fl V(1,2) e by (simp add: s1(1)) (simp add: osmap_def)
  qed
  then show "shields b L s s1" "stock OS_PT_REG n s1" "aligned 12 t" "frame_of t \<in> live s1" "frame_of t \<notin> L - tables (mem s) b"
    "frame_of t \<noteq> frame_of b" "j < 4 \<Longrightarrow> rd64 (mem s1) (entry_addr t (of_nat j)) = 0"
    "rd64 (mem s1) (entry_addr b 0) AND 1 \<noteq> 0" "push_bit 12 (drop_bit 12 (rd64 (mem s1) (entry_addr b 0))) = t" by blast+
qed

lemma pmd_mem: "x\<lparr>mem := m, os_pmd_pfn := q\<rparr> = x\<lparr>os_pmd_pfn := q, mem := m\<rparr>"
  by (rule kernel.equality) simp_all

lemma install_os_pts_shields:
  fixes s :: "'a kernel_scheme"
  assumes inv: "mm_inv s" "tree_inv (mem s) (root ch) (live s)" "plain (mem s) (root ch)" "stock OS_PT_REG (3 + n) s" "L \<subseteq> live s"
    and none: "\<forall>j<4. table_at (mem s) (root ch) [0, of_nat j] = None"
    and apic: "0x40000000 \<le> apic_base s" "apic_base s < 0x100000000"
  shows "shields (root ch) L s (snd (install_os_pts (pgd ch) s))" "stock OS_PT_REG n (snd (install_os_pts (pgd ch) s))"
proof -
  let ?b = "root ch"
  have pb: "push_bit 12 (ucast (pgd ch)) = ?b" by (simp add: osmap_def)
  obtain t s1 where l: "table_level (\<lambda>e. e \<noteq> 0) (\<lambda>e. e AND FLAG_MASK) 0x3 (\<lambda>m _. m) ?b 0 s = (t, s1)" by fastforce
  have st: "stock OS_PT_REG (Suc (Suc (Suc n))) s" using inv(4) by (simp add: eval_nat_numeral)
  note F = os_first_table [OF inv(1-3) st inv(5) none l] and S = shieldsD [OF os_first_table(1) [OF inv(1-3) st inv(5) none l]]
  obtain q s2 where al: "os_pfn_alloc OS_PT_REG s1 = (q, s2)" by fastforce
  define s3 where "s3 = s2\<lparr>mem := wr64 (mem s2) t (osmap (ucast q) OR 3)\<rparr>"
  have e0: "entry_addr x 0 = x" for x by (simp add: entry_addr_def)
  have z: "rd64 (mem s1) t = 0" using F(7) [of 0] by (simp add: e0)
  have L1: "L \<subseteq> live s1" using inv(5) S(3) by blast
  have ta: "aligned 3 t" by (rule aligned_mono [OF F(3)]) simp
  have H: "shields ?b L s1 s3" "stock OS_PT_REG (Suc n) s3" "ucast q \<notin> live s1" "live s3 = insert (ucast q) (live s1)"
    "\<And>x. frame_of x \<in> live s1 \<Longrightarrow> mem s3 x = wr64 (mem s1) t (osmap (ucast q) OR 3) x"
    unfolding s3_def by (rule shields_hook [OF S(1,2) F(2) L1 ta F(4) _ _ kernel_flags al]; use F(5) S(7) z in simp)+
  note S3 = shieldsD [OF H(1)]
  define fl where "fl = (if global_mapping (config s) \<noteq> 0 then 0x183 else 0x83 :: u64)"
  define s4 where "s4 = s3\<lparr>mem := os_map_loop (osmap (ucast q)) fl OS_PT_MAPS (mem s3)\<rparr>"
  have q: "ucast q \<in> live s3" "ucast q \<notin> tables (mem s3) ?b" "ucast q \<notin> L"
    using H(3,4) S3(7) tables_live [OF S(2)] L1 by auto
  have out: "\<forall>a. frame_of a \<noteq> ucast q \<longrightarrow> os_map_loop (osmap (ucast q)) fl OS_PT_MAPS (mem s3) a = mem s3 a"
    using os_map_loop_frame [OF live_small [OF q(1)]] by simp
  note D = shields_frame [OF S3(1,2) q out, folded s4_def]
  note S4 = shieldsD [OF D(1)]
  have m4: "mem s4 x = wr64 (mem s1) t (osmap (ucast q) OR 3) x" if "frame_of x \<in> live s1" for x
  proof -
    have "frame_of x \<noteq> ucast q" using that H(3) by auto
    then show ?thesis using out H(5) [OF that] by (simp add: s4_def)
  qed
  have rd: "rd64 (mem s4) ea = rd64 (mem s1) ea" if "aligned 3 ea" "frame_of ea \<in> live s1" "ea \<noteq> t" for ea
  proof -
    have "rd64 (mem s4) ea = rd64 (wr64 (mem s1) t (osmap (ucast q) OR 3)) ea"
      by (rule rd64_cong [OF that(1), of 12]) (use that(2) m4 in auto)
    then show ?thesis using rd64_wr64_other [OF ta that(1)] that(3) by metis
  qed
  have ba: "aligned 3 ?b" "frame_of ?b \<in> live s1"
    using tree_invD(2) [OF S(2), of "[]"] by simp_all
  have root: "rd64 (mem s4) (entry_addr ?b 0) = rd64 (mem s1) (entry_addr ?b 0)"
    unfolding e0 by (rule rd [OF ba]) (use F(6) in auto)
  define j where "j = unat (pud_index (push_bit 21 (drop_bit 21 (apic_base s))))"
  have j: "pgd_index (push_bit 21 (drop_bit 21 (apic_base s))) = 0" "pud_index (push_bit 21 (drop_bit 21 (apic_base s))) = of_nat j"
    "0 < j" "j < 4"
    using apic_indices [OF apic] by (auto simp: j_def)
  have zj: "rd64 (mem s4) (entry_addr t (of_nat j)) = 0"
  proof -
    have u: "unat (of_nat j :: u64) = j" using j(4) by (simp add: slot_unat)
    have "entry_addr t (of_nat j) \<noteq> entry_addr t 0"
      using entry_addr_inj [OF F(3) F(3), of "of_nat j" 0] u j(3,4) by auto
    then have "entry_addr t (of_nat j) \<noteq> t" by (simp add: e0)
    moreover have "aligned 3 (entry_addr t (of_nat j))" "frame_of (entry_addr t (of_nat j)) \<in> live s1"
      using F(3,4) u j(4) by (simp_all add: entry_addr_aligned entry_addr_frame)
    ultimately show ?thesis using rd F(7) [OF j(4)] by simp
  qed
  define s5 where "s5 = s4\<lparr>os_pmd_pfn := ucast q\<rparr>"
  have os: "snd (install_os_pts (pgd ch) s) = install_apic_mapping (ucast (pgd ch)) s5"
    unfolding install_os_pts_def pb l Let_def prod.case z al using z
    by (simp add: s5_def s4_def s3_def fl_def pmd_mem)
  have ab: "apic_base s5 = apic_base s"
    using apic_table_level [of "\<lambda>e. e \<noteq> 0" "\<lambda>e. e AND FLAG_MASK" 3 "\<lambda>m _. m" ?b 0 s] apic_os_pfn_alloc [of OS_PT_REG s1]
    by (simp add: s5_def s4_def s3_def l al del: apic_table_level apic_os_pfn_alloc)
  have s5: "mm_inv s5" "tree_inv (mem s5) ?b (live s5)" "stock OS_PT_REG (Suc n) s5" "L \<subseteq> live s5" "frame_of t \<in> live s5"
    "tables (mem s5) ?b = tables (mem s) ?b" "mem s5 = mem s4"
    using S4(1,2,7) D(2,3) H(2,4) L1 F(4) S3(7) S(7) by (auto simp: s5_def mm_inv_def live_def taken_def stock_def stock_set_def)
  have t5: "frame_of t \<notin> L - tables (mem s5) ?b" using F(5) s5(6) by simp
  note A = apic_shields [OF s5(1-4) pb [symmetric] F(3) s5(5) t5 _ _ _ j(4) _ j(1,2), unfolded s5(7) root ab]
  have "shields ?b L s s5"
    unfolding s5_def shields_pmd by (rule shields_trans [OF F(1) shields_trans [OF H(1) D(1)]])
  then show "shields ?b L s (snd (install_os_pts (pgd ch) s))"
    unfolding os by (rule shields_trans) (rule A(1); use F(8,9) zj in simp)
  show "stock OS_PT_REG n (snd (install_os_pts (pgd ch) s))"
    unfolding os by (rule A(2); use F(8,9) zj in simp)
qed

end
