(* ===== verification/User_Access.thy ===== *)
theory User_Access
  imports Address_Space Lifecycle
begin

text \<open>
  Kernel accesses to user memory. \<open>do_write\<close> checks with \<open>get_user_pte\<close> before it reads, the
  delivery of a signal writes without a check. The translation of the processor is the parameter
  \<open>mmu\<close>; \<open>mmu_ok\<close> states the documented behaviour this development relies on: a canonical
  address whose page is mapped for users translates through the frame of its last-level entry.
\<close>

subsection \<open>Translation\<close>

definition phys :: "u64 \<Rightarrow> u64 \<Rightarrow> u64" where
  "phys e va = osmap (ucast (entry_pfn e)) OR take_bit 12 va"


text \<open>A processor that only knows the user mappings, and refuses addresses that are not canonical.\<close>

definition walk_mmu :: mmu where
  "walk_mmu m c va =
     (if drop_bit 47 va = 0
      then map_option (\<lambda>e. phys e va) (user_map m (zero_ctx\<lparr>pgd := ucast (drop_bit 12 c)\<rparr>) va) else None)"



lemma mapped_iff: "user_map m ctx a = None \<longleftrightarrow> get_user_pte m ctx a = 0"
  by (simp add: user_map_def Let_def)

lemma user_map_page: "page_of a = page_of b \<Longrightarrow> user_map m ctx a = user_map m ctx b"
  using same_path [of a b] by (auto simp: user_map_def get_user_pte_eq split: option.split)

lemma page_of_frame: "drop_bit 12 a = drop_bit 12 b \<Longrightarrow> page_of a = page_of b"
proof -
  assume *: "drop_bit 12 a = drop_bit 12 b"
  have "bit a n = bit b n" if "12 \<le> n" for n
  proof -
    have "bit (drop_bit 12 a) (n - 12) = bit (drop_bit 12 b) (n - 12)" by (simp only: *)
    then show ?thesis using that by (simp add: bit_drop_bit_eq)
  qed
  then show ?thesis by (intro bit_word_eqI) (auto simp: bit_page_of simp del: bit_and_iff)
qed

subsection \<open>\<open>do_write\<close>\<close>

text \<open>A range shorter than a page touches the pages of its two ends only.\<close>

lemma two_pages:
  fixes a i len :: u64
  assumes "unat i \<le> unat len" "unat len \<le> 4096"
  shows "drop_bit 12 (a + i) = drop_bit 12 a \<or> drop_bit 12 (a + i) = drop_bit 12 (a + len)"
proof -
  define off where "off = take_bit 12 a"
  define p where "p = a - off"
  have "unat off < 2 ^ 12" unfolding off_def unsigned_take_bit_eq by (rule take_bit_nat_less_exp)
  then have off: "unat off < 4096" by simp
  have "p = push_bit 12 (drop_bit 12 a)"
    using bits_ident [of 12 a] by (simp add: p_def off_def algebra_simps)
  then have al: "aligned 12 p" by simp
  have a: "a = p + off" by (simp add: p_def)
  have sum: "unat (off + j) = unat off + unat j" if "unat j \<le> 4096" for j
    using off that by (subst unat_add_lem [THEN iffD1]) auto
  show ?thesis
  proof (cases "unat off + unat i < 4096")
    case True
    then have "drop_bit 12 (p + (off + i)) = drop_bit 12 p" "drop_bit 12 (p + off) = drop_bit 12 p"
      using aligned_add(1) [OF al] off sum assms by simp_all
    then show ?thesis by (simp add: a add.assoc)
  next
    case False
    have al': "aligned 12 (p + 4096)" using al by (rule aligned_plus) (simp add: aligned_def)
    have "drop_bit 12 (p + 4096 + (off + j - 4096)) = drop_bit 12 (p + 4096)"
      if "unat i \<le> unat j" "unat j \<le> unat len" "unat off + unat j < 8192" for j
    proof -
      have "unat (off + j - 4096) = unat off + unat j - 4096"
        using sum [of j] that(1,2) False assms(2) by (subst unat_sub) (auto simp: word_le_nat_alt)
      then show ?thesis using aligned_add(1) [OF al', of "off + j - 4096"] that(3) by simp
    qed
    from this [of i] this [of len] show ?thesis using off assms by (simp add: a algebra_simps)
  qed
qed

lemma good_write_mapped:
  assumes "\<not> bad_write m ctx a len" "unat i \<le> unat len"
  shows "\<exists>e. user_map m ctx (a + i) = Some e"
proof -
  have len: "unat len \<le> 4096" and p: "get_user_pte m ctx a \<noteq> 0"
    "drop_bit 12 a = drop_bit 12 (a + len) \<or> get_user_pte m ctx (a + len) \<noteq> 0"
    using assms(1) by (auto simp: bad_write_def not_less word_le_nat_alt)
  have e: "\<exists>e. user_map m ctx b = Some e" if "get_user_pte m ctx b \<noteq> 0" for b
    using that by (simp add: user_map_def Let_def)
  have pg: "user_map m ctx (a + i) = user_map m ctx b" if "drop_bit 12 (a + i) = drop_bit 12 b" for b
    by (rule user_map_page [OF page_of_frame [OF that]])
  show ?thesis using two_pages [OF assms(2) len, of a] p e pg by metis
qed



text \<open>A state in which the page of the data segment is mapped, with \<open>cr3\<close> at its tables.\<close>

definition mapped_space :: kernel where
  "mapped_space = install_page_table (fst first_space) 0x180000000 2 (snd first_space)
     \<lparr>cr3 := push_bit 12 (ucast (pgd (fst first_space)))\<rparr>"

lemma mapped_space_map: "\<exists>e. user_map (mem mapped_space) (fst first_space) 0x180000000 = Some e"
proof -
  obtain e where "user_map (mem (install_page_table (fst first_space) 0x180000000 2 (snd first_space))) (fst first_space) 0x180000000 = Some e"
    by (rule install_then_unmap [OF first_space_inv(1-3) first_space_inv(4) [of "0x180000000"], where err = 2]) blast
  then show ?thesis by (simp add: mapped_space_def)
qed


text \<open>The check ignores the address bits above 47.\<close>

lemma page_of_high: "page_of (a + push_bit 48 h) = page_of a"
proof -
  have a: "a + push_bit 48 h = push_bit 48 (drop_bit 48 a + h) + take_bit 48 a"
    using bits_ident [of 48 a] by (simp add: push_bit_add algebra_simps)
  have "unat (take_bit 48 a) < 2 ^ 48" unfolding unsigned_take_bit_eq by (rule take_bit_nat_less_exp)
  then have "take_bit 48 (a + push_bit 48 h) = take_bit 48 a"
    unfolding a by (intro aligned_add(2)) simp_all
  then have "bit (take_bit 48 (a + push_bit 48 h)) n = bit (take_bit 48 a) n" for n by simp
  then have "bit (a + push_bit 48 h) n = bit a n" if "n < 48" for n using that by (auto simp: bit_take_bit_iff)
  then show ?thesis by (intro bit_word_eqI) (auto simp: bit_page_of simp del: bit_and_iff)
qed

text \<open>The check that \<open>write\<close> makes ignores the upper 16 bits of the
  address: a buffer that passes it is read at the full address, and where the hardware does not
  translate that address the kernel itself takes the fault.\<close>

theorem do_write_noncanonical:
  fixes s :: "'a kernel_scheme"
  assumes "\<not> bad_write (mem s) ctx a len" "0 < len" "mmu (mem s) (cr3 s) (a + push_bit 48 h) = None"
  shows "do_write mmu ctx (a + push_bit 48 h) len s = Inl KernelPageFault"
proof -
  have p: "get_user_pte m ctx (b + push_bit 48 h) = 0 \<longleftrightarrow> get_user_pte m ctx b = 0" for m b
  proof -
    have "(user_map m ctx (b + push_bit 48 h) = None) = (user_map m ctx b = None)"
      using user_map_page [OF page_of_high] by metis
    then show ?thesis by (simp only: mapped_iff)
  qed
  have "get_user_pte (mem s) ctx (a + push_bit 48 h + len) = 0 \<longleftrightarrow> get_user_pte (mem s) ctx (a + len) = 0"
    using p [of _ "a + len"] by (simp add: algebra_simps)
  moreover have "drop_bit PAGE_SHIFT (a + push_bit 48 h) \<noteq> drop_bit PAGE_SHIFT (a + push_bit 48 h + len) \<longrightarrow>
      get_user_pte (mem s) ctx (a + len) \<noteq> 0"
    using good_write_mapped [OF assms(1), of len] by (auto simp: user_map_def Let_def split: if_splits)
  ultimately have "\<not> bad_write (mem s) ctx (a + push_bit 48 h) len"
    using assms(1) p by (auto simp: bad_write_def)
  moreover have "unat len \<noteq> 0" using assms(2) by (metis unat_eq_zero less_irrefl)
  then obtain n where "unat len = Suc n" by (cases "unat len") auto
  ultimately show ?thesis using assms(3) by (simp add: do_write_def print_user_def)
qed

theorem do_write_noncanonical_witness:
  "do_write walk_mmu (fst first_space) 0x1000180000000 5 mapped_space = Inl KernelPageFault"
proof -
  have "get_user_pte (mem mapped_space) (fst first_space) 0x180000000 \<noteq> 0"
    using mapped_space_map by (auto simp: mapped_iff [symmetric])
  then have "\<not> bad_write (mem mapped_space) (fst first_space) 0x180000000 5" by (simp add: bad_write_def)
  moreover have "(0x180000000 :: u64) + push_bit 48 1 = 0x1000180000000" by simp
  moreover have "walk_mmu (mem mapped_space) (cr3 mapped_space) 0x1000180000000 = None"
    by (simp add: walk_mmu_def)
  ultimately show ?thesis
    using do_write_noncanonical [of mapped_space "fst first_space" "0x180000000" 5 walk_mmu 1] by simp
qed

subsection \<open>Signal delivery\<close>

lemma nth_bytes: "i < 8 \<Longrightarrow> bytes_of_u64 v ! i = ucast (drop_bit (8 * i) v)"
  by (simp add: bytes_of_u64_def)

lemma length_bytes [simp]: "length (bytes_of_u64 v) = 8"
  by (simp add: bytes_of_u64_def)

lemma bit_u64_of_bytes:
  "length bs \<le> 8 \<Longrightarrow> bit (u64_of_bytes bs) n \<longleftrightarrow> n < 8 * length bs \<and> bit (bs ! (n div 8)) (n mod 8)"
proof (induction bs arbitrary: n)
  case (Cons b bs)
  show ?case
  proof (cases "n < 8")
    case True
    then show ?thesis by (simp add: bit_simps)
  next
    case False
    then have e: "n div 8 = Suc ((n - 8) div 8)" "n mod 8 = (n - 8) mod 8"
      by (simp_all add: le_div_geq le_mod_geq)
    have b: "\<not> bit b n" using False bit_imp_le_length [of b n] by auto
    have l: "length bs \<le> 8" "8 * length (b # bs) \<le> 64" using Cons.prems by simp_all
    have "bit (u64_of_bytes (b # bs)) n \<longleftrightarrow> n < 64 \<and> n - 8 < 8 * length bs \<and> bit (bs ! ((n - 8) div 8)) ((n - 8) mod 8)"
      using False b Cons.IH [OF l(1), of "n - 8"] by (auto simp: bit_or_iff bit_push_bit_iff bit_unsigned_iff)
    also have "\<dots> \<longleftrightarrow> n < 8 * length (b # bs) \<and> bit ((b # bs) ! (n div 8)) (n mod 8)"
      using False l by (simp only: e nth_Cons_Suc) auto
    finally show ?thesis .
  qed
qed simp

lemma u64_of_bytes_of: "u64_of_bytes (bytes_of_u64 v) = v"
  by (rule bit_word_eqI) (auto simp: bit_u64_of_bytes nth_bytes bit_simps less_mult_imp_div_less)

text \<open>Writing bytes whose translation the writes do not disturb.\<close>

lemma user_write_mapped:
  assumes "\<And>i m. i < length bs \<Longrightarrow> (\<And>x. x \<notin> pa ` {..<length bs} \<Longrightarrow> m x = mem s x) \<Longrightarrow>
      mmu m (cr3 s) (a + of_nat i) = Some (pa i)"
    and "inj_on pa {..<length bs}"
  shows "\<exists>m. user_write mmu a bs s = Inr (s\<lparr>mem := m\<rparr>) \<and> (\<forall>i < length bs. m (pa i) = bs ! i) \<and>
    (\<forall>x. x \<notin> pa ` {..<length bs} \<longrightarrow> m x = mem s x)"
  using assms
proof (induction bs arbitrary: a s pa)
  case Nil
  then show ?case by (intro exI [of _ "mem s"]) simp
next
  case (Cons b bs)
  have img: "pa ` {..<length (b # bs)} = insert (pa 0) ((\<lambda>i. pa (Suc i)) ` {..<length bs})"
    by (auto simp: image_iff lessThan_Suc_eq_insert_0)
  have "mmu (mem s) (cr3 s) a = Some (pa 0)" using Cons.prems(1) [of 0 "mem s"] by simp
  then have step: "user_write mmu a (b # bs) s = user_write mmu (a + 1) bs (s\<lparr>mem := (mem s)(pa 0 := b)\<rparr>)" by simp
  have fresh: "pa 0 \<notin> (\<lambda>i. pa (Suc i)) ` {..<length bs}" using Cons.prems(2) by (auto simp: inj_on_def)
  have "\<exists>m. user_write mmu (a + 1) bs (s\<lparr>mem := (mem s)(pa 0 := b)\<rparr>) = Inr (s\<lparr>mem := (mem s)(pa 0 := b)\<rparr>\<lparr>mem := m\<rparr>) \<and>
    (\<forall>i < length bs. m (pa (Suc i)) = bs ! i) \<and>
    (\<forall>x. x \<notin> (\<lambda>i. pa (Suc i)) ` {..<length bs} \<longrightarrow> m x = mem (s\<lparr>mem := (mem s)(pa 0 := b)\<rparr>) x)"
  proof (rule Cons.IH)
    show "inj_on (\<lambda>i. pa (Suc i)) {..<length bs}" using Cons.prems(2) by (auto simp: inj_on_def)
    fix i m assume i: "i < length bs"
      and m: "\<And>x. x \<notin> (\<lambda>i. pa (Suc i)) ` {..<length bs} \<Longrightarrow> m x = mem (s\<lparr>mem := (mem s)(pa 0 := b)\<rparr>) x"
    have "mmu m (cr3 s) (a + of_nat (Suc i)) = Some (pa (Suc i))"
      by (rule Cons.prems(1)) (use i m img in auto)
    then show "mmu m (cr3 (s\<lparr>mem := (mem s)(pa 0 := b)\<rparr>)) (a + 1 + of_nat i) = Some (pa (Suc i))"
      by (simp add: algebra_simps)
  qed
  then obtain m where m: "user_write mmu (a + 1) bs (s\<lparr>mem := (mem s)(pa 0 := b)\<rparr>) = Inr (s\<lparr>mem := m\<rparr>)"
    "\<And>i. i < length bs \<Longrightarrow> m (pa (Suc i)) = bs ! i"
    "\<And>x. x \<notin> (\<lambda>i. pa (Suc i)) ` {..<length bs} \<Longrightarrow> m x = ((mem s)(pa 0 := b)) x" by auto
  show ?case
  proof (intro exI [of _ m] conjI allI impI)
    show "user_write mmu a (b # bs) s = Inr (s\<lparr>mem := m\<rparr>)" using step m(1) by simp
    show "m (pa i) = (b # bs) ! i" if "i < length (b # bs)" for i
      using that m(2,3) fresh by (cases i) auto
    show "m x = mem s x" if "x \<notin> pa ` {..<length (b # bs)}" for x using that m(3) img by auto
  qed
qed

text \<open>\<open>n\<close> bytes at \<open>a\<close> are writable at the physical addresses \<open>pa\<close>, and writing them does not change
  their translation.\<close>

definition writable :: "mmu \<Rightarrow> 'a kernel_scheme \<Rightarrow> u64 \<Rightarrow> nat \<Rightarrow> (nat \<Rightarrow> u64) \<Rightarrow> bool" where
  "writable mmu s a n pa \<longleftrightarrow> inj_on pa {..<n} \<and>
     (\<forall>m. (\<forall>x. x \<notin> pa ` {..<n} \<longrightarrow> m x = mem s x) \<longrightarrow> (\<forall>i < n. mmu m (cr3 s) (a + of_nat i) = Some (pa i)))"

lemma invoke_handler:
  fixes s :: "'a kernel_scheme"
  assumes "current s = Some c" "sighandlers (the_ctx s c) sg = h" "h \<noteq> 0" "writable mmu s (rsp - 8) 8 pa"
  obtains m where "invoke_sync_signal mmu sg rsp rip s = Inr (Return (rsp - 8, h), s\<lparr>mem := m\<rparr>)"
    "u64_of_bytes (map (\<lambda>i. m (pa i)) [0..<8]) = rip" "\<And>x. x \<notin> pa ` {..<8} \<Longrightarrow> m x = mem s x"
proof -
  have "\<exists>m. user_write mmu (rsp - 8) (bytes_of_u64 rip) s = Inr (s\<lparr>mem := m\<rparr>) \<and>
      (\<forall>i < length (bytes_of_u64 rip). m (pa i) = bytes_of_u64 rip ! i) \<and>
      (\<forall>x. x \<notin> pa ` {..<length (bytes_of_u64 rip)} \<longrightarrow> m x = mem s x)"
    by (rule user_write_mapped) (use assms(4) in \<open>auto simp: writable_def\<close>)
  then obtain m where m: "user_write mmu (rsp - 8) (bytes_of_u64 rip) s = Inr (s\<lparr>mem := m\<rparr>)"
    "\<And>i. i < 8 \<Longrightarrow> m (pa i) = bytes_of_u64 rip ! i" "\<And>x. x \<notin> pa ` {..<8} \<Longrightarrow> m x = mem s x" by auto
  have "map (\<lambda>i. m (pa i)) [0..<8] = bytes_of_u64 rip"
    by (rule nth_equalityI) (simp_all add: m(2))
  then have "u64_of_bytes (map (\<lambda>i. m (pa i)) [0..<8]) = rip" by (simp only: u64_of_bytes_of)
  then show ?thesis
    by (intro that [OF _ _ m(3)]) (use assms(1-3) m(1) in \<open>simp_all add: invoke_sync_signal_def get_current_ctx_def\<close>)
qed

text \<open>C22: Signal delivery. When a handler is registered and the word below the user stack
  pointer is writable, the program continues in the handler with the stack pointer lowered by 8;
  that word holds the interrupted instruction pointer, as if the program had called the handler, and
  no other memory changes.\<close>

theorem signal_runs_handler:
  fixes s :: "'a kernel_scheme"
  assumes "current s = Some c" "sighandlers (the_ctx s c) sg = h" "h \<noteq> 0"
    and "writable mmu s (entry_rsp rg - 8) 8 pa"
  shows "\<exists>m. raise_signal mmu sg rg s =
      Inr (Return (rg\<lparr>entry_rsp := entry_rsp rg - 8, entry_rip := h\<rparr>), s\<lparr>mem := m\<rparr>) \<and>
    u64_of_bytes (map (\<lambda>i. m (pa i)) [0..<8]) = entry_rip rg \<and> (\<forall>x. x \<notin> pa ` {..<8} \<longrightarrow> m x = mem s x)"
proof -
  obtain m where "invoke_sync_signal mmu sg (entry_rsp rg) (entry_rip rg) s = Inr (Return (entry_rsp rg - 8, h), s\<lparr>mem := m\<rparr>)"
    "u64_of_bytes (map (\<lambda>i. m (pa i)) [0..<8]) = entry_rip rg" "\<And>x. x \<notin> pa ` {..<8} \<Longrightarrow> m x = mem s x"
    by (rule invoke_handler [OF assms, where rip = "entry_rip rg"]) blast
  then show ?thesis by (intro exI [of _ m]) (simp add: raise_signal_def)
qed

text \<open>A flat translation and a context with handlers, for the concrete runs.\<close>

definition flat_mmu :: mmu where
  "flat_mmu m c va = Some va"

definition demo_handler :: kernel where
  "demo_handler = upd_ctx 1 (\<lambda>ctx. ctx\<lparr>sighandlers := (\<lambda>_. 0x100000200), ticks_to_alarm := 1, alarm_config_time := 7\<rparr>) demo_user"

lemma demo_handler_ctx:
  "current demo_handler = Some 1" "sched_inv demo_handler" "length (ctx_list demo_handler) = MAX_PROCESSES"
  "the_ctx demo_handler 1 = zero_ctx\<lparr>pid := 1, state := RUNNING, ctx_type := EXEC_CTX_USER, mms := demo_mm,
     sighandlers := (\<lambda>_. 0x100000200), ticks_to_alarm := 1, alarm_config_time := 7\<rparr>"
proof -
  show "sched_inv demo_handler" unfolding demo_handler_def by (rule sched_inv_upd) (use demo_user_ctx in auto)
  then show "length (ctx_list demo_handler) = MAX_PROCESSES" by (rule sched_invD(1))
  show "current demo_handler = Some 1" using demo_user_ctx(2) by (simp add: demo_handler_def)
  show "the_ctx demo_handler 1 = zero_ctx\<lparr>pid := 1, state := RUNNING, ctx_type := EXEC_CTX_USER, mms := demo_mm,
     sighandlers := (\<lambda>_. 0x100000200), ticks_to_alarm := 1, alarm_config_time := 7\<rparr>"
    using demo_user_ctx(1) by (simp add: demo_handler_def the_ctx_upd demo_user_ctx(4) del: One_nat_def)
qed

lemma flat_writable: "n < 2 ^ 32 \<Longrightarrow> writable flat_mmu s a n (\<lambda>i. a + of_nat i)"
proof -
  assume n: "n < 2 ^ 32"
  have "x = y" if "x < n" "y < n" "(of_nat x :: u64) = of_nat y" for x y
  proof -
    have "x < 2 ^ LENGTH(64)" "y < 2 ^ LENGTH(64)" using that(1,2) n by simp_all
    then show ?thesis using that(3) unat_of_nat_small by metis
  qed
  then show ?thesis by (auto simp: writable_def flat_mmu_def inj_on_def)
qed

theorem signal_runs_handler_witness:
  "\<exists>m. raise_signal flat_mmu SIGFPE (zero_regs\<lparr>entry_rsp := 0x800000000, entry_rip := 0x100000123\<rparr>) demo_handler =
     Inr (Return (zero_regs\<lparr>entry_rsp := 0x7FFFFFFF8, entry_rip := 0x100000200\<rparr>), demo_handler\<lparr>mem := m\<rparr>)"
  using signal_runs_handler [OF demo_handler_ctx(1) _ _ flat_writable, of SIGFPE "0x100000200"
      "zero_regs\<lparr>entry_rsp := 0x800000000, entry_rip := 0x100000123\<rparr>"]
  by (simp add: demo_handler_ctx(4) zero_regs_def del: One_nat_def) metis

text \<open>Alarm accounting on a timer interrupt: the counter of the current context stays
  at 0, goes down by one, or, at 1, is reloaded from the configured interval and
  \<open>SIGALRM\<close> is delivered to its handler.\<close>

theorem alarm_accounting:
  fixes s :: "'a kernel_scheme"
  assumes "sched_inv s" "current s = Some c" "sighandlers (the_ctx s c) SIGALRM = h" "h \<noteq> 0"
    and "writable mmu s (entry_rsp rg - 8) 8 pa"
  defines "t \<equiv> ticks_to_alarm (the_ctx s c)"
  shows "\<exists>s'. do_sleep_and_alarm_account mmu rg s =
      Inr (Return (if t = 1 then rg\<lparr>entry_rsp := entry_rsp rg - 8, entry_rip := h\<rparr> else rg), s') \<and>
    ticks_to_alarm (the_ctx s' c) = (if t = 0 then 0 else if t = 1 then alarm_config_time (the_ctx s c) else t - 1) \<and>
    (t = 1 \<longrightarrow> u64_of_bytes (map (\<lambda>i. mem s' (pa i)) [0..<8]) = entry_rip rg) \<and> (t \<noteq> 1 \<longrightarrow> mem s' = mem s)"
proof -
  have c: "c < length (ctx_list s)" using sched_invD(1,3) assms(1,2) by metis
  define s1 where "s1 = sleep_account s"
  have t1: "ticks_to_alarm (the_ctx s1 c) = t" "sighandlers (the_ctx s1 c) SIGALRM = h"
    "alarm_config_time (the_ctx s1 c) = alarm_config_time (the_ctx s c)"
    using c assms(3) by (simp_all add: s1_def t_def the_ctx_sleep_account sleep_tick_def)
  define s2 where "s2 = upd_ctx c (\<lambda>ctx. ctx\<lparr>ticks_to_alarm := ticks_to_alarm ctx - 1\<rparr>) s1"
  have s2: "the_ctx s2 c = (the_ctx s1 c)\<lparr>ticks_to_alarm := t - 1\<rparr>" "current s2 = Some c" "mem s2 = mem s" "cr3 s2 = cr3 s"
    using c t1 assms(2) by (simp_all add: s2_def s1_def the_ctx_upd)
  have eq: "do_sleep_and_alarm_account mmu rg s =
    (if t > 0 then if t - 1 = 0 then
         bind_result (invoke_sync_signal mmu SIGALRM (entry_rsp rg) (entry_rip rg) s2)
           (\<lambda>(rsp, rip) s3. Inr (Return (rg\<lparr>entry_rsp := rsp, entry_rip := rip\<rparr>),
              upd_ctx c (\<lambda>ctx. ctx\<lparr>ticks_to_alarm := alarm_config_time ctx\<rparr>) s3))
       else Inr (Return rg, s2) else Inr (Return rg, s1))"
    using s2(1) t1(1)
    by (simp add: do_sleep_and_alarm_account_def get_current_ctx_def assms(2) s1_def [symmetric] s2_def [symmetric] Let_def)
  consider "t = 0" | "t = 1" | "t \<noteq> 0" "t \<noteq> 1" by blast
  then show ?thesis
  proof cases
    case 2
    have h2: "sighandlers (the_ctx s2 c) SIGALRM = h" using s2(1) t1(2) by simp
    have "writable mmu s2 (entry_rsp rg - 8) 8 pa" using assms(5) s2(3,4) by (simp add: writable_def)
    then obtain m where m: "invoke_sync_signal mmu SIGALRM (entry_rsp rg) (entry_rip rg) s2 = Inr (Return (entry_rsp rg - 8, h), s2\<lparr>mem := m\<rparr>)"
      "u64_of_bytes (map (\<lambda>i. m (pa i)) [0..<8]) = entry_rip rg"
      by (rule invoke_handler [OF s2(2) h2 assms(4), where rip = "entry_rip rg"]) blast
    have "c < length (ctx_list s2)" using c by (simp add: s2_def s1_def)
    then show ?thesis
      using 2 m s2(1) t1(3) by (simp add: eq the_ctx_upd)
  next
    case 3
    then have "0 < t" "t - 1 \<noteq> 0" by (auto simp: word_gt_0)
    then show ?thesis using 3 s2(1,3) by (auto simp: eq)
  qed (use t1 in \<open>auto simp: eq s1_def\<close>)
qed

theorem alarm_accounting_witness:
  "\<exists>s'. do_sleep_and_alarm_account flat_mmu (zero_regs\<lparr>entry_rsp := 0x800000000, entry_rip := 0x100000123\<rparr>) demo_handler =
     Inr (Return (zero_regs\<lparr>entry_rsp := 0x7FFFFFFF8, entry_rip := 0x100000200\<rparr>), s') \<and> ticks_to_alarm (the_ctx s' 1) = 7"
proof -
  have h: "sighandlers (the_ctx demo_handler 1) SIGALRM = 0x100000200" "(0x100000200 :: u64) \<noteq> 0"
    "ticks_to_alarm (the_ctx demo_handler 1) = 1" "alarm_config_time (the_ctx demo_handler 1) = 7"
    by (simp_all add: demo_handler_ctx(4) del: One_nat_def)
  have r: "(zero_regs\<lparr>entry_rsp := 0x800000000, entry_rip := 0x100000123\<rparr>)\<lparr>entry_rsp := 0x7FFFFFFF8, entry_rip := 0x100000200\<rparr> =
      zero_regs\<lparr>entry_rsp := 0x7FFFFFFF8, entry_rip := 0x100000200\<rparr>" by simp
  show ?thesis
    using alarm_accounting [OF demo_handler_ctx(2,1) h(1,2) flat_writable, where
        rg = "zero_regs\<lparr>entry_rsp := 0x800000000, entry_rip := 0x100000123\<rparr>"] h(3,4)
    by (auto simp del: One_nat_def)
qed

subsection \<open>Faults without a handler\<close>

text \<open>C23: Error path. A fault that no segment allows, in a process with no
  \<open>SIGSEGV\<close> handler, ends that process. When a slot other than the swapper's and its
  own is in use, and the saved kernel stack pointers are aligned, its context becomes unused, the
  kernel continues another context, and every other context is as before. (When the process is the
  only one, \<open>do_exit\<close> releases its address space and returns to the shell
  instead.)\<close>

theorem unhandled_page_fault_kills:
  fixes s :: "'a kernel_scheme"
  assumes inv: "sched_inv s" "current s = Some c" "c \<noteq> 0" "user_layout (mms (the_ctx s c))"
    and fault: "\<not> fault_allowed (mms (the_ctx s c)) a err" "sighandlers (the_ctx s c) SIGSEGV = 0"
    and other: "0 < i" "i < MAX_PROCESSES" "i \<noteq> c" "state (the_ctx s i) \<noteq> UNUSED"
    and stacks: "\<And>j. j < MAX_PROCESSES \<Longrightarrow> aligned 3 (os_rsp (the_ctx s j))"
  shows "\<exists>n s'. do_page_fault mmu a rg err s = Inr (Iret (regs (the_ctx s n)), s') \<and> n \<noteq> c \<and>
    current s' = Some n \<and> state (the_ctx s' c) = UNUSED \<and> (\<forall>j. j \<noteq> c \<and> j \<noteq> n \<longrightarrow> the_ctx s' j = the_ctx s j)"
proof -
  define p where "p = printf ''PF Error @ [RIP: %x] [accessed VA: %x] [error code: %x]\<newline>''
    [Num (entry_rip rg), Num a, Num err] (s\<lparr>stats := (stats s)\<lparr>page_faults := page_faults (stats s) + 1\<rparr>\<rparr>)"
  have p: "procs p = procs s" "the_ctx p j = the_ctx s j" for j by (simp_all add: p_def)
  have "sched_inv p" using sched_inv_procs [OF p(1)] inv(1) by simp
  then obtain n s' where n: "do_exit p = Inr (Iret (regs (the_ctx p n)), s')" "n \<noteq> c" "n < MAX_PROCESSES" "current s' = Some n"
    "ctx_list s' = (ctx_list p)[c := (the_ctx p c)\<lparr>state := UNUSED\<rparr>, n := (the_ctx p n)\<lparr>state := RUNNING\<rparr>]"
    using do_exit_switches [of p c i] inv(2,3) other stacks p by auto
  have "do_page_fault mmu a rg err s = raise_signal mmu SIGSEGV rg p"
    using page_fault_decision [OF inv(2,4), of mmu a rg err] fault(1) by (simp add: p_def)
  then have "do_page_fault mmu a rg err s = Inr (Iret (regs (the_ctx s n)), s')"
    using n(1) p inv(2) fault(2) by (simp add: raise_signal_def invoke_sync_signal_def get_current_ctx_def)
  moreover have "c < length (ctx_list s)" using sched_invD(1,3) inv(1,2) by metis
  then have "state (the_ctx s' c) = UNUSED" "\<forall>j. j \<noteq> c \<and> j \<noteq> n \<longrightarrow> the_ctx s' j = the_ctx s j"
    using n(2,5) p by (auto simp: the_ctx_def nth_list_update)
  ultimately show ?thesis using n by blast
qed

theorem unhandled_page_fault_kills_witness:
  "\<exists>n s'. do_page_fault walk_mmu 0x1000 zero_regs 0 demo_user = Inr (Iret zero_regs, s') \<and> n \<noteq> 1 \<and>
     current s' = Some n \<and> state (the_ctx s' 1) = UNUSED"
proof -
  have t: "os_rsp (the_ctx demo_user j) = 0 \<and> regs (the_ctx demo_user j) = zero_regs" if "j < MAX_PROCESSES" for j
    using demo_cases [OF that] sched_invD(1) [OF demo_inv(1)]
    by (auto simp: demo_user_def the_ctx_upd demo_ctxs) (auto simp: zero_ctx_def)
  have l: "user_layout (mms (the_ctx demo_user 1))" "\<not> fault_allowed (mms (the_ctx demo_user 1)) 0x1000 0"
    "sighandlers (the_ctx demo_user 1) SIGSEGV = 0"
    by (simp_all add: demo_user_ctx(4) demo_user_layout fault_allowed_def zero_ctx_def del: One_nat_def)
  have s2: "state (the_ctx demo_user 2) \<noteq> UNUSED" by (simp add: demo_user_def the_ctx_upd demo_ctxs)
  obtain n s' where n: "do_page_fault walk_mmu 0x1000 zero_regs 0 demo_user = Inr (Iret (regs (the_ctx demo_user n)), s')"
    "n \<noteq> 1" "current s' = Some n" "state (the_ctx s' 1) = UNUSED"
    using unhandled_page_fault_kills [OF demo_user_ctx(3,2) _ l, of 2 walk_mmu zero_regs] s2 t by auto
  have "sched_inv s'" using faults_inv(2) [OF demo_user_ctx(3) n(1)] by simp
  from sched_invD(3) [OF this n(3)] t n show ?thesis by auto
qed

end
