(* ===== verification/Fork_Space.thy ===== *)
theory Fork_Space
  imports Page_Fork Kernel_Entries User_Access
begin

text \<open>
  \<open>fork\<close> as a whole: the loops of \<open>copy_mm\<close> visit the pages of the four segments once each, the
  kernel's entries are added, the child gets a kernel stack. The child's address space is a copy of the
  parent's in memory of its own, and what the parent sees is unchanged.
\<close>

subsection \<open>The loops of \<open>copy_mm\<close>\<close>

lemma u64_less: "unat (v :: u64) < 2 ^ 64"
  using unsigned_less [of v] by simp



definition seg_pages :: "mm_segment \<Rightarrow> u64 list" where
  "seg_pages g = map (\<lambda>i. seg_start g + 4096 * of_nat i) [0..<(unat (next_free g) - unat (seg_start g)) div 4096]"



lemma seg_pages_distinct [simp]: "distinct (seg_pages g)"
proof -
  have "inj_on (\<lambda>i. seg_start g + 4096 * of_nat i) {0..<(unat (next_free g) - unat (seg_start g)) div 4096}"
  proof (rule inj_onI)
    fix i j assume ij: "i \<in> {0..<(unat (next_free g) - unat (seg_start g)) div 4096}"
      "j \<in> {0..<(unat (next_free g) - unat (seg_start g)) div 4096}"
      "seg_start g + 4096 * of_nat i = seg_start g + 4096 * of_nat j"
    have "4096 * k < 2 ^ 64" if "k < (unat (next_free g) - unat (seg_start g)) div 4096" for k
      using that u64_less [of "next_free g"] by simp
    from this [of i] this [of j] have "unat (4096 * of_nat i :: u64) = 4096 * i" "unat (4096 * of_nat j :: u64) = 4096 * j"
      using ij(1,2) by (simp_all add: unat_word_ariths unat_of_nat)
    then show "i = j" using ij(3) by (metis add_left_cancel mult_cancel1 zero_neq_numeral)
  qed
  then show ?thesis by (simp add: seg_pages_def distinct_map)
qed










subsection \<open>\<open>copy_mm\<close>\<close>







subsection \<open>\<open>do_fork\<close>\<close>









subsection \<open>A process that forks\<close>




end
