(* ===== verification/Cstring.thy ===== *)
theory Cstring
  imports Console
begin

text \<open>
  The string routines of \<open>lib.c\<close> on physical memory: \<open>strlen\<close>, \<open>strcat\<close>, \<open>strcmp\<close>, \<open>memcmp\<close>
  and \<open>sprintf\<close>. Indices are C \<open>int\<close>s, sign-extended when they are added to a pointer; a loop
  that may run for ever is \<open>None\<close>. \<open>cstr m p s\<close> says that the bytes \<open>s\<close>, none of them zero, and a
  terminating zero are stored at \<open>p\<close>; the routines are specified on such strings.
\<close>

abbreviation byte_at :: "memory \<Rightarrow> u64 \<Rightarrow> s32 \<Rightarrow> u8" where
  "byte_at m p i \<equiv> m (p + scast i)"

subsection \<open>The routines\<close>

text \<open>\<open>while(ptr[i] && i >= 0) ++i;\<close>\<close>

function strlen_loop :: "memory \<Rightarrow> u64 \<Rightarrow> s32 \<Rightarrow> s32" where
  "strlen_loop m ptr i = (if byte_at m ptr i \<noteq> 0 \<and> 0 \<le>s i then strlen_loop m ptr (i + 1) else i)"
  by pat_completeness auto

lemma unat_suc: "i \<noteq> - 1 \<Longrightarrow> unat (i + 1 :: s32) = Suc (unat i)"
  using unat_add_lem [of i 1] unsigned_less [of i, where ?'a = nat]
  by (metis Suc_eq_plus1 unatSuc add.commute add_eq_0_iff)

termination strlen_loop
proof (relation "measure (\<lambda>(m, ptr, i). 2 ^ 32 - unat i)")
  fix m ptr and i :: s32
  assume "byte_at m ptr i \<noteq> 0 \<and> 0 \<le>s i"
  then have "i \<noteq> - 1" by (auto simp: word_sle_eq)
  then show "((m, ptr, i + 1), m, ptr, i) \<in> measure (\<lambda>(m, ptr, i). 2 ^ 32 - unat i)"
    using unsigned_less [of i, where ?'a = nat] by (simp add: unat_suc)
qed simp

declare strlen_loop.simps [simp del]

definition strlen :: "memory \<Rightarrow> u64 \<Rightarrow> s32" where
  "strlen m ptr = strlen_loop m ptr 0"

text \<open>The loops below stop only at a zero byte or a difference, so their index may pass every value.\<close>

partial_function (option) strcat_loop :: "u64 \<Rightarrow> u64 \<Rightarrow> s32 \<Rightarrow> memory \<Rightarrow> s32 \<Rightarrow> (memory \<times> s32) option" where
  "strcat_loop dst app len m i =
     (if byte_at m app i \<noteq> 0 then strcat_loop dst app len (m(dst + scast (i + len) := byte_at m app i)) (i + 1)
      else Some (m, i))"

definition strcat :: "memory \<Rightarrow> u64 \<Rightarrow> u64 \<Rightarrow> (u64 \<times> memory) option" where
  "strcat m dst app =
     (let len = strlen m dst in
      map_option (\<lambda>(m', i). (dst, m'(dst + scast (i + len) := 0))) (strcat_loop dst app len m 0))"

partial_function (option) strcmp_loop :: "memory \<Rightarrow> u64 \<Rightarrow> u64 \<Rightarrow> s32 \<Rightarrow> s32 option" where
  "strcmp_loop m s d ctr =
     (if byte_at m s ctr \<noteq> 0 \<and> byte_at m d ctr \<noteq> 0 \<and> byte_at m s ctr = byte_at m d ctr
      then strcmp_loop m s d (ctr + 1) else Some ctr)"

definition strcmp :: "memory \<Rightarrow> u64 \<Rightarrow> u64 \<Rightarrow> s32 option" where
  "strcmp m s d =
     map_option (\<lambda>ctr. if byte_at m s ctr = 0 \<and> byte_at m d ctr = 0 then 0 else - 1) (strcmp_loop m s d 0)"

text \<open>\<open>ctr<len\<close> compares as unsigned; the result is the difference of two signed characters.\<close>

function memcmp_loop :: "memory \<Rightarrow> u64 \<Rightarrow> u64 \<Rightarrow> u32 \<Rightarrow> s32 \<Rightarrow> s32" where
  "memcmp_loop m s d len ctr =
     (if ctr < len \<and> byte_at m s ctr = byte_at m d ctr then memcmp_loop m s d len (ctr + 1) else ctr)"
  by pat_completeness auto
termination
proof (relation "measure (\<lambda>(m, s, d, len, ctr). 2 ^ 32 - unat ctr)")
  fix m s d and len ctr :: s32
  assume "ctr < len \<and> byte_at m s ctr = byte_at m d ctr"
  then have "ctr \<noteq> - 1" by (auto simp: word_n1_ge leD)
  then show "((m, s, d, len, ctr + 1), m, s, d, len, ctr) \<in> measure (\<lambda>(m, s, d, len, ctr). 2 ^ 32 - unat ctr)"
    using unsigned_less [of ctr, where ?'a = nat] by (simp add: unat_suc)
qed simp

declare memcmp_loop.simps [simp del]

definition memcmp :: "memory \<Rightarrow> u64 \<Rightarrow> u64 \<Rightarrow> u32 \<Rightarrow> s32" where
  "memcmp m s d len =
     (let ctr = memcmp_loop m s d len 0 in
      if ctr = len then 0 else scast (byte_at m s ctr) - scast (byte_at m d ctr))"

text \<open>\<open>sprintf\<close> writes the characters to \<open>out\<close> and terminates them.\<close>

fun put_bytes :: "memory \<Rightarrow> u64 \<Rightarrow> u8 list \<Rightarrow> memory" where
  "put_bytes m p [] = m"
| "put_bytes m p (b # bs) = put_bytes (m(p := b)) (p + 1) bs"

definition sprintf :: "u64 \<Rightarrow> string \<Rightarrow> va_arg list \<Rightarrow> memory \<Rightarrow> (s32 \<times> memory) option" where
  "sprintf out format args m =
     (case vprintf format args of
        None \<Rightarrow> None
      | Some bs \<Rightarrow> let retval = of_nat (length bs) in
          Some (retval, (put_bytes m out bs)(out + scast retval := 0)))"

subsection \<open>Strings in memory\<close>

fun cstr :: "memory \<Rightarrow> u64 \<Rightarrow> u8 list \<Rightarrow> bool" where
  "cstr m p [] = (m p = 0)"
| "cstr m p (c # cs) = (m p = c \<and> c \<noteq> 0 \<and> cstr m (p + 1) cs)"

lemma cstr_iff:
  "cstr m p cs \<longleftrightarrow> (\<forall>i < length cs. m (p + of_nat i) = cs ! i \<and> cs ! i \<noteq> 0) \<and> m (p + of_nat (length cs)) = 0"
  by (induction cs arbitrary: p) (auto simp: All_less_Suc2 algebra_simps)

lemma cstr_unique: "cstr m p s \<Longrightarrow> cstr m p t \<Longrightarrow> s = t"
proof (induction s arbitrary: p t)
  case Nil
  then show ?case by (cases t) auto
next
  case (Cons c s)
  then show ?case by (cases t) auto
qed

lemma scast_index: "k < 2 ^ 31 \<Longrightarrow> scast (of_nat k :: s32) = (of_nat k :: u64)"
proof -
  assume k: "k < 2 ^ 31"
  have "sint (of_nat k :: s32) = int k" using k by (simp add: signed_of_nat signed_take_bit_int_eq_self)
  then show ?thesis by (simp only: scast_eq of_int_of_nat_eq)
qed

lemma cstr_step: "cstr m (p + of_nat k) (c # s) \<Longrightarrow> cstr m (p + of_nat (Suc k)) s"
  by (simp add: algebra_simps)

lemma byte_at_index: "k < 2 ^ 31 \<Longrightarrow> byte_at m p (of_nat k) = m (p + of_nat k)"
  by (simp add: scast_index)

lemma sle_index: "k < 2 ^ 31 \<Longrightarrow> 0 \<le>s (of_nat k :: s32)"
  by (simp add: word_sle_eq signed_of_nat signed_take_bit_int_eq_self)

lemma strlen_loop_cstr:
  "\<lbrakk>cstr m (p + of_nat k) s; k + length s < 2 ^ 31\<rbrakk> \<Longrightarrow> strlen_loop m p (of_nat k) = of_nat (k + length s)"
proof (induction s arbitrary: k)
  case Nil
  then show ?case by (simp add: strlen_loop.simps [of m p "of_nat k"] byte_at_index)
next
  case (Cons c s)
  have "strlen_loop m p (of_nat (Suc k)) = of_nat (Suc k + length s)"
    by (rule Cons.IH [OF cstr_step [OF Cons.prems(1)]]) (use Cons.prems(2) in simp)
  then show ?case
    using Cons.prems by (simp add: strlen_loop.simps [of m p "of_nat k"] byte_at_index sle_index add.commute)
qed

lemma strlen_cstr: "\<lbrakk>cstr m p s; length s < 2 ^ 31\<rbrakk> \<Longrightarrow> strlen m p = of_nat (length s)"
  using strlen_loop_cstr [of m p 0 s] by (simp add: strlen_def)

lemma strcmp_loop_cstr:
  "\<lbrakk>cstr m (p + of_nat k) s; cstr m (q + of_nat k) t; k + length s < 2 ^ 31\<rbrakk> \<Longrightarrow>
    \<exists>j. k \<le> j \<and> j < 2 ^ 31 \<and> strcmp_loop m p q (of_nat k) = Some (of_nat j) \<and>
      (m (p + of_nat j) = 0 \<and> m (q + of_nat j) = 0 \<longleftrightarrow> s = t)"
proof (induction s arbitrary: k t)
  case Nil
  then show ?case
    by (intro exI [of _ k]) (cases t; simp add: strcmp_loop.simps [of m p q "of_nat k"] byte_at_index)
next
  case (Cons c s)
  show ?case
  proof (cases "\<exists>t'. t = c # t'")
    case True
    then obtain t' where t: "t = c # t'" by blast
    obtain j where "Suc k \<le> j" "j < 2 ^ 31" "strcmp_loop m p q (of_nat (Suc k)) = Some (of_nat j)"
      "m (p + of_nat j) = 0 \<and> m (q + of_nat j) = 0 \<longleftrightarrow> s = t'"
      using Cons.IH [OF cstr_step [OF Cons.prems(1)] cstr_step [OF Cons.prems(2) [unfolded t]]] Cons.prems(3) by auto
    then show ?thesis
      using Cons.prems t by (intro exI [of _ j]) (simp add: strcmp_loop.simps [of m p q "of_nat k"] byte_at_index add.commute)
  next
    case False
    then show ?thesis using Cons.prems
      by (intro exI [of _ k]) (cases t; simp add: strcmp_loop.simps [of m p q "of_nat k"] byte_at_index)
  qed
qed

lemma strcmp_cstr:
  assumes "cstr m p s" "cstr m q t" "length s < 2 ^ 31"
  shows "strcmp m p q = Some (if s = t then 0 else - 1)"
proof -
  obtain j where "j < 2 ^ 31" "strcmp_loop m p q 0 = Some (of_nat j)" "m (p + of_nat j) = 0 \<and> m (q + of_nat j) = 0 \<longleftrightarrow> s = t"
    using strcmp_loop_cstr [of m p 0 s q t] assms by auto
  then show ?thesis by (auto simp: strcmp_def byte_at_index)
qed

lemma memcmp_loop_spec:
  "\<lbrakk>k \<le> n; n < 2 ^ 31\<rbrakk> \<Longrightarrow>
    \<exists>j. k \<le> j \<and> j \<le> n \<and> memcmp_loop m p q (of_nat n) (of_nat k) = of_nat j \<and>
      (\<forall>i. k \<le> i \<and> i < j \<longrightarrow> m (p + of_nat i) = m (q + of_nat i)) \<and> (j < n \<longrightarrow> m (p + of_nat j) \<noteq> m (q + of_nat j))"
proof (induction "n - k" arbitrary: k)
  case 0
  then show ?case by (intro exI [of _ k]) (auto simp: memcmp_loop.simps [of m p q "of_nat k" "of_nat k"])
next
  case (Suc d)
  have lt: "(of_nat k :: u32) < of_nat n" using Suc.hyps(2) Suc.prems by (simp add: word_less_nat_alt unat_of_nat_small)
  show ?case
  proof (cases "m (p + of_nat k) = m (q + of_nat k)")
    case True
    have "d = n - Suc k" "Suc k \<le> n" using Suc.hyps(2) by linarith+
    from Suc.hyps(1) [OF this Suc.prems(2)] obtain j where "Suc k \<le> j" "j \<le> n"
      "memcmp_loop m p q (of_nat n) (of_nat (Suc k)) = of_nat j"
      "\<forall>i. Suc k \<le> i \<and> i < j \<longrightarrow> m (p + of_nat i) = m (q + of_nat i)" "j < n \<longrightarrow> m (p + of_nat j) \<noteq> m (q + of_nat j)" by blast
    moreover have "memcmp_loop m p q (of_nat n) (of_nat k) = memcmp_loop m p q (of_nat n) (of_nat (Suc k))"
      using lt True Suc.prems \<open>Suc k \<le> n\<close> by (subst memcmp_loop.simps) (simp add: byte_at_index add.commute)
    ultimately show ?thesis using True Suc_le_eq le_eq_less_or_eq by (metis Suc_leD)
  next
    case False
    then show ?thesis using Suc.hyps(2) Suc.prems
      by (intro exI [of _ k]) (auto simp: memcmp_loop.simps [of m p q "of_nat n" "of_nat k"] byte_at_index)
  qed
qed

lemma memcmp_spec:
  assumes "n < 2 ^ 31"
  shows "memcmp m p q (of_nat n) = 0 \<longleftrightarrow> (\<forall>i < n. m (p + of_nat i) = m (q + of_nat i))"
proof -
  obtain j where j: "j \<le> n" "memcmp_loop m p q (of_nat n) 0 = of_nat j"
    "\<forall>i. i < j \<longrightarrow> m (p + of_nat i) = m (q + of_nat i)" "j < n \<longrightarrow> m (p + of_nat j) \<noteq> m (q + of_nat j)"
    using memcmp_loop_spec [of 0 n m p q] assms by auto
  have zero: "scast a - scast b = (0 :: s32) \<longleftrightarrow> a = b" for a b :: u8
  proof -
    have "(ucast (scast x :: s32) :: u8) = x" for x :: u8 by (rule bit_word_eqI) (auto simp: bit_simps)
    then show ?thesis by (metis right_minus_eq)
  qed
  show ?thesis
  proof (cases "j = n")
    case True
    then show ?thesis using j(2,3) by (simp add: memcmp_def)
  next
    case False
    with j(1) have lt: "j < n" by simp
    have "unat (of_nat j :: u32) = j" "unat (of_nat n :: u32) = n" using lt assms by (simp_all add: unat_of_nat_small)
    then have "(of_nat j :: u32) \<noteq> of_nat n" using lt by (metis less_irrefl)
    then have "memcmp m p q (of_nat n) = scast (m (p + of_nat j)) - scast (m (q + of_nat j))"
      using j(2) lt assms by (simp add: memcmp_def byte_at_index)
    then show ?thesis using zero j(4) lt by auto
  qed
qed

lemma put_bytes_apply:
  "length bs < 2 ^ 64 \<Longrightarrow>
    put_bytes m p bs a = (if unat (a - p) < length bs then bs ! unat (a - p) else m a)"
proof (induction bs arbitrary: m p)
  case (Cons b bs)
  have IH: "put_bytes (m(p := b)) (p + 1) bs a =
      (if unat (a - (p + 1)) < length bs then bs ! unat (a - (p + 1)) else (m(p := b)) a)"
    by (rule Cons.IH) (use Cons.prems in simp)
  show ?case
  proof (cases "a = p")
    case True
    then have "unat (a - (p + 1)) = unat (- 1 :: u64)" by simp
    then have "unat (a - (p + 1)) = 2 ^ 64 - 1" by (simp add: unsigned_minus_1_eq_mask mask_eq_exp_minus_1)
    then show ?thesis using IH Cons.prems True by simp
  next
    case False
    then have "unat (a - p) = Suc (unat (a - (p + 1)))"
      by (metis (no_types, lifting) add.commute diff_add_cancel diff_diff_add right_minus_eq unatSuc)
    then show ?thesis using IH False by simp
  qed
qed simp

text \<open>What \<open>strcat\<close> writes, when the appended string does not overlap its destination.\<close>

lemma strcat_loop_cstr:
  assumes "\<And>i j. \<lbrakk>i \<le> k + length t; j < k + length t\<rbrakk> \<Longrightarrow> a + of_nat i \<noteq> d + of_nat (j + n)"
  shows "\<lbrakk>cstr m (a + of_nat k) t; k + length t + n < 2 ^ 31\<rbrakk> \<Longrightarrow>
    strcat_loop d a (of_nat n) m (of_nat k) = Some (put_bytes m (d + of_nat (k + n)) t, of_nat (k + length t))"
  using assms
proof (induction t arbitrary: k m)
  case Nil
  then show ?case by (simp add: strcat_loop.simps [of d a "of_nat n" m "of_nat k"] byte_at_index)
next
  case (Cons c t)
  have idx: "scast (of_nat k + of_nat n :: s32) = (of_nat (k + n) :: u64)"
    using scast_index [of "k + n"] Cons.prems(2) by (simp del: of_nat_add add: of_nat_add [symmetric])
  define m' where "m' = m(d + of_nat (k + n) := c)"
  have "cstr m' (a + of_nat (Suc k)) t"
  proof -
    have "a + of_nat (Suc k) + of_nat i \<noteq> d + of_nat (k + n)" if "i \<le> length t" for i
      using Cons.prems(3) [of "Suc k + i" k] that by (simp add: add.assoc)
    then show ?thesis
      using cstr_step [OF Cons.prems(1)] unfolding cstr_iff m'_def by simp
  qed
  then have "strcat_loop d a (of_nat n) m' (of_nat (Suc k)) = Some (put_bytes m' (d + of_nat (Suc k + n)) t, of_nat (Suc k + length t))"
    by (rule Cons.IH) (use Cons.prems in simp_all)
  then show ?case
    using Cons.prems(1,2) idx
    by (simp add: strcat_loop.simps [of d a "of_nat n" m "of_nat k"] byte_at_index m'_def algebra_simps)
qed

lemma unat_index_diff:
  assumes "i < 2 ^ 32" "n < 2 ^ 32"
  shows "unat (of_nat i - of_nat n :: u64) = (if n \<le> i then i - n else 2 ^ 64 - (n - i))"
proof (cases "n \<le> i")
  case True
  then have "(of_nat i - of_nat n :: u64) = of_nat (i - n)" by (simp add: of_nat_diff)
  moreover have "unat (of_nat (i - n) :: u64) = i - n" using assms by (intro unat_of_nat_small) simp
  ultimately show ?thesis using True by simp
next
  case False
  have "(of_nat i - of_nat n :: u64) = of_nat (2 ^ 64 - (n - i))"
    using False assms(2) by (simp add: of_nat_diff)
  moreover have "unat (of_nat (2 ^ 64 - (n - i)) :: u64) = 2 ^ 64 - (n - i)"
    using False by (intro unat_of_nat_small) simp
  ultimately show ?thesis using False by simp
qed

lemma index_inj:
  assumes "i < 2 ^ 32" "j < 2 ^ 32"
  shows "(of_nat i :: u64) = of_nat j \<longleftrightarrow> i = j"
proof -
  have "unat (of_nat i :: u64) = i" "unat (of_nat j :: u64) = j" using assms by (simp_all add: unat_of_nat_small)
  then show ?thesis by metis
qed

lemma strcat_cstr:
  assumes "cstr m d s" "cstr m a t" "length s + length t < 2 ^ 31"
    and apart: "\<And>i j. \<lbrakk>i \<le> length t; j \<le> length s + length t\<rbrakk> \<Longrightarrow> a + of_nat i \<noteq> d + of_nat j"
  shows "\<exists>m'. strcat m d a = Some (d, m') \<and> cstr m' d (s @ t) \<and> cstr m' a t \<and>
    (\<forall>x. length s + length t < unat (x - d) \<longrightarrow> m' x = m x)"
proof -
  define n where "n = length s"
  have len: "strlen m d = of_nat n" using strlen_cstr [OF assms(1)] assms(3) by (simp add: n_def)
  have loop: "strcat_loop d a (of_nat n) m (of_nat 0) = Some (put_bytes m (d + of_nat (0 + n)) t, of_nat (0 + length t))"
  proof (rule strcat_loop_cstr)
    show "a + of_nat i \<noteq> d + of_nat (j + n)" if "i \<le> 0 + length t" "j < 0 + length t" for i j
      by (rule apart) (use that in \<open>simp_all add: n_def\<close>)
  qed (use assms(2,3) in \<open>simp_all add: n_def\<close>)
  have idx: "scast (of_nat (length t) + of_nat n :: s32) = (of_nat (length t + n) :: u64)"
    using scast_index [of "length t + n"] assms(3) by (simp del: of_nat_add add: of_nat_add [symmetric] n_def)
  define m' where "m' = (put_bytes m (d + of_nat n) t)(d + of_nat (length t + n) := 0)"
  have "strcat m d a = Some (d, m')"
    using loop idx by (simp add: strcat_def len m'_def)
  moreover have at: "m' (d + of_nat i) = (if i < n then m (d + of_nat i) else if i < n + length t then t ! (i - n) else 0)"
    if "i \<le> n + length t" for i
  proof -
    have u: "unat (of_nat i - of_nat n :: u64) = (if n \<le> i then i - n else 2 ^ 64 - (n - i))"
      by (rule unat_index_diff) (use that assms(3) in \<open>simp_all add: n_def\<close>)
    have "d + of_nat i = d + of_nat (length t + n) \<longleftrightarrow> i = length t + n"
      using index_inj [of i "length t + n"] that assms(3) by (simp add: n_def)
    moreover have "put_bytes m (d + of_nat n) t (d + of_nat i) =
        (if n \<le> i \<and> i - n < length t then t ! (i - n) else m (d + of_nat i))"
    proof (cases "n \<le> i")
      case True
      then show ?thesis using u assms(3) by (simp add: put_bytes_apply)
    next
      case False
      then have "\<not> 2 ^ 64 - (n - i) < length t" using assms(3) by (simp add: n_def)
      then show ?thesis using u assms(3) False by (simp add: put_bytes_apply)
    qed
    ultimately show ?thesis using that by (cases "i = length t + n"; cases "i < n") (auto simp: m'_def)
  qed
  moreover have out: "m' x = m x" if "n + length t < unat (x - d)" for x
  proof -
    have "unat (x - d - of_nat n) = unat (x - d) - n"
      using that assms(3) by (subst unat_sub) (simp_all add: word_le_nat_alt unat_of_nat_small n_def)
    moreover have "unat (of_nat (length t + n) :: u64) = length t + n" using assms(3) by (intro unat_of_nat_small) (simp add: n_def)
    then have "x \<noteq> d + of_nat (length t + n)" using that by (metis add.commute add_diff_cancel_left' less_irrefl)
    moreover have "\<not> unat (x - d) - n < length t" using that by linarith
    ultimately show ?thesis using assms(3) by (simp add: m'_def put_bytes_apply diff_diff_add)
  qed
  moreover have "m' (a + of_nat i) = m (a + of_nat i)" if "i \<le> length t" for i
  proof (rule ccontr)
    assume ne: "m' (a + of_nat i) \<noteq> m (a + of_nat i)"
    then have "unat (a + of_nat i - d) \<le> n + length t" using out [of "a + of_nat i"] not_less by blast
    moreover have "a + of_nat i = d + of_nat (unat (a + of_nat i - d))" by simp
    ultimately show False using apart [OF that, of "unat (a + of_nat i - d)"] by (auto simp: n_def)
  qed
  moreover have "m' (d + of_nat (length (s @ t))) = 0" using at [of "n + length t"] by (simp add: n_def)
  ultimately show ?thesis
    using assms(1,2) by (auto simp: cstr_iff n_def nth_append)
qed

text \<open>\<open>sprintf\<close> leaves the formatted text, up to its first zero byte, as a string.\<close>

lemma put_bytes_cstr:
  assumes "length bs < 2 ^ 31" "0 \<notin> set bs"
  shows "cstr ((put_bytes m p bs)(p + scast (of_nat (length bs) :: s32) := 0)) p bs"
proof -
  have "unat (of_nat i :: u64) = i" if "i < 2 ^ 32" for i using that by (intro unat_of_nat_small) simp
  moreover have "p + of_nat i \<noteq> p + of_nat (length bs)" if "i < length bs" for i
    using index_inj [of i "length bs"] that assms(1) by simp
  ultimately show ?thesis
    using assms nth_mem by (fastforce simp: cstr_iff scast_index put_bytes_apply)
qed

subsection \<open>Properties\<close>

definition text_memory :: memory where
  "text_memory = put_bytes (put_bytes (put_bytes (\<lambda>_. 0) 100 (str ''init'')) 200 (str ''init 1'')) 300 (str ''help'')"

lemma text_memory_strings:
  "cstr text_memory 100 (str ''init'')" "cstr text_memory 200 (str ''init 1'')" "cstr text_memory 300 (str ''help'')"
  by (simp_all add: text_memory_def)

text \<open>C38: The byte loops agree with operations on lists: for strings \<open>s\<close> and
  \<open>t\<close> in memory of fewer than \<open>2 ^ 31\<close> characters together,
  \<open>strlen\<close> is the length of \<open>s\<close>, \<open>strcmp\<close> returns 0 if and
  only if \<open>s = t\<close> and otherwise \<open>-1\<close>, and \<open>memcmp\<close> returns 0
  if and only if the ranges agree byte by byte.\<close>

theorem string_routines:
  assumes "cstr m p s" "cstr m q t" "length s + length t < 2 ^ 31"
  shows "strlen m p = of_nat (length s) \<and> strcmp m p q = Some (if s = t then 0 else - 1) \<and>
    (\<forall>n < 2 ^ 31. memcmp m p q (of_nat n) = 0 \<longleftrightarrow> (\<forall>i < n. m (p + of_nat i) = m (q + of_nat i)))"
  using strlen_cstr [OF assms(1)] strcmp_cstr [OF assms(1,2)] memcmp_spec assms(3) by auto

theorem string_routines_witness:
  "strlen text_memory 100 = 4 \<and> strcmp text_memory 100 300 = Some (- 1)"
  using string_routines [OF text_memory_strings(1,3)] by simp

text \<open>\<open>strcat\<close> appends, when the appended string does not overlap the result.\<close>

theorem strcat_appends:
  assumes "cstr m d s" "cstr m a t" "length s + length t < 2 ^ 31"
    and "\<forall>i j. i \<le> length t \<and> j \<le> length s + length t \<longrightarrow> a + of_nat i \<noteq> d + of_nat j"
  shows "\<exists>m'. strcat m d a = Some (d, m') \<and> cstr m' d (s @ t) \<and> cstr m' a t \<and>
    (\<forall>x. length s + length t < unat (x - d) \<longrightarrow> m' x = m x)"
  using strcat_cstr [OF assms(1-3)] assms(4) by blast

theorem strcat_appends_witness:
  "\<exists>m'. strcat text_memory 200 300 = Some (200, m') \<and> cstr m' 200 (str ''init 1help'')"
proof -
  have "\<forall>i j. i \<le> 4 \<and> j \<le> 10 \<longrightarrow> (300 :: u64) + of_nat i \<noteq> 200 + of_nat j"
  proof (intro allI impI notI)
    fix i j :: nat
    assume ij: "i \<le> 4 \<and> j \<le> 10" and eq: "(300 :: u64) + of_nat i = 200 + of_nat j"
    have "unat (of_nat (300 + i) :: u64) = 300 + i" "unat (of_nat (200 + j) :: u64) = 200 + j"
      using ij by (simp_all add: unat_of_nat_small del: of_nat_add)
    moreover have "(of_nat (300 + i) :: u64) = of_nat (200 + j)" using eq by simp
    ultimately have "300 + i = 200 + j" by metis
    then show False using ij by linarith
  qed
  then show ?thesis
    using strcat_appends [OF text_memory_strings(2,3)] by auto
qed

end
