(* ===== verification/Descriptors.thy ===== *)
theory Descriptors
  imports Context Cstring
begin

text \<open>
  The descriptor tables (\<open>idt.c\<close>, \<open>include/idt.h\<close>): \<open>setup_gdt_tss\<close> completes the segment table
  and makes the task state segment, \<open>setup_idt\<close> fills the interrupt table. The tables are packed
  structures in physical memory; \<open>lgdt\<close>, \<open>lidt\<close> and \<open>ltr\<close> set the registers of the processor,
  which are part of the state. The addresses of the assembly entry points are a parameter.
\<close>

subsection \<open>State and packed fields\<close>

record idtr =
  limit :: u16
  idtr_base :: u64

record desc_state = kernel +
  tss_page :: u64
  irq_stack :: u64
  idt :: idtr \<comment> \<open>the static variable, and what \<open>lidt\<close> loads\<close>
  gdtr :: idtr \<comment> \<open>what \<open>lgdt\<close> loaded\<close>
  task_reg :: u16

definition wr16 :: "memory \<Rightarrow> u64 \<Rightarrow> u16 \<Rightarrow> memory" where
  "wr16 m a v = m(a := ucast v, a + 1 := ucast (drop_bit 8 v))"

definition rd16 :: "memory \<Rightarrow> u64 \<Rightarrow> u16" where
  "rd16 m a = ucast (m a) OR push_bit 8 (ucast (m (a + 1)))"

text \<open>The fields of a \<open>gdt_entry\<close> at \<open>e\<close>; \<open>limit_high\<close> and \<open>flags\<close> are the halves of byte 6.\<close>

definition set_limit_high :: "u8 \<Rightarrow> u64 \<Rightarrow> memory \<Rightarrow> memory" where
  "set_limit_high v e m = m(e + 6 := (m (e + 6) AND 0xf0) OR (v AND 0xf))"

definition set_gdt_flags :: "u8 \<Rightarrow> u64 \<Rightarrow> memory \<Rightarrow> memory" where
  "set_gdt_flags v e m = m(e + 6 := (m (e + 6) AND 0xf) OR push_bit 4 v)"

definition set_gdt_base :: "u16 \<Rightarrow> u8 \<Rightarrow> u8 \<Rightarrow> u64 \<Rightarrow> memory \<Rightarrow> memory" where
  "set_gdt_base low mid high e m = (wr16 m (e + 2) low)(e + 4 := mid, e + 7 := high)"

subsection \<open>\<open>setup_gdt_tss\<close>\<close>

definition gdt_report :: "u64 \<Rightarrow> 'a machine_scheme \<Rightarrow> 'a machine_scheme" where
  "gdt_report e s =
     printf ''limit low = %x high=%x ac_byte = %x flags=%x\<newline>''
       [Num (ucast (rd16 (mem s) e)), Num (ucast (mem s (e + 6) AND 0xf)), Num (ucast (mem s (e + 5))),
        Num (ucast (drop_bit 4 (mem s (e + 6))))]
     (printf ''base = %x ''
       [Num (ucast (ucast (rd16 (mem s) (e + 2)) OR push_bit 16 (ucast (mem s (e + 4)))
          OR push_bit 24 (ucast (mem s (e + 7))) :: u32))] s)"

text \<open>The \<open>while\<close> loop over the entries that exist; \<open>n\<close> is \<open>total_gdts\<close>.\<close>

fun gdt_loop :: "nat \<Rightarrow> u64 \<Rightarrow> 'a machine_scheme \<Rightarrow> 'a machine_scheme" where
  "gdt_loop 0 e s = s"
| "gdt_loop (Suc n) e s =
     (let s1 = gdt_report e s in gdt_loop n (e + 8) (s1\<lparr>mem := wr16 (mem s1) e 0xffff\<rparr>))"

text \<open>A flat user segment, with the access byte of code (\<open>0xfa\<close>) or data (\<open>0xf2\<close>).\<close>

definition user_segment :: "u8 \<Rightarrow> u64 \<Rightarrow> memory \<Rightarrow> memory" where
  "user_segment ac e m =
     set_gdt_flags 0xa e
       ((set_limit_high 0xf e (wr16 (set_gdt_base 0 0 0 e m) e 0xffff))(e + 5 := ac))"

definition tss_descriptor :: "u64 \<Rightarrow> u64 \<Rightarrow> memory \<Rightarrow> memory" where
  "tss_descriptor tss e m =
     (let m1 = wr16 m e 0x1;
          m2 = wr16 m1 (e + 2) (ucast (tss AND 0xffff));
          m3 = m2(e + 4 := ucast (drop_bit 16 tss AND 0xff), e + 5 := 0xe9);
          m4 = set_gdt_flags 0x8 e (set_limit_high 0 e m3);
          m5 = m4(e + 7 := ucast (drop_bit 24 tss AND 0xff))
      in wr32 (wr32 m5 (e + 8) (ucast (drop_bit 32 tss))) (e + 12) 0)"

definition setup_gdt_tss :: "idtr \<Rightarrow> 'a desc_state_scheme \<Rightarrow> idtr \<times> 'a desc_state_scheme" where
  "setup_gdt_tss gdt s =
     (let total_gdts = (unat (limit gdt) + 1) div 8;
          s1 = printf ''Initializing user segments\<newline>'' [] (gdt_loop total_gdts (idtr_base gdt) s);
          e = idtr_base gdt + 8 * of_nat total_gdts;
          s2 = s1\<lparr>mem := user_segment 0xf2 (e + 8) (user_segment 0xfa e (mem s1))\<rparr>;
          (pfn, s3) = os_pfn_alloc OS_PT_REG s2;
          tss = push_bit PAGE_SHIFT (ucast pfn);
          m = tss_descriptor tss (e + 16) (bzero (mem s3) tss PAGE_SIZE);
          gdt' = gdt\<lparr>limit := limit gdt + 8 + 8 + 16\<rparr>;
          s4 = s3\<lparr>mem := m, tss_page := tss, gdtr := gdt', task_reg := 0x33\<rparr>;
          (ist, s5) = os_pfn_alloc OS_PT_REG s4;
          stack = push_bit PAGE_SHIFT (ucast ist + 1)
      in (gdt', s5\<lparr>irq_stack := stack,
           mem := wr32 (wr32 (mem s5) (tss + 36) (ucast (stack AND 0xffffffff))) (tss + 40) (ucast (drop_bit 32 stack))\<rparr>))"

subsection \<open>\<open>setup_idt\<close>\<close>

abbreviation IDT_DESC_TYPE_INT_SW :: u8 where "IDT_DESC_TYPE_INT_SW \<equiv> 0xEE"
abbreviation IDT_DESC_TYPE_INT_HW :: u8 where "IDT_DESC_TYPE_INT_HW \<equiv> 0x8E"
abbreviation NUM_IDT_ENTRY :: nat where "NUM_IDT_ENTRY \<equiv> 256"
abbreviation FAULT_DIVZERO :: nat where "FAULT_DIVZERO \<equiv> 0x0"
abbreviation FAULT_GP :: nat where "FAULT_GP \<equiv> 0xD"
abbreviation FAULT_PF :: nat where "FAULT_PF \<equiv> 0xE"
abbreviation SYSCALL_IDT :: nat where "SYSCALL_IDT \<equiv> 0x80"
abbreviation APIC_TIMER :: nat where "APIC_TIMER \<equiv> 32"
abbreviation IRQ_SPURIOUS :: nat where "IRQ_SPURIOUS \<equiv> 255"

datatype handler = handle_div_by_zero | handle_page_fault | handle_gp | handle_syscall | handle_irq

definition create_idt :: "memory \<Rightarrow> u64 \<Rightarrow> u8 \<Rightarrow> u64 \<Rightarrow> u8 \<Rightarrow> memory" where
  "create_idt m e type callback ist =
     (let m1 = wr32 m (e + 12) 0;
          m2 = m1(e + 4 := ist);
          m3 = wr16 m2 e (ucast (callback AND 0xffff));
          m4 = wr16 m3 (e + 6) (ucast (drop_bit 16 callback AND 0xffff));
          m5 = wr32 m4 (e + 8) (ucast (drop_bit 32 callback));
          m6 = m5(e + 5 := type)
      in wr16 m6 (e + 2) 0x8)"

definition create_null_idt :: "memory \<Rightarrow> u64 \<Rightarrow> memory" where
  "create_null_idt m e = m(e + 5 := 0)"

definition idt_entry :: "(handler \<Rightarrow> u64) \<Rightarrow> nat \<Rightarrow> u64 \<Rightarrow> memory \<Rightarrow> memory" where
  "idt_entry addr i e m =
     (if i = FAULT_DIVZERO then create_idt m e IDT_DESC_TYPE_INT_SW (addr handle_div_by_zero) 0
      else if i = FAULT_PF then create_idt m e IDT_DESC_TYPE_INT_SW (addr handle_page_fault) 0
      else if i = FAULT_GP then create_idt m e IDT_DESC_TYPE_INT_SW (addr handle_gp) 0
      else if i = SYSCALL_IDT then create_idt m e IDT_DESC_TYPE_INT_SW (addr handle_syscall) 0
      else if i = IRQ_SPURIOUS \<or> i = APIC_TIMER then create_idt m e IDT_DESC_TYPE_INT_HW (addr handle_irq) 1
      else create_null_idt m e)"

text \<open>\<open>n\<close> is the number of entries left.\<close>

fun idt_loop :: "(handler \<Rightarrow> u64) \<Rightarrow> nat \<Rightarrow> nat \<Rightarrow> u64 \<Rightarrow> memory \<Rightarrow> memory" where
  "idt_loop addr 0 i e m = m"
| "idt_loop addr (Suc n) i e m = idt_loop addr n (Suc i) (e + 16) (idt_entry addr i e m)"

definition setup_idt :: "(handler \<Rightarrow> u64) \<Rightarrow> 'a desc_state_scheme \<Rightarrow> 'a desc_state_scheme" where
  "setup_idt addr s =
     (let (pfn, s1) = os_pfn_alloc OS_PT_REG s;
          base = push_bit PAGE_SHIFT (ucast pfn)
      in s1\<lparr>mem := idt_loop addr NUM_IDT_ENTRY 0 base (mem s1),
            idt := \<lparr>limit = push_bit 12 1 - 1, idtr_base = base\<rparr>\<rparr>)"

subsection \<open>What the processor reads from the tables\<close>

text \<open>The handler, type byte, code selector and interrupt stack of gate \<open>v\<close>.\<close>

definition gate_offset :: "memory \<Rightarrow> u64 \<Rightarrow> u64" where
  "gate_offset m e = ucast (rd16 m e) OR push_bit 16 (ucast (rd16 m (e + 6))) OR push_bit 32 (ucast (rd32 m (e + 8)))"

definition gate :: "memory \<Rightarrow> u64 \<Rightarrow> nat \<Rightarrow> (u64 \<times> u8 \<times> u16 \<times> u8) option" where
  "gate m base v =
     (let e = base + 16 * of_nat v in
      if m (e + 5) AND 0x80 = 0 then None
      else Some (gate_offset m e, m (e + 5), rd16 m (e + 2), m (e + 4)))"

lemma u16_of_bytes: "ucast (ucast v :: u8) OR push_bit 8 (ucast (ucast (drop_bit 8 v) :: u8)) = (v :: u16)"
  by (rule bit_word_eqI) (auto simp: bit_simps)

lemma low_half: "(ucast (x AND 0xffff) :: u16) = ucast x" for x :: u64
proof -
  have "x AND 0xffff = take_bit 16 x" by (simp add: take_bit_eq_mask mask_eq_exp_minus_1)
  then show ?thesis by (simp only:) (rule bit_word_eqI, auto simp: bit_simps)
qed

lemma u64_of_parts:
  "ucast (ucast x :: u16) OR push_bit 16 (ucast (ucast (drop_bit 16 x) :: u16)) OR push_bit 32 (ucast (ucast (drop_bit 32 x) :: u32)) = x"
  (is "?w = x") for x :: u64
proof (rule bit_word_eqI)
  fix n assume "n < LENGTH(64)"
  then consider "n < 16" | "16 \<le> n" "n < 32" | "32 \<le> n" "n < 64" by fastforce
  then show "bit ?w n = bit x n" by cases (auto simp: bit_simps)
qed

lemma create_idt_fields:
  "gate_offset (create_idt m e t cb ist) e = cb" "create_idt m e t cb ist (e + 5) = t"
  "rd16 (create_idt m e t cb ist) (e + 2) = 8" "create_idt m e t cb ist (e + 4) = ist"
proof -
  note defs = create_idt_def Let_def wr16_def wr32_def rd16_def rd32_def
  show "create_idt m e t cb ist (e + 5) = t" "create_idt m e t cb ist (e + 4) = ist"
    by (simp_all add: defs add.assoc)
  show "rd16 (create_idt m e t cb ist) (e + 2) = 8"
    by (simp add: defs add.assoc)
  have "rd16 (create_idt m e t cb ist) e = ucast cb" "rd16 (create_idt m e t cb ist) (e + 6) = ucast (drop_bit 16 cb)"
    "rd32 (create_idt m e t cb ist) (e + 8) = ucast (drop_bit 32 cb)"
    by (simp_all add: defs add.assoc low_half u16_of_bytes u32_of_bytes)
  then show "gate_offset (create_idt m e t cb ist) e = cb"
    unfolding gate_offset_def by (simp add: u64_of_parts)
qed

text \<open>An entry occupies 16 bytes.\<close>

lemma idt_entry_frame: "16 \<le> unat (a - e) \<Longrightarrow> idt_entry addr i e m a = m a"
proof -
  assume a: "16 \<le> unat (a - e)"
  have "a \<noteq> e + of_nat k" if "k < 16" for k
  proof
    assume "a = e + of_nat k"
    then have "unat (a - e) = k" using that by (simp add: unat_of_nat_small)
    with a that show False by simp
  qed
  from this [of 0] this [of 1] this [of 2] this [of 3] this [of 4] this [of 5] this [of 6] this [of 7] this [of 8]
    this [of 9] this [of 10] this [of 11] this [of 12] this [of 13] this [of 14] this [of 15]
  show ?thesis
    by (simp add: idt_entry_def create_idt_def create_null_idt_def wr16_def wr32_def Let_def add.assoc)
qed

lemma idt_entry_cong: "m a = m' a \<Longrightarrow> idt_entry addr i e m a = idt_entry addr i e m' a"
  by (auto simp: idt_entry_def create_idt_def create_null_idt_def wr16_def wr32_def Let_def)

lemma idt_loop_frame:
  "\<lbrakk>16 * n \<le> unat (a - e); 16 * n < 2 ^ 32\<rbrakk> \<Longrightarrow> idt_loop addr n i e m a = m a"
proof (induction n arbitrary: i e m)
  case (Suc n)
  have u: "unat (a - (e + 16)) = unat (a - e) - 16"
    using Suc.prems(1) by (subst diff_diff_eq [symmetric], subst unat_sub) (simp_all add: word_le_nat_alt)
  then show ?case using Suc.IH [of "e + 16"] Suc.prems idt_entry_frame [of a e] by simp
qed simp

lemma idt_loop_entry:
  "\<lbrakk>j < n; n \<le> 256; k < 16\<rbrakk> \<Longrightarrow>
    idt_loop addr n i e m (e + 16 * of_nat j + of_nat k) =
      idt_entry addr (i + j) (e + 16 * of_nat j) m (e + 16 * of_nat j + of_nat k)"
proof (induction n arbitrary: i e m j)
  case (Suc n)
  define m' where "m' = idt_entry addr i e m"
  show ?case
  proof (cases j)
    case 0
    have "unat (of_nat k - of_nat 16 :: u64) = 2 ^ 64 - (16 - k)" using Suc.prems(3) by (subst unat_index_diff) simp_all
    then have "16 * n \<le> unat (e + of_nat k - (e + 16))" using Suc.prems(2) by simp
    then have "idt_loop addr n (Suc i) (e + 16) m' (e + of_nat k) = m' (e + of_nat k)"
      using Suc.prems(2) by (intro idt_loop_frame) simp_all
    then show ?thesis by (simp add: 0 m'_def)
  next
    case j: (Suc j')
    define a where "a = e + 16 * of_nat j + of_nat k"
    have a': "a = e + 16 + 16 * of_nat j' + of_nat k" by (simp add: a_def j algebra_simps)
    have "a - e = of_nat (16 * j + k)" by (simp add: a_def)
    moreover have "unat (of_nat (16 * j + k) :: u64) = 16 * j + k"
      using Suc.prems by (intro unat_of_nat_small) simp
    ultimately have "unat (a - e) = 16 * j + k" by simp
    then have "m' a = m a" unfolding m'_def by (intro idt_entry_frame) (simp add: j)
    then have "idt_entry addr (i + j) (e + 16 * of_nat j) m' a = idt_entry addr (i + j) (e + 16 * of_nat j) m a"
      by (rule idt_entry_cong)
    moreover have "idt_loop addr n (Suc i) (e + 16) m' a = idt_entry addr (Suc i + j') (e + 16 + 16 * of_nat j') m' a"
      unfolding a' by (rule Suc.IH) (use Suc.prems j in simp_all)
    ultimately show ?thesis by (simp add: a_def [symmetric] m'_def) (simp add: j algebra_simps)
  qed
qed simp

lemma gate_cong:
  assumes "\<And>k. k < 16 \<Longrightarrow> m (base + 16 * of_nat v + of_nat k) = m' (base + 16 * of_nat v + of_nat k)"
  shows "gate m base v = gate m' base v"
proof -
  define e where "e = base + 16 * of_nat v"
  have "m (e + of_nat k) = m' (e + of_nat k)" if "k < 16" for k using assms that by (simp add: e_def)
  from this [of 0] this [of 1] this [of 2] this [of 3] this [of 4] this [of 5] this [of 6] this [of 7] this [of 8]
    this [of 9] this [of 10] this [of 11]
  show ?thesis
    unfolding gate_def Let_def e_def [symmetric] gate_offset_def rd16_def rd32_def by (simp add: add.assoc)
qed

text \<open>Vector, handler, whether programs may raise it themselves (privilege level 3), interrupt stack.\<close>

definition vectors :: "(nat \<times> handler \<times> bool \<times> u8) list" where
  "vectors = [(0, handle_div_by_zero, True, 0), (13, handle_gp, True, 0), (14, handle_page_fault, True, 0),
     (128, handle_syscall, True, 0), (32, handle_irq, False, 1), (255, handle_irq, False, 1)]"

definition gate_of :: "(handler \<Rightarrow> u64) \<Rightarrow> nat \<Rightarrow> (u64 \<times> u8 \<times> u16 \<times> u8) option" where
  "gate_of addr v = map_option (\<lambda>(h, user, ist). (addr h, if user then 0xEE else 0x8E, 8, ist)) (map_of vectors v)"

lemma idt_gate:
  assumes "v < 256"
  shows "gate (idt_loop addr NUM_IDT_ENTRY 0 base m) base v = gate_of addr v"
proof -
  have "gate (idt_loop addr NUM_IDT_ENTRY 0 base m) base v = gate (idt_entry addr v (base + 16 * of_nat v) m) base v"
    by (rule gate_cong) (use idt_loop_entry [of v 256 _ addr 0 base m] assms in simp)
  also have "\<dots> = gate_of addr v"
  proof -
    define e where "e = base + 16 * of_nat v"
    have "gate (idt_entry addr v e m) base v = gate_of addr v"
      unfolding gate_def Let_def e_def [symmetric]
      by (simp add: gate_of_def vectors_def idt_entry_def create_idt_fields) (simp add: create_null_idt_def)
    then show ?thesis by (simp only: e_def)
  qed
  finally show ?thesis .
qed

end
