(* ===== verification/Node_Lists.thy ===== *)
theory Node_Lists
  imports Os_Alloc
begin

text \<open>
  The linked lists of \<open>lib.c\<close> as first-in first-out queues. \<open>list_inv\<close> describes a list whose
  nodes lie in physical memory, \<open>spare\<close> the part of the node pool that has never been used;
  with these, \<open>enqueue_tail\<close> appends to the list of values and taking from the front with
  \<open>dequeue_front\<close> and \<open>node_free\<close>, as \<open>os_alloc\<close> does, returns its first element.
\<close>

subsection \<open>The interface\<close>

text \<open>\<open>room k q\<close> says that \<open>k\<close> more values can be appended.\<close>

locale fifo =
  fixes enq :: "'v \<Rightarrow> 'q \<Rightarrow> 'q option"
    and deq :: "'q \<Rightarrow> 'v \<times> 'q"
    and room :: "nat \<Rightarrow> 'q \<Rightarrow> bool"
    and elems :: "'q \<Rightarrow> 'v list"
  assumes enq_appends: "room (Suc k) q \<Longrightarrow> \<exists>q'. enq v q = Some q' \<and> room k q' \<and> elems q' = elems q @ [v]"
    and deq_takes: "\<lbrakk>room k q; elems q = v # vs\<rbrakk> \<Longrightarrow> \<exists>q'. deq q = (v, q') \<and> room k q' \<and> elems q' = vs"

fun enq_all :: "('v \<Rightarrow> 'q \<Rightarrow> 'q option) \<Rightarrow> 'v list \<Rightarrow> 'q \<Rightarrow> 'q option" where
  "enq_all enq [] q = Some q"
| "enq_all enq (v # vs) q = (case enq v q of None \<Rightarrow> None | Some q' \<Rightarrow> enq_all enq vs q')"

fun deq_all :: "('q \<Rightarrow> 'v \<times> 'q) \<Rightarrow> nat \<Rightarrow> 'q \<Rightarrow> 'v list \<times> 'q" where
  "deq_all deq 0 q = ([], q)"
| "deq_all deq (Suc n) q = (let (v, q1) = deq q; (vs, q2) = deq_all deq n q1 in (v # vs, q2))"

context fifo
begin

lemma enq_all_appends:
  "room (length vs + k) q \<Longrightarrow> \<exists>q'. enq_all enq vs q = Some q' \<and> room k q' \<and> elems q' = elems q @ vs"
proof (induction vs arbitrary: q)
  case (Cons v vs)
  then obtain q1 where "enq v q = Some q1" "room (length vs + k) q1" "elems q1 = elems q @ [v]"
    using enq_appends [of "length vs + k" q v] by auto
  with Cons.IH [of q1] show ?case by auto
qed simp

lemma deq_all_takes:
  "\<lbrakk>room k q; n \<le> length (elems q)\<rbrakk> \<Longrightarrow>
    \<exists>q'. deq_all deq n q = (take n (elems q), q') \<and> room k q' \<and> elems q' = drop n (elems q)"
proof (induction n arbitrary: q)
  case (Suc n)
  then obtain v vs where e: "elems q = v # vs" by (cases "elems q") auto
  from deq_takes [OF Suc.prems(1) this] obtain q1 where q1: "deq q = (v, q1)" "room k q1" "elems q1 = vs" by blast
  moreover have "n \<le> length (elems q1)" using Suc.prems(2) e q1(3) by simp
  ultimately show ?case using Suc.IH [of q1] e by (auto simp: Let_def)
qed simp

lemma drains_in_order:
  assumes "room (length vs + k) q"
  shows "\<exists>q1 q2. enq_all enq vs q = Some q1 \<and> deq_all deq (length (elems q) + length vs) q1 = (elems q @ vs, q2) \<and> elems q2 = []"
proof -
  obtain q1 where q1: "enq_all enq vs q = Some q1" "room k q1" "elems q1 = elems q @ vs"
    using enq_all_appends [OF assms] by blast
  obtain q2 where "deq_all deq (length (elems q1)) q1 = (elems q1, q2)" "elems q2 = []"
    using deq_all_takes [OF q1(2) order_refl] by auto
  with q1 show ?thesis by auto
qed

end

subsection \<open>Fields of nodes\<close>

text \<open>A node is 16 bytes at a multiple of 16, so fields of different nodes do not overlap.\<close>

lemma node_fields:
  assumes "aligned 4 n" "aligned 4 k"
  shows "aligned 3 n" "aligned 3 (n + 8)" "n + 8 \<noteq> k" "n \<noteq> k + 8" "n + 8 = k + 8 \<longleftrightarrow> n = k"
proof -
  show a: "aligned 3 n" by (rule aligned_mono [OF assms(1)]) simp
  show "aligned 3 (n + 8)" using a by (rule aligned_plus) simp
  have *: "x + 8 \<noteq> y" if "aligned 4 x" "aligned 4 y" for x y :: u64
    using aligned_inj [OF that, of 8 0] by auto
  show "n + 8 \<noteq> k" "n \<noteq> k + 8" using * [OF assms] * [OF assms(2,1)] by auto
  show "n + 8 = k + 8 \<longleftrightarrow> n = k" by simp
qed

lemma node_access [simp]:
  assumes "aligned 4 n" "aligned 4 k"
  shows "node_next (set_next m n v) k = (if k = n then v else node_next m k)"
    "node_value (set_next m n v) k = node_value m k"
    "node_next (wr64 m n v) k = node_next m k"
    "node_value (wr64 m n v) k = (if k = n then v else node_value m k)"
  using node_fields [OF assms] node_fields [OF assms(2,1)] by (auto simp: rd64_wr64_other)

subsection \<open>Lists in memory\<close>

fun chain :: "memory \<Rightarrow> u64 \<Rightarrow> u64 list \<Rightarrow> bool" where
  "chain m a [] = True"
| "chain m a (n # ns) = (node_next m a = n \<and> chain m n ns)"

lemma chain_cong:
  "\<lbrakk>chain m a ns; \<And>n. n \<in> set (butlast (a # ns)) \<Longrightarrow> node_next m' n = node_next m n\<rbrakk> \<Longrightarrow> chain m' a ns"
  by (induction ns arbitrary: a) (auto split: if_splits)

lemma chain_snoc:
  "chain m a (ns @ [n]) \<longleftrightarrow> chain m a ns \<and> node_next m (last (a # ns)) = n"
  by (induction ns arbitrary: a) auto

text \<open>The nodes of a list that has its two sentinels.\<close>

definition nodes_inv :: "memory \<Rightarrow> list_hdr \<Rightarrow> u64 list \<Rightarrow> bool" where
  "nodes_inv m l ns \<longleftrightarrow> head l \<noteq> 0 \<and> distinct (head l # tail l # ns) \<and>
     (\<forall>n \<in> set (head l # tail l # ns). aligned 4 n) \<and> list_size l = of_nat (length ns) \<and> length ns < 2 ^ 32 \<and>
     chain m (head l) ns \<and> (ns \<noteq> [] \<longrightarrow> node_next m (tail l) = last ns)"

lemma nodes_inv_cong:
  assumes "nodes_inv m l ns" "\<And>n. n \<in> set (head l # tail l # ns) \<Longrightarrow> node_next m' n = node_next m n"
  shows "nodes_inv m' l ns"
proof -
  have "chain m (head l) ns" using assms(1) by (simp add: nodes_inv_def)
  then have "chain m' (head l) ns"
  proof (rule chain_cong)
    fix n assume "n \<in> set (butlast (head l # ns))"
    then have "n \<in> set (head l # ns)" by (rule in_set_butlastD)
    then show "node_next m' n = node_next m n" by (intro assms(2)) auto
  qed
  moreover have "node_next m' (tail l) = node_next m (tail l)" by (rule assms(2)) simp
  ultimately show ?thesis using assms(1) unfolding nodes_inv_def by simp
qed

lemma nodes_invD:
  assumes "nodes_inv m l ns"
  shows "head l \<noteq> 0" "distinct (head l # tail l # ns)" "n \<in> set (head l # tail l # ns) \<Longrightarrow> aligned 4 n"
    "list_size l = of_nat (length ns)" "length ns < 2 ^ 32" "chain m (head l) ns" "ns \<noteq> [] \<Longrightarrow> node_next m (tail l) = last ns"
  using assms unfolding nodes_inv_def by blast+

text \<open>Linking a new node after the last one: the two branches of \<open>enqueue_tail\<close>.\<close>

lemma link_nonempty:
  assumes inv: "nodes_inv m l ns" and ns: "ns \<noteq> []"
    and n: "aligned 4 n" "n \<notin> set (head l # tail l # ns)" "Suc (length ns) < 2 ^ 32"
    and m0: "\<And>k. k \<noteq> n \<Longrightarrow> aligned 4 k \<Longrightarrow> node_next m0 k = node_next m k"
  defines "m2 \<equiv> set_next (set_next m0 (node_next m0 (tail l)) n) (tail l) n"
  shows "nodes_inv m2 (l\<lparr>list_size := list_size l + 1\<rparr>) (ns @ [n])"
proof -
  note D = nodes_invD [OF inv]
  have al: "aligned 4 (tail l)" "aligned 4 (last ns)" "aligned 4 (head l)" using D(3) ns by auto
  have ne: "tail l \<noteq> n" "last ns \<noteq> n" "last ns \<noteq> tail l" "last ns \<noteq> head l" using n(2) D(2) last_in_set [OF ns] by (auto simp del: last_in_set)
  have "node_next m0 (tail l) = last ns" using m0 [of "tail l"] ne al D(7) [OF ns] by simp
  then have m2: "m2 = set_next (set_next m0 (last ns) n) (tail l) n" by (simp add: m2_def)
  have nx: "node_next m2 k = (if k = tail l \<or> k = last ns then n else node_next m0 k)" if "aligned 4 k" for k
    using that al by (auto simp: m2)
  have "chain m2 (head l) ns"
  proof (rule chain_cong [OF D(6)])
    fix k assume k: "k \<in> set (butlast (head l # ns))"
    then have "k \<in> set (head l # ns)" by (rule in_set_butlastD)
    moreover have "k \<noteq> last ns"
    proof -
      have "distinct (head l # ns)" using D(2) by auto
      then have "distinct (butlast (head l # ns) @ [last (head l # ns)])" by (metis append_butlast_last_id list.discI)
      then have "last (head l # ns) \<notin> set (butlast (head l # ns))" by (simp only: distinct_append) simp
      then show ?thesis using k ns by (metis last_ConsR)
    qed
    ultimately show "node_next m2 k = node_next m k"
      using D(2,3) n(2) by (subst nx) (auto intro!: m0)
  qed
  then have "chain m2 (head l) (ns @ [n])"
    unfolding chain_snoc using ns nx [OF al(2)] by simp
  moreover have "node_next m2 (tail l) = n" using nx [OF al(1)] by simp
  ultimately show ?thesis using D n by (auto simp: nodes_inv_def)
qed

lemma link_empty:
  assumes inv: "nodes_inv m l []" and n: "aligned 4 n" "n \<notin> {head l, tail l}"
  defines "m2 \<equiv> set_next (set_next (set_next m (head l) n) (tail l) n) n (tail l)"
  shows "nodes_inv m2 (l\<lparr>list_size := list_size l + 1\<rparr>) [n]"
proof -
  note D = nodes_invD [OF inv]
  have al: "aligned 4 (tail l)" "aligned 4 (head l)" using D(3) by auto
  show ?thesis using D n al by (auto simp: nodes_inv_def m2_def)
qed

text \<open>Taking the first node.\<close>

lemma unlink_first:
  assumes inv: "nodes_inv m l (n # ns)"
  defines "m2 \<equiv> set_next (set_next m (head l) (node_next m n)) n 0"
  shows "nodes_inv m2 (l\<lparr>list_size := list_size l - 1\<rparr>) ns" "node_next m (head l) = n"
proof -
  note D = nodes_invD [OF inv]
  show "node_next m (head l) = n" using D(6) by simp
  have al: "aligned 4 (head l)" "aligned 4 n" "aligned 4 (tail l)" using D(3) by auto
  have nx: "node_next m2 k = node_next m k" if "aligned 4 k" "k \<noteq> head l" "k \<noteq> n" for k
    using that al by (simp add: m2_def)
  have "chain m2 (head l) ns"
  proof (cases ns)
    case (Cons x xs)
    have "chain m x xs" "node_next m n = x" using D(6) Cons by simp_all
    moreover have "chain m2 x xs"
    proof (rule chain_cong [OF \<open>chain m x xs\<close>])
      fix k assume "k \<in> set (butlast (x # xs))"
      then have "k \<in> set ns" using in_set_butlastD Cons by metis
      then show "node_next m2 k = node_next m k" using D(2,3) by (intro nx) auto
    qed
    moreover have "node_next m2 (head l) = node_next m n" using al D(2) by (auto simp: m2_def)
    ultimately show ?thesis using Cons by simp
  qed simp
  moreover have "node_next m2 (tail l) = last ns" if "ns \<noteq> []"
    using nx [OF al(3)] D(2,7) that by auto
  ultimately show "nodes_inv m2 (l\<lparr>list_size := list_size l - 1\<rparr>) ns"
    using D by (auto simp: nodes_inv_def)
qed

subsection \<open>The pool\<close>

definition pool_node :: "'a alloc_state_scheme \<Rightarrow> nat \<Rightarrow> u64" where
  "pool_node s i = nodes (nodemem s) + 16 * of_nat i"

text \<open>The next \<open>k\<close> nodes of the pool exist, are free and are none of \<open>used\<close>.\<close>

definition spare :: "nat \<Rightarrow> u64 set \<Rightarrow> 'a alloc_state_scheme \<Rightarrow> bool" where
  "spare k used s \<longleftrightarrow> aligned 4 (nodes (nodemem s)) \<and> 0 < unat (nodes (nodemem s)) \<and>
     unat (nodes (nodemem s)) + 2 ^ 36 < 2 ^ 64 \<and> unat (nm_next_free (nodemem s)) + k < 2 ^ 32 \<and>
     k \<le> unat (num_free (nodemem s)) \<and>
     (\<forall>i < k. node_next (mem s) (pool_node s (unat (nm_next_free (nodemem s)) + i)) = 0 \<and>
        pool_node s (unat (nm_next_free (nodemem s)) + i) \<notin> used)"

lemma pool_node_facts:
  assumes "aligned 4 (nodes (nodemem s))" "0 < unat (nodes (nodemem s))" "unat (nodes (nodemem s)) + 2 ^ 36 < 2 ^ 64" "i < 2 ^ 32"
  shows "aligned 4 (pool_node s i)" "pool_node s i \<noteq> 0" "j < 2 ^ 32 \<Longrightarrow> pool_node s i = pool_node s j \<longleftrightarrow> i = j"
proof -
  have u: "unat (pool_node s k) = unat (nodes (nodemem s)) + 16 * k" if "k < 2 ^ 32" for k
  proof -
    have "unat (of_nat (16 * k) :: u64) = 16 * k" using that by (intro unat_of_nat_small) simp
    then have "unat (16 * of_nat k :: u64) = 16 * k" by simp
    then show ?thesis unfolding pool_node_def using assms(3) that
      by (subst unat_add_lem [THEN iffD1]) simp_all
  qed
  have "aligned 4 (16 * of_nat i :: u64)" by (rule aligned_mult) (simp add: aligned_def)
  then show "aligned 4 (pool_node s i)" unfolding pool_node_def by (rule aligned_plus [OF assms(1)])
  show "pool_node s i \<noteq> 0" using u [OF assms(4)] assms(2) by (metis add_gr_0 unat_0 less_irrefl)
  show "pool_node s i = pool_node s j \<longleftrightarrow> i = j" if j: "j < 2 ^ 32"
  proof
    assume "pool_node s i = pool_node s j"
    then have "unat (nodes (nodemem s)) + 16 * i = unat (nodes (nodemem s)) + 16 * j"
      using u [OF assms(4)] u [OF j] by metis
    then show "i = j" by (metis add_left_cancel mult_left_cancel zero_neq_numeral)
  qed simp
qed

lemma spare_alloc:
  assumes "spare (Suc k) used s"
  defines "n \<equiv> pool_node s (unat (nm_next_free (nodemem s)))"
  shows "\<exists>s1. node_alloc s = Some (n, s1) \<and> mem s1 = mem s \<and> nodes (nodemem s1) = nodes (nodemem s) \<and>
      spare k (insert n used) s1 \<and> unat (num_free (nodemem s1)) + 1 = unat (num_free (nodemem s))"
    "aligned 4 n" "n \<noteq> 0" "n \<notin> used"
proof -
  define nm where "nm = nodemem s"
  define s1 where "s1 = s\<lparr>nodemem := nm\<lparr>num_free := num_free nm - 1, nm_next_free := nm_next_free nm + 1\<rparr>\<rparr>"
  note S = assms(1) [unfolded spare_def]
  have lt: "unat (nm_next_free nm) + Suc k < 2 ^ 32" "Suc k \<le> unat (num_free nm)" using S by (simp_all add: nm_def)
  have nf: "unat (nm_next_free nm + 1) = Suc (unat (nm_next_free nm))" "unat (num_free nm - 1) = unat (num_free nm) - 1" "num_free nm \<noteq> 0"
  proof -
    show "unat (nm_next_free nm + 1) = Suc (unat (nm_next_free nm))" using lt(1) by (subst unat_add_lem [THEN iffD1]) simp_all
    show "unat (num_free nm - 1) = unat (num_free nm) - 1" using lt(2) by (subst unat_sub) (simp_all add: word_le_nat_alt)
    show "num_free nm \<noteq> 0" using lt(2) by auto
  qed
  have "16 * ucast (nm_next_free nm) = (16 * of_nat (unat (nm_next_free nm)) :: u64)" by simp
  then have n: "n = nodes nm + 16 * ucast (nm_next_free nm)" by (simp add: n_def pool_node_def nm_def)
  have "node_next (mem s) (pool_node s (unat (nm_next_free (nodemem s)) + 0)) = 0" using S by blast
  then have zero: "node_next (mem s) n = 0" by (simp add: n_def)
  have al: "node_alloc s = Some (n, s1)"
    unfolding node_alloc_def Let_def nm_def [symmetric] using nf(3) zero by (simp add: n [symmetric] s1_def)
  note pf = pool_node_facts [of s]
  have small: "unat (nm_next_free nm) + i < 2 ^ 32" if "i \<le> Suc k" for i using lt(1) that by linarith
  show "aligned 4 n" "n \<noteq> 0" unfolding n_def using S pf small [of 0] by (simp_all add: nm_def)
  show "n \<notin> used" unfolding n_def using S by (metis add_0_right zero_less_Suc)
  have pn: "pool_node s1 i = pool_node s i" for i by (simp add: pool_node_def s1_def nm_def)
  have "spare k (insert n used) s1"
  proof -
    have "node_next (mem s1) (pool_node s1 (unat (nm_next_free (nodemem s1)) + i)) = 0 \<and>
        pool_node s1 (unat (nm_next_free (nodemem s1)) + i) \<notin> insert n used" if "i < k" for i
    proof -
      have e: "unat (nm_next_free (nodemem s1)) + i = unat (nm_next_free nm) + Suc i" by (simp add: s1_def nf)
      have "pool_node s (unat (nm_next_free nm) + Suc i) \<noteq> n"
        unfolding n_def using pf(3) S small [of "Suc i"] small [of 0] that by (simp add: nm_def)
      then show ?thesis unfolding pn e using S that by (auto simp: s1_def nm_def)
    qed
    then show ?thesis using S lt nf unfolding spare_def by (auto simp: s1_def nm_def)
  qed
  then show "\<exists>s1. node_alloc s = Some (n, s1) \<and> mem s1 = mem s \<and> nodes (nodemem s1) = nodes (nodemem s) \<and>
      spare k (insert n used) s1 \<and> unat (num_free (nodemem s1)) + 1 = unat (num_free (nodemem s))"
    using al nf(2) lt(2) by (intro exI [of _ s1]) (simp add: s1_def nm_def)
qed

lemma spare_mem:
  assumes "spare k used s" "\<And>n. \<lbrakk>aligned 4 n; n \<notin> used\<rbrakk> \<Longrightarrow> node_next m n = node_next (mem s) n"
    "used' \<subseteq> used" "unat (num_free (nodemem s)) \<le> unat (num_free nm)"
    "nodes nm = nodes (nodemem s)" "nm_next_free nm = nm_next_free (nodemem s)"
  shows "spare k used' (s\<lparr>mem := m, nodemem := nm\<rparr>)"
proof -
  note S = assms(1) [unfolded spare_def]
  have pn: "pool_node (s\<lparr>mem := m, nodemem := nm\<rparr>) i = pool_node s i" for i by (simp add: pool_node_def assms(5))
  have "node_next m (pool_node s (unat (nm_next_free (nodemem s)) + i)) = 0 \<and>
      pool_node s (unat (nm_next_free (nodemem s)) + i) \<notin> used'" if "i < k" for i
  proof -
    have "unat (nm_next_free (nodemem s)) + i < 2 ^ 32" using S that by linarith
    then have "aligned 4 (pool_node s (unat (nm_next_free (nodemem s)) + i))"
      using pool_node_facts(1) [of s] S by blast
    then show ?thesis using S that assms(2,3) by auto
  qed
  then show ?thesis using S assms(4-6) unfolding spare_def pn by auto
qed

subsection \<open>The list as a queue\<close>

definition enq_list ::
  "u64 \<Rightarrow> list_hdr \<times> 'a alloc_state_scheme \<Rightarrow> (list_hdr \<times> 'a alloc_state_scheme) option" where
  "enq_list v q = (case q of (l, s) \<Rightarrow> map_option (\<lambda>(_, l', s'). (l', s')) (enqueue_tail l v s))"

text \<open>Taking a value the way \<open>os_alloc\<close> does: dequeue the node, read it, release it.\<close>

definition deq_list ::
  "list_hdr \<times> 'a alloc_state_scheme \<Rightarrow> u64 \<times> list_hdr \<times> 'a alloc_state_scheme" where
  "deq_list q = (case q of (l, s) \<Rightarrow>
     let (n, l', s1) = dequeue_front l s in (node_value (mem s1) n, l', node_free n s1))"

fun nodes_from :: "memory \<Rightarrow> u64 \<Rightarrow> nat \<Rightarrow> u64 list" where
  "nodes_from m a 0 = []"
| "nodes_from m a (Suc k) = node_next m a # nodes_from m (node_next m a) k"

definition list_elems :: "list_hdr \<times> 'a alloc_state_scheme \<Rightarrow> u64 list" where
  "list_elems q = (case q of (l, s) \<Rightarrow>
     map (node_value (mem s)) (nodes_from (mem s) (head l) (unat (list_size l))))"

text \<open>A list before its first use needs two more nodes, for its sentinels.\<close>

definition list_room :: "nat \<Rightarrow> list_hdr \<times> 'a alloc_state_scheme \<Rightarrow> bool" where
  "list_room k q \<longleftrightarrow> (case q of (l, s) \<Rightarrow>
     if head l = 0 then list_size l = 0 \<and> k + 1 < 2 ^ 32 \<and> (k = 0 \<or> spare (k + 2) {} s)
     else \<exists>ns. nodes_inv (mem s) l ns \<and> spare k (set (head l # tail l # ns)) s \<and>
       length ns + k < 2 ^ 32 \<and> unat (num_free (nodemem s)) + length ns < 2 ^ 32)"

lemma nodes_from_chain: "chain m a ns \<Longrightarrow> nodes_from m a (length ns) = ns"
  by (induction ns arbitrary: a) auto

lemma list_elems_inv:
  assumes "nodes_inv (mem s) l ns"
  shows "list_elems (l, s) = map (node_value (mem s)) ns"
proof -
  have "unat (list_size l) = length ns"
    using nodes_invD(4,5) [OF assms] by (simp add: unat_of_nat_small)
  then show ?thesis using nodes_from_chain [OF nodes_invD(6) [OF assms]] by (simp add: list_elems_def)
qed

lemma enqueue_linked:
  fixes s :: "'a alloc_state_scheme"
  assumes inv: "nodes_inv (mem s) l ns" and sp: "spare (Suc k) (set (head l # tail l # ns)) s"
    and len: "Suc (length ns) < 2 ^ 32"
  obtains l' s' n where "enq_list v (l, s) = Some (l', s')" "head l' = head l" "nodes_inv (mem s') l' (ns @ [n])"
    "spare k (set (head l' # tail l' # ns @ [n])) s'" "list_elems (l', s') = list_elems (l, s) @ [v]"
    "unat (num_free (nodemem s')) + 1 = unat (num_free (nodemem s))"
proof -
  note D = nodes_invD [OF inv]
  obtain n s1 where al: "node_alloc s = Some (n, s1)" "mem s1 = mem s"
    "spare k (insert n (set (head l # tail l # ns))) s1" "unat (num_free (nodemem s1)) + 1 = unat (num_free (nodemem s))"
    and n: "aligned 4 n" "n \<notin> set (head l # tail l # ns)"
    using spare_alloc [OF sp] by blast
  define m0 where "m0 = wr64 (set_next (mem s) n 0) n v"
  have m0: "node_next m0 x = (if x = n then 0 else node_next (mem s) x)"
    "node_value m0 x = (if x = n then v else node_value (mem s) x)" if "aligned 4 x" for x
    using that n(1) by (auto simp: m0_def)
  have al4: "aligned 4 (head l)" "aligned 4 (tail l)" "\<And>x. x \<in> set ns \<Longrightarrow> aligned 4 x" using D(3) by auto
  define l' where "l' = l\<lparr>list_size := list_size l + 1\<rparr>"
  define m2 where "m2 = (if ns = [] then set_next (set_next (set_next m0 (head l) n) (tail l) n) n (tail l)
    else set_next (set_next m0 (node_next m0 (tail l)) n) (tail l) n)"
  have inv': "nodes_inv m2 l' (ns @ [n])"
  proof (cases "ns = []")
    case True
    have "nodes_inv m0 l []"
      by (rule nodes_inv_cong [OF inv [unfolded True]]) (use m0 n al4 in auto)
    from link_empty [OF this n(1)] n(2) True show ?thesis by (simp add: m2_def l'_def)
  next
    case False
    then show ?thesis
      using link_nonempty [OF inv False n len, of m0] m0 by (simp add: m2_def l'_def)
  qed
  have tl: "ns \<noteq> [] \<Longrightarrow> node_next m0 (tail l) \<in> set ns" using m0(1) [OF al4(2)] D(7) n(2) by auto
  have m2: "node_value m2 x = node_value m0 x"
    "x \<notin> insert n (set (head l # tail l # ns)) \<Longrightarrow> node_next m2 x = node_next m0 x" if "aligned 4 x" for x
    using that n(1) al4 tl by (auto simp: m2_def)
  define s' where "s' = s1\<lparr>mem := m2\<rparr>"
  have size: "is_empty l \<longleftrightarrow> ns = []"
    using D(4,5) unat_of_nat_small [of "length ns", where ?'a = 64] by (auto simp: is_empty_def)
  have "enq_list v (l, s) = Some (l', s')"
  proof (cases "ns = []")
    case True
    then show ?thesis
      using size D(1) by (simp add: enq_list_def enqueue_tail_def al Let_def m2_def s'_def l'_def m0_def)
  next
    case False
    then show ?thesis
      using size by (simp add: enq_list_def enqueue_tail_def al Let_def m2_def s'_def l'_def m0_def)
  qed
  moreover have "spare k (set (head l' # tail l' # ns @ [n])) (s1\<lparr>mem := m2, nodemem := nodemem s1\<rparr>)"
    by (rule spare_mem [OF al(3)]) (use m2 m0 al(2) in \<open>auto simp: l'_def\<close>)
  moreover have "nodes_inv (mem s') l' (ns @ [n])" using inv' by (simp add: s'_def)
  moreover from list_elems_inv [OF this] list_elems_inv [OF inv]
  have "list_elems (l', s') = list_elems (l, s) @ [v]"
    using m2(1) m0(2) n al4(3) by (auto simp: s'_def)
  ultimately show ?thesis
    by (intro that [of l' s' n]) (use al(4) in \<open>simp_all add: l'_def s'_def\<close>)
qed

lemma enqueue_first:
  fixes s :: "'a alloc_state_scheme"
  assumes "head l = 0" "list_size l = 0" "spare (Suc k + 2) {} s"
  obtains l' s' n where "enq_list v (l, s) = Some (l', s')" "head l' \<noteq> 0" "nodes_inv (mem s') l' [n]"
    "spare k (set (head l' # tail l' # [n])) s'" "list_elems (l', s') = [v]"
    "unat (num_free (nodemem s')) < unat (num_free (nodemem s))"
proof -
  have "spare (Suc (Suc (Suc k))) {} s" using assms(3) by simp
  from spare_alloc [OF this] obtain n s1 where al: "node_alloc s = Some (n, s1)" "mem s1 = mem s" "spare (Suc (Suc k)) {n} s1"
    "unat (num_free (nodemem s1)) + 1 = unat (num_free (nodemem s))" and n: "aligned 4 n" "n \<noteq> 0" by blast
  define s2 where "s2 = s1\<lparr>mem := wr64 (set_next (mem s1) n 0) n v\<rparr>"
  have "spare (Suc (Suc k)) {n} (s1\<lparr>mem := wr64 (set_next (mem s1) n 0) n v, nodemem := nodemem s1\<rparr>)"
    by (rule spare_mem [OF al(3)]) (use n in auto)
  then have "spare (Suc (Suc k)) {n} s2" by (simp add: s2_def)
  from spare_alloc [OF this] obtain h s3 where al3: "node_alloc s2 = Some (h, s3)" "mem s3 = mem s2" "spare (Suc k) {h, n} s3"
    "unat (num_free (nodemem s3)) + 1 = unat (num_free (nodemem s2))" and h: "aligned 4 h" "h \<noteq> 0" "h \<notin> {n}" by blast
  from spare_alloc [OF al3(3)] obtain t s4 where al4: "node_alloc s3 = Some (t, s4)" "mem s4 = mem s3" "spare k {t, h, n} s4"
    "unat (num_free (nodemem s4)) + 1 = unat (num_free (nodemem s3))" and t: "aligned 4 t" "t \<noteq> 0" "t \<notin> {h, n}" by blast
  define l1 where "l1 = l\<lparr>head := h, tail := t\<rparr>"
  define m2 where "m2 = set_next (set_next (set_next (mem s2) h n) t n) n t"
  have "nodes_inv (mem s2) l1 []" using h t assms(2) by (auto simp: nodes_inv_def l1_def)
  moreover have ne: "n \<noteq> h" "n \<noteq> t" using h(3) t(3) by auto
  ultimately have inv: "nodes_inv m2 (l1\<lparr>list_size := list_size l1 + 1\<rparr>) [n]"
    using link_empty [of "mem s2" l1 n] n by (simp add: m2_def l1_def)
  define s' where "s' = s4\<lparr>mem := m2\<rparr>"
  have "enq_list v (l, s) = Some (l1\<lparr>list_size := list_size l1 + 1\<rparr>, s')"
    using assms(1,2) al3 al4 by (simp add: enq_list_def enqueue_tail_def al(1) s2_def [symmetric] is_empty_def l1_def s'_def m2_def)
  moreover have "spare k {h, t, n} (s4\<lparr>mem := m2, nodemem := nodemem s4\<rparr>)"
    by (rule spare_mem [OF al4(3)]) (use n h t al3(2) al4(2) in \<open>auto simp: m2_def\<close>)
  then have "spare k (set (head l1 # tail l1 # [n])) s'" by (simp add: l1_def s'_def)
  moreover have "list_elems (l1\<lparr>list_size := list_size l1 + 1\<rparr>, s') = [v]"
    using list_elems_inv [of s' _ "[n]"] inv n h t by (simp add: s'_def m2_def s2_def)
  ultimately show ?thesis
    using inv al(4) al3(4) al4(4) h by (intro that) (auto simp: s'_def l1_def s2_def)
qed

lemma dequeue_linked:
  fixes s :: "'a alloc_state_scheme"
  assumes inv: "nodes_inv (mem s) l (n # ns)" and sp: "spare k (set (head l # tail l # n # ns)) s"
    and nf: "unat (num_free (nodemem s)) + 1 < 2 ^ 32"
  obtains l' s' where "deq_list (l, s) = (node_value (mem s) n, l', s')" "head l' = head l" "nodes_inv (mem s') l' ns"
    "spare k (set (head l' # tail l' # ns)) s'" "list_elems (l', s') = map (node_value (mem s)) ns"
    "unat (num_free (nodemem s')) = unat (num_free (nodemem s)) + 1"
proof -
  note D = nodes_invD [OF inv]
  have al: "aligned 4 (head l)" "aligned 4 n" "\<And>x. x \<in> set ns \<Longrightarrow> aligned 4 x" using D(3) by auto
  define l' where "l' = l\<lparr>list_size := list_size l - 1\<rparr>"
  define m2 where "m2 = set_next (set_next (mem s) (head l) (node_next (mem s) n)) n 0"
  define nm where "nm = (nodemem s)\<lparr>num_free := num_free (nodemem s) + 1\<rparr>"
  define s' where "s' = s\<lparr>mem := m2, nodemem := nm\<rparr>"
  note U = unlink_first [OF inv, folded m2_def l'_def]
  have ne: "\<not> is_empty l" using D(4,5) unat_of_nat_small [of "length (n # ns)", where ?'a = 64] by (auto simp: is_empty_def)
  have num: "unat (num_free nm) = unat (num_free (nodemem s)) + 1"
    using nf by (simp add: nm_def) (subst unat_add_lem [THEN iffD1]; simp)
  have "deq_list (l, s) = (node_value (mem s) n, l', s')"
    using ne U(2) al by (simp add: deq_list_def dequeue_front_def node_free_def Let_def l'_def s'_def m2_def nm_def)
  moreover have "spare k (set (head l' # tail l' # ns)) s'"
    unfolding s'_def by (rule spare_mem [OF sp]) (use al num in \<open>auto simp: m2_def l'_def nm_def\<close>)
  moreover have i': "nodes_inv (mem s') l' ns" using U(1) by (simp add: s'_def)
  moreover from list_elems_inv [OF i'] have "list_elems (l', s') = map (node_value (mem s)) ns"
    using al by (simp add: s'_def m2_def)
  ultimately show ?thesis by (intro that [of l' s']) (simp_all add: l'_def s'_def num)
qed

lemma spare_mono: "spare (Suc k) used s \<Longrightarrow> spare k used s"
  unfolding spare_def by auto

interpretation node_queue: fifo enq_list deq_list list_room list_elems
proof
  fix k q v
  assume room: "list_room (Suc k) (q :: list_hdr \<times> 'a alloc_state_scheme)"
  obtain l s where q: "q = (l, s)" by fastforce
  show "\<exists>q'. enq_list v q = Some q' \<and> list_room k q' \<and> list_elems q' = list_elems q @ [v]"
  proof (cases "head l = 0")
    case True
    then have *: "list_size l = 0" "spare (Suc k + 2) {} s" "Suc k + 1 < 2 ^ 32" using room q by (auto simp: list_room_def)
    obtain l' s' n where "enq_list v (l, s) = Some (l', s')" "head l' \<noteq> 0" "nodes_inv (mem s') l' [n]"
      "spare k (set (head l' # tail l' # [n])) s'" "list_elems (l', s') = [v]"
      "unat (num_free (nodemem s')) < unat (num_free (nodemem s))"
      by (rule enqueue_first [OF True *(1,2)])
    moreover have "list_elems q = []" using *(1) by (simp add: q list_elems_def)
    moreover have "unat (num_free (nodemem s)) < 2 ^ 32" using unsigned_less [of "num_free (nodemem s)", where ?'a = nat] by simp
    ultimately show ?thesis
      using *(3) by (intro exI [of _ "(l', s')"]) (auto simp: q list_room_def intro!: exI [of _ "[n]"])
  next
    case False
    then obtain ns where ns: "nodes_inv (mem s) l ns" "spare (Suc k) (set (head l # tail l # ns)) s"
      "length ns + Suc k < 2 ^ 32" "unat (num_free (nodemem s)) + length ns < 2 ^ 32"
      using room q by (auto simp: list_room_def)
    have "Suc (length ns) < 2 ^ 32" using ns(3) by linarith
    then obtain l' s' n where "enq_list v (l, s) = Some (l', s')" "head l' = head l" "nodes_inv (mem s') l' (ns @ [n])"
      "spare k (set (head l' # tail l' # ns @ [n])) s'" "list_elems (l', s') = list_elems (l, s) @ [v]"
      "unat (num_free (nodemem s')) + 1 = unat (num_free (nodemem s))"
      using enqueue_linked [OF ns(1,2)] by metis
    then show ?thesis
      using False ns(3,4) by (intro exI [of _ "(l', s')"]) (auto simp: q list_room_def intro!: exI [of _ "ns @ [n]"])
  qed
next
  fix k q v vs
  assume room: "list_room k (q :: list_hdr \<times> 'a alloc_state_scheme)" and el: "list_elems q = v # vs"
  obtain l s where q: "q = (l, s)" by fastforce
  have "head l \<noteq> 0" using room el by (auto simp: q list_room_def list_elems_def)
  then obtain ns0 where ns0: "nodes_inv (mem s) l ns0" "spare k (set (head l # tail l # ns0)) s"
    "length ns0 + k < 2 ^ 32" "unat (num_free (nodemem s)) + length ns0 < 2 ^ 32"
    using room q by (auto simp: list_room_def)
  from list_elems_inv [OF ns0(1)] el obtain n ns where ns: "ns0 = n # ns" "node_value (mem s) n = v" "map (node_value (mem s)) ns = vs"
    by (cases ns0) (auto simp: q)
  have nf: "unat (num_free (nodemem s)) + 1 < 2 ^ 32 \<or> ns0 = []" using ns0(4) by (cases ns0) auto
  obtain l' s' where "deq_list (l, s) = (node_value (mem s) n, l', s')" "head l' = head l" "nodes_inv (mem s') l' ns"
    "spare k (set (head l' # tail l' # ns)) s'" "list_elems (l', s') = map (node_value (mem s)) ns"
    "unat (num_free (nodemem s')) = unat (num_free (nodemem s)) + 1"
    using dequeue_linked [OF ns0(1,2) [unfolded ns(1)]] nf ns(1) by auto
  then show "\<exists>q'. deq_list q = (v, q') \<and> list_room k q' \<and> list_elems q' = vs"
    using ns ns0(3,4) \<open>head l \<noteq> 0\<close> by (intro exI [of _ "(l', s')"]) (auto simp: q list_room_def intro!: exI [of _ ns])
qed

subsection \<open>Properties\<close>

definition demo_pool :: alloc_state where
  "demo_pool = \<lparr>mem = (\<lambda>_. 0), console = [],
     pglists = (\<lambda>_. \<lparr>pgl_type = 0, pgl_size = 0, free_pages = 0, last_free_pos = 0, start_address = 0, bitmap = 0\<rparr>),
     osalloc_base = 0, osalloc_chunks = [],
     nodemem = \<lparr>nm_next_free = 0, num_free = 256, nodes = 0x900000, nm_end = 0x901000\<rparr>\<rparr>"

lemma rd64_zero: "(\<And>a. m a = 0) \<Longrightarrow> rd64 m x = 0"
  by (simp add: rd64_def rd32_def)

lemma demo_pool_spare: "k \<le> 256 \<Longrightarrow> spare k {} demo_pool"
  by (simp add: spare_def demo_pool_def aligned_def rd64_zero)

text \<open>C27: The linked list refines a first-in first-out queue: from a fresh list and a node
  pool with enough unused nodes, any values appended one after the other are the elements of the
  list, and taking as many from its front returns them in order and leaves it empty.\<close>

theorem list_is_fifo:
  assumes "spare (length vs + 2) {} s" "length vs + 1 < 2 ^ 32"
  shows "\<exists>q1 q2. enq_all enq_list vs (init_list, s) = Some q1 \<and> list_elems q1 = vs \<and>
    deq_all deq_list (length vs) q1 = (vs, q2) \<and> list_elems q2 = []"
proof -
  have room: "list_room (length vs + 0) (init_list, s)" and e: "list_elems (init_list, s) = []"
    using assms by (auto simp: list_room_def init_list_def list_elems_def)
  from node_queue.enq_all_appends [OF room] e
  obtain q1 where q1: "enq_all enq_list vs (init_list, s) = Some q1" "list_room 0 q1" "list_elems q1 = vs" by auto
  obtain q2 where "deq_all deq_list (length vs) q1 = (vs, q2)" "list_elems q2 = []"
    using node_queue.deq_all_takes [OF q1(2), of "length vs"] q1(3) by auto
  with q1 show ?thesis by blast
qed

theorem list_is_fifo_witness:
  "\<exists>q1 q2. enq_all enq_list [5, 6, 7] (init_list, demo_pool) = Some q1 \<and> list_elems q1 = [5, 6, 7] \<and>
    deq_all deq_list 3 q1 = ([5, 6, 7], q2) \<and> list_elems q2 = []"
proof -
  have "spare (length [5, 6, 7 :: u64] + 2) {} demo_pool" "length [5, 6, 7 :: u64] + 1 < 2 ^ 32"
    by (simp_all add: demo_pool_spare)
  from list_is_fifo [OF this] show ?thesis by (simp only: list.size numeral_3_eq_3 One_nat_def add_0_right add_Suc_right)
qed

end
