(* ===== verification/Small_Objects.thy ===== *)
theory Small_Objects
  imports Page_Pool Node_Lists
begin

text \<open>
  What \<open>init_mems\<close> sets up for the small objects of \<open>memory.c\<close>, and what \<open>os_alloc\<close> and
  \<open>os_free\<close> do with it: the size classes, the recycling of freed objects in the order they were
  freed, and the addresses that fresh objects get.
\<close>

subsection \<open>Pages of the data region at boot\<close>

text \<open>\<open>ds_step s s'\<close>: from \<open>s\<close> to \<open>s'\<close> only page lists and bitmaps changed, and only of the data
  region.\<close>

definition ds_step :: "'a page_state_scheme \<Rightarrow> 'a page_state_scheme \<Rightarrow> bool" where
  "ds_step s s' \<longleftrightarrow> s' = s\<lparr>mem := mem s', pglists := pglists s'\<rparr> \<and>
     (\<forall>a. frame_of a \<notin> bmap_frames \<longrightarrow> mem s' a = mem s a) \<and>
     (\<forall>r d. r \<noteq> OS_DS_REG \<longrightarrow> page_prefix r d s' = page_prefix r d s)"

lemma ds_stepE:
  assumes "ds_step s s'"
  obtains m p where "s' = s\<lparr>mem := m, pglists := p\<rparr>" "\<And>a. frame_of a \<notin> bmap_frames \<Longrightarrow> m a = mem s a"
    "\<And>r d. r \<noteq> OS_DS_REG \<Longrightarrow> page_prefix r d s' = page_prefix r d s"
  using assms unfolding ds_step_def by metis

lemma ds_step_trans: "\<lbrakk>ds_step s s'; ds_step s' s''\<rbrakk> \<Longrightarrow> ds_step s s''"
  by (elim ds_stepE) (simp add: ds_step_def)

lemma ds_alloc:
  assumes "mm_inv s" "page_prefix OS_DS_REG c s" "c < 768"
  obtains s' where "os_pfn_alloc OS_DS_REG s = (of_nat (2048 + c), s')" "mm_inv s'"
    "page_prefix OS_DS_REG (Suc c) s'" "ds_step s s'"
proof -
  obtain p s' where eq: "os_pfn_alloc OS_DS_REG s = (p, s')" by fastforce
  have c: "c < 32 * scan_window OS_DS_REG" using assms(3) by (simp add: scan_window_def)
  obtain k where k: "\<And>r j. j < region_pages r \<Longrightarrow> page_used (mem s') r j \<longleftrightarrow> (r = OS_DS_REG \<and> j = k) \<or> page_used (mem s) r j"
    "\<And>a. frame_of a \<notin> bmap_frames \<Longrightarrow> mem s' a = mem s a" "s' = s\<lparr>mem := mem s', pglists := pglists s'\<rparr>"
    by (rule os_pfn_alloc_contract [OF assms(1) page_prefix_can_take(1) [OF assms(2) c] eq]) simp
  have "page_prefix r d s' = page_prefix r d s" if "r \<noteq> OS_DS_REG" for r d
    using k(1) that by (simp add: page_prefix_def pglists_other [OF eq])
  then have "ds_step s s'" using k(2,3) by (simp only: ds_step_def) simp
  then show thesis using page_prefix_alloc [OF assms(1,2) c eq] eq that by simp
qed

text \<open>The loop of \<open>init_nodealloc_memory\<close>, started after page \<open>c - 1\<close> of the region.\<close>

definition add_free :: "u32 \<Rightarrow> 'a alloc_state_scheme \<Rightarrow> 'a alloc_state_scheme" where
  "add_free k s = s\<lparr>nodemem := (nodemem s)\<lparr>num_free := num_free (nodemem s) + k\<rparr>\<rparr>"

lemma page_prefix_add_free [simp]:
  "mm_inv (add_free k s) = mm_inv s" "page_prefix r c (add_free k s) = page_prefix r c s" "mem (add_free k s) = mem s"
  by (simp_all add: add_free_def mm_inv_def page_prefix_def)

lemma nodealloc_pages_boot:
  assumes "mm_inv s" "page_prefix OS_DS_REG c s" "0 < c" "c + n \<le> 768"
  shows "\<exists>s'. nodealloc_pages n (of_nat (2047 + c)) s = add_free (256 * of_nat n) s' \<and> mm_inv s' \<and>
    page_prefix OS_DS_REG (c + n) s' \<and> ds_step s s'"
  using assms
proof (induction n arbitrary: c s)
  case 0
  then show ?case by (intro exI [of _ s]) (auto simp: add_free_def ds_step_def)
next
  case (Suc n)
  obtain s1 where s1: "os_pfn_alloc OS_DS_REG s = (of_nat (2048 + c), s1)" "mm_inv s1" "page_prefix OS_DS_REG (Suc c) s1" "ds_step s s1"
    using ds_alloc [OF Suc.prems(1,2)] Suc.prems(4) by auto
  obtain s' where s': "nodealloc_pages n (of_nat (2047 + Suc c)) (add_free 256 s1) = add_free (256 * of_nat n) s'"
    "mm_inv s'" "page_prefix OS_DS_REG (Suc c + n) s'" "ds_step (add_free 256 s1) s'"
    using Suc.IH [of "add_free 256 s1" "Suc c"] s1(2,3) Suc.prems(4) by auto
  from s'(4) obtain m p where mp: "s' = (add_free 256 s1)\<lparr>mem := m, pglists := p\<rparr>" "\<And>a. frame_of a \<notin> bmap_frames \<Longrightarrow> m a = mem s1 a"
    "\<And>r d. r \<noteq> OS_DS_REG \<Longrightarrow> page_prefix r d s' = page_prefix r d s1"
    by (elim ds_stepE) simp
  define s2 where "s2 = s1\<lparr>mem := m, pglists := p\<rparr>"
  have "page_prefix r d s2 = page_prefix r d s'" for r d by (simp add: mp(1) s2_def page_prefix_def add_free_def)
  then have "ds_step s1 s2" using mp(2,3) by (simp add: ds_step_def) (simp add: s2_def)
  then have "ds_step s s2" using s1(4) ds_step_trans by blast
  moreover have "add_free (256 * of_nat n) s' = add_free (256 * of_nat (Suc n)) s2"
    by (simp add: mp(1) s2_def add_free_def algebra_simps)
  moreover have "mm_inv s2" "page_prefix OS_DS_REG (c + Suc n) s2"
    using s'(2,3) by (simp_all add: mp(1) s2_def mm_inv_def page_prefix_def add_free_def)
  moreover have "(of_nat (2048 + c) :: u32) = of_nat (2047 + c) + 1" "of_nat (2047 + Suc c) = (of_nat (2048 + c) :: u32)" by simp_all
  then have "nodealloc_pages (Suc n) (of_nat (2047 + c)) s = nodealloc_pages n (of_nat (2047 + Suc c)) (add_free 256 s1)"
    by (simp add: s1(1) add_free_def Let_def del: of_nat_add of_nat_Suc)
  ultimately show ?case using s'(1) by (intro exI [of _ s2]) (simp del: of_nat_Suc)
qed

lemma chunk_loop_boot:
  assumes "mm_inv s" "page_prefix OS_DS_REG c s" "c + n \<le> 768"
  shows "\<exists>s'. osalloc_chunk_loop n sh s =
      (map (\<lambda>i. \<lparr>chunk_size = push_bit (sh + i) 1, free_position = 0, current_pfn = of_nat (2048 + c + i),
         freelist = init_list, ck_bitmap = replicate 16 0\<rparr>) [0..<n], s') \<and>
    mm_inv s' \<and> page_prefix OS_DS_REG (c + n) s' \<and> ds_step s s'"
  using assms
proof (induction n arbitrary: c s sh)
  case 0
  then show ?case by (auto simp: ds_step_def)
next
  case (Suc n)
  obtain s1 where s1: "os_pfn_alloc OS_DS_REG s = (of_nat (2048 + c), s1)" "mm_inv s1" "page_prefix OS_DS_REG (Suc c) s1" "ds_step s s1"
    using ds_alloc [OF Suc.prems(1,2)] Suc.prems(3) by auto
  from Suc.IH [OF s1(2,3), of "sh + 1"] Suc.prems(3) obtain s2 where
    "osalloc_chunk_loop n (sh + 1) s1 =
      (map (\<lambda>i. \<lparr>chunk_size = push_bit (sh + 1 + i) 1, free_position = 0, current_pfn = of_nat (2048 + Suc c + i),
         freelist = init_list, ck_bitmap = replicate 16 0\<rparr>) [0..<n], s2)"
    "mm_inv s2" "page_prefix OS_DS_REG (Suc c + n) s2" "ds_step s1 s2" by auto
  then show ?case
    using ds_step_trans [OF s1(4)] s1(1)
    by (simp add: map_upt_Suc add.assoc del: upt_Suc of_nat_add) 
qed

subsection \<open>The state after \<open>init_mems\<close>\<close>

text \<open>The data region starts with frame 2048; its bitmap takes one page, the array of chunks one,
  the chunks' first objects seven, and the nodes a hundred.\<close>

definition boot_chunk :: "nat \<Rightarrow> osalloc_chunk" where
  "boot_chunk i = \<lparr>chunk_size = push_bit (5 + i) 1, free_position = 0, current_pfn = of_nat (2050 + i),
     freelist = init_list, ck_bitmap = replicate 16 0\<rparr>"

lemma init_pagelists_step:
  "init_pagelists s = s\<lparr>mem := mem (init_pagelists s), pglists := pglists (init_pagelists s)\<rparr>"
  "frame_of a \<notin> bmap_frames \<Longrightarrow> mem (init_pagelists s) a = mem s a"
proof -
  have "reserve_pages (boot_pgl r) (of_nat 0) (of_nat (region_reserved r)) m a = m a" if "frame_of a \<notin> bmap_frames" for r m a
    using that by (intro reserve_pages_frame [OF boot_geometry region_bounds(5)]) (auto simp: bmap_frames_iff)
  note this [of _ OS_DS_REG] this [of _ OS_PT_REG] this [of _ USER_REG]
  then show "init_pagelists s = s\<lparr>mem := mem (init_pagelists s), pglists := pglists (init_pagelists s)\<rparr>"
    "frame_of a \<notin> bmap_frames \<Longrightarrow> mem (init_pagelists s) a = mem s a" by (simp_all add: init_pagelists_eq)
qed

lemma init_mems_boot:
  fixes s :: "'a alloc_state_scheme"
  assumes "\<And>a. frame_of a \<in> bmap_frames \<Longrightarrow> mem s a = 0"
  obtains s' where "init_mems s = s'" "mm_inv s'" "page_prefix OS_DS_REG 109 s'"
    "\<And>r. r \<noteq> OS_DS_REG \<Longrightarrow> page_prefix r (region_reserved r) s'"
    "osalloc_base s' = 0x801000" "osalloc_chunks s' = map boot_chunk [0..<7]"
    "nodemem s' = \<lparr>nm_next_free = 0, num_free = num_free (nodemem s) + 25344, nodes = 0x809000, nm_end = 0x86d000\<rparr>"
    "console s' = console s" "\<And>a. frame_of a \<notin> bmap_frames \<Longrightarrow> mem s' a = mem s a"
proof -
  define s0 where "s0 = init_pagelists s"
  note B = init_pagelists_boot [OF assms, folded s0_def]
  obtain s1 where s1: "os_pfn_alloc OS_DS_REG s0 = (of_nat (2048 + 1), s1)" "mm_inv s1" "page_prefix OS_DS_REG 2 s1" "ds_step s0 s1"
    using ds_alloc [OF B(1), of 1] B(2) [of OS_DS_REG] by (auto simp: numeral_2_eq_2)
  obtain s2 where s2: "osalloc_chunk_loop 7 5 s1 = (map (\<lambda>i. \<lparr>chunk_size = push_bit (5 + i) 1, free_position = 0,
        current_pfn = of_nat (2048 + 2 + i), freelist = init_list, ck_bitmap = replicate 16 0\<rparr>) [0..<7], s2)"
      "mm_inv s2" "page_prefix OS_DS_REG 9 s2" "ds_step s1 s2"
    using chunk_loop_boot [OF s1(2,3), of 7 5] by auto
  define s3 where "s3 = init_osalloc_chunks s0"
  have s3: "s3 = s2\<lparr>osalloc_base := 0x801000, osalloc_chunks := map boot_chunk [0..<7]\<rparr>"
    using s1(1) s2(1) by (simp add: s3_def init_osalloc_chunks_def os_page_alloc_def boot_chunk_def)
  have i3: "mm_inv s3" "page_prefix OS_DS_REG 9 s3" using s2 by (simp_all add: s3 mm_inv_def page_prefix_def)
  obtain s4 where s4: "os_pfn_alloc OS_DS_REG s3 = (of_nat (2048 + 9), s4)" "mm_inv s4" "page_prefix OS_DS_REG 10 s4" "ds_step s3 s4"
    using ds_alloc [OF i3] by (auto simp: eval_nat_numeral)
  obtain s5 where s5: "nodealloc_pages 99 (of_nat (2047 + 10)) s4 = add_free (256 * of_nat 99) s5" "mm_inv s5"
      "page_prefix OS_DS_REG (10 + 99) s5" "ds_step s4 s5"
    using nodealloc_pages_boot [OF s4(2,3), of 99] by auto
  have other: "page_prefix r (region_reserved r) s5" if "r \<noteq> OS_DS_REG" for r
  proof -
    have "page_prefix r d s5 = page_prefix r d s3" "page_prefix r d s2 = page_prefix r d s0" for d
      using ds_step_trans [OF s4(4) s5(4)] ds_step_trans [OF s1(4) s2(4)] that unfolding ds_step_def by blast+
    then show ?thesis using B(2) [of r] by (simp add: s3) (simp add: page_prefix_def)
  qed
  have "init_mems s = (add_free 25344 s5)\<lparr>nodemem := (nodemem (add_free 25344 s5))\<lparr>nodes := 0x809000, nm_next_free := 0, nm_end := 0x86d000\<rparr>\<rparr>"
    using s4(1) s5(1) by (simp add: init_mems_def init_nodealloc_memory_def s0_def [symmetric] s3_def [symmetric] Let_def)
  moreover from ds_step_trans [OF s1(4) s2(4)] obtain m2 p2 where "s2 = s0\<lparr>mem := m2, pglists := p2\<rparr>"
    "\<And>a. frame_of a \<notin> bmap_frames \<Longrightarrow> m2 a = mem s0 a" by (elim ds_stepE) blast
  moreover from ds_step_trans [OF s4(4) s5(4)] obtain m5 p5 where "s5 = s3\<lparr>mem := m5, pglists := p5\<rparr>"
    "\<And>a. frame_of a \<notin> bmap_frames \<Longrightarrow> m5 a = mem s3 a" by (elim ds_stepE) blast
  moreover from init_pagelists_step [where s = s] obtain m0 p0 where "s0 = s\<lparr>mem := m0, pglists := p0\<rparr>"
    "\<And>a. frame_of a \<notin> bmap_frames \<Longrightarrow> m0 a = mem s a" unfolding s0_def by blast
  ultimately show thesis
    using that [OF refl] s5(2,3) other by (simp add: s3 add_free_def mm_inv_def page_prefix_def)
qed

definition zero_alloc :: alloc_state where
  "zero_alloc = \<lparr>mem = (\<lambda>_. 0), console = [], pglists = (\<lambda>_. blank_pgl), osalloc_base = 0, osalloc_chunks = [],
     nodemem = \<lparr>nm_next_free = 0, num_free = 0, nodes = 0, nm_end = 0\<rparr>\<rparr>"

lemma boot_node_frame:
  assumes "i < 25600"
  shows "frame_of (0x809000 + 16 * of_nat i + 8 :: u64) \<notin> bmap_frames"
proof -
  have "unat (16 * of_nat i + (0x809000 + 8) :: u64) = 16 * i + 0x809008"
    using assms by (simp add: unat_word_ariths unat_of_nat_small)
  moreover have "unat (frame_of x) = unat x div 4096" for x by (simp add: unat_drop_bit_eq) (simp add: drop_bit_eq_div)
  ultimately have "unat (frame_of (0x809000 + 16 * of_nat i + 8 :: u64)) = (16 * i + 0x809008) div 4096"
    by (simp add: add.commute add.left_commute)
  moreover have "2049 \<le> (16 * i + 0x809008) div 4096" "(16 * i + 0x809008) div 4096 < 8192" using assms by linarith+
  ultimately have "\<not> (region_base r \<le> unat (frame_of (0x809000 + 16 * of_nat i + 8 :: u64)) \<and>
      unat (frame_of (0x809000 + 16 * of_nat i + 8 :: u64)) < region_base r + region_reserved r)" for r
    by (cases r) simp_all
  then show ?thesis unfolding bmap_frames_iff by blast
qed

subsection \<open>Size classes\<close>

lemma drop_high_bit: "(n::nat) < 2 ^ Suc i \<Longrightarrow> \<not> bit n i \<Longrightarrow> n < 2 ^ i"
proof -
  assume n: "n < 2 ^ Suc i" "\<not> bit n i"
  have "n div 2 ^ i < 2" using n(1) by (simp add: less_mult_imp_div_less)
  with n(2) have "n div 2 ^ i = 0" by (auto simp: bit_iff_odd less_2_cases_iff)
  then show ?thesis by (simp add: div_eq_0_iff)
qed

lemma unat_two_power: "t < LENGTH('a::len) \<Longrightarrow> unat (2 ^ t :: 'a word) = 2 ^ t"
  using unat_of_nat_small [of "2 ^ t", where ?'a = 'a] by simp

lemma top_bit_bounds:
  "\<lbrakk>unat sz < 2 ^ Suc i; 5 \<le> i\<rbrakk> \<Longrightarrow>
    5 \<le> top_bit sz i \<and> top_bit sz i \<le> i \<and> unat sz < 2 ^ Suc (top_bit sz i) \<and> (5 < top_bit sz i \<longrightarrow> 2 ^ top_bit sz i \<le> unat sz)"
proof (induction i)
  case (Suc i)
  show ?case
  proof (cases "bit sz (Suc i) \<or> Suc i = 5")
    case True
    have "2 ^ Suc i \<le> unat sz" if "5 < Suc i"
    proof -
      have "bit (unat sz) (Suc i)" using True that by (simp add: bit_unsigned_iff)
      then have "odd (unat sz div 2 ^ Suc i)" by (simp add: bit_iff_odd)
      then have "0 < unat sz div 2 ^ Suc i" using odd_pos by blast
      then show ?thesis by (simp add: div_greater_zero_iff)
    qed
    then show ?thesis using True Suc.prems by (auto simp: top_bit.simps [of sz "Suc i"])
  next
    case False
    then have "unat sz < 2 ^ Suc i" using drop_high_bit [of "unat sz" "Suc i"] Suc.prems(1) by (simp add: bit_unsigned_iff)
    moreover have "top_bit sz (Suc i) = top_bit sz i" "5 \<le> i" using False Suc.prems(2) by (simp_all add: top_bit.simps [of sz "Suc i"])
    ultimately show ?thesis using Suc.IH by auto
  qed
qed simp

lemma top_bit_11:
  assumes "sz \<le> 2048"
  shows "5 \<le> top_bit sz 11" "top_bit sz 11 \<le> 11" "unat sz < 2 ^ Suc (top_bit sz 11)"
    "5 < top_bit sz 11 \<Longrightarrow> 2 ^ top_bit sz 11 \<le> unat sz"
  using top_bit_bounds [of sz 11] assms by (simp_all add: word_le_nat_alt)

lemma alloc_class_eq:
  assumes "sz \<le> 2048"
  shows "alloc_class sz = (if unat sz = 2 ^ top_bit sz 11 then top_bit sz 11 else Suc (top_bit sz 11))"
proof -
  have "unat (push_bit (top_bit sz 11) 1 :: u32) = 2 ^ top_bit sz 11"
    using top_bit_11(2) [OF assms] by (simp add: unat_two_power)
  then have "push_bit (top_bit sz 11) 1 = sz \<longleftrightarrow> unat sz = 2 ^ top_bit sz 11" by (metis word_unat_eq_iff)
  then show ?thesis by (simp add: alloc_class_def Let_def)
qed

lemma alloc_class_range:
  assumes "sz \<le> 2048"
  shows "alloc_class sz \<in> {5..11}"
proof -
  note T = top_bit_11 [OF assms] alloc_class_eq [OF assms]
  show ?thesis
  proof (cases "top_bit sz 11 = 11")
    case True
    then have "unat sz = 2 ^ 11" using T(4) assms by (simp add: word_le_nat_alt)
    then show ?thesis using T(5) True by simp
  qed (use T in auto)
qed

lemma init_mems_pool:
  assumes "\<And>a. mem s a = 0" "num_free (nodemem s) = 0"
  shows "mm_inv (init_mems s)" "spare 25344 {} (init_mems s)" "osalloc_chunks (init_mems s) = map boot_chunk [0..<7]"
    "nm_end (nodemem (init_mems s)) - nodes (nodemem (init_mems s)) = 100 * 4096" "console (init_mems s) = console s"
    "nm_next_free (nodemem (init_mems s)) = 0" "num_free (nodemem (init_mems s)) = 25344"
    "i < 25600 \<Longrightarrow> node_next (mem (init_mems s)) (pool_node (init_mems s) i) = 0"
proof -
  obtain s' where s': "init_mems s = s'" "mm_inv s'" "osalloc_chunks s' = map boot_chunk [0..<7]"
    "nodemem s' = \<lparr>nm_next_free = 0, num_free = num_free (nodemem s) + 25344, nodes = 0x809000, nm_end = 0x86d000\<rparr>"
    "console s' = console s" "\<And>a. frame_of a \<notin> bmap_frames \<Longrightarrow> mem s' a = mem s a"
    by (rule init_mems_boot [of s]) (use assms(1) in simp_all)
  have free: "node_next (mem s') (pool_node s' i) = 0" if "i < 25600" for i
  proof -
    have al: "aligned 3 (0x809000 + 16 * of_nat i + 8 :: u64)"
      by (intro aligned_plus aligned_mult) (simp_all add: aligned_def)
    have "rd64 (mem s') (0x809000 + 16 * of_nat i + 8) = rd64 (\<lambda>_. 0) (0x809000 + 16 * of_nat i + 8)"
      by (rule rd64_cong [OF al, of 12]) (use boot_node_frame [OF that] s'(6) assms(1) in auto)
    then show ?thesis by (simp add: pool_node_def s'(4) rd64_zero)
  qed
  then have "spare 25344 {} s'" by (simp add: spare_def s'(4) assms(2) aligned_def)
  then show "mm_inv (init_mems s)" "spare 25344 {} (init_mems s)" "osalloc_chunks (init_mems s) = map boot_chunk [0..<7]"
    "nm_end (nodemem (init_mems s)) - nodes (nodemem (init_mems s)) = 100 * 4096" "console (init_mems s) = console s"
    "nm_next_free (nodemem (init_mems s)) = 0" "num_free (nodemem (init_mems s)) = 25344"
    using s' assms(2) by simp_all
  show "i < 25600 \<Longrightarrow> node_next (mem (init_mems s)) (pool_node (init_mems s) i) = 0" using free s'(1) by simp
qed

lemma spare_le: "\<lbrakk>spare k used s; k' \<le> k\<rbrakk> \<Longrightarrow> spare k' used s"
  unfolding spare_def by auto

text \<open>C29: \<open>init_mems\<close> on cleared memory establishes the invariant of the page
  allocator, the seven empty chunks of the size classes, each with its own page, and a node pool of
  100 consecutive pages, whose search starts at its first node, and prints none of its error
  messages. All 25600 nodes of the pool are unused, but exactly 25344 are counted as free: the 256
  nodes of the first page are left out.\<close>

theorem init_mems_state:
  assumes "\<forall>a. mem s a = 0" "num_free (nodemem s) = 0"
  shows "mm_inv (init_mems s) \<and> osalloc_chunks (init_mems s) = map boot_chunk [0..<7] \<and>
    nm_end (nodemem (init_mems s)) = nodes (nodemem (init_mems s)) + 16 * 25600 \<and>
    nm_next_free (nodemem (init_mems s)) = 0 \<and> num_free (nodemem (init_mems s)) = 25600 - 256 \<and>
    (\<forall>i < 25600. node_next (mem (init_mems s)) (pool_node (init_mems s) i) = 0) \<and>
    spare 25344 {} (init_mems s) \<and> console (init_mems s) = console s"
  using init_mems_pool [of s] assms by (simp add: algebra_simps)

theorem init_mems_state_witness:
  "mm_inv (init_mems zero_alloc) \<and> num_free (nodemem (init_mems zero_alloc)) = 25344"
  using init_mems_state [of zero_alloc] by (simp add: zero_alloc_def)

text \<open>C28: Size classes. A request of 1 to 2048 bytes gets one of the seven classes; the
  objects of the class are large enough for the request, and above 64 bytes half of them would not
  be.\<close>

theorem alloc_class_fits:
  assumes "0 < sz" "sz \<le> 2048"
  shows "alloc_class sz \<in> {5..11} \<and> unat sz \<le> 2 ^ alloc_class sz \<and>
    unat (chunk_size (boot_chunk (alloc_class sz - 5))) = 2 ^ alloc_class sz \<and>
    (6 < alloc_class sz \<longrightarrow> 2 ^ (alloc_class sz - 1) < unat sz)"
proof -
  note T = top_bit_11 [OF assms(2)] alloc_class_eq [OF assms(2)]
  note c = alloc_class_range [OF assms(2)]
  have "2 ^ (alloc_class sz - 1) < unat sz" if "6 < alloc_class sz"
  proof (cases "unat sz = 2 ^ top_bit sz 11")
    case True
    then show ?thesis using T(5) that by simp
  next
    case False
    then have "alloc_class sz = Suc (top_bit sz 11)" "5 < top_bit sz 11" using T(5) that by simp_all
    then show ?thesis using T(4) False by simp
  qed
  moreover have "unat sz \<le> 2 ^ alloc_class sz" using T(3,5) by (auto split: if_splits)
  moreover have "unat (chunk_size (boot_chunk (alloc_class sz - 5))) = 2 ^ alloc_class sz"
    using c unat_two_power [of "alloc_class sz", where ?'a = 16] by (simp add: boot_chunk_def)
  ultimately show ?thesis using c by blast
qed

theorem alloc_class_fits_witness: "alloc_class 33 \<in> {5..11} \<and> unat (33 :: u32) \<le> 2 ^ alloc_class 33"
  using alloc_class_fits [of 33] by simp

subsection \<open>Objects that were freed, and objects that are fresh\<close>

abbreviation class_list :: "nat \<Rightarrow> 'a alloc_state_scheme \<Rightarrow> list_hdr \<times> 'a alloc_state_scheme" where
  "class_list i s \<equiv> (freelist (osalloc_chunks s ! (i - 5)), s)"

lemma list_elems_chunks [simp]: "list_elems (l, osalloc_chunks_update f s) = list_elems (l, s)"
  by (simp add: list_elems_def)

lemma list_room_chunks [simp]: "list_room k (l, osalloc_chunks_update f s) = list_room k (l, s)"
  by (simp add: list_room_def spare_def pool_node_def)

lemma enq_listD:
  assumes "enq_list v (l, s) = Some (l', s')"
  obtains n where "enqueue_tail l v s = Some (n, l', s')"
  using assms by (auto simp: enq_list_def)

lemma enqueue_keeps_chunks:
  assumes "enq_list v (l, s) = Some (l', s')"
  shows "osalloc_chunks s' = osalloc_chunks s"
proof -
  have na: "osalloc_chunks s1 = osalloc_chunks s0" if "node_alloc s0 = Some (n, s1)" for s0 s1 :: "'a alloc_state_scheme" and n
    using that by (auto simp: node_alloc_def printf_def Let_def split: if_splits option.splits)
  from assms show ?thesis
    by (auto simp: enq_list_def enqueue_tail_def Let_def dest!: na split: option.splits if_splits)
qed

lemma size_guard: "\<lbrakk>0 < sz; sz \<le> 2048\<rbrakk> \<Longrightarrow> \<not> (sz = 0 \<or> 2048 < sz)" for sz :: u32
  by auto

lemma class_queue:
  assumes "0 < sz" "sz \<le> 2048" "length (osalloc_chunks s) = 7"
    and "list_room (Suc k) (class_list (top_bit sz 11) s)"
  obtains s1 where "os_free p sz s = Some s1" "length (osalloc_chunks s1) = 7"
    "list_room k (class_list (top_bit sz 11) s1)"
    "list_elems (class_list (top_bit sz 11) s1) = list_elems (class_list (top_bit sz 11) s) @ [p]"
    "\<And>j. j \<noteq> top_bit sz 11 - 5 \<Longrightarrow> osalloc_chunks s1 ! j = osalloc_chunks s ! j"
proof -
  define j where "j = top_bit sz 11 - 5"
  have j: "j < 7" using top_bit_11(1,2) [OF assms(2)] by (simp add: j_def)
  obtain l' s' where q: "enq_list p (freelist (osalloc_chunks s ! j), s) = Some (l', s')" "list_room k (l', s')"
      "list_elems (l', s') = list_elems (freelist (osalloc_chunks s ! j), s) @ [p]"
    using node_queue.enq_appends [OF assms(4), of p] by (auto simp: j_def)
  obtain n where n: "enqueue_tail (freelist (osalloc_chunks s ! j)) p s = Some (n, l', s')" using q(1) by (rule enq_listD)
  note ch = enqueue_keeps_chunks [OF q(1)]
  show thesis
  proof (rule that)
    show "os_free p sz s = Some (s'\<lparr>osalloc_chunks := (osalloc_chunks s')[j := (osalloc_chunks s ! j)\<lparr>freelist := l'\<rparr>]\<rparr>)"
      using size_guard [OF assms(1,2)] n by (simp add: os_free_def j_def [symmetric] Let_def)
  qed (use j assms(3) q ch in \<open>simp_all add: j_def [symmetric]\<close>)
qed

lemma class_dequeue:
  assumes "0 < sz" "sz \<le> 2048" "length (osalloc_chunks s) = 7"
    and "list_room k (class_list (alloc_class sz) s)" "list_elems (class_list (alloc_class sz) s) = p # ps"
  obtains s1 where "os_alloc sz s = (p, s1)" "list_room k (class_list (alloc_class sz) s1)"
    "list_elems (class_list (alloc_class sz) s1) = ps"
proof -
  define j where "j = alloc_class sz - 5"
  have j: "j < 7" using alloc_class_range [OF assms(2)] by (auto simp: j_def)
  obtain l' s' where q: "deq_list (freelist (osalloc_chunks s ! j), s) = (p, l', s')" "list_room k (l', s')" "list_elems (l', s') = ps"
    using node_queue.deq_takes [OF assms(4,5)] by (auto simp: j_def)
  have "\<not> is_empty (freelist (osalloc_chunks s ! j))"
    using assms(5) by (auto simp: is_empty_def list_elems_def j_def)
  moreover obtain n s0 where n: "dequeue_front (freelist (osalloc_chunks s ! j)) s = (n, l', s0)" "p = node_value (mem s0) n" "s' = node_free n s0"
    using q(1) by (auto simp: deq_list_def split: prod.splits)
  ultimately have "os_alloc sz s = (p, s'\<lparr>osalloc_chunks := (osalloc_chunks s)[j := (osalloc_chunks s ! j)\<lparr>freelist := l'\<rparr>]\<rparr>)"
    using size_guard [OF assms(1,2)] by (simp add: os_alloc_def j_def [symmetric] Let_def)
  then show thesis using that q j assms(3) by (simp add: j_def [symmetric])
qed

lemma top_bit_power:
  assumes "sz \<le> 2048"
  shows "alloc_class (2 ^ top_bit sz 11) = top_bit sz 11" "(2 :: u32) ^ top_bit sz 11 \<le> 2048" "0 < (2 :: u32) ^ top_bit sz 11"
proof -
  define t where "t = top_bit sz 11"
  have t: "5 \<le> t" "t \<le> 11" using top_bit_11 [OF assms] by (simp_all add: t_def)
  have u: "unat ((2 :: u32) ^ t) = 2 ^ t" using t(2) by (simp add: unat_two_power)
  have "(2::nat) ^ t \<le> 2 ^ 11" using t(2) by (intro power_increasing) auto
  then have le: "(2 :: u32) ^ t \<le> 2048" using u by (simp add: word_le_nat_alt)
  then show "(2 :: u32) ^ top_bit sz 11 \<le> 2048" by (simp add: t_def)
  show "0 < (2 :: u32) ^ top_bit sz 11" using u by (simp add: word_less_nat_alt t_def)
  note T = top_bit_11 [OF le]
  have "t < Suc (top_bit (2 ^ t) 11)" by (rule power_less_imp_less_exp [of 2]) (use T(3) u in simp_all)
  moreover have "top_bit (2 ^ t) 11 \<le> t"
  proof (cases "5 < top_bit (2 ^ t) 11")
    case True
    show ?thesis by (rule power_le_imp_le_exp [of 2]) (use T(4) True u in simp_all)
  qed (use t in simp)
  ultimately have "top_bit (2 ^ t) 11 = t" by simp
  then show "alloc_class (2 ^ top_bit sz 11) = top_bit sz 11"
    using alloc_class_eq [OF le] u by (simp add: t_def)
qed

text \<open>C30: An object freed with \<open>os_free\<close> when its list is empty is the one
  that the next \<open>os_alloc\<close> of the size of that list returns. The list is the one of the
  largest power of two not above the size, and of the smallest class below 32 bytes: when this is
  not the class that \<open>os_alloc\<close> serves the size from, the chunk of that class does not
  change.\<close>

theorem os_free_then_alloc:
  assumes "0 < sz" "sz \<le> 2048" "length (osalloc_chunks s) = 7"
    and "list_room 1 (class_list (top_bit sz 11) s)" "list_elems (class_list (top_bit sz 11) s) = []"
  shows "\<exists>s1 s2. os_free p sz s = Some s1 \<and> os_alloc (2 ^ top_bit sz 11) s1 = (p, s2) \<and>
    (alloc_class sz \<noteq> top_bit sz 11 \<longrightarrow>
      osalloc_chunks s1 ! (alloc_class sz - 5) = osalloc_chunks s ! (alloc_class sz - 5))"
proof -
  obtain s1 where s1: "os_free p sz s = Some s1" "length (osalloc_chunks s1) = 7"
    "list_room 0 (class_list (top_bit sz 11) s1)" "list_elems (class_list (top_bit sz 11) s1) = [p]"
    "\<And>j. j \<noteq> top_bit sz 11 - 5 \<Longrightarrow> osalloc_chunks s1 ! j = osalloc_chunks s ! j"
    using class_queue [OF assms(1-3), of 0] assms(4,5) by auto
  note P = top_bit_power [OF assms(2)]
  obtain s2 where "os_alloc (2 ^ top_bit sz 11) s1 = (p, s2)"
    using class_dequeue [OF P(3,2) s1(2), of 0 p "[]"] s1(3,4) P(1) by auto
  moreover have "alloc_class sz - 5 \<noteq> top_bit sz 11 - 5" if "alloc_class sz \<noteq> top_bit sz 11"
    using alloc_class_range [OF assms(2)] top_bit_11(1) [OF assms(2)] that by auto
  ultimately show ?thesis using s1(1,5) by blast
qed

lemma boot_class:
  assumes "i < 7"
  shows "osalloc_chunks (init_mems zero_alloc) ! i = boot_chunk i" "length (osalloc_chunks (init_mems zero_alloc)) = 7"
    "list_room 1 (freelist (boot_chunk i), init_mems zero_alloc)" "list_elems (freelist (boot_chunk i), init_mems zero_alloc) = []"
proof -
  note P = init_mems_pool [of zero_alloc]
  show "osalloc_chunks (init_mems zero_alloc) ! i = boot_chunk i" "length (osalloc_chunks (init_mems zero_alloc)) = 7"
    using P(3) assms by (simp_all add: zero_alloc_def del: upt.simps upt_rec_numeral)
  have "spare (1 + 2) {} (init_mems zero_alloc)" by (rule spare_le [OF P(2)]) (simp_all add: zero_alloc_def)
  then show "list_room 1 (freelist (boot_chunk i), init_mems zero_alloc)"
    by (simp add: list_room_def boot_chunk_def init_list_def)
  show "list_elems (freelist (boot_chunk i), init_mems zero_alloc) = []"
    by (simp add: list_elems_def boot_chunk_def init_list_def)
qed

lemma class_64: "top_bit 64 11 = 6" "alloc_class 64 = 6" "top_bit 33 11 = 5" "alloc_class 33 = 6"
  by (simp_all add: alloc_class_def top_bit.simps)

theorem os_free_then_alloc_witness:
  "\<exists>s1 s2. os_free 0x803000 33 (init_mems zero_alloc) = Some s1 \<and> os_alloc 32 s1 = (0x803000, s2) \<and>
    osalloc_chunks s1 ! 1 = boot_chunk 1"
  using os_free_then_alloc [where sz = 33 and s = "init_mems zero_alloc" and p = "0x803000"] boot_class [where i = 0] boot_class [where i = 1]
  by (simp add: class_64)

text \<open>Fresh objects overlap. Two \<open>os_alloc\<close> calls in a row for sizes of
  one class with an empty list return the same address unless the second position is a multiple of
  the object size: the position is shifted right, not left, to make an offset.\<close>

theorem os_alloc_overlaps:
  assumes "0 < sz" "sz \<le> 2048" "length (osalloc_chunks s) = 7"
    and "is_empty (freelist (osalloc_chunks s ! (alloc_class sz - 5)))"
    and "unat (free_position (osalloc_chunks s ! (alloc_class sz - 5))) < 4096 div 2 ^ alloc_class sz"
    and "\<not> 2 ^ alloc_class sz dvd Suc (unat (free_position (osalloc_chunks s ! (alloc_class sz - 5))))"
  shows "fst (os_alloc sz (snd (os_alloc sz s))) = fst (os_alloc sz s)"
proof -
  define i where "i = alloc_class sz"
  define ck where "ck = osalloc_chunks s ! (i - 5)"
  define fp where "fp = unat (free_position ck)"
  have i: "i - 5 < 7" using alloc_class_range [OF assms(2)] by (auto simp: i_def)
  have fp: "fp < 4096 div 2 ^ i" using assms(5) by (simp add: fp_def ck_def i_def)
  have "4096 div 2 ^ i \<le> (4096 :: nat)" by simp
  then have "fp < 4096" using fp by linarith
  then have suc: "unat (free_position ck + 1) = Suc fp" by (subst unat_add_lem [THEN iffD1]) (simp_all add: fp_def)
  define s1 where "s1 = snd (os_alloc sz s)"
  have a1: "fst (os_alloc sz s) = push_bit PAGE_SHIFT (ucast (current_pfn ck)) + ucast (drop_bit i (free_position ck))"
    and ck1: "osalloc_chunks s1 ! (i - 5) = ck\<lparr>ck_bitmap := set_bitmap_bit (ck_bitmap ck) (unat (drop_bit 5 (free_position ck))) fp,
      free_position := free_position ck + 1\<rparr>"
    using size_guard [OF assms(1,2)] assms(4) fp i assms(3)
    by (simp_all add: os_alloc_def Let_def i_def [symmetric] ck_def [symmetric] fp_def s1_def)
  have a2: "fst (os_alloc sz s1) = push_bit PAGE_SHIFT (ucast (current_pfn ck)) + ucast (drop_bit i (free_position ck + 1))"
    using size_guard [OF assms(1,2)] assms(4) fp suc
    by (simp add: os_alloc_def Let_def i_def [symmetric] ck1 fp_def [symmetric]) (simp add: ck_def i_def)
  have "Suc fp div 2 ^ i = fp div 2 ^ i" using assms(6) by (simp add: div_Suc ck_def fp_def i_def dvd_eq_mod_eq_0)
  then have "unat (drop_bit i (free_position ck + 1)) = unat (drop_bit i (free_position ck))"
    using suc by (simp add: unat_drop_bit_eq fp_def) (simp add: drop_bit_eq_div)
  then have "drop_bit i (free_position ck + 1) = drop_bit i (free_position ck)" by (metis word_unat_eq_iff)
  then show ?thesis using a1 a2 by (simp add: s1_def)
qed

theorem os_alloc_overlaps_witness:
  "fst (os_alloc 64 (snd (os_alloc 64 (init_mems zero_alloc)))) = fst (os_alloc 64 (init_mems zero_alloc)) \<and>
    fst (os_alloc 64 (init_mems zero_alloc)) = 0x803000"
proof
  note B = boot_class [of 1]
  show "fst (os_alloc 64 (snd (os_alloc 64 (init_mems zero_alloc)))) = fst (os_alloc 64 (init_mems zero_alloc))"
    by (rule os_alloc_overlaps) (use B in \<open>simp_all add: class_64 boot_chunk_def init_list_def is_empty_def\<close>)
  show "fst (os_alloc 64 (init_mems zero_alloc)) = 0x803000"
    using B by (simp add: os_alloc_def class_64 boot_chunk_def init_list_def is_empty_def Let_def)
qed

end
