(* ===== verification/Boot.thy ===== *)
theory Boot
  imports Descriptors Kernel_Steps Small_Objects
begin

text \<open>
  From the entry of \<open>main\<close> (\<open>main.c\<close>) to the shell: the console, the memory, the descriptor tables,
  the interrupt controller (\<open>init_apic\<close> of \<open>apic.c\<close>), the swapper, and the statistics and
  configuration objects. Everything is deterministic, so the lemmas give the frames that boot hands out.
\<close>

subsection \<open>\<open>init_apic\<close>\<close>

text \<open>\<open>lo\<close> and \<open>hi\<close> are what \<open>rdmsr\<close> returns. The registers are memory at \<open>apic_base\<close>; \<open>dprintf\<close> is
  not compiled in.\<close>

definition init_apic :: "u64 \<Rightarrow> u64 \<Rightarrow> 'a kernel_scheme \<Rightarrow> 'a kernel_scheme" where
  "init_apic lo hi s =
     (let s1 = printf ''Initializing APIC\<newline>'' [] s;
          base = push_bit 12 (drop_bit 12 (push_bit 32 hi OR lo));
          m1 = wr32 (mem s1) (base + 0xE0) 0xffffffff;
          m2 = wr32 m1 (base + 0xD0) (rd32 m1 (base + 0xD0) AND 0xffffff);
          m3 = wr32 m2 (base + 0xD0) (rd32 m2 (base + 0xD0) OR 1);
          m4 = wr32 m3 (base + 0xF0) (push_bit 8 1 OR of_nat IRQ_SPURIOUS);
          m5 = wr32 m4 (base + 0x3E0) 10;
          m6 = wr32 m5 (base + 0x380) 4;
          m7 = wr32 m6 (base + 0x390) 4
      in s1\<lparr>mem := wr32 m7 (base + 0x320) (of_nat APIC_TIMER), apic_base := base\<rparr>)"

subsection \<open>\<open>main\<close>\<close>

text \<open>What the assembly in \<open>main\<close> and \<open>init_swapper\<close> reads from the processor.\<close>

record cpu_regs =
  cs_reg :: u32
  ss_reg :: u32
  ds_reg :: u32
  esp_reg :: u32
  ebp_reg :: u32
  cr0_reg :: u64
  cr3_reg :: u64
  cr4_reg :: u64
  rflags_reg :: u64
  msr_lo :: u64
  msr_hi :: u64

definition boot_messages :: "cpu_regs \<Rightarrow> 'a machine_scheme \<Rightarrow> 'a machine_scheme" where
  "boot_messages c s =
     printf ''Initializing memory\<newline>'' []
     (printf ''cr0=%x cr3=%x cr4=%x\<newline>'' [Num (cr0_reg c), Num (cr3_reg c), Num (cr4_reg c)]
     (printf ''ESP=%x EBP=%x\<newline>'' [Num (ucast (esp_reg c)), Num (ucast (ebp_reg c))]
     (printf ''Initial Segment Map: cs = %x ds = %x ss = %x\<newline>''
        [Num (ucast (cs_reg c)), Num (ucast (ds_reg c)), Num (ucast (ss_reg c))]
     (printf ''            Starting IITK gemOS ......\<newline>'' [] s))))"

definition zero_stats :: os_stats where
  "zero_stats = \<lparr>swapper_invocations = 0, context_switches = 0, lw_context_switches = 0, ticks = 0,
     page_faults = 0, syscalls = 0, used_memory = 0, num_processes = 0\<rparr>"

text \<open>\<open>stats = os_alloc(sizeof(struct os_stats)); bzero(...)\<close>, 64 bytes, and the same for \<open>config\<close>,
  32 bytes.\<close>

definition alloc_stats :: "'a kernel_scheme \<Rightarrow> u64 \<times> 'a kernel_scheme" where
  "alloc_stats s =
     (let (p, s1) = os_alloc 64 s in (p, s1\<lparr>mem := bzero (mem s1) p 64, stats := zero_stats\<rparr>))"

definition alloc_config :: "'a kernel_scheme \<Rightarrow> u64 \<times> 'a kernel_scheme" where
  "alloc_config s =
     (let (p, s1) = os_alloc 32 s
      in (p, s1\<lparr>mem := bzero (mem s1) p 32,
                config := \<lparr>global_mapping = 0, apic_tick_interval = 32, debug = 0, adv_global = 0\<rparr>\<rparr>))"

definition initial_gdt :: idtr where "initial_gdt = \<lparr>limit = 31, idtr_base = 0x76000\<rparr>"

text \<open>The level-4 table entry whose bits 2 and 3 \<open>main\<close> clears.\<close>

definition clear_user_bits :: "u64 \<Rightarrow> memory \<Rightarrow> memory" where
  "clear_user_bits pdpte m = wr64 m pdpte (rd64 m pdpte AND 0xfffffffffffffff3)"

text \<open>\<open>main\<close> up to the call of \<open>invoke_dsh\<close>, with the addresses of \<open>stats\<close> and \<open>config\<close>.\<close>

definition boot_main :: "cpu_regs \<Rightarrow> (handler \<Rightarrow> u64) \<Rightarrow> u64 \<Rightarrow> 'a desc_state_scheme \<Rightarrow> u64 \<times> u64 \<times> 'a desc_state_scheme" where
  "boot_main c addr swapper s =
     (let s1 = init_mems (boot_messages c s);
          (_, s2) = setup_gdt_tss initial_gdt s1;
          s3 = setup_idt addr s2;
          s4 = s3\<lparr>mem := clear_user_bits (cr3_reg c) (mem s3)\<rparr>;
          s5 = printf ''gemOS shell... \<newline>'' [] (init_apic (msr_lo c) (msr_hi c) s4);
          s6 = init_swapper swapper (ucast (ss_reg c)) (ucast (cs_reg c)) (rflags_reg c) s5;
          (st, s7) = alloc_stats s6;
          (cf, s8) = alloc_config s7
      in (st, cf, s8))"

subsection \<open>Steps of boot\<close>

lemma boot_keep:
  assumes "\<And>a. frame_of a \<in> bmap_frames \<Longrightarrow> m a = mem s a"
  shows "mm_inv (s\<lparr>mem := m\<rparr>) = mm_inv s" "page_prefix r c (s\<lparr>mem := m\<rparr>) = page_prefix r c s"
proof -
  have b: "m a = mem s a" if "region_base r \<le> unat (frame_of a)" "unat (frame_of a) < region_base r + region_reserved r" for a r
    using assms that bmap_frames_iff by blast
  have "pgl_inv m r pgl = pgl_inv (mem s) r pgl" for r pgl by (rule pgl_inv_cong) (rule b)
  then show "mm_inv (s\<lparr>mem := m\<rparr>) = mm_inv s" by (simp add: mm_inv_def)
  have "page_used m r k = page_used (mem s) r k" if "k < region_pages r" for k
    by (rule page_used_cong [OF that]) (rule b)
  then show "page_prefix r c (s\<lparr>mem := m\<rparr>) = page_prefix r c s" by (auto simp: page_prefix_def)
qed

lemma page_keep:
  assumes "\<And>a. frame_of a \<in> bmap_frames \<Longrightarrow> m a = n a"
  shows "mm_inv (s\<lparr>mem := n, pglists := p\<rparr>) \<Longrightarrow> mm_inv (s\<lparr>mem := m, pglists := p\<rparr>)"
    "page_prefix r c (s\<lparr>mem := n, pglists := p\<rparr>) \<Longrightarrow> page_prefix r c (s\<lparr>mem := m, pglists := p\<rparr>)"
proof -
  have eq: "s\<lparr>mem := n, pglists := p\<rparr>\<lparr>mem := m\<rparr> = s\<lparr>mem := m, pglists := p\<rparr>" by simp
  have b: "m a = mem (s\<lparr>mem := n, pglists := p\<rparr>) a" if "frame_of a \<in> bmap_frames" for a using assms that by simp
  show "mm_inv (s\<lparr>mem := n, pglists := p\<rparr>) \<Longrightarrow> mm_inv (s\<lparr>mem := m, pglists := p\<rparr>)"
    "page_prefix r c (s\<lparr>mem := n, pglists := p\<rparr>) \<Longrightarrow> page_prefix r c (s\<lparr>mem := m, pglists := p\<rparr>)"
    using boot_keep [OF b] unfolding eq by simp_all
qed

lemma pt_frame_eq: "k < region_pages OS_PT_REG \<Longrightarrow> page_frame OS_PT_REG k = of_nat (8192 + k)"
  by (simp add: page_frame_def)

lemma pt_alloc:
  assumes "mm_inv s" "page_prefix OS_PT_REG c s" "c < 2176"
  obtains m p where "os_pfn_alloc OS_PT_REG s = (of_nat (8192 + c), s\<lparr>mem := m, pglists := p\<rparr>)"
    "mm_inv (s\<lparr>mem := m, pglists := p\<rparr>)" "page_prefix OS_PT_REG (Suc c) (s\<lparr>mem := m, pglists := p\<rparr>)"
    "\<And>a. frame_of a \<notin> bmap_frames \<Longrightarrow> frame_of a \<noteq> of_nat (8192 + c) \<Longrightarrow> m a = mem s a"
    "\<And>a. frame_of a = of_nat (8192 + c) \<Longrightarrow> m a = 0"
proof -
  obtain p s' where eq: "os_pfn_alloc OS_PT_REG s = (p, s')" by fastforce
  have c: "c < 32 * scan_window OS_PT_REG" using assms(3) by (simp add: scan_window_def)
  note A = page_prefix_alloc [OF assms(1,2) c eq]
  obtain k where k: "k < region_pages OS_PT_REG" "p = of_nat (region_base OS_PT_REG + k)"
    "\<And>a. frame_of a \<noteq> page_frame OS_PT_REG k \<Longrightarrow> frame_of a \<notin> bmap_frames \<Longrightarrow> mem s' a = mem s a"
    "\<And>a. frame_of a = page_frame OS_PT_REG k \<Longrightarrow> mem s' a = 0" "s' = s\<lparr>mem := mem s', pglists := pglists s'\<rparr>"
    by (rule os_pfn_alloc_contract [OF assms(1) page_prefix_can_take(1) [OF assms(2) c] eq]) blast
  have "unat (of_nat (8192 + k) :: u32) = 8192 + k" "unat (of_nat (8192 + c) :: u32) = 8192 + c"
    using k(1) assms(3) by (simp_all add: unat_of_nat_small del: of_nat_add)
  then have "k = c" using A(1) k(2) by (metis add_left_cancel region_base.simps(2))
  then show thesis using that [where m = "mem s'" and p = "pglists s'"] eq A k by (simp add: pt_frame_eq del: of_nat_add)
qed

text \<open>What the processor reads from a segment descriptor: access byte, limit, base.\<close>

definition seg_access :: "memory \<Rightarrow> u64 \<Rightarrow> u8" where "seg_access m e = m (e + 5)"

definition seg_limit :: "memory \<Rightarrow> u64 \<Rightarrow> u32" where
  "seg_limit m e = ucast (rd16 m e) OR push_bit 16 (ucast (m (e + 6) AND 0xf))"

definition tss_base :: "memory \<Rightarrow> u64 \<Rightarrow> u64" where
  "tss_base m e = ucast (rd16 m (e + 2)) OR push_bit 16 (ucast (m (e + 4))) OR push_bit 24 (ucast (m (e + 7))) OR
     push_bit 32 (ucast (rd32 m (e + 8)))"

fun gdt_mem :: "nat \<Rightarrow> u64 \<Rightarrow> memory \<Rightarrow> memory" where
  "gdt_mem 0 e m = m"
| "gdt_mem (Suc n) e m = gdt_mem n (e + 8) (wr16 m e 0xffff)"

lemma printf_console: obtains c where "printf f as s = s\<lparr>console := c\<rparr>"
proof -
  have "printf f as s = s\<lparr>console := (case vprintf f as of None \<Rightarrow> console s | Some b \<Rightarrow> console s @ serial_write b)\<rparr>"
    by (cases s) (simp add: printf_def split: option.split)
  then show thesis by (rule that)
qed

lemma gdt_loop_mem: "\<exists>c. gdt_loop n e s = s\<lparr>console := c, mem := gdt_mem n e (mem s)\<rparr>"
proof (induction n arbitrary: e s)
  case 0
  show ?case by (intro exI [of _ "console s"]) simp
next
  case (Suc n)
  obtain c where c: "gdt_report e s = s\<lparr>console := c\<rparr>"
  proof -
    obtain c1 where c1: "printf ''base = %x '' [Num (ucast (ucast (rd16 (mem s) (e + 2)) OR push_bit 16 (ucast (mem s (e + 4)))
          OR push_bit 24 (ucast (mem s (e + 7))) :: u32))] s = s\<lparr>console := c1\<rparr>" by (rule printf_console)
    obtain c2 where "gdt_report e s = s\<lparr>console := c1\<rparr>\<lparr>console := c2\<rparr>"
      unfolding gdt_report_def c1 by (rule printf_console)
    then show thesis using that by simp
  qed
  show ?case
    using Suc.IH [of "e + 8" "s\<lparr>console := c, mem := wr16 (mem s) e 0xffff\<rparr>"] by (simp add: c)
qed


text \<open>An entry occupies 8 bytes, the descriptor of the task state segment 16.\<close>

lemma not_in_entry: "of_nat k \<noteq> a - e" if "n \<le> unat (a - e)" "k < n" "n \<le> 16" for a e :: u64
proof
  assume "of_nat k = a - e"
  then have "unat (a - e) = unat (of_nat k :: u64)" by simp
  also have "\<dots> = k" using that by (intro unat_of_nat_small) simp
  finally show False using that by simp
qed

lemma beyond_entry: "k < n \<Longrightarrow> n \<le> 16 \<Longrightarrow> n \<le> unat (a - e) \<Longrightarrow> a \<noteq> e + of_nat k" for a e :: u64
  using not_in_entry [of n a e k] by (auto simp: algebra_simps)

lemma user_segment_frame: "8 \<le> unat (a - e) \<Longrightarrow> user_segment ac e m a = m a"
  using beyond_entry [of 0 8 a e] beyond_entry [of 1 8 a e] beyond_entry [of 2 8 a e] beyond_entry [of 3 8 a e]
    beyond_entry [of 4 8 a e] beyond_entry [of 5 8 a e] beyond_entry [of 6 8 a e] beyond_entry [of 7 8 a e]
  by (simp add: user_segment_def set_gdt_flags_def set_limit_high_def set_gdt_base_def wr16_def add.assoc)

lemma tss_descriptor_frame: "16 \<le> unat (a - e) \<Longrightarrow> tss_descriptor t e m a = m a"
  using beyond_entry [of 0 16 a e] beyond_entry [of 1 16 a e] beyond_entry [of 2 16 a e] beyond_entry [of 3 16 a e]
    beyond_entry [of 4 16 a e] beyond_entry [of 5 16 a e] beyond_entry [of 6 16 a e] beyond_entry [of 7 16 a e]
    beyond_entry [of 8 16 a e] beyond_entry [of 9 16 a e] beyond_entry [of 10 16 a e] beyond_entry [of 11 16 a e]
    beyond_entry [of 12 16 a e] beyond_entry [of 13 16 a e] beyond_entry [of 14 16 a e] beyond_entry [of 15 16 a e]
  by (simp add: tss_descriptor_def set_gdt_flags_def set_limit_high_def wr16_def wr32_def Let_def add.assoc)

lemma low_nibble: "((x AND 0xf0) OR y) AND 0xf = y AND 0xf" for x y :: u8
  by (simp add: bit.conj_disj_distrib2 and.assoc)

lemma user_segment_fields:
  "seg_access (user_segment ac e m) e = ac" "seg_limit (user_segment ac e m) e = 0xfffff"
  by (simp_all add: seg_access_def seg_limit_def rd16_def user_segment_def set_gdt_flags_def set_limit_high_def
    set_gdt_base_def wr16_def low_nibble add.assoc bit.conj_disj_distrib2)

lemma low_byte: "(ucast (x AND 0xff) :: u8) = ucast x" for x :: u64
proof -
  have "x AND 0xff = take_bit 8 x" by (simp add: take_bit_eq_mask mask_eq_exp_minus_1)
  then show ?thesis by (simp only:) (rule bit_word_eqI, auto simp: bit_simps)
qed

lemma base_of_parts:
  "ucast (ucast x :: u16) OR push_bit 16 (ucast (ucast (drop_bit 16 x) :: u8)) OR push_bit 24 (ucast (ucast (drop_bit 24 x) :: u8))
    OR push_bit 32 (ucast (ucast (drop_bit 32 x) :: u32)) = x" (is "?w = x") for x :: u64
proof (rule bit_word_eqI)
  fix n assume "n < LENGTH(64)"
  then consider "n < 16" | "16 \<le> n" "n < 24" | "24 \<le> n" "n < 32" | "32 \<le> n" "n < 64" by fastforce
  then show "bit ?w n = bit x n" by cases (auto simp: bit_simps)
qed

lemma tss_descriptor_fields:
  "seg_access (tss_descriptor t e m) e = 0xe9" "tss_base (tss_descriptor t e m) e = t"
proof -
  show "seg_access (tss_descriptor t e m) e = 0xe9"
    by (simp add: seg_access_def tss_descriptor_def set_gdt_flags_def set_limit_high_def wr16_def wr32_def Let_def add.assoc)
  have "rd16 (tss_descriptor t e m) (e + 2) = ucast t" "tss_descriptor t e m (e + 4) = ucast (drop_bit 16 t)"
    "tss_descriptor t e m (e + 7) = ucast (drop_bit 24 t)" "rd32 (tss_descriptor t e m) (e + 8) = ucast (drop_bit 32 t)"
    by (simp_all add: rd16_def rd32_def tss_descriptor_def set_gdt_flags_def set_limit_high_def wr16_def wr32_def Let_def
      add.assoc low_half low_byte u16_of_bytes u32_of_bytes)
  then show "tss_base (tss_descriptor t e m) e = t" by (simp add: tss_base_def base_of_parts)
qed

text \<open>The loop over the existing entries writes their low limits.\<close>

lemma gdt_mem_frame:
  "\<lbrakk>8 * n \<le> unat (a - e); n < 2 ^ 32\<rbrakk> \<Longrightarrow> gdt_mem n e m a = m a"
proof (induction n arbitrary: e m)
  case (Suc n)
  have u: "unat (a - (e + 8)) = unat (a - e) - 8"
    using Suc.prems(1) by (subst diff_diff_eq [symmetric], subst unat_sub) (simp_all add: word_le_nat_alt)
  have "wr16 m e 0xffff a = m a"
    using beyond_entry [of 0 8 a e] beyond_entry [of 1 8 a e] Suc.prems(1) by (simp add: wr16_def)
  then show ?case using Suc.IH [of "e + 8" "wr16 m e 0xffff"] Suc.prems u by simp
qed simp

text \<open>What \<open>setup_gdt_tss\<close> leaves at the old end \<open>e\<close> of the table.\<close>

definition user_gdt :: "u64 \<Rightarrow> u64 \<Rightarrow> memory \<Rightarrow> bool" where
  "user_gdt e tss m \<longleftrightarrow> seg_access m e = 0xfa \<and> seg_limit m e = 0xfffff \<and>
     seg_access m (e + 8) = 0xf2 \<and> seg_limit m (e + 8) = 0xfffff \<and>
     seg_access m (e + 16) = 0xe9 \<and> tss_base m (e + 16) = tss"

lemma user_gdt_cong:
  assumes "\<And>k. k < 32 \<Longrightarrow> m (e + of_nat k) = m' (e + of_nat k)"
  shows "user_gdt e t m = user_gdt e t m'"
  using assms [of 0] assms [of 1] assms [of 5] assms [of 6] assms [of 8] assms [of 9] assms [of 13] assms [of 14]
    assms [of 18] assms [of 19] assms [of 20] assms [of 21] assms [of 23] assms [of 24] assms [of 25] assms [of 26] assms [of 27]
  by (simp add: user_gdt_def seg_access_def seg_limit_def tss_base_def rd16_def rd32_def add.assoc)

lemma seg_cong:
  assumes "\<And>k. k < 8 \<Longrightarrow> m (e + of_nat k) = m' (e + of_nat k)"
  shows "seg_access m e = seg_access m' e" "seg_limit m e = seg_limit m' e"
  using assms [of 0] assms [of 1] assms [of 5] assms [of 6]
  by (simp_all add: seg_access_def seg_limit_def rd16_def)

text \<open>An entry \<open>d\<close> bytes after \<open>e\<close> is not touched by a write at \<open>e\<close> of at most \<open>d\<close> bytes.\<close>

lemma entry_distance: "unat (e + of_nat k - e') = k + d" if "e = e' + of_nat d" "k + d < 2 ^ 32" for e :: u64
proof -
  have "e + of_nat k - e' = of_nat (k + d)" by (simp add: that(1))
  then show ?thesis using that(2) by (simp only:) (rule unat_of_nat_small, simp)
qed

lemma entry_before: "2 ^ 32 \<le> unat (e' + of_nat k - e)" if "e = e' + of_nat d" "k < d" "d < 2 ^ 32" for e :: u64
proof -
  have "e' + of_nat k - e = of_nat k - of_nat d" by (simp add: that(1))
  then have "unat (e' + of_nat k - e) = 2 ^ 64 - (d - k)" using that by (simp only:) (subst unat_index_diff, simp_all)
  then show ?thesis using that by simp
qed

lemma user_gdt_written:
  "user_gdt e tss (tss_descriptor tss (e + 16) (user_segment 0xf2 (e + 8) (user_segment 0xfa e m)))"
proof -
  let ?m1 = "user_segment 0xfa e m" let ?m2 = "user_segment 0xf2 (e + 8) ?m1" let ?m3 = "tss_descriptor tss (e + 16) ?m2"
  have "?m3 (e + of_nat k) = ?m2 (e + of_nat k)" if "k < 16" for k
    using entry_before [of "e + 16" e 16 k] that by (intro tss_descriptor_frame) simp
  moreover have "?m2 (e + of_nat k) = ?m1 (e + of_nat k)" if "k < 8" for k
    using entry_before [of "e + 8" e 8 k] that by (intro user_segment_frame) simp
  ultimately have 1: "?m3 (e + of_nat k) = ?m1 (e + of_nat k)" if "k < 8" for k using that by simp
  have 2: "?m3 (e + 8 + of_nat k) = ?m2 (e + 8 + of_nat k)" if "k < 8" for k
    using entry_before [of "e + 16" "e + 8" 8 k] that by (intro tss_descriptor_frame) simp
  show ?thesis
    using seg_cong [of ?m3 e ?m1, OF 1] seg_cong [of ?m3 "e + 8" ?m2, OF 2] by (simp add: user_gdt_def user_segment_fields tss_descriptor_fields)
qed


subsection \<open>The layout that boot leaves\<close>

lemma bmap_frames_low: "f \<in> bmap_frames \<Longrightarrow> f = 0x800 \<or> f = 0x2000 \<or> 0x6400 \<le> f \<and> f < 0x6404" for f :: u64
proof -
  assume "f \<in> bmap_frames"
  then obtain r where "region_base r \<le> unat f" "unat f < region_base r + region_reserved r" unfolding bmap_frames_iff by blast
  then have "unat f = 2048 \<or> unat f = 8192 \<or> 25600 \<le> unat f \<and> unat f < 25604" by (cases r) auto
  then show ?thesis by (simp add: word_le_nat_alt word_less_nat_alt word_unat_eq_iff)
qed

lemma not_bmap_frames [simp]:
  "0x76 \<notin> bmap_frames" "0x2001 \<notin> bmap_frames" "0x2002 \<notin> bmap_frames" "0x2003 \<notin> bmap_frames" "0x2004 \<notin> bmap_frames"
  "0x803 \<notin> bmap_frames" "0x802 \<notin> bmap_frames"
  by (auto dest!: bmap_frames_low)

lemma boot_pages_aligned [simp]:
  "aligned 12 0x2001000" "aligned 12 0x2003000" "aligned 12 0x2004000"
  by (simp_all add: aligned_def)

lemma mm_inv_ext [simp]:
  "mm_inv (s\<lparr>console := c\<rparr>) = mm_inv s" "page_prefix r n (s\<lparr>console := c\<rparr>) = page_prefix r n s"
  by (simp_all add: mm_inv_def page_prefix_def)

lemma page_bytes: "frame_of (push_bit 12 f + of_nat k) = take_bit 52 f" if "k < 4096"
  for f :: u64
proof -
  have "unat (of_nat k :: u64) < 2 ^ 12" using that by (simp add: unat_of_nat_small)
  then have "frame_of (push_bit 12 f + of_nat k) = frame_of (push_bit 12 f)" by (intro drop_bit_add_small [of 12]) simp_all
  also have "\<dots> = take_bit 52 f" by (rule bit_word_eqI) (auto simp: bit_simps)
  finally show ?thesis .
qed

definition tables_up :: "(handler \<Rightarrow> u64) \<Rightarrow> memory \<Rightarrow> bool" where
  "tables_up addr m \<longleftrightarrow> (\<forall>v < 256. gate m 0x2003000 v = gate_of addr v) \<and> user_gdt 0x76020 0x2001000 m \<and>
     rd32 m 0x2001024 = 0x2003000 \<and> rd32 m 0x2001028 = 0"

lemma gate_page_cong:
  assumes "\<And>a. frame_of a = 0x2003 \<Longrightarrow> m a = m' a" "v < 256"
  shows "gate m 0x2003000 v = gate m' 0x2003000 v"
proof (rule gate_cong)
  fix k :: nat assume "k < 16"
  then have "frame_of (push_bit 12 0x2003 + of_nat (16 * v + k)) = take_bit 52 0x2003" using assms(2) by (intro page_bytes) simp
  then show "m (0x2003000 + 16 * of_nat v + of_nat k) = m' (0x2003000 + 16 * of_nat v + of_nat k)"
    by (intro assms(1)) (simp add: add.assoc)
qed

lemma gdt_page_cong:
  assumes "\<And>a. frame_of a = 0x76 \<Longrightarrow> m a = m' a"
  shows "user_gdt 0x76020 t m = user_gdt 0x76020 t m'"
proof (rule user_gdt_cong)
  fix k :: nat assume "k < 32"
  then have "frame_of (push_bit 12 0x76 + of_nat (32 + k)) = take_bit 52 0x76" by (intro page_bytes) simp
  then show "m (0x76020 + of_nat k) = m' (0x76020 + of_nat k)" by (intro assms) (simp add: add.assoc)
qed

lemma tables_up_cong:
  assumes "\<And>a. frame_of a \<in> {0x76, 0x2001, 0x2003} \<Longrightarrow> m a = m' a"
  shows "tables_up addr m = tables_up addr m'"
proof -
  have "rd32 m 0x2001024 = rd32 m' 0x2001024" "rd32 m 0x2001028 = rd32 m' 0x2001028"
    by (simp_all add: rd32_def assms)
  moreover have "gate m 0x2003000 v = gate m' 0x2003000 v" if "v < 256" for v
    by (rule gate_page_cong [OF _ that]) (simp add: assms)
  moreover have "user_gdt 0x76020 0x2001000 m = user_gdt 0x76020 0x2001000 m'"
    by (rule gdt_page_cong) (simp add: assms)
  ultimately show ?thesis by (simp add: tables_up_def)
qed

lemma gdt_page_write:
  assumes "frame_of a \<noteq> 0x76"
  shows "gdt_mem 4 0x76000 m a = m a" "user_segment ac 0x76020 m a = m a" "user_segment ac 0x76028 m a = m a"
    "tss_descriptor t 0x76030 m a = m a"
proof -
  have far: "d \<le> unat (a - (push_bit 12 0x76 + of_nat k))" if "k + d \<le> 4096" "k < 4096" for k d :: nat
  proof (rule ccontr)
    define j where "j = unat (a - (push_bit 12 0x76 + of_nat k))"
    assume "\<not> ?thesis"
    then have "k + j < 4096" using that by (simp add: j_def)
    moreover have "a = push_bit 12 0x76 + of_nat (k + j)" by (simp add: j_def)
    ultimately have "frame_of a = take_bit 52 0x76" using page_bytes [of "k + j" "0x76"] by metis
    with assms show False by simp
  qed
  from far [of 0 32] show "gdt_mem 4 0x76000 m a = m a" by (intro gdt_mem_frame) simp_all
  from far [of 32 8] show "user_segment ac 0x76020 m a = m a" by (intro user_segment_frame) simp
  from far [of 40 8] show "user_segment ac 0x76028 m a = m a" by (intro user_segment_frame) simp
  from far [of 48 16] show "tss_descriptor t 0x76030 m a = m a" by (intro tss_descriptor_frame) simp
qed


lemma tss_descriptor_cong:
  assumes "\<And>b. frame_of b = 0x76 \<Longrightarrow> m b = n b" "frame_of a = 0x76"
  shows "tss_descriptor t 0x76030 m a = tss_descriptor t 0x76030 n a"
  using assms(1) [OF assms(2)] assms(1) [of "0x76036"]
  by (simp add: tss_descriptor_def set_gdt_flags_def set_limit_high_def wr16_def wr32_def Let_def)

text \<open>The part before the allocations: the loop over the existing entries and the two user segments.\<close>

lemma user_segments_boot:
  fixes s :: "'a desc_state_scheme"
  assumes "mm_inv s" "page_prefix OS_PT_REG 1 s"
  obtains c1 c m where "gdt_loop 4 0x76000 s = s\<lparr>console := c1, mem := gdt_mem 4 0x76000 (mem s)\<rparr>"
    "printf ''Initializing user segments\<newline>'' [] (s\<lparr>console := c1\<rparr>) = s\<lparr>console := c\<rparr>"
    "m = user_segment 0xf2 0x76028 (user_segment 0xfa 0x76020 (gdt_mem 4 0x76000 (mem s)))"
    "mm_inv (s\<lparr>console := c, mem := m\<rparr>)" "page_prefix OS_PT_REG 1 (s\<lparr>console := c, mem := m\<rparr>)"
proof -
  obtain c1 where c1: "gdt_loop 4 0x76000 s = s\<lparr>console := c1, mem := gdt_mem 4 0x76000 (mem s)\<rparr>"
    using gdt_loop_mem by blast
  obtain c where "printf ''Initializing user segments\<newline>'' [] (s\<lparr>console := c1\<rparr>) = s\<lparr>console := c1\<rparr>\<lparr>console := c\<rparr>"
    by (rule printf_console)
  then have c: "printf ''Initializing user segments\<newline>'' [] (s\<lparr>console := c1\<rparr>) = s\<lparr>console := c\<rparr>" by simp
  define m where "m = user_segment 0xf2 0x76028 (user_segment 0xfa 0x76020 (gdt_mem 4 0x76000 (mem s)))"
  have "m a = mem s a" if "frame_of a \<noteq> 0x76" for a using that by (simp add: m_def gdt_page_write)
  then have b: "m a = mem s a" if "frame_of a \<in> bmap_frames" for a using that not_bmap_frames(1) by metis
  have "mm_inv (s\<lparr>mem := m\<rparr>)" "page_prefix OS_PT_REG 1 (s\<lparr>mem := m\<rparr>)" using boot_keep [of m s] b assms by simp_all
  then have "mm_inv (s\<lparr>console := c, mem := m\<rparr>)" "page_prefix OS_PT_REG 1 (s\<lparr>console := c, mem := m\<rparr>)"
    by (simp_all add: mm_inv_def page_prefix_def)
  then show thesis by (rule that [OF c1 c m_def])
qed

lemma setup_gdt_tss_boot:
  fixes s :: "'a desc_state_scheme"
  assumes "mm_inv s" "page_prefix OS_PT_REG 1 s"
  obtains m p c where "setup_gdt_tss initial_gdt s = (\<lparr>limit = 63, idtr_base = 0x76000\<rparr>, s\<lparr>console := c, mem := m, pglists := p,
      tss_page := 0x2001000, irq_stack := 0x2003000, gdtr := \<lparr>limit = 63, idtr_base = 0x76000\<rparr>, task_reg := 0x33\<rparr>)"
    "mm_inv (s\<lparr>mem := m, pglists := p\<rparr>)" "page_prefix OS_PT_REG 3 (s\<lparr>mem := m, pglists := p\<rparr>)"
    "user_gdt 0x76020 0x2001000 m" "rd32 m 0x2001024 = 0x2003000" "rd32 m 0x2001028 = 0"
proof -
  obtain c1 c m2 where c: "gdt_loop 4 0x76000 s = s\<lparr>console := c1, mem := gdt_mem 4 0x76000 (mem s)\<rparr>"
      "printf ''Initializing user segments\<newline>'' [] (s\<lparr>console := c1\<rparr>) = s\<lparr>console := c\<rparr>"
    and m2_def: "m2 = user_segment 0xf2 0x76028 (user_segment 0xfa 0x76020 (gdt_mem 4 0x76000 (mem s)))"
    and "mm_inv (s\<lparr>console := c, mem := m2\<rparr>)" "page_prefix OS_PT_REG 1 (s\<lparr>console := c, mem := m2\<rparr>)"
    by (rule user_segments_boot [OF assms])
  define s2 where "s2 = s\<lparr>console := c, mem := m2\<rparr>"
  have i2: "mm_inv s2" "page_prefix OS_PT_REG 1 s2" unfolding s2_def by fact+
  obtain m3 p3 where A: "os_pfn_alloc OS_PT_REG s2 = (of_nat (8192 + 1), s2\<lparr>mem := m3, pglists := p3\<rparr>)"
    "mm_inv (s2\<lparr>mem := m3, pglists := p3\<rparr>)" "page_prefix OS_PT_REG (Suc 1) (s2\<lparr>mem := m3, pglists := p3\<rparr>)"
    "\<And>a. frame_of a \<notin> bmap_frames \<Longrightarrow> frame_of a \<noteq> of_nat (8192 + 1) \<Longrightarrow> m3 a = mem s2 a"
    by (rule pt_alloc [OF i2]) auto
  define m4 where "m4 = tss_descriptor 0x2001000 0x76030 (bzero m3 0x2001000 PAGE_SIZE)"
  have z: "bzero m3 0x2001000 PAGE_SIZE = (\<lambda>a. if frame_of a = 0x2001 then 0 else m3 a)"
    using bzero_page [of "0x2001000" m3] by simp
  have m4: "m4 a = m3 a" if "frame_of a \<noteq> 0x76" "frame_of a \<noteq> 0x2001" for a
    using that by (simp add: m4_def gdt_page_write z)
  define s4 where "s4 = s2\<lparr>mem := m4, pglists := p3, tss_page := 0x2001000, gdtr := \<lparr>limit = 63, idtr_base = 0x76000\<rparr>, task_reg := 0x33\<rparr>"
  have b4: "m4 a = m3 a" if "frame_of a \<in> bmap_frames" for a using that by (intro m4) auto
  have "mm_inv (s2\<lparr>mem := m4, pglists := p3\<rparr>)" "page_prefix OS_PT_REG 2 (s2\<lparr>mem := m4, pglists := p3\<rparr>)"
    using page_keep [where m = m4 and n = m3 and p = p3 and s = s2] b4 A(2,3) by (simp_all add: numeral_2_eq_2)
  then have i4: "mm_inv s4" "page_prefix OS_PT_REG 2 s4" by (simp_all add: s4_def mm_inv_def page_prefix_def)
  obtain m5 p5 where B: "os_pfn_alloc OS_PT_REG s4 = (of_nat (8192 + 2), s4\<lparr>mem := m5, pglists := p5\<rparr>)"
    "mm_inv (s4\<lparr>mem := m5, pglists := p5\<rparr>)" "page_prefix OS_PT_REG (Suc 2) (s4\<lparr>mem := m5, pglists := p5\<rparr>)"
    "\<And>a. frame_of a \<notin> bmap_frames \<Longrightarrow> frame_of a \<noteq> of_nat (8192 + 2) \<Longrightarrow> m5 a = mem s4 a"
    by (rule pt_alloc [OF i4]) auto
  define m6 where "m6 = wr32 (wr32 m5 0x2001024 0x2003000) 0x2001028 0"
  have al: "aligned 2 0x2001024" "aligned 2 0x2001028" by (simp_all add: aligned_def)
  have m6: "m6 a = m5 a" if "frame_of a \<noteq> 0x2001" for a
    using wr32_frame [where n = 12, of "0x2001024" a] wr32_frame [where n = 12, of "0x2001028" a] al that by (simp add: m6_def)
  have b6: "m6 a = m5 a" if "frame_of a \<in> bmap_frames" for a using that by (intro m6) auto
  have "mm_inv (s4\<lparr>mem := m6, pglists := p5\<rparr>)" "page_prefix OS_PT_REG 3 (s4\<lparr>mem := m6, pglists := p5\<rparr>)"
    using page_keep [where m = m6 and n = m5 and p = p5 and s = s4] b6 B(2,3) by simp_all
  then have i: "mm_inv (s\<lparr>mem := m6, pglists := p5\<rparr>)" "page_prefix OS_PT_REG 3 (s\<lparr>mem := m6, pglists := p5\<rparr>)"
    by (simp_all add: s4_def s2_def mm_inv_def page_prefix_def)
  have u: "m6 a = tss_descriptor 0x2001000 0x76030 m2 a" if f: "frame_of a = 0x76" for a
  proof -
    have "m6 a = m4 a" using m6 B(4) f by (simp add: s4_def)
    also have "m4 a = tss_descriptor 0x2001000 0x76030 m2 a"
      unfolding m4_def by (rule tss_descriptor_cong [OF _ f]) (use A(4) in \<open>simp add: z s2_def\<close>)
    finally show ?thesis .
  qed
  have "user_gdt 0x76020 0x2001000 m6 = user_gdt 0x76020 0x2001000 (tss_descriptor 0x2001000 0x76030 m2)"
    by (rule gdt_page_cong) (rule u)
  then have g: "user_gdt 0x76020 0x2001000 m6"
    using user_gdt_written [of "0x76020" "0x2001000" "gdt_mem 4 0x76000 (mem s)"] by (simp add: m2_def)
  have r: "rd32 m6 0x2001024 = 0x2003000" "rd32 m6 0x2001028 = 0"
    using al by (simp_all add: m6_def rd32_wr32_other)
  have C: "s2\<lparr>pglists := p3, mem := m4, tss_page := 0x2001000, gdtr := \<lparr>limit = 63, idtr_base = 0x76000\<rparr>, task_reg := 0x33\<rparr> = s4"
    by (simp add: s4_def)
  have "setup_gdt_tss initial_gdt s = (\<lparr>limit = 63, idtr_base = 0x76000\<rparr>, s4\<lparr>mem := m6, pglists := p5, irq_stack := 0x2003000\<rparr>)"
    using A(1) B(1) by (simp add: setup_gdt_tss_def initial_gdt_def c Let_def m2_def [symmetric] s2_def [symmetric] C m4_def [symmetric] m6_def)
  then have "setup_gdt_tss initial_gdt s = (\<lparr>limit = 63, idtr_base = 0x76000\<rparr>, s\<lparr>console := c, mem := m6, pglists := p5,
      tss_page := 0x2001000, irq_stack := 0x2003000, gdtr := \<lparr>limit = 63, idtr_base = 0x76000\<rparr>, task_reg := 0x33\<rparr>)"
    by (simp add: s4_def s2_def)
  then show thesis by (rule that [OF _ i g r])
qed

lemma setup_idt_boot:
  assumes "mm_inv s" "page_prefix OS_PT_REG 3 s"
  obtains m p where "setup_idt addr s = s\<lparr>mem := m, pglists := p, idt := \<lparr>limit = 0xfff, idtr_base = 0x2003000\<rparr>\<rparr>"
    "mm_inv (s\<lparr>mem := m, pglists := p\<rparr>)" "page_prefix OS_PT_REG 4 (s\<lparr>mem := m, pglists := p\<rparr>)"
    "\<And>a. frame_of a \<notin> bmap_frames \<Longrightarrow> frame_of a \<noteq> 0x2003 \<Longrightarrow> m a = mem s a"
    "\<And>v. v < 256 \<Longrightarrow> gate m 0x2003000 v = gate_of addr v"
proof -
  obtain m1 p1 where A: "os_pfn_alloc OS_PT_REG s = (of_nat (8192 + 3), s\<lparr>mem := m1, pglists := p1\<rparr>)"
    "mm_inv (s\<lparr>mem := m1, pglists := p1\<rparr>)" "page_prefix OS_PT_REG (Suc 3) (s\<lparr>mem := m1, pglists := p1\<rparr>)"
    "\<And>a. frame_of a \<notin> bmap_frames \<Longrightarrow> frame_of a \<noteq> of_nat (8192 + 3) \<Longrightarrow> m1 a = mem s a"
    by (rule pt_alloc [OF assms]) auto
  define m where "m = idt_loop addr NUM_IDT_ENTRY 0 0x2003000 m1"
  have m: "m a = m1 a" if "frame_of a \<noteq> 0x2003" for a
  proof -
    have "\<not> unat (a - push_bit 12 0x2003) < 2 ^ 12"
      using in_block_iff [of 12 "0x2003000" a] that by simp
    then show ?thesis unfolding m_def by (intro idt_loop_frame) simp_all
  qed
  have b: "m a = m1 a" if "frame_of a \<in> bmap_frames" for a using that by (intro m) auto
  have "mm_inv (s\<lparr>mem := m, pglists := p1\<rparr>)" "page_prefix OS_PT_REG 4 (s\<lparr>mem := m, pglists := p1\<rparr>)"
    using page_keep [where m = m and n = m1 and p = p1 and s = s] b A(2,3) by simp_all
  then show thesis
    using that [of p1 m] A(1,4) m idt_gate [of _ addr "0x2003000" m1] by (simp add: setup_idt_def m_def [symmetric])
qed


lemma init_apic_keeps:
  fixes s :: "'a kernel_scheme"
  assumes "0x20000 \<le> frame_of (push_bit 32 hi OR lo)"
  obtains m c where "init_apic lo hi s = s\<lparr>console := c, mem := m, apic_base := push_bit 12 (frame_of (push_bit 32 hi OR lo))\<rparr>"
    "\<And>a. frame_of a < 0x20000 \<Longrightarrow> m a = mem s a"
proof -
  define base where "base = push_bit 12 (frame_of (push_bit 32 hi OR lo))"
  obtain c where c: "printf ''Initializing APIC\<newline>'' [] s = s\<lparr>console := c\<rparr>" by (rule printf_console)
  have al: "aligned 12 base" unfolding base_def by (rule aligned_push_bit) simp
  have fb: "frame_of base = frame_of (push_bit 32 hi OR lo)"
    unfolding base_def by (rule bit_word_eqI) (auto simp: bit_simps dest: bit_imp_le_length)
  have w: "wr32 m (base + k) v a = m a" if "frame_of a < 0x20000" "aligned 2 k" "unat k < 2 ^ 12" for m k v a
  proof (rule wr32_frame [where n = 12])
    have "frame_of (base + k) = frame_of base" by (rule drop_bit_add_small [OF al _ that(3)]) simp
    then show "frame_of a \<noteq> frame_of (base + k)" using that(1) assms fb by auto
    show "aligned 2 (base + k)" by (rule aligned_plus [OF aligned_mono [OF al] that(2)]) simp
  qed simp
  have k: "aligned 2 0xE0" "aligned 2 0xD0" "aligned 2 0xF0" "aligned 2 0x3E0" "aligned 2 0x380" "aligned 2 0x390" "aligned 2 0x320"
    by (simp_all add: aligned_def)
  show thesis
  proof (rule that [of "mem (init_apic lo hi s)" c])
    have b: "push_bit 12 (drop_bit 12 (push_bit 32 hi OR lo)) = base" by (simp only: base_def)
    show "init_apic lo hi s = s\<lparr>console := c, mem := mem (init_apic lo hi s), apic_base := push_bit 12 (frame_of (push_bit 32 hi OR lo))\<rparr>"
      unfolding init_apic_def Let_def c b by simp
    show "mem (init_apic lo hi s) a = mem s a" if "frame_of a < 0x20000" for a
      unfolding init_apic_def Let_def c b by (simp add: w [OF that] k)
  qed
qed

lemma init_swapper_boot:
  fixes s :: "'a kernel_scheme"
  assumes "mm_inv s" "page_prefix OS_PT_REG 4 s"
  obtains m p l where "init_swapper sw ss cs fl s = s\<lparr>mem := m, pglists := p, ctx_list_addr := 0x2004000, ctx_list := l\<rparr>"
    "os_rsp (l ! 0) = 0x2006000" "state (l ! 0) = READY"
    "mm_inv (s\<lparr>mem := m, pglists := p\<rparr>)" "page_prefix OS_PT_REG 6 (s\<lparr>mem := m, pglists := p\<rparr>)"
    "\<And>a. frame_of a \<in> {0x76, 0x2001, 0x2003} \<Longrightarrow> m a = mem s a"
proof -
  obtain m1 p1 where A: "os_pfn_alloc OS_PT_REG s = (of_nat (8192 + 4), s\<lparr>mem := m1, pglists := p1\<rparr>)"
    "mm_inv (s\<lparr>mem := m1, pglists := p1\<rparr>)" "page_prefix OS_PT_REG (Suc 4) (s\<lparr>mem := m1, pglists := p1\<rparr>)"
    "\<And>a. frame_of a \<notin> bmap_frames \<Longrightarrow> frame_of a \<noteq> of_nat (8192 + 4) \<Longrightarrow> m1 a = mem s a"
    by (rule pt_alloc [OF assms]) auto
  define m2 where "m2 = bzero m1 0x2004000 PAGE_SIZE"
  have m2: "m2 a = m1 a" if "frame_of a \<noteq> 0x2004" for a
    using bzero_page [of "0x2004000" m1] that by (simp add: m2_def)
  define s2 where "s2 = s\<lparr>mem := m2, pglists := p1\<rparr>"
  have b2: "m2 a = m1 a" if "frame_of a \<in> bmap_frames" for a using that by (intro m2) auto
  have i2: "mm_inv s2" "page_prefix OS_PT_REG 5 s2" unfolding s2_def using page_keep [where m = m2 and n = m1 and p = p1 and s = s] b2 A(2,3) by simp_all
  obtain m3 p3 where B: "os_pfn_alloc OS_PT_REG s2 = (of_nat (8192 + 5), s2\<lparr>mem := m3, pglists := p3\<rparr>)"
    "mm_inv (s2\<lparr>mem := m3, pglists := p3\<rparr>)" "page_prefix OS_PT_REG (Suc 5) (s2\<lparr>mem := m3, pglists := p3\<rparr>)"
    "\<And>a. frame_of a \<notin> bmap_frames \<Longrightarrow> frame_of a \<noteq> of_nat (8192 + 5) \<Longrightarrow> m3 a = mem s2 a"
    by (rule pt_alloc [OF i2]) auto
  have m3: "m3 a = mem s a" if "frame_of a \<in> {0x76, 0x2001, 0x2003}" for a
    using that A(4) B(4) m2 by (auto simp: s2_def)
  have i3: "mm_inv (s\<lparr>mem := m3, pglists := p3\<rparr>)" "page_prefix OS_PT_REG 6 (s\<lparr>mem := m3, pglists := p3\<rparr>)"
    using B(2,3) by (simp_all add: s2_def)
  have C: "s\<lparr>pglists := p1, mem := m2\<rparr> = s2" by (simp add: s2_def)
  show thesis
  proof (rule that [OF _ _ _ i3 m3])
    show "init_swapper sw ss cs fl s = s\<lparr>mem := m3, pglists := p3, ctx_list_addr := 0x2004000,
        ctx_list := ctx_list (init_swapper sw ss cs fl s)\<rparr>"
      using A(1) B(1) by (simp add: init_swapper_def m2_def [symmetric] C Let_def) (simp add: s2_def)
    show "os_rsp (ctx_list (init_swapper sw ss cs fl s) ! 0) = 0x2006000" "state (ctx_list (init_swapper sw ss cs fl s) ! 0) = READY"
      using A(1) B(1) by (simp_all add: init_swapper_def m2_def [symmetric] C Let_def)
  qed
qed

lemma os_alloc_boot:
  assumes "sz = 32 \<and> i = 0 \<or> sz = 64 \<and> i = 1" "osalloc_chunks s ! i = boot_chunk i"
  obtains ck where "os_alloc sz s = (0x802000 + 0x1000 * of_nat i, s\<lparr>osalloc_chunks := (osalloc_chunks s)[i := ck]\<rparr>)"
proof -
  have "alloc_class 32 = 5" by (simp add: alloc_class_def top_bit.simps)
  then show thesis using assms that by (auto simp: os_alloc_def class_64 boot_chunk_def is_empty_def init_list_def)
qed


lemma printf_chain: "\<exists>c. t = s\<lparr>console := c\<rparr> \<Longrightarrow> \<exists>c. printf f as t = s\<lparr>console := c\<rparr>"
proof -
  assume "\<exists>c. t = s\<lparr>console := c\<rparr>"
  then obtain c where c: "t = s\<lparr>console := c\<rparr>" by blast
  obtain c' where "printf f as t = t\<lparr>console := c'\<rparr>" by (rule printf_console)
  then show ?thesis using c by auto
qed

lemma boot_messages_console: "\<exists>c'. boot_messages c s = s\<lparr>console := c'\<rparr>"
  unfolding boot_messages_def by (intro printf_chain exI [of _ "console s"]) simp

lemma bzero_object:
  assumes "aligned 12 p" "len \<le> 4096" "frame_of p \<notin> bmap_frames"
  shows "mm_inv s \<Longrightarrow> mm_inv (s\<lparr>mem := bzero (mem s) p len\<rparr>)"
    "page_prefix r d s \<Longrightarrow> page_prefix r d (s\<lparr>mem := bzero (mem s) p len\<rparr>)"
    "frame_of a \<noteq> frame_of p \<Longrightarrow> bzero (mem s) p len a = mem s a"
proof -
  have b: "bzero (mem s) p len a = mem s a" if "frame_of a \<noteq> frame_of p" for a
  proof -
    have "\<not> unat (a - p) < 4096" using in_block_iff [OF assms(1)] that by simp
    moreover have "uint (a - p) = int (unat (a - p))" by simp
    ultimately have "\<not> uint (a - p) < len" using assms(2) by linarith
    then show ?thesis using assms(2) by (simp add: bzero_apply)
  qed
  then have k: "bzero (mem s) p len a = mem s a" if "frame_of a \<in> bmap_frames" for a using assms(3) that by metis
  from b show "frame_of a \<noteq> frame_of p \<Longrightarrow> bzero (mem s) p len a = mem s a" .
  show "mm_inv s \<Longrightarrow> mm_inv (s\<lparr>mem := bzero (mem s) p len\<rparr>)"
    "page_prefix r d s \<Longrightarrow> page_prefix r d (s\<lparr>mem := bzero (mem s) p len\<rparr>)"
    using boot_keep [OF k] by simp_all
qed

lemma alloc_stats_boot:
  fixes s :: "'a kernel_scheme"
  assumes "mm_inv s" "page_prefix r d s" "osalloc_chunks s ! 1 = boot_chunk 1"
  obtains m ck where "alloc_stats s = (0x803000, s\<lparr>osalloc_chunks := (osalloc_chunks s)[1 := ck], mem := m, stats := zero_stats\<rparr>)"
    "mm_inv (s\<lparr>mem := m\<rparr>)" "page_prefix r d (s\<lparr>mem := m\<rparr>)" "\<And>a. frame_of a \<noteq> 0x803 \<Longrightarrow> m a = mem s a"
proof -
  obtain ck where "os_alloc 64 s = (0x802000 + 0x1000 * of_nat 1, s\<lparr>osalloc_chunks := (osalloc_chunks s)[1 := ck]\<rparr>)"
    by (rule os_alloc_boot [of 64 1 s]) (use assms(3) in simp_all)
  then have "alloc_stats s = (0x803000, s\<lparr>osalloc_chunks := (osalloc_chunks s)[1 := ck], mem := bzero (mem s) 0x803000 64, stats := zero_stats\<rparr>)"
    by (simp add: alloc_stats_def)
  moreover have "aligned 12 0x803000" by (simp add: aligned_def)
  ultimately show thesis
    using that bzero_object [of "0x803000" 64, where s = s] assms(1,2) by simp
qed

lemma alloc_config_boot:
  fixes s :: "'a kernel_scheme"
  assumes "mm_inv s" "page_prefix r d s" "osalloc_chunks s ! 0 = boot_chunk 0"
  obtains m ck c where "alloc_config s = (0x802000, s\<lparr>osalloc_chunks := (osalloc_chunks s)[0 := ck], mem := m, config := c\<rparr>)"
    "mm_inv (s\<lparr>mem := m\<rparr>)" "page_prefix r d (s\<lparr>mem := m\<rparr>)" "\<And>a. frame_of a \<noteq> 0x802 \<Longrightarrow> m a = mem s a"
proof -
  obtain ck where "os_alloc 32 s = (0x802000 + 0x1000 * of_nat 0, s\<lparr>osalloc_chunks := (osalloc_chunks s)[0 := ck]\<rparr>)"
    by (rule os_alloc_boot [of 32 0 s]) (use assms(3) in simp_all)
  then have "alloc_config s = (0x802000, s\<lparr>osalloc_chunks := (osalloc_chunks s)[0 := ck], mem := bzero (mem s) 0x802000 32,
      config := \<lparr>global_mapping = 0, apic_tick_interval = 32, debug = 0, adv_global = 0\<rparr>\<rparr>)"
    by (simp add: alloc_config_def)
  moreover have "aligned 12 0x802000" by (simp add: aligned_def)
  ultimately show thesis
    using that bzero_object [of "0x802000" 32, where s = s] assms(1,2) by simp
qed

lemma init_mems_pt:
  assumes "\<And>a. frame_of a \<in> bmap_frames \<Longrightarrow> mem s a = 0"
  shows "mm_inv (init_mems s)" "page_prefix OS_PT_REG 1 (init_mems s)" "osalloc_chunks (init_mems s) = map boot_chunk [0..<7]"
proof -
  obtain s' where "init_mems s = s'" "mm_inv s'" "\<And>r. r \<noteq> OS_DS_REG \<Longrightarrow> page_prefix r (region_reserved r) s'"
    "osalloc_chunks s' = map boot_chunk [0..<7]" by (rule init_mems_boot [OF assms], assumption, rule that; assumption)
  from this(1) [symmetric] this(2,4) this(3) [of OS_PT_REG]
  show "mm_inv (init_mems s)" "page_prefix OS_PT_REG 1 (init_mems s)" "osalloc_chunks (init_mems s) = map boot_chunk [0..<7]"
    by (simp_all only:) simp
qed

lemma boot_tables:
  fixes s :: "'a desc_state_scheme"
  assumes "\<And>a. frame_of a \<in> bmap_frames \<Longrightarrow> mem s a = 0" "aligned 3 pml4" "frame_of pml4 < 0x800" "frame_of pml4 \<noteq> 0x76"
  obtains s' where "(let (_, s2) = setup_gdt_tss initial_gdt (init_mems s); s3 = setup_idt addr s2
      in s3\<lparr>mem := clear_user_bits pml4 (mem s3)\<rparr>) = s'"
    "mm_inv s'" "page_prefix OS_PT_REG 4 s'" "tables_up addr (mem s')" "osalloc_chunks s' = map boot_chunk [0..<7]"
    "gdtr s' = \<lparr>limit = 63, idtr_base = 0x76000\<rparr>" "idt s' = \<lparr>limit = 0xfff, idtr_base = 0x2003000\<rparr>" "irq_stack s' = 0x2003000"
proof -
  define s1 where "s1 = init_mems s"
  note s1 = init_mems_pt [OF assms(1), folded s1_def]
  obtain m2 p2 c2 where G: "setup_gdt_tss initial_gdt s1 = (\<lparr>limit = 63, idtr_base = 0x76000\<rparr>, s1\<lparr>console := c2, mem := m2, pglists := p2,
      tss_page := 0x2001000, irq_stack := 0x2003000, gdtr := \<lparr>limit = 63, idtr_base = 0x76000\<rparr>, task_reg := 0x33\<rparr>)"
    "mm_inv (s1\<lparr>mem := m2, pglists := p2\<rparr>)" "page_prefix OS_PT_REG 3 (s1\<lparr>mem := m2, pglists := p2\<rparr>)"
    "user_gdt 0x76020 0x2001000 m2" "rd32 m2 0x2001024 = 0x2003000" "rd32 m2 0x2001028 = 0"
    by (rule setup_gdt_tss_boot [OF s1(1,2)])
  define s2 where "s2 = s1\<lparr>console := c2, mem := m2, pglists := p2,
      tss_page := 0x2001000, irq_stack := 0x2003000, gdtr := \<lparr>limit = 63, idtr_base = 0x76000\<rparr>, task_reg := 0x33\<rparr>"
  have i2: "mm_inv s2" "page_prefix OS_PT_REG 3 s2" using G(2,3) by (simp_all add: s2_def mm_inv_def page_prefix_def)
  obtain m3 p3 where I: "setup_idt addr s2 = s2\<lparr>mem := m3, pglists := p3, idt := \<lparr>limit = 0xfff, idtr_base = 0x2003000\<rparr>\<rparr>"
    "mm_inv (s2\<lparr>mem := m3, pglists := p3\<rparr>)" "page_prefix OS_PT_REG 4 (s2\<lparr>mem := m3, pglists := p3\<rparr>)"
    "\<And>a. frame_of a \<notin> bmap_frames \<Longrightarrow> frame_of a \<noteq> 0x2003 \<Longrightarrow> m3 a = mem s2 a"
    "\<And>v. v < 256 \<Longrightarrow> gate m3 0x2003000 v = gate_of addr v"
    by (rule setup_idt_boot [OF i2]) blast
  have t3: "tables_up addr m3"
  proof -
    have e: "m3 a = m2 a" if "frame_of a \<in> {0x76, 0x2001}" for a using I(4) [of a] that by (auto simp: s2_def)
    have "user_gdt 0x76020 0x2001000 m3 = user_gdt 0x76020 0x2001000 m2" by (rule gdt_page_cong) (simp add: e)
    moreover have "rd32 m3 0x2001024 = rd32 m2 0x2001024" "rd32 m3 0x2001028 = rd32 m2 0x2001028" by (simp_all add: rd32_def e)
    ultimately show ?thesis using G(4-6) I(5) by (simp add: tables_up_def)
  qed
  define m4 where "m4 = clear_user_bits pml4 m3"
  have m4: "m4 a = m3 a" if "0x800 \<le> frame_of a \<or> frame_of a = 0x76" for a
  proof -
    have "frame_of a \<noteq> frame_of pml4" using that assms(3,4) by auto
    then show ?thesis unfolding m4_def clear_user_bits_def by (intro wr64_frame [OF assms(2), of 12]) simp_all
  qed
  have b4: "m4 a = m3 a" if "frame_of a \<in> bmap_frames" for a using bmap_frames_low [OF that] by (intro m4) (auto simp: word_le_nat_alt)
  define s4 where "s4 = s2\<lparr>mem := m4, pglists := p3, idt := \<lparr>limit = 0xfff, idtr_base = 0x2003000\<rparr>\<rparr>"
  have E: "s2\<lparr>pglists := p3, idt := \<lparr>limit = 0xfff, idtr_base = 0x2003000\<rparr>, mem := m4\<rparr> = s4" by (simp add: s4_def)
  have i4: "mm_inv s4" "page_prefix OS_PT_REG 4 s4"
    using page_keep [where m = m4 and n = m3 and p = p3 and s = s2] b4 I(2,3) by (simp_all add: s4_def mm_inv_def page_prefix_def)
  have "m4 a = m3 a" if "frame_of a \<in> {0x76, 0x2001, 0x2003}" for a using that by (intro m4) auto
  then have t4: "tables_up addr (mem s4)" using t3 tables_up_cong [of m4 m3] by (simp add: s4_def)
  show thesis
  proof (rule that [OF _ i4 t4])
    show "(let (_, s2) = setup_gdt_tss initial_gdt (init_mems s); s3 = setup_idt addr s2
      in s3\<lparr>mem := clear_user_bits pml4 (mem s3)\<rparr>) = s4"
      unfolding Let_def s1_def [symmetric] G(1) s2_def [symmetric] prod.case I(1) by (simp add: m4_def [symmetric] E)
    show "osalloc_chunks s4 = map boot_chunk [0..<7]" using s1(3) by (simp add: s4_def s2_def)
    show "gdtr s4 = \<lparr>limit = 63, idtr_base = 0x76000\<rparr>" "idt s4 = \<lparr>limit = 0xfff, idtr_base = 0x2003000\<rparr>" "irq_stack s4 = 0x2003000"
      by (simp_all add: s4_def s2_def)
  qed
qed

text \<open>The swapper, the statistics and the configuration.\<close>

lemma boot_services:
  fixes s6 :: "'a kernel_scheme"
  assumes i6: "mm_inv s6" "page_prefix OS_PT_REG 4 s6" and chunks: "osalloc_chunks s6 = map boot_chunk [0..<7]"
  obtains m p l k st cf where
    "(let (q1, t1) = alloc_stats (init_swapper sw ss cs fl s6); (q2, t2) = alloc_config t1 in (q1, q2, t2)) =
      (0x803000, 0x802000, s6\<lparr>mem := m, pglists := p, ctx_list_addr := 0x2004000, ctx_list := l, osalloc_chunks := k,
         stats := st, config := cf\<rparr>)"
    "os_rsp (l ! 0) = 0x2006000" "state (l ! 0) = READY"
    "mm_inv (s6\<lparr>mem := m, pglists := p\<rparr>)" "page_prefix OS_PT_REG 6 (s6\<lparr>mem := m, pglists := p\<rparr>)"
    "\<And>a. frame_of a \<in> {0x76, 0x2001, 0x2003} \<Longrightarrow> m a = mem s6 a"
proof -
  obtain m7 p7 l where W: "init_swapper sw ss cs fl s6 =
      s6\<lparr>mem := m7, pglists := p7, ctx_list_addr := 0x2004000, ctx_list := l\<rparr>"
    "os_rsp (l ! 0) = 0x2006000" "state (l ! 0) = READY"
    "mm_inv (s6\<lparr>mem := m7, pglists := p7\<rparr>)" "page_prefix OS_PT_REG 6 (s6\<lparr>mem := m7, pglists := p7\<rparr>)"
    "\<And>a. frame_of a \<in> {0x76, 0x2001, 0x2003} \<Longrightarrow> m7 a = mem s6 a"
    by (rule init_swapper_boot [OF i6]) blast
  define s7 where "s7 = s6\<lparr>mem := m7, pglists := p7, ctx_list_addr := 0x2004000, ctx_list := l\<rparr>"
  have i7: "mm_inv s7" "page_prefix OS_PT_REG 6 s7" using W(4,5) by (simp_all add: s7_def mm_inv_def page_prefix_def)
  have "osalloc_chunks s7 = map boot_chunk [0..<7]" using chunks by (simp add: s7_def)
  then have ck: "osalloc_chunks s7 ! 1 = boot_chunk 1" "osalloc_chunks s7 ! 0 = boot_chunk 0" by simp_all
  obtain m8 k8 where S: "alloc_stats s7 = (0x803000, s7\<lparr>osalloc_chunks := (osalloc_chunks s7)[1 := k8], mem := m8, stats := zero_stats\<rparr>)"
    "mm_inv (s7\<lparr>mem := m8\<rparr>)" "page_prefix OS_PT_REG 6 (s7\<lparr>mem := m8\<rparr>)" "\<And>a. frame_of a \<noteq> 0x803 \<Longrightarrow> m8 a = mem s7 a"
    by (rule alloc_stats_boot [OF i7 ck(1)]) blast
  define s8 where "s8 = s7\<lparr>osalloc_chunks := (osalloc_chunks s7)[1 := k8], mem := m8, stats := zero_stats\<rparr>"
  have i8: "mm_inv s8" "page_prefix OS_PT_REG 6 s8" using S(2,3) by (simp_all add: s8_def mm_inv_def page_prefix_def)
  have ck8: "osalloc_chunks s8 ! 0 = boot_chunk 0" using ck(2) by (simp add: s8_def)
  obtain m9 k9 cf9 where C: "alloc_config s8 = (0x802000, s8\<lparr>osalloc_chunks := (osalloc_chunks s8)[0 := k9], mem := m9, config := cf9\<rparr>)"
    "mm_inv (s8\<lparr>mem := m9\<rparr>)" "page_prefix OS_PT_REG 6 (s8\<lparr>mem := m9\<rparr>)" "\<And>a. frame_of a \<noteq> 0x802 \<Longrightarrow> m9 a = mem s8 a"
    by (rule alloc_config_boot [OF i8 ck8]) blast
  have mem: "m9 a = mem s6 a" if "frame_of a \<in> {0x76, 0x2001, 0x2003}" for a
  proof -
    have "m9 a = m7 a" using C(4) S(4) that by (auto simp: s8_def s7_def)
    then show ?thesis using W(6) [OF that] by simp
  qed
  have eq: "(let (q1, t1) = alloc_stats (init_swapper sw ss cs fl s6); (q2, t2) = alloc_config t1 in (q1, q2, t2)) =
      (0x803000, 0x802000, s6\<lparr>mem := m9, pglists := p7, ctx_list_addr := 0x2004000, ctx_list := l,
        osalloc_chunks := (osalloc_chunks s8)[0 := k9], stats := zero_stats, config := cf9\<rparr>)"
    by (simp only: W(1) [folded s7_def] S(1) [folded s8_def] C(1) Let_def prod.case) (simp add: s8_def s7_def)
  have "mm_inv (s6\<lparr>mem := m9, pglists := p7\<rparr>)" "page_prefix OS_PT_REG 6 (s6\<lparr>mem := m9, pglists := p7\<rparr>)"
    using C(2,3) by (simp_all add: s8_def s7_def mm_inv_def page_prefix_def)
  then show thesis by (rule that [OF eq W(2,3) _ _ mem])
qed

text \<open>C31: The state that boot leaves. On a machine whose bitmap frames are clear, whose
  level-4 table lies below the kernel's memory outside the page of the segment table, and whose
  interrupt controller lies above it, \<open>main\<close> after its call of
  \<open>console_init\<close> reaches the shell with every gate of the interrupt table as
  \<open>gate_of\<close> says, user code and data segments and the task state segment in the segment
  table, the interrupt stack one frame below the interrupt table, the swapper ready on its own
  stack, the statistics and the configuration in the first objects of their classes, and six pages
  of the page table region in use.\<close>

theorem boot_main_layout:
  assumes "\<And>a. frame_of a \<in> bmap_frames \<Longrightarrow> mem s a = 0"
    and "aligned 3 (cr3_reg c)" "frame_of (cr3_reg c) < 0x800" "frame_of (cr3_reg c) \<noteq> 0x76"
    and "0x20000 \<le> frame_of (push_bit 32 (msr_hi c) OR msr_lo c)"
    and "boot_main c addr sw s = (st, cf, t)"
  shows "st = 0x803000 \<and> cf = 0x802000 \<and> tables_up addr (mem t) \<and>
    gdtr t = \<lparr>limit = 63, idtr_base = 0x76000\<rparr> \<and> idt t = \<lparr>limit = 0xfff, idtr_base = 0x2003000\<rparr> \<and> irq_stack t = 0x2003000 \<and>
    ctx_list_addr t = 0x2004000 \<and> os_rsp (ctx_list t ! 0) = 0x2006000 \<and> state (ctx_list t ! 0) = READY \<and>
    mm_inv t \<and> page_prefix OS_PT_REG 6 t"
proof -
  obtain c0 where c0: "boot_messages c s = s\<lparr>console := c0\<rparr>" using boot_messages_console by blast
  define s0 where "s0 = s\<lparr>console := c0\<rparr>"
  obtain s4 where T: "(let (_, s2) = setup_gdt_tss initial_gdt (init_mems s0); s3 = setup_idt addr s2
      in s3\<lparr>mem := clear_user_bits (cr3_reg c) (mem s3)\<rparr>) = s4"
    "mm_inv s4" "page_prefix OS_PT_REG 4 s4" "tables_up addr (mem s4)" "osalloc_chunks s4 = map boot_chunk [0..<7]"
    "gdtr s4 = \<lparr>limit = 63, idtr_base = 0x76000\<rparr>" "idt s4 = \<lparr>limit = 0xfff, idtr_base = 0x2003000\<rparr>" "irq_stack s4 = 0x2003000"
    by (rule boot_tables [of s0 "cr3_reg c" addr]) (use assms(1-4) that in \<open>simp_all add: s0_def\<close>)
  define b where "b = push_bit 12 (frame_of (push_bit 32 (msr_hi c) OR msr_lo c))"
  obtain m5 c5 where P: "init_apic (msr_lo c) (msr_hi c) s4 = s4\<lparr>console := c5, mem := m5,
      apic_base := b\<rparr>"
    "\<And>a. frame_of a < 0x20000 \<Longrightarrow> m5 a = mem s4 a"
    by (rule init_apic_keeps [OF assms(5), of s4, folded b_def], rule that; assumption)
  define s5 where "s5 = s4\<lparr>console := c5, mem := m5, apic_base := b\<rparr>"
  obtain c6 where c6: "printf ''gemOS shell... \<newline>'' [] s5 = s5\<lparr>console := c6\<rparr>" by (rule printf_console)
  define s6 where "s6 = s5\<lparr>console := c6\<rparr>"
  have b5: "m5 a = mem s4 a" if "frame_of a \<in> bmap_frames" for a
    using bmap_frames_low [OF that] by (intro P(2)) (auto simp: word_less_nat_alt)
  have i6: "mm_inv s6" "page_prefix OS_PT_REG 4 s6"
  proof -
    have "mm_inv (s4\<lparr>mem := m5\<rparr>)" "page_prefix OS_PT_REG 4 (s4\<lparr>mem := m5\<rparr>)"
      using boot_keep(1) [OF b5] boot_keep(2) [OF b5, of OS_PT_REG 4] T(2,3) by simp_all
    then show "mm_inv s6" "page_prefix OS_PT_REG 4 s6" by (simp_all add: s6_def s5_def mm_inv_def page_prefix_def)
  qed
  have "osalloc_chunks s6 = map boot_chunk [0..<7]" using T(5) by (simp add: s6_def s5_def)
  then obtain m p l k so cf' where W: "(let (q1, t1) = alloc_stats (init_swapper sw (ucast (ss_reg c)) (ucast (cs_reg c)) (rflags_reg c) s6);
        (q2, t2) = alloc_config t1 in (q1, q2, t2)) =
      (0x803000, 0x802000, s6\<lparr>mem := m, pglists := p, ctx_list_addr := 0x2004000, ctx_list := l, osalloc_chunks := k,
         stats := so, config := cf'\<rparr>)"
    "os_rsp (l ! 0) = 0x2006000" "state (l ! 0) = READY"
    "mm_inv (s6\<lparr>mem := m, pglists := p\<rparr>)" "page_prefix OS_PT_REG 6 (s6\<lparr>mem := m, pglists := p\<rparr>)"
    "\<And>a. frame_of a \<in> {0x76, 0x2001, 0x2003} \<Longrightarrow> m a = mem s6 a"
    by (rule boot_services [OF i6]) blast
  define s9 where "s9 = s6\<lparr>mem := m, pglists := p, ctx_list_addr := 0x2004000, ctx_list := l, osalloc_chunks := k, stats := so, config := cf'\<rparr>"
  have "boot_main c addr sw s = (0x803000, 0x802000, s9)"
    using T(1) W(1) [folded s9_def] unfolding boot_main_def Let_def c0 s0_def [symmetric]
    by (auto simp: split_beta P(1) s5_def [symmetric] c6 s6_def [symmetric])
  then have t: "st = 0x803000" "cf = 0x802000" "t = s9" using assms(6) by simp_all
  have "mem s9 a = mem s4 a" if "frame_of a \<in> {0x76, 0x2001, 0x2003}" for a
  proof -
    have "mem s9 a = m5 a" using W(6) [OF that] by (simp add: s9_def s6_def s5_def)
    also have "\<dots> = mem s4 a" using that by (intro P(2)) auto
    finally show ?thesis .
  qed
  then have "tables_up addr (mem s9)" using T(4) tables_up_cong [of "mem s9" "mem s4"] by blast
  moreover have "mm_inv s9" "page_prefix OS_PT_REG 6 s9" using W(4,5) by (simp_all add: s9_def mm_inv_def page_prefix_def)
  moreover have "gdtr s9 = \<lparr>limit = 63, idtr_base = 0x76000\<rparr> \<and> idt s9 = \<lparr>limit = 0xfff, idtr_base = 0x2003000\<rparr> \<and>
      irq_stack s9 = 0x2003000 \<and> ctx_list_addr s9 = 0x2004000 \<and> ctx_list s9 = l"
    using T(6-8) by (simp add: s9_def s6_def s5_def)
  ultimately show ?thesis using W(2,3) by (simp add: t)
qed


text \<open>A machine whose page tables, as the assembly sets them up, are below the kernel's memory.\<close>

definition reset_regs :: cpu_regs where
  "reset_regs = \<lparr>cs_reg = 8, ss_reg = 16, ds_reg = 16, esp_reg = 0, ebp_reg = 0, cr0_reg = 0x80000011, cr3_reg = 0x70000,
     cr4_reg = 0x20, rflags_reg = 2, msr_lo = 0xfee00900, msr_hi = 0\<rparr>"

definition reset_state :: desc_state where
  "reset_state = kernel.extend zero_kernel \<lparr>tss_page = 0, irq_stack = 0, idt = \<lparr>limit = 0, idtr_base = 0\<rparr>,
     gdtr = initial_gdt, task_reg = 0\<rparr>"

theorem boot_main_layout_witness:
  "tables_up (\<lambda>_. 0x900000) (mem (snd (snd (boot_main reset_regs (\<lambda>_. 0x900000) 0x910000 reset_state))))"
proof -
  obtain st cf t where "boot_main reset_regs (\<lambda>_. 0x900000) 0x910000 reset_state = (st, cf, t)" by (metis prod_cases3)
  moreover have "aligned 3 0x70000" by (simp add: aligned_def)
  ultimately show ?thesis
    using boot_main_layout [of reset_state reset_regs "\<lambda>_. 0x900000" "0x910000" st cf t]
    by (simp add: reset_regs_def reset_state_def kernel.defs zero_kernel_def)
qed

end
