(* ===== verification/Serial.thy ===== *)
theory Serial
  imports Cstring
begin

text \<open>
  The serial line (\<open>serial.c\<close>) on a port-mapped device. The device is a parameter \<open>dev\<close>: what a
  read of a port returns may depend on everything that was read and written before, the history
  \<open>io\<close>. Polling a device that never becomes ready does not end (\<open>None\<close>). The bytes that a history
  transmits refine the console of \<open>Console\<close>; the bytes it receives are the input lines of the
  shell.
\<close>

subsection \<open>Ports\<close>

datatype port_event = In u16 u8 | Out u16 u8

type_synonym io = "port_event list"
type_synonym device = "io \<Rightarrow> u16 \<Rightarrow> u8"

definition inb :: "device \<Rightarrow> u16 \<Rightarrow> io \<Rightarrow> u8 \<times> io" where
  "inb dev port h = (dev h port, h @ [In port (dev h port)])"

definition outb :: "u16 \<Rightarrow> u8 \<Rightarrow> io \<Rightarrow> io" where
  "outb port val h = h @ [Out port val]"

subsection \<open>The serial line\<close>

abbreviation XMTRDY :: u8 where "XMTRDY \<equiv> 0x20"
abbreviation RCVRDY :: u8 where "RCVRDY \<equiv> 0x1"
abbreviation DLAB :: u8 where "DLAB \<equiv> 0x80"
abbreviation TXR :: u16 where "TXR \<equiv> 0"
abbreviation RXR :: u16 where "RXR \<equiv> 0"
abbreviation IER :: u16 where "IER \<equiv> 1"
abbreviation FCR :: u16 where "FCR \<equiv> 2"
abbreviation LCR :: u16 where "LCR \<equiv> 3"
abbreviation MCR :: u16 where "MCR \<equiv> 4"
abbreviation LSR :: u16 where "LSR \<equiv> 5"
abbreviation DLL :: u16 where "DLL \<equiv> 0"
abbreviation DLH :: u16 where "DLH \<equiv> 1"
abbreviation BAUD :: u32 where "BAUD \<equiv> 9600"

abbreviation com_base :: u16 where "com_base \<equiv> 0x3f8" \<comment> \<open>\<open>static u16 base\<close>\<close>

definition serial_init :: "device \<Rightarrow> io \<Rightarrow> io" where
  "serial_init dev h =
     (let divisor = 115200 div BAUD;
          h1 = outb (com_base + LCR) 0x3 h;
          h2 = outb (com_base + IER) 0 h1;
          h3 = outb (com_base + FCR) 0 h2;
          h4 = outb (com_base + MCR) 0x3 h3;
          (c, h5) = inb dev (com_base + LCR) h4;
          h6 = outb (com_base + LCR) (c OR DLAB) h5;
          h7 = outb (com_base + DLL) (ucast (divisor AND 0xff)) h6;
          h8 = outb (com_base + DLH) (ucast (drop_bit 8 divisor AND 0xff)) h7
      in outb (com_base + LCR) (c AND NOT DLAB) h8)"

definition console_init :: "device \<Rightarrow> io \<Rightarrow> io" where "console_init = serial_init" \<comment> \<open>\<open>lib.c\<close>\<close>

text \<open>\<open>while ((inb(base + LSR) & bit) == 0);\<close>\<close>

partial_function (option) await :: "device \<Rightarrow> u8 \<Rightarrow> io \<Rightarrow> io option" where
  "await dev flag h =
     (let (c, h1) = inb dev (com_base + LSR) h in
      if c AND flag = 0 then await dev flag h1 else Some h1)"

definition serial_putc :: "device \<Rightarrow> u8 \<Rightarrow> io \<Rightarrow> io option" where
  "serial_putc dev ch h = map_option (outb (com_base + TXR) ch) (await dev XMTRDY h)"

partial_function (option) serial_write_at :: "device \<Rightarrow> memory \<Rightarrow> u64 \<Rightarrow> io \<Rightarrow> io option" where
  "serial_write_at dev m buf h =
     (let ch = m buf in
      if ch = 0 then Some h
      else Option.bind (serial_putc dev ch h) (\<lambda>h1.
        Option.bind (if ch = 10 then serial_putc dev 13 h1 else Some h1)
          (serial_write_at dev m (buf + 1))))"

definition serial_getc :: "device \<Rightarrow> io \<Rightarrow> (u8 \<times> io) option" where
  "serial_getc dev h = map_option (inb dev (com_base + RXR)) (await dev RCVRDY h)"

text \<open>The two loops of \<open>serial_read\<close>: up to a carriage return into the buffer, which is not
  bounded, then up to a line feed.\<close>

partial_function (option) read_line :: "device \<Rightarrow> u64 \<Rightarrow> u32 \<Rightarrow> memory \<Rightarrow> io \<Rightarrow> (memory \<times> u32 \<times> io) option" where
  "read_line dev buf ctr m h =
     Option.bind (serial_getc dev h) (\<lambda>(ch, h1).
       if ch \<noteq> 13 then read_line dev buf (ctr + 1) (m(buf + ucast ctr := ch)) h1 else Some (m, ctr, h1))"

partial_function (option) skip_line :: "device \<Rightarrow> io \<Rightarrow> io option" where
  "skip_line dev h =
     Option.bind (serial_getc dev h) (\<lambda>(ch, h1). if ch \<noteq> 10 then skip_line dev h1 else Some h1)"

definition serial_read :: "device \<Rightarrow> u64 \<Rightarrow> memory \<Rightarrow> io \<Rightarrow> (memory \<times> io) option" where
  "serial_read dev buf m h =
     Option.bind (read_line dev buf 0 m h) (\<lambda>(m1, ctr, h1).
       map_option (\<lambda>h2. (m1(buf + ucast ctr := 0), h2)) (skip_line dev h1))"

subsection \<open>What a history transmits and receives\<close>

fun sent :: "io \<Rightarrow> u8 list" where
  "sent [] = []"
| "sent (Out port val # h) = (if port = com_base + TXR then val # sent h else sent h)"
| "sent (In port val # h) = sent h"

fun read_on :: "u16 \<Rightarrow> io \<Rightarrow> u8 list" where
  "read_on p [] = []"
| "read_on p (In port val # h) = (if port = p then val # read_on p h else read_on p h)"
| "read_on p (Out port val # h) = read_on p h"

abbreviation received :: "io \<Rightarrow> u8 list" where "received \<equiv> read_on (com_base + RXR)"

lemma sent_append [simp]: "sent (h @ k) = sent h @ sent k"
  by (induction h rule: sent.induct) auto

lemma read_on_append [simp]: "read_on p (h @ k) = read_on p h @ read_on p k"
  by (induction p h rule: read_on.induct) auto

lemma ports_simps [simp]:
  "sent (snd (inb dev p h)) = sent h"
  "sent (outb p v h) = sent h @ (if p = com_base + TXR then [v] else [])"
  "read_on r (outb p v h) = read_on r h"
  "read_on r (snd (inb dev p h)) = read_on r h @ (if p = r then [dev h p] else [])"
  "fst (inb dev p h) = dev h p"
  by (simp_all add: inb_def outb_def)

subsection \<open>Polling\<close>

fun polls :: "device \<Rightarrow> u16 \<Rightarrow> nat \<Rightarrow> io \<Rightarrow> io" where
  "polls dev p 0 h = h"
| "polls dev p (Suc n) h = polls dev p n (snd (inb dev p h))"

text \<open>From every history, the device raises the flag of a status port after finitely many polls.\<close>

definition responsive_at :: "u16 \<Rightarrow> u8 \<Rightarrow> device \<Rightarrow> bool" where
  "responsive_at p flag dev \<longleftrightarrow> (\<forall>h. \<exists>n. dev (polls dev p n h) p AND flag \<noteq> 0)"

abbreviation responsive :: "u8 \<Rightarrow> device \<Rightarrow> bool" where
  "responsive \<equiv> responsive_at (com_base + LSR)"

lemma await_polls:
  "dev (polls dev (com_base + LSR) n h) (com_base + LSR) AND flag \<noteq> 0 \<Longrightarrow>
    \<exists>h'. await dev flag h = Some h' \<and> sent h' = sent h \<and> received h' = received h"
proof (induction n arbitrary: h)
  case 0
  then show ?case by (simp add: await.simps [of dev flag h] inb_def)
next
  case (Suc n)
  show ?case
  proof (cases "dev h (com_base + LSR) AND flag = 0")
    case True
    then have "await dev flag h = await dev flag (snd (inb dev (com_base + LSR) h))"
      by (subst await.simps) (simp add: inb_def)
    then show ?thesis using Suc.IH [of "snd (inb dev (com_base + LSR) h)"] Suc.prems by simp
  next
    case False
    then show ?thesis by (simp add: await.simps [of dev flag h] inb_def)
  qed
qed

text \<open>The polling loop returns exactly when the flag is raised at some point, after the first read
  that shows it.\<close>

lemma await_Some:
  assumes "await dev flag h = Some h'"
  shows "\<exists>n. dev (polls dev (com_base + LSR) n h) (com_base + LSR) AND flag \<noteq> 0"
  using _ assms
proof (rule await.raw_induct [where P = "\<lambda>dev flag h h'. \<exists>n. dev (polls dev (com_base + LSR) n h) (com_base + LSR) AND flag \<noteq> 0"])
  fix await dev flag h h'
  assume IH: "\<And>dev flag h h'. await dev flag h = Some h' \<Longrightarrow> \<exists>n. dev (polls dev (com_base + LSR) n h) (com_base + LSR) AND flag \<noteq> 0"
    and step: "(let (c, h1) = inb dev (com_base + LSR) h in if c AND flag = 0 then await dev flag h1 else Some h1) = Some h'"
  show "\<exists>n. dev (polls dev (com_base + LSR) n h) (com_base + LSR) AND flag \<noteq> 0"
  proof (cases "dev h (com_base + LSR) AND flag = 0")
    case True
    then have "await dev flag (snd (inb dev (com_base + LSR) h)) = Some h'" using step by (simp add: inb_def)
    then obtain n where "dev (polls dev (com_base + LSR) n (snd (inb dev (com_base + LSR) h))) (com_base + LSR) AND flag \<noteq> 0"
      using IH by blast
    then show ?thesis by (intro exI [of _ "Suc n"]) simp
  next
    case False
    then show ?thesis by (intro exI [of _ 0]) simp
  qed
qed

lemma await_responsive:
  assumes "responsive flag dev"
  obtains h' where "await dev flag h = Some h'" "sent h' = sent h" "received h' = received h"
  using assms await_polls unfolding responsive_at_def by metis

lemma serial_putc_sends:
  assumes "responsive XMTRDY dev"
  obtains h' where "serial_putc dev ch h = Some h'" "sent h' = sent h @ [ch]" "received h' = received h"
proof -
  obtain h0 where "await dev XMTRDY h = Some h0" "sent h0 = sent h" "received h0 = received h"
    by (rule await_responsive [OF assms])
  then show thesis by (intro that [of "outb (com_base + TXR) ch h0"]) (simp_all add: serial_putc_def)
qed

lemma serial_write_at_sends:
  assumes "responsive XMTRDY dev"
  shows "cstr m buf s \<Longrightarrow> \<exists>h'. serial_write_at dev m buf h = Some h' \<and> sent h' = sent h @ serial_write s \<and> received h' = received h"
proof (induction s arbitrary: buf h)
  case Nil
  then show ?case by (simp add: serial_write_at.simps [of dev m buf h])
next
  case (Cons c s)
  obtain h1 where h1: "serial_putc dev c h = Some h1" "sent h1 = sent h @ [c]" "received h1 = received h"
    by (rule serial_putc_sends [OF assms])
  obtain h2 where h2: "(if c = 10 then serial_putc dev 13 h1 else Some h1) = Some h2"
    "sent h2 = sent h1 @ (if c = 10 then [13] else [])" "received h2 = received h1"
  proof (cases "c = 10")
    case True
    then show ?thesis using serial_putc_sends [OF assms, of 13 h1] that by auto
  qed (use that in simp)
  obtain h3 where "serial_write_at dev m (buf + 1) h2 = Some h3" "sent h3 = sent h2 @ serial_write s" "received h3 = received h2"
    using Cons.IH [of "buf + 1" h2] Cons.prems by auto
  then show ?case using h1 h2 Cons.prems by (simp add: serial_write_at.simps [of dev m buf h])
qed

lemma serial_write_term: "0 \<notin> set s \<Longrightarrow> serial_write (s @ 0 # t) = serial_write s"
  by (induction s) auto

subsection \<open>Input\<close>

text \<open>A data port that returns the bytes \<open>inp\<close> one after the other.\<close>

definition types_at :: "u16 \<Rightarrow> (nat \<Rightarrow> u8) \<Rightarrow> device \<Rightarrow> bool" where
  "types_at p inp dev \<longleftrightarrow> (\<forall>h. dev h p = inp (length (read_on p h)))"

abbreviation types :: "(nat \<Rightarrow> u8) \<Rightarrow> device \<Rightarrow> bool" where
  "types \<equiv> types_at (com_base + RXR)"

lemma serial_getc_types:
  assumes "responsive RCVRDY dev" "types inp dev"
  obtains h' where "serial_getc dev h = Some (inp (length (received h)), h')"
    "received h' = received h @ [inp (length (received h))]" "sent h' = sent h"
proof -
  obtain h0 where h0: "await dev RCVRDY h = Some h0" "sent h0 = sent h" "received h0 = received h"
    by (rule await_responsive [OF assms(1)])
  have "inb dev (com_base + RXR) h0 = (inp (length (received h)), snd (inb dev (com_base + RXR) h0))"
    using assms(2) h0(3) by (simp add: inb_def types_at_def)
  then show thesis using h0 assms(2) by (intro that [of "snd (inb dev (com_base + RXR) h0)"]) (simp_all add: serial_getc_def types_at_def)
qed

lemma ucast_index: "k < 2 ^ 32 \<Longrightarrow> ucast (of_nat k :: u32) = (of_nat k :: u64)"
  by (simp add: word_unat_eq_iff unat_of_nat_small)

lemma read_line_types:
  assumes dev: "responsive RCVRDY dev" "types inp dev" and "k + length s < 2 ^ 32"
  shows "\<lbrakk>\<And>i. i < length s \<Longrightarrow> inp (length (received h) + i) = s ! i; 13 \<notin> set s; inp (length (received h) + length s) = 13\<rbrakk> \<Longrightarrow>
    \<exists>h'. read_line dev buf (of_nat k) m h = Some (put_bytes m (buf + of_nat k) s, of_nat (k + length s), h') \<and>
      received h' = received h @ s @ [13] \<and> sent h' = sent h"
  using assms(3)
proof (induction s arbitrary: k m h)
  case Nil
  obtain h' where "serial_getc dev h = Some (inp (length (received h)), h')"
    "received h' = received h @ [inp (length (received h))]" "sent h' = sent h"
    by (rule serial_getc_types [OF dev])
  then show ?case using Nil by (simp add: read_line.simps [of dev buf "of_nat k" m h])
next
  case (Cons c s)
  obtain h1 where h1: "serial_getc dev h = Some (inp (length (received h)), h1)"
    "received h1 = received h @ [inp (length (received h))]" "sent h1 = sent h"
    by (rule serial_getc_types [OF dev])
  have c: "inp (length (received h)) = c" using Cons.prems(1) [of 0] by simp
  have "inp (length (received h1) + i) = s ! i" if "i < length s" for i
    using Cons.prems(1) [of "Suc i"] that h1(2) by simp
  moreover have "inp (length (received h1) + length s) = 13" "13 \<notin> set s" "Suc k + length s < 2 ^ 32"
    using Cons.prems h1(2) by simp_all
  ultimately obtain h' where
    "read_line dev buf (of_nat (Suc k)) (m(buf + of_nat k := c)) h1 =
       Some (put_bytes (m(buf + of_nat k := c)) (buf + of_nat (Suc k)) s, of_nat (Suc k + length s), h')"
    "received h' = received h1 @ s @ [13]" "sent h' = sent h1"
    using Cons.IH [of h1 "Suc k" "m(buf + of_nat k := c)"] by blast
  moreover have "ucast (of_nat k :: u32) = (of_nat k :: u64)"
    using Cons.prems(4) by (intro ucast_index) simp
  ultimately show ?case
    using h1 c Cons.prems(2) by (simp add: read_line.simps [of dev buf "of_nat k" m h] algebra_simps)
qed

lemma skip_line_types:
  assumes dev: "responsive RCVRDY dev" "types inp dev"
  shows "\<lbrakk>\<And>i. i < length s \<Longrightarrow> inp (length (received h) + i) = s ! i; 10 \<notin> set s; inp (length (received h) + length s) = 10\<rbrakk> \<Longrightarrow>
    \<exists>h'. skip_line dev h = Some h' \<and> received h' = received h @ s @ [10] \<and> sent h' = sent h"
proof (induction s arbitrary: h)
  case Nil
  obtain h' where "serial_getc dev h = Some (inp (length (received h)), h')"
    "received h' = received h @ [inp (length (received h))]" "sent h' = sent h"
    by (rule serial_getc_types [OF dev])
  then show ?case using Nil by (simp add: skip_line.simps [of dev h])
next
  case (Cons c s)
  obtain h1 where h1: "serial_getc dev h = Some (inp (length (received h)), h1)"
    "received h1 = received h @ [inp (length (received h))]" "sent h1 = sent h"
    by (rule serial_getc_types [OF dev])
  have "inp (length (received h)) = c" using Cons.prems(1) [of 0] by simp
  moreover have "inp (length (received h1) + i) = s ! i" if "i < length s" for i
    using Cons.prems(1) [of "Suc i"] that h1(2) by simp
  moreover have "inp (length (received h1) + length s) = 10" "10 \<notin> set s"
    using Cons.prems h1(2) by simp_all
  ultimately show ?case
    using Cons.IH [of h1] h1 Cons.prems(2) by (auto simp: skip_line.simps [of dev h])
qed

lemma serial_read_types:
  assumes "responsive RCVRDY dev" "types inp dev" "length s < 2 ^ 31"
    and "\<forall>i < length (s @ 13 # t @ [10]). inp (length (received h) + i) = (s @ 13 # t @ [10]) ! i"
    and "0 \<notin> set s" "13 \<notin> set s" "10 \<notin> set t"
  shows "\<exists>m' h'. serial_read dev buf m h = Some (m', h') \<and> cstr m' buf s \<and>
    (\<forall>x. length s < unat (x - buf) \<longrightarrow> m' x = m x) \<and> received h' = received h @ s @ 13 # t @ [10] \<and> sent h' = sent h"
proof -
  have inp: "inp (length (received h) + i) = (s @ 13 # t @ [10]) ! i" if "i < length s + length t + 2" for i
    using assms(4) that by simp
  have "inp (length (received h) + i) = s ! i" if "i < length s" for i using inp [of i] that by (simp add: nth_append)
  moreover have "inp (length (received h) + length s) = 13" using inp [of "length s"] by (simp add: nth_append)
  ultimately obtain h1 where h1: "read_line dev buf 0 m h = Some (put_bytes m buf s, of_nat (length s), h1)"
      "received h1 = received h @ s @ [13]" "sent h1 = sent h"
    using read_line_types [OF assms(1,2), of 0 s h buf m] assms(3,6) by auto
  have "inp (length (received h1) + i) = t ! i" if "i < length t" for i
    using inp [of "length s + Suc i"] that h1(2) by (simp add: nth_append add.assoc)
  moreover have "inp (length (received h1) + length t) = 10"
    using inp [of "length s + Suc (length t)"] h1(2) by (simp add: nth_append add.assoc)
  ultimately obtain h2 where h2: "skip_line dev h1 = Some h2" "received h2 = received h1 @ t @ [10]" "sent h2 = sent h1"
    using skip_line_types [OF assms(1,2), of t h1] assms(7) by blast
  define m' where "m' = (put_bytes m buf s)(buf + scast (of_nat (length s) :: s32) := 0)"
  have "ucast (of_nat (length s) :: u32) = (of_nat (length s) :: u64)"
    using assms(3) by (intro ucast_index) simp
  then have "serial_read dev buf m h = Some (m', h2)"
    using h1(1) h2(1) scast_index [OF assms(3)] by (simp add: serial_read_def m'_def)
  moreover have "cstr m' buf s" unfolding m'_def by (rule put_bytes_cstr [OF assms(3,5)])
  moreover have "m' x = m x" if "length s < unat (x - buf)" for x
    using that assms(3) scast_index [OF assms(3)] unat_of_nat_small [of "length s", where ?'a = 64]
    by (auto simp: m'_def put_bytes_apply)
  ultimately show ?thesis using h1(2,3) h2(2,3) by auto
qed

subsection \<open>Properties\<close>

text \<open>A device that is always ready and sends the bytes of \<open>inp\<close>.\<close>

definition ready_uart :: "(nat \<Rightarrow> u8) \<Rightarrow> device" where
  "ready_uart inp = (\<lambda>h p. if p = com_base + LSR then 0x21 else if p = com_base + RXR then inp (length (received h)) else 0)"

lemma ready_uart: "responsive XMTRDY (ready_uart inp)" "responsive RCVRDY (ready_uart inp)" "types inp (ready_uart inp)"
  by (auto simp: responsive_at_def types_at_def ready_uart_def intro!: exI [of _ 0])

text \<open>C35: The polling driver refines the console model: on a device that becomes ready
  after finitely many polls, \<open>serial_write\<close> of a string returns and has sent exactly
  its bytes, each line feed followed by a carriage return, and has not consumed any input.\<close>

theorem serial_write_refines:
  assumes "responsive XMTRDY dev" "cstr m buf s"
  shows "\<exists>h'. serial_write_at dev m buf h = Some h' \<and> sent h' = sent h @ serial_write (s @ [0]) \<and> received h' = received h"
proof -
  have "0 \<notin> set s" using assms(2) by (auto simp: cstr_iff in_set_conv_nth)
  then show ?thesis using serial_write_at_sends [OF assms] by (simp add: serial_write_term)
qed

theorem serial_write_refines_witness:
  "\<exists>h'. serial_write_at (ready_uart (\<lambda>_. 0)) text_memory 100 [] = Some h' \<and> sent h' = str ''init''"
  using serial_write_refines [OF ready_uart(1) text_memory_strings(1), of "\<lambda>_. 0" "[]"] by auto

text \<open>\<open>serial_read\<close> of a line: it is stored as a string and consumed, and nothing else is written.\<close>

theorem serial_read_line:
  assumes "responsive RCVRDY dev" "types inp dev" "length s < 2 ^ 31"
    and "\<forall>i < length (s @ 13 # t @ [10]). inp (length (received h) + i) = (s @ 13 # t @ [10]) ! i"
    and "0 \<notin> set s" "13 \<notin> set s" "10 \<notin> set t"
  shows "\<exists>m' h'. serial_read dev buf m h = Some (m', h') \<and> cstr m' buf s \<and>
    (\<forall>x. length s < unat (x - buf) \<longrightarrow> m' x = m x) \<and> received h' = received h @ s @ 13 # t @ [10] \<and> sent h' = sent h"
  by (rule serial_read_types [OF assms])

theorem serial_read_line_witness:
  "\<exists>m' h'. serial_read (ready_uart (\<lambda>i. (str ''help'' @ [13, 10]) ! i)) 500 (\<lambda>_. 7) [] = Some (m', h') \<and>
    cstr m' 500 (str ''help'') \<and> received h' = str ''help'' @ [13, 10]"
  using serial_read_line [where dev = "ready_uart (\<lambda>i. (str ''help'' @ [13, 10]) ! i)" and inp = "\<lambda>i. (str ''help'' @ [13, 10]) ! i"
    and s = "str ''help''" and t = "[]" and h = "[]" and buf = 500 and m = "\<lambda>_. 7"]
  by (auto simp: ready_uart ready_uart [simplified])


text \<open>C36: Termination of polling: \<open>serial_putc\<close> returns if and only if some
  poll of the line status register shows the transmitter ready, and \<open>serial_getc\<close> if
  and only if some poll shows a received byte; otherwise they never return.\<close>

theorem polling_returns_iff:
  "(\<exists>h'. serial_putc dev ch h = Some h') =
      (\<exists>n. dev (polls dev (com_base + LSR) n h) (com_base + LSR) AND XMTRDY \<noteq> 0) \<and>
    (\<exists>c h'. serial_getc dev h = Some (c, h')) =
      (\<exists>n. dev (polls dev (com_base + LSR) n h) (com_base + LSR) AND RCVRDY \<noteq> 0)"
proof -
  have r: "(\<exists>h'. await dev flag h = Some h') = (\<exists>n. dev (polls dev (com_base + LSR) n h) (com_base + LSR) AND flag \<noteq> 0)" for flag
    using await_Some await_polls by blast
  have "(\<exists>h'. serial_putc dev ch h = Some h') = (\<exists>h'. await dev XMTRDY h = Some h')"
    by (auto simp: serial_putc_def)
  moreover have "(\<exists>c h'. serial_getc dev h = Some (c, h')) = (\<exists>h'. await dev RCVRDY h = Some h')"
    by (auto simp: serial_getc_def)
  ultimately show ?thesis unfolding r by simp
qed

end
