(* ===== verification/Keyboard.thy ===== *)
theory Keyboard
  imports Serial
begin

text \<open>
  The keyboard controller (\<open>kbd.c\<close>, \<open>include/kbd.h\<close>): \<open>kbd_reboot\<close>, which drains the controller
  and pulses the reset line, and \<open>kbd_read\<close>, which turns scan codes into a line of text.
  \<open>typing\<close> is what a sequence of scan codes means: a state machine on the modifier bits.
\<close>

subsection \<open>Constants\<close>

abbreviation KBD_CTRL_PORT :: u16 where "KBD_CTRL_PORT \<equiv> 0x64"
abbreviation KBD_DATA_PORT :: u16 where "KBD_DATA_PORT \<equiv> 0x60"
abbreviation KBRD_RESET :: u8 where "KBRD_RESET \<equiv> 0xFE"
abbreviation SC_ERROR :: u8 where "SC_ERROR \<equiv> 0"
abbreviation SC_CAPS :: u8 where "SC_CAPS \<equiv> 58"
abbreviation SC_LSFT :: u8 where "SC_LSFT \<equiv> 42"
abbreviation SC_RSFT :: u8 where "SC_RSFT \<equiv> 54"
abbreviation SC_LSFT_REL :: u8 where "SC_LSFT_REL \<equiv> 170"
abbreviation SC_RSFT_REL :: u8 where "SC_RSFT_REL \<equiv> 182"

text \<open>The enumeration \<open>CAPS_ON, LSHIFT, RSHIFT\<close>, as bits of \<open>kbd_status\<close>.\<close>

abbreviation caps_bit :: u8 where "caps_bit \<equiv> push_bit 0 1"
abbreviation lshift_bit :: u8 where "lshift_bit \<equiv> push_bit 1 1"
abbreviation rshift_bit :: u8 where "rshift_bit \<equiv> push_bit 2 1"

definition kbmap_base :: "u8 list" where
  "kbmap_base = [0, 27] @ str ''1234567890-='' @ [8, 9] @ str ''qwertyuiop[]'' @ [10, 0] @
     str ''asdfghjkl;'' @ [39, 96, 0, 92] @ str ''zxcvbnm,./'' @ [0, 0, 0, 32, 0, 0, 0, 0, 0] @ replicate 65 0"

definition kbmap_upper :: "u8 list" where
  "kbmap_upper = [0, 27] @ str ''!@#$%^&*()_+'' @ [8, 9] @ str ''QWERTYUIOP{}'' @ [10, 0] @
     str ''ASDFGHJKL:'' @ [34, 126, 0, 124] @ str ''ZXCVBNM<>?'' @ [0, 0, 0, 32, 0, 0, 0, 0, 0] @ replicate 65 0"

lemma kbmap_length: "length kbmap_base = 128" "length kbmap_upper = 128"
  by (simp_all add: kbmap_base_def kbmap_upper_def)


subsection \<open>The routines\<close>

text \<open>\<open>kbd_reboot\<close> ends in \<open>hlt\<close>; the history is the one it halts with.\<close>

partial_function (option) kbd_drain :: "device \<Rightarrow> io \<Rightarrow> io option" where
  "kbd_drain dev h =
     (let (temp, h1) = inb dev KBD_CTRL_PORT h;
          h2 = (if temp AND push_bit 0 1 \<noteq> 0 then snd (inb dev KBD_DATA_PORT h1) else h1)
      in if temp AND push_bit 1 1 \<noteq> 0 then kbd_drain dev h2 else Some h2)"

definition kbd_reboot :: "device \<Rightarrow> io \<Rightarrow> io option" where
  "kbd_reboot dev h = map_option (outb KBD_CTRL_PORT KBRD_RESET) (kbd_drain dev h)"

text \<open>What \<open>kbd_read\<close> does with a scan code: the local variables \<open>to_read\<close> and \<open>ctr\<close>, the global
  \<open>kbd_status\<close>, and the machine, whose memory holds the buffer at \<open>s\<close>.\<close>

record 'm kbd =
  to_read :: u8
  kctr :: u32
  kbd_status :: u8
  kmachine :: 'm

definition kbd_key :: "u64 \<Rightarrow> u8 \<Rightarrow> 'a machine_scheme kbd \<Rightarrow> 'a machine_scheme kbd" where
  "kbd_key s scancode k =
     (if scancode AND 0x80 \<noteq> 0 then
        if scancode = SC_LSFT_REL then k\<lparr>kbd_status := kbd_status k XOR lshift_bit\<rparr>
        else if scancode = SC_RSFT_REL then k\<lparr>kbd_status := kbd_status k XOR rshift_bit\<rparr>
        else k
      else if scancode = SC_ERROR then k
      else if scancode = SC_CAPS then k\<lparr>kbd_status := kbd_status k XOR caps_bit\<rparr>
      else if scancode = SC_LSFT then k\<lparr>kbd_status := kbd_status k XOR lshift_bit\<rparr>
      else if scancode = SC_RSFT then k\<lparr>kbd_status := kbd_status k XOR rshift_bit\<rparr>
      else
        let map = (if kbd_status k = 0x1 \<or> kbd_status k = 0x2 \<or> kbd_status k = 0x4 then kbmap_upper else kbmap_base);
            ch = map ! unat scancode;
            mc = printf ''%c'' [Num (scast ch)] (kmachine k);
            mc1 = mc\<lparr>mem := (mem mc)(s + ucast (kctr k) := ch)\<rparr>;
            k1 = k\<lparr>kmachine := mc1, kctr := kctr k + 1\<rparr>
        in if kbmap_base ! unat scancode = 10
           then k1\<lparr>kctr := kctr k1 - 1, kmachine := mc1\<lparr>mem := (mem mc1)(s + ucast (kctr k1 - 1) := 0)\<rparr>, to_read := 0\<rparr>
           else k1)"

partial_function (option) kbd_loop ::
  "device \<Rightarrow> u64 \<Rightarrow> 'a machine_scheme kbd \<Rightarrow> io \<Rightarrow> ('a machine_scheme kbd \<times> io) option" where
  "kbd_loop dev s k h =
     (if to_read k = 0 then Some (k, h)
      else let (st, h1) = inb dev KBD_CTRL_PORT h in
        if st AND 0x1 \<noteq> 0 then
          let (scancode, h2) = inb dev KBD_DATA_PORT h1 in kbd_loop dev s (kbd_key s scancode k) h2
        else kbd_loop dev s k h1)"

definition kbd_read :: "device \<Rightarrow> u64 \<Rightarrow> u8 \<Rightarrow> 'a machine_scheme \<Rightarrow> io \<Rightarrow> (u8 \<times> 'a machine_scheme \<times> io) option" where
  "kbd_read dev s status mc h =
     map_option (\<lambda>(k, h'). (kbd_status k, kmachine k, h'))
       (kbd_loop dev s \<lparr>to_read = 1, kctr = 0, kbd_status = status, kmachine = mc\<rparr> h)"

subsection \<open>What scan codes mean\<close>

datatype key = Modifier u8 | Key u8 | Ignored

definition key_of :: "u8 \<Rightarrow> key" where
  "key_of sc =
     (if sc \<in> {SC_LSFT, SC_LSFT_REL} then Modifier lshift_bit
      else if sc \<in> {SC_RSFT, SC_RSFT_REL} then Modifier rshift_bit
      else if sc = SC_CAPS then Modifier caps_bit
      else if sc = SC_ERROR \<or> 128 \<le> sc then Ignored else Key sc)"

definition shifted :: "u8 \<Rightarrow> bool" where
  "shifted st \<longleftrightarrow> st \<in> {caps_bit, lshift_bit, rshift_bit}"

definition char_of_key :: "u8 \<Rightarrow> u8 \<Rightarrow> u8" where
  "char_of_key st sc = (if shifted st then kbmap_upper else kbmap_base) ! unat sc"

fun typing :: "u8 \<Rightarrow> u8 list \<Rightarrow> u8 \<times> u8 list" where
  "typing st [] = (st, [])"
| "typing st (sc # scs) =
     (case key_of sc of
        Modifier b \<Rightarrow> typing (st XOR b) scs
      | Key c \<Rightarrow> (let (st', cs) = typing st scs in (st', char_of_key st c # cs))
      | Ignored \<Rightarrow> typing st scs)"

text \<open>Every character is echoed, apart from the zero that unmapped keys give.\<close>

definition echo :: "u8 list \<Rightarrow> u8 list" where
  "echo cs = concat (map (\<lambda>c. serial_write [c]) cs)"

lemma high_bit_iff: "sc AND 0x80 \<noteq> 0 \<longleftrightarrow> 128 \<le> sc" for sc :: u8
proof -
  have "sc AND 0x80 = 0 \<longleftrightarrow> \<not> bit sc 7" using and_exp_eq_0_iff_not_bit [of sc 7] by simp
  moreover have "bit (unat sc) 7 \<longleftrightarrow> odd (unat sc div 2 ^ 7)" by (simp only: bit_iff_odd)
  then have "bit sc 7 \<longleftrightarrow> odd (unat sc div 2 ^ 7)" by (simp add: bit_unsigned_iff)
  moreover have "unat sc < 256" using unsigned_less [of sc, where ?'a = nat] by simp
  then have "unat sc div 2 ^ 7 = (if 128 \<le> unat sc then 1 else 0)" by (auto intro: div_nat_eqI)
  then have "odd (unat sc div 2 ^ 7) \<longleftrightarrow> 128 \<le> unat sc" by simp
  ultimately show ?thesis by (simp add: word_le_nat_alt)
qed

lemma key_table:
  assumes "i < 128" "i \<noteq> 28"
  shows "kbmap_base ! i \<noteq> 10"
proof -
  have "10 \<notin> set (kbmap_base[28 := 0])" by (simp add: kbmap_base_def)
  moreover have "kbmap_base[28 := 0] ! i \<in> set (kbmap_base[28 := 0])" by (rule nth_mem) (simp add: kbmap_length assms)
  ultimately show ?thesis using assms(2) by auto
qed

lemma newline_key: "kbmap_base ! 28 = 10" "kbmap_upper ! 28 = 10"
  by (simp_all add: kbmap_base_def kbmap_upper_def)

lemma printf_char: "printf ''%c'' [Num (scast c)] s = s\<lparr>console := console s @ serial_write [c]\<rparr>" for c :: u8
proof -
  have "(ucast (scast c :: u64) :: u8) = c" by (rule bit_word_eqI) (auto simp: bit_simps)
  then show ?thesis by (simp add: printf_def)
qed

definition put_char :: "u64 \<Rightarrow> u8 \<Rightarrow> 'a machine_scheme kbd \<Rightarrow> 'a machine_scheme kbd" where
  "put_char s c k = k\<lparr>kctr := kctr k + 1, kmachine := (kmachine k)\<lparr>mem := (mem (kmachine k))(s + ucast (kctr k) := c),
     console := console (kmachine k) @ serial_write [c]\<rparr>\<rparr>"

lemma put_char_fields [simp]:
  "to_read (put_char s c k) = to_read k" "kbd_status (put_char s c k) = kbd_status k" "kctr (put_char s c k) = kctr k + 1"
  by (simp_all add: put_char_def)

lemma kbd_key_cases:
  assumes "sc \<noteq> 28"
  shows "kbd_key s sc k = (case key_of sc of Modifier b \<Rightarrow> k\<lparr>kbd_status := kbd_status k XOR b\<rparr>
    | Key c \<Rightarrow> put_char s (char_of_key (kbd_status k) c) k | Ignored \<Rightarrow> k)"
proof (cases "128 \<le> sc")
  case True
  then have "sc AND 0x80 \<noteq> 0" by (simp add: high_bit_iff)
  then show ?thesis using True by (auto simp: kbd_key_def key_of_def)
next
  case False
  then have "\<not> sc AND 0x80 \<noteq> 0" using high_bit_iff [of sc] by blast
  moreover have "unat sc < 128" "unat sc \<noteq> 28"
    using False assms by (auto simp: word_le_nat_alt word_unat_eq_iff)
  then have "kbmap_base ! unat sc \<noteq> 10" by (rule key_table)
  moreover have "sc \<noteq> 170" "sc \<noteq> 182" using False by auto
  moreover consider "sc = SC_ERROR" | "sc = SC_CAPS" | "sc = SC_LSFT" | "sc = SC_RSFT"
    | "sc \<noteq> SC_ERROR" "sc \<noteq> SC_CAPS" "sc \<noteq> SC_LSFT" "sc \<noteq> SC_RSFT" by blast
  ultimately show ?thesis using False
    by cases (simp_all add: kbd_key_def key_of_def char_of_key_def shifted_def put_char_def printf_char Let_def)
qed

text \<open>The polling loop reaches the next scan code.\<close>

lemma kbd_loop_polls:
  "\<lbrakk>to_read k \<noteq> 0; dev (polls dev KBD_CTRL_PORT n h) KBD_CTRL_PORT AND 1 \<noteq> 0; types_at KBD_DATA_PORT inp dev\<rbrakk> \<Longrightarrow>
    \<exists>h'. kbd_loop dev s k h = kbd_loop dev s (kbd_key s (inp (length (read_on KBD_DATA_PORT h))) k) h' \<and>
      read_on KBD_DATA_PORT h' = read_on KBD_DATA_PORT h @ [inp (length (read_on KBD_DATA_PORT h))]"
proof (induction n arbitrary: h)
  case 0
  then show ?case
    by (subst kbd_loop.simps) (auto simp: inb_def types_at_def)
next
  case (Suc n)
  show ?case
  proof (cases "dev h KBD_CTRL_PORT AND 1 \<noteq> 0")
    case True
    then show ?thesis using Suc.prems by (subst kbd_loop.simps) (auto simp: inb_def types_at_def)
  next
    case False
    then have "kbd_loop dev s k h = kbd_loop dev s k (snd (inb dev KBD_CTRL_PORT h))"
      using Suc.prems(1) by (subst kbd_loop.simps) (simp add: inb_def)
    then show ?thesis using Suc.IH [of "snd (inb dev KBD_CTRL_PORT h)"] Suc.prems by simp
  qed
qed

text \<open>Scan codes without the one of the newline, from a state that has read \<open>n\<close> characters.\<close>

lemma kbd_loop_typing:
  assumes dev: "responsive_at KBD_CTRL_PORT 1 dev" "types_at KBD_DATA_PORT inp dev"
  shows "\<lbrakk>28 \<notin> set scs; \<And>i. i < length scs \<Longrightarrow> inp (length (read_on KBD_DATA_PORT h) + i) = scs ! i;
      typing (kbd_status k) scs = (st, cs); to_read k \<noteq> 0; kctr k = of_nat n; n + length cs < 2 ^ 32\<rbrakk> \<Longrightarrow>
    \<exists>h' k'. kbd_loop dev s k h = kbd_loop dev s k' h' \<and> read_on KBD_DATA_PORT h' = read_on KBD_DATA_PORT h @ scs \<and>
      k' = k\<lparr>kctr := of_nat (n + length cs), kbd_status := st,
        kmachine := (kmachine k)\<lparr>mem := put_bytes (mem (kmachine k)) (s + of_nat n) cs, console := console (kmachine k) @ echo cs\<rparr>\<rparr>"
proof (induction scs arbitrary: k h n cs)
  case Nil
  then show ?case by (intro exI [of _ h] exI [of _ k]) (simp add: echo_def)
next
  case (Cons sc scs)
  obtain p where "dev (polls dev KBD_CTRL_PORT p h) KBD_CTRL_PORT AND 1 \<noteq> 0"
    using dev(1) unfolding responsive_at_def by blast
  from kbd_loop_polls [OF Cons.prems(4) this dev(2), of s] Cons.prems(2) [of 0] obtain h1 where
    h1: "kbd_loop dev s k h = kbd_loop dev s (kbd_key s sc k) h1" "read_on KBD_DATA_PORT h1 = read_on KBD_DATA_PORT h @ [sc]"
    by auto
  have inp: "inp (length (read_on KBD_DATA_PORT h1) + i) = scs ! i" if "i < length scs" for i
    using Cons.prems(2) [of "Suc i"] that h1(2) by simp
  have key: "kbd_key s sc k = (case key_of sc of Modifier b \<Rightarrow> k\<lparr>kbd_status := kbd_status k XOR b\<rparr>
    | Key c \<Rightarrow> put_char s (char_of_key (kbd_status k) c) k | Ignored \<Rightarrow> k)"
    by (rule kbd_key_cases) (use Cons.prems(1) in auto)
  show ?case
  proof (cases "key_of sc")
    case (Modifier b)
    then show ?thesis
      using Cons.IH [of h1 "k\<lparr>kbd_status := kbd_status k XOR b\<rparr>" cs n] inp h1 key Cons.prems by auto
  next
    case (Key c)
    define ch where "ch = char_of_key (kbd_status k) c"
    obtain cs' where cs: "typing (kbd_status k) scs = (st, cs')" "cs = ch # cs'"
      using Cons.prems(3) Key by (auto simp: ch_def split: prod.splits)
    obtain h' k' where "kbd_loop dev s (put_char s ch k) h1 = kbd_loop dev s k' h'"
      "read_on KBD_DATA_PORT h' = read_on KBD_DATA_PORT h1 @ scs"
      "k' = (put_char s ch k)\<lparr>kctr := of_nat (Suc n + length cs'), kbd_status := st,
        kmachine := (kmachine (put_char s ch k))\<lparr>mem := put_bytes (mem (kmachine (put_char s ch k))) (s + of_nat (Suc n)) cs',
          console := console (kmachine (put_char s ch k)) @ echo cs'\<rparr>\<rparr>"
    proof -
      have "28 \<notin> set scs" "typing (kbd_status (put_char s ch k)) scs = (st, cs')" "to_read (put_char s ch k) \<noteq> 0"
        "kctr (put_char s ch k) = of_nat (Suc n)" "Suc n + length cs' < 2 ^ 32"
        using Cons.prems(1,4,5,6) cs by (simp_all add: add.commute)
      from Cons.IH [OF this(1) inp this(2-5)] show thesis using that by blast
    qed
    moreover have "ucast (of_nat n :: u32) = (of_nat n :: u64)"
      by (rule ucast_index) (use Cons.prems(6) in simp)
    ultimately show ?thesis
      using h1 key Key cs(2) Cons.prems(5)
      by (intro exI [of _ h'] exI [of _ k']) (simp add: ch_def put_char_def echo_def algebra_simps)
  next
    case Ignored
    then show ?thesis using Cons.IH [of h1 k cs n] inp h1 key Cons.prems by auto
  qed
qed

subsection \<open>Properties\<close>

definition ready_keyboard :: "(nat \<Rightarrow> u8) \<Rightarrow> device" where
  "ready_keyboard inp = (\<lambda>h p. if p = KBD_CTRL_PORT then 1 else if p = KBD_DATA_PORT then inp (length (read_on KBD_DATA_PORT h)) else 0)"

lemma ready_keyboard: "responsive_at KBD_CTRL_PORT 1 (ready_keyboard inp)" "types_at KBD_DATA_PORT inp (ready_keyboard inp)"
  by (auto simp: responsive_at_def types_at_def ready_keyboard_def intro!: exI [of _ 0])

text \<open>C37: \<open>kbd_read\<close> returns the line typed up to Enter: the characters that
  the scan codes mean, with upper case while exactly one of Caps Lock and the two shift keys is on,
  are echoed and stored as a string in the buffer, and the modifier state is kept for the next
  call.\<close>

theorem kbd_read_line:
  assumes "responsive_at KBD_CTRL_PORT 1 dev" "types_at KBD_DATA_PORT inp dev" "28 \<notin> set scs"
    and "\<forall>i < length (scs @ [28]). inp (length (read_on KBD_DATA_PORT h) + i) = (scs @ [28]) ! i"
    and "typing status scs = (st, cs)" "0 \<notin> set cs" "length cs + 1 < 2 ^ 31"
  shows "\<exists>m' h'. kbd_read dev s status mc h = Some (st, mc\<lparr>mem := m', console := console mc @ echo cs @ [10, 13]\<rparr>, h') \<and>
    cstr m' s cs \<and> read_on KBD_DATA_PORT h' = read_on KBD_DATA_PORT h @ scs @ [28]"
proof -
  define k where "k = \<lparr>to_read = 1, kctr = 0, kbd_status = status, kmachine = mc\<rparr>"
  define k1 where "k1 = k\<lparr>kctr := of_nat (length cs), kbd_status := st,
    kmachine := mc\<lparr>mem := put_bytes (mem mc) s cs, console := console mc @ echo cs\<rparr>\<rparr>"
  have "inp (length (read_on KBD_DATA_PORT h) + i) = scs ! i" if "i < length scs" for i
    using assms(4) that by (simp add: nth_append)
  then obtain h1 where h1: "kbd_loop dev s k h = kbd_loop dev s k1 h1" "read_on KBD_DATA_PORT h1 = read_on KBD_DATA_PORT h @ scs"
    using kbd_loop_typing [OF assms(1,2,3), of h k st cs 0 s] assms(5,7) by (auto simp: k_def k1_def)
  obtain p where "dev (polls dev KBD_CTRL_PORT p h1) KBD_CTRL_PORT AND 1 \<noteq> 0"
    using assms(1) unfolding responsive_at_def by blast
  moreover have "inp (length (read_on KBD_DATA_PORT h1)) = 28"
    using assms(4) h1(2) by (simp add: nth_append)
  ultimately obtain h2 where h2: "kbd_loop dev s k1 h1 = kbd_loop dev s (kbd_key s 28 k1) h2"
    "read_on KBD_DATA_PORT h2 = read_on KBD_DATA_PORT h1 @ [28]"
    using kbd_loop_polls [of k1 dev p h1 inp s] assms(2) by (auto simp: k1_def k_def)
  define m' where "m' = (put_bytes (mem mc) s cs)(s + of_nat (length cs) := 0)"
  have idx: "ucast (of_nat (length cs) :: u32) = (of_nat (length cs) :: u64)"
    by (rule ucast_index) (use assms(7) in simp)
  have "kbd_key s 28 k1 = k1\<lparr>kmachine := mc\<lparr>mem := m', console := console mc @ echo cs @ [10, 13]\<rparr>, to_read := 0\<rparr>"
    using idx by (simp add: kbd_key_def newline_key printf_char k1_def k_def m'_def Let_def)
  then have "kbd_loop dev s k h = Some (k1\<lparr>kmachine := mc\<lparr>mem := m', console := console mc @ echo cs @ [10, 13]\<rparr>, to_read := 0\<rparr>, h2)"
    using h1(1) h2(1) by (simp add: kbd_loop.simps [of _ _ _ h2])
  moreover have "cstr m' s cs"
    using put_bytes_cstr [of cs "mem mc" s] assms(6,7) scast_index [of "length cs"] by (simp add: m'_def)
  ultimately show ?thesis
    using h1(2) h2(2) unfolding kbd_read_def k_def [symmetric]
    by (intro exI [of _ m'] exI [of _ h2]) (simp add: k1_def)
qed

theorem kbd_read_line_witness:
  "\<exists>m' h'. kbd_read (ready_keyboard (\<lambda>i. [42, 30, 170, 48, 28] ! i)) 500 0 \<lparr>mem = (\<lambda>_. 7), console = []\<rparr> [] =
      Some (0, \<lparr>mem = m', console = str ''Ab'' @ [10, 13]\<rparr>, h') \<and> cstr m' 500 (str ''Ab'')"
proof -
  have "typing 0 [42, 30, 170, 48] = (0, str ''Ab'')"
    by (simp add: key_of_def char_of_key_def shifted_def kbmap_base_def kbmap_upper_def)
  then show ?thesis
    using kbd_read_line [where dev = "ready_keyboard (\<lambda>i. [42, 30, 170, 48, 28] ! i)" and inp = "\<lambda>i. [42, 30, 170, 48, 28] ! i"
      and scs = "[42, 30, 170, 48]" and h = "[]" and status = 0 and st = 0 and cs = "str ''Ab''" and s = 500
      and mc = "\<lparr>mem = (\<lambda>_. 7), console = []\<rparr>"]
    by (auto simp: echo_def ready_keyboard)
qed

end
