(* ===== verification/Shell.thy ===== *)
theory Shell
  imports Keyboard Process
begin

text \<open>
  The shell (\<open>shell.c\<close>): \<open>dsh_help\<close>, \<open>parse_init\<close>, which reads the arguments of \<open>init\<close>, and one
  turn of the loop of \<open>invoke_dsh\<close>, from the prompt to the end of the command. The line comes from
  the serial device \<open>dev\<close>; \<open>lit\<close> is where the linker put the string literals that \<open>strcmp\<close> and
  \<open>memcmp\<close> compare with.
\<close>

subsection \<open>\<open>parse_init\<close>\<close>

text \<open>\<open>*((u64* ) args + num) = value\<close>; past the last field the store is undefined (\<open>None\<close>).\<close>

definition store_arg :: "nat \<Rightarrow> u64 \<Rightarrow> init_args \<Rightarrow> init_args option" where
  "store_arg num value args =
     (if num = 0 then Some (args\<lparr>arg_rdi := value\<rparr>)
      else if num = 1 then Some (args\<lparr>arg_rsi := value\<rparr>)
      else if num = 2 then Some (args\<lparr>arg_rcx := value\<rparr>)
      else if num = 3 then Some (args\<lparr>arg_rdx := value\<rparr>)
      else if num = 4 then Some (args\<lparr>arg_r8 := value\<rparr>)
      else None)"

definition blank :: "u8 \<Rightarrow> bool" where
  "blank ch \<longleftrightarrow> ch = 32 \<or> ch = 9"

partial_function (option) skip_blanks :: "memory \<Rightarrow> u64 \<Rightarrow> s32 \<Rightarrow> s32 option" where
  "skip_blanks m cmd ctr = (if blank (byte_at m cmd ctr) then skip_blanks m cmd (ctr + 1) else Some ctr)"

text \<open>\<open>value *= 10; value += cmd[ctr] - '0'\<close>: the difference is an \<open>int\<close>.\<close>

definition add_digit :: "u64 \<Rightarrow> u8 \<Rightarrow> u64" where
  "add_digit value ch = value * 10 + scast (scast ch - 48 :: s32)"

partial_function (option) parse_loop :: "memory \<Rightarrow> u64 \<Rightarrow> s32 \<Rightarrow> u64 \<Rightarrow> nat \<Rightarrow> init_args \<Rightarrow> init_args option" where
  "parse_loop m cmd ctr value num args =
     (if byte_at m cmd ctr = 0 then store_arg num value args
      else if blank (byte_at m cmd ctr) then
        Option.bind (store_arg num value args) (\<lambda>args1.
        Option.bind (skip_blanks m cmd ctr) (\<lambda>ctr1.
          parse_loop m cmd (ctr1 + 1) (add_digit 0 (byte_at m cmd ctr1)) (num + 1) args1))
      else parse_loop m cmd (ctr + 1) (add_digit value (byte_at m cmd ctr)) num args)"

definition parse_init :: "memory \<Rightarrow> u64 \<Rightarrow> init_args \<Rightarrow> init_args option" where
  "parse_init m cmd args = parse_loop m cmd 5 0 0 args"

subsection \<open>\<open>dsh_help\<close> and the loop of \<open>invoke_dsh\<close>\<close>

definition dsh_help :: "'a machine_scheme \<Rightarrow> 'a machine_scheme" where
  "dsh_help s =
     printf ''exit|shutdown: shutdown the OS\<newline>'' []
     (printf ''init: launch the init process. usage: init [arg1] [arg2] ... [arg5]\<newline>'' []
     (printf ''stats: displays the OS statistics\<newline>'' []
     (printf ''config: set and get the current configuration. To set use #config set var=value\<newline>'' []
     (printf ''clear: clears the screen\<newline>'' []
     (printf ''help: prints this help\<newline>'' []
     (printf ''---------\<newline>'' []
     (printf ''commands:\<newline>'' []
     (printf ''---------\<newline>'' []
     (printf ''This is a minimal shell.\<newline>'' [] s)))))))))"

definition clear_screen :: "u8 list" where
  "clear_screen = [27, of_char CHR ''['', of_char CHR ''2'', of_char CHR ''J'', 27, of_char CHR ''['', of_char CHR ''H'', 0]"

definition shell_stats :: "'a kernel_scheme \<Rightarrow> 'a kernel_scheme" where
  "shell_stats s =
     printf ''syscalls = %d page_faults = %d used_memory = %d num_processes = %d\<newline>''
       [Num (syscalls (stats s)), Num (page_faults (stats s)), Num (used_memory (stats s)), Num (num_processes (stats s))]
     (printf ''ticks = %d swapper_invocations = %d context_switches = %d lw_context_switches = %d\<newline>''
       [Num (ticks (stats s)), Num (swapper_invocations (stats s)), Num (context_switches (stats s)),
        Num (lw_context_switches (stats s))] s)"

text \<open>What a turn of the loop ends in: the next turn, the program that \<open>init\<close> started (or the error
  that keeps it from starting), or the halted machine.\<close>

datatype 's turn = Next init_args io 's | Started "kerror + (int flow \<times> 's)" | Halted io 's

definition run_init ::
  "user_regs \<Rightarrow> u64 \<Rightarrow> u64 \<Rightarrow> init_args \<Rightarrow> io \<Rightarrow> 'a kernel_scheme \<Rightarrow> 'a kernel_scheme turn option" where
  "run_init cpu rflags command args h s =
     (case create_context (str ''init'') EXEC_CTX_USER s of
        Inl e \<Rightarrow> Some (Started (Inl e))
      | Inr (ctx, s1) \<Rightarrow>
          map_option (\<lambda>args1.
            (case exec_init cpu rflags ctx args1 s1 of
               Inr (Return r, s2) \<Rightarrow> Next args1 h s2
             | res \<Rightarrow> Started res))
          (parse_init (mem s1) command args))"

definition dsh_turn ::
  "device \<Rightarrow> (string \<Rightarrow> u64) \<Rightarrow> user_regs \<Rightarrow> u64 \<Rightarrow> u64 \<Rightarrow> init_args \<Rightarrow> io \<Rightarrow> 'a kernel_scheme \<Rightarrow>
     'a kernel_scheme turn option" where
  "dsh_turn dev lit cpu rflags command args h s =
     (let s1 = printf ''GemOS# '' [] s in
      case serial_read dev command (mem s1) h of None \<Rightarrow> None | Some (m, h1) \<Rightarrow>
      let s2 = s1\<lparr>mem := m\<rparr>; is = (\<lambda>w. strcmp m command (lit w)) in
      if m command = 0 then Some (Next args h1 s2)
      else case is ''help'' of None \<Rightarrow> None | Some r1 \<Rightarrow>
        if r1 = 0 then Some (Next args h1 (dsh_help s2))
      else case is ''clear'' of None \<Rightarrow> None | Some r2 \<Rightarrow>
        if r2 = 0 then Some (Next args h1 (s2\<lparr>console := console s2 @ serial_write clear_screen\<rparr>))
      else case is ''exit'' of None \<Rightarrow> None | Some r3 \<Rightarrow>
        if r3 = 0 then map_option (\<lambda>h2. Halted h2 s2) (kbd_reboot dev h1)
      else case is ''shutdown'' of None \<Rightarrow> None | Some r4 \<Rightarrow>
        if r4 = 0 then map_option (\<lambda>h2. Halted h2 s2) (kbd_reboot dev h1)
      else if memcmp m command (lit ''init'') 4 = 0 then run_init cpu rflags command args h1 s2
      else case is ''stats'' of None \<Rightarrow> None | Some r5 \<Rightarrow>
        if r5 = 0 then Some (Next args h1 (shell_stats s2))
        else Some (Next args h1 (printf ''Invalid command\<newline>'' [] s2)))"


text \<open>\<open>invoke_dsh\<close>: the loop goes on until a program is started or the machine is halted.\<close>

partial_function (option) dsh_loop ::
  "device \<Rightarrow> (string \<Rightarrow> u64) \<Rightarrow> user_regs \<Rightarrow> u64 \<Rightarrow> u64 \<Rightarrow> init_args \<Rightarrow> io \<Rightarrow> 'a kernel_scheme \<Rightarrow>
     'a kernel_scheme turn option" where
  "dsh_loop dev lit cpu rflags command args h s =
     Option.bind (dsh_turn dev lit cpu rflags command args h s) (\<lambda>t.
       case t of Next args1 h1 s1 \<Rightarrow> dsh_loop dev lit cpu rflags command args1 h1 s1
       | Started r \<Rightarrow> Some (Started r)
       | Halted h1 s1 \<Rightarrow> Some (Halted h1 s1))"

definition invoke_dsh ::
  "device \<Rightarrow> (string \<Rightarrow> u64) \<Rightarrow> user_regs \<Rightarrow> u64 \<Rightarrow> io \<Rightarrow> 'a kernel_scheme \<Rightarrow> 'a kernel_scheme turn option" where
  "invoke_dsh dev lit cpu rflags h s =
     (let (command, s1) = os_alloc 1024 s
      in dsh_loop dev lit cpu rflags command
           \<lparr>arg_rdi = 0, arg_rsi = 0, arg_rcx = 0, arg_rdx = 0, arg_r8 = 0\<rparr> h s1)"

end
