(* ===== verification/Shell_Spec.thy ===== *)
theory Shell_Spec
  imports Shell User_Access Small_Objects
begin

text \<open>
  What the shell does with a line: \<open>command_of\<close> is the command it means, \<open>arg_line\<close> the arguments of
  \<open>init\<close> as text, and the properties say that a turn of the shell's loop runs exactly that command
  and that the arguments reach the program's registers.
\<close>

subsection \<open>Arguments\<close>

fun arg_line :: "u8 list list \<Rightarrow> u8 list" where
  "arg_line [] = []"
| "arg_line [d] = d"
| "arg_line (d # ds) = d @ 32 # arg_line ds"

fun store_all :: "nat \<Rightarrow> u64 list \<Rightarrow> init_args \<Rightarrow> init_args option" where
  "store_all n [] args = Some args"
| "store_all n (v # vs) args = Option.bind (store_arg n v args) (store_all (n + 1) vs)"

definition plain :: "u8 list \<Rightarrow> bool" where
  "plain d \<longleftrightarrow> d \<noteq> [] \<and> (\<forall>ch \<in> set d. ch \<noteq> 0 \<and> \<not> blank ch)"

lemma blank_32: "blank 32" "(32 :: u8) \<noteq> 0"
  by (simp_all add: blank_def)

lemma cstr_at: "cstr m (p + of_nat k) (c # s) \<Longrightarrow> k < 2 ^ 31 \<Longrightarrow> byte_at m p (of_nat k) = c \<and> c \<noteq> 0"
  by (simp add: byte_at_index)

lemma cstr_cong:
  "\<lbrakk>cstr m p s; \<And>i. i \<le> length s \<Longrightarrow> m' (p + of_nat i) = m (p + of_nat i)\<rbrakk> \<Longrightarrow> cstr m' p s"
  by (simp add: cstr_iff)

lemma cstr_drop: "cstr m (p + of_nat k) (d @ s) \<Longrightarrow> cstr m (p + of_nat (k + length d)) s"
proof (induction d arbitrary: k)
  case (Cons c d)
  then show ?case using Cons.IH [of "Suc k"] cstr_step [of m p k c "d @ s"] by simp
qed simp

text \<open>A word is read up to its end, from the value \<open>v\<close> of the digits already read.\<close>

lemma parse_word:
  "\<lbrakk>cstr m (p + of_nat k) (d @ rest); k + length d < 2 ^ 31; \<forall>ch \<in> set d. \<not> blank ch\<rbrakk> \<Longrightarrow>
    parse_loop m p (of_nat k) v n args = parse_loop m p (of_nat (k + length d)) (foldl add_digit v d) n args"
proof (induction d arbitrary: k v)
  case (Cons c d)
  have c: "byte_at m p (of_nat k) = c" "c \<noteq> 0" using cstr_at [of m p k c "d @ rest"] Cons.prems by simp_all
  have "parse_loop m p (of_nat k) v n args = parse_loop m p (of_nat (Suc k)) (add_digit v c) n args"
    using c Cons.prems(3) by (subst parse_loop.simps) (simp add: add.commute)
  also have "\<dots> = parse_loop m p (of_nat (Suc k + length d)) (foldl add_digit (add_digit v c) d) n args"
    by (rule Cons.IH) (use Cons.prems cstr_step [of m p k c "d @ rest"] in simp_all)
  finally show ?case by simp
qed simp

lemma parse_end:
  "\<lbrakk>cstr m (p + of_nat k) []; k < 2 ^ 31\<rbrakk> \<Longrightarrow> parse_loop m p (of_nat k) v n args = store_arg n v args"
  by (subst parse_loop.simps) (simp add: byte_at_index)

lemma parse_blank:
  assumes "cstr m (p + of_nat k) (32 # c # s)" "k + 2 < 2 ^ 31" "\<not> blank c"
  shows "parse_loop m p (of_nat k) v n args =
    Option.bind (store_arg n v args) (\<lambda>a. parse_loop m p (of_nat (k + 2)) (add_digit 0 c) (n + 1) a)"
proof -
  have b: "blank (byte_at m p (of_nat k))" "byte_at m p (of_nat k) \<noteq> 0"
    using cstr_at [OF assms(1)] assms(2) by (simp_all add: blank_32)
  have c: "byte_at m p (of_nat (Suc k)) = c" using cstr_at [OF cstr_step [OF assms(1)]] assms(2) by simp
  have "skip_blanks m p (of_nat k) = skip_blanks m p (of_nat (Suc k))"
    using b by (subst skip_blanks.simps) (simp add: add.commute)
  also have "\<dots> = Some (of_nat (Suc k))" using c assms(3) by (subst skip_blanks.simps) simp
  finally have "skip_blanks m p (of_nat k) = Some (of_nat (Suc k))" .
  then show ?thesis using b c
    by (subst parse_loop.simps) (simp add: add.commute)
qed

lemma parse_args:
  "\<lbrakk>cstr m (p + of_nat k) (d @ (if ds = [] then [] else 32 # arg_line ds)); k + length (d @ (if ds = [] then [] else 32 # arg_line ds)) < 2 ^ 31;
    \<forall>ch \<in> set d. \<not> blank ch; \<forall>e \<in> set ds. plain e\<rbrakk> \<Longrightarrow>
    parse_loop m p (of_nat k) v n args = store_all n (foldl add_digit v d # map (foldl add_digit 0) ds) args"
proof (induction ds arbitrary: k d v n args)
  case Nil
  have "cstr m (p + of_nat (k + length d)) []" using cstr_drop [OF Nil.prems(1)] by simp
  then show ?case
    using parse_word [of m p k d "[]" v n args] parse_end [of m p "k + length d"] Nil.prems by (cases "store_arg n (foldl add_digit v d) args") auto
next
  case (Cons e ds)
  obtain c e' where e: "e = c # e'" "\<not> blank c" "\<forall>ch \<in> set e'. \<not> blank ch" using Cons.prems(4) by (cases e) (auto simp: plain_def)
  define rest where "rest = e' @ (if ds = [] then [] else 32 # arg_line ds)"
  have al: "arg_line (e # ds) = c # rest" by (cases ds) (simp_all add: e rest_def)
  have s: "cstr m (p + of_nat (k + length d)) (32 # c # rest)"
    using cstr_drop [OF Cons.prems(1)] al by simp
  have "parse_loop m p (of_nat k) v n args = parse_loop m p (of_nat (k + length d)) (foldl add_digit v d) n args"
    using parse_word [OF Cons.prems(1)] Cons.prems(2,3) by simp
  also have "\<dots> = Option.bind (store_arg n (foldl add_digit v d) args)
      (\<lambda>a. parse_loop m p (of_nat (k + length d + 2)) (add_digit 0 c) (n + 1) a)"
    using parse_blank [OF s _ e(2)] Cons.prems(2) al by (simp add: rest_def)
  also have "(\<lambda>a. parse_loop m p (of_nat (k + length d + 2)) (add_digit 0 c) (n + 1) a) =
      store_all (n + 1) (foldl add_digit (add_digit 0 c) e' # map (foldl add_digit 0) ds)"
  proof
    fix a
    have "cstr m (p + of_nat (k + length d + 2)) rest"
      using cstr_step [OF cstr_step [OF s]] by simp
    then show "parse_loop m p (of_nat (k + length d + 2)) (add_digit 0 c) (n + 1) a =
        store_all (n + 1) (foldl add_digit (add_digit 0 c) e' # map (foldl add_digit 0) ds) a"
      using Cons.IH [of "k + length d + 2" e' "add_digit 0 c" "n + 1" a] Cons.prems(2,4) e al by (simp add: rest_def split: if_splits)
  qed
  also have "Option.bind (store_arg n (foldl add_digit v d) args)
      (store_all (n + 1) (foldl add_digit (add_digit 0 c) e' # map (foldl add_digit 0) ds)) =
    store_all n (foldl add_digit v d # map (foldl add_digit 0) (e # ds)) args"
    by (simp only: store_all.simps(2) [of n "foldl add_digit v d"] e list.map foldl_Cons)
  finally show ?case .
qed

text \<open>Digits give the value they denote, modulo the width of the argument.\<close>

definition is_digit :: "u8 \<Rightarrow> bool" where
  "is_digit ch \<longleftrightarrow> 48 \<le> ch \<and> ch \<le> 57"

lemma add_digit_value:
  assumes "is_digit ch"
  shows "add_digit (of_int v) ch = of_int (10 * v + (uint ch - 48))"
proof -
  have b: "48 \<le> uint ch" "uint ch \<le> 57" using assms by (simp_all add: is_digit_def word_le_def)
  have "sint ch = uint ch" using b by (simp add: sint_uint signed_take_bit_int_eq_self)
  then have "(scast ch :: s32) = of_int (uint ch)" by (simp add: scast_eq)
  then have "(scast ch - 48 :: s32) = of_int (uint ch - 48)" by simp
  moreover have "sint (of_int (uint ch - 48) :: s32) = uint ch - 48"
    using b by (simp add: signed_of_int signed_take_bit_int_eq_self del: of_int_diff)
  ultimately have "(scast (scast ch - 48 :: s32) :: u64) = of_int (uint ch - 48)" by (simp only: scast_eq)
  then show ?thesis by (simp add: add_digit_def mult.commute)
qed

lemma foldl_add_digit:
  "\<forall>ch \<in> set d. is_digit ch \<Longrightarrow> foldl add_digit (of_int v) d = of_int (foldl (\<lambda>v ch. 10 * v + (uint ch - 48)) v d)"
proof (induction d arbitrary: v)
  case (Cons c d)
  have "foldl add_digit (add_digit (of_int v) c) d = foldl add_digit (of_int (10 * v + (uint c - 48))) d"
    using add_digit_value [of c v] Cons.prems by simp
  then show ?case using Cons.IH [of "10 * v + (uint c - 48)"] Cons.prems by simp
qed simp

lemma digits_plain: "is_digit ch \<Longrightarrow> ch \<noteq> 0 \<and> \<not> blank ch"
  by (auto simp: is_digit_def blank_def)

text \<open>The digits of a number below \<open>2 ^ 31\<close>, as \<open>%d\<close> prints them.\<close>

lemma format_d_digits:
  assumes "v < 2 ^ 31"
  shows "foldl add_digit 0 (format_d v) = v" "plain (format_d v)" "length (format_d v) \<le> 10" "\<forall>ch \<in> set (format_d v). is_digit ch"
proof -
  define t where "t = sint (ucast v :: s32)"
  have "unat v < 2 ^ 31" using assms by (simp add: word_less_nat_alt)
  then have uv: "uint v < 2 ^ 31" by (metis of_nat_less_iff of_nat_numeral of_nat_power uint_nat)
  have "0 \<le> uint v" by simp
  then have "signed_take_bit 31 (uint v) = uint v" using uv by (intro signed_take_bit_int_eq_self) linarith+
  then have "t = uint v" by (simp add: t_def sint_uint unsigned_ucast_eq signed_take_bit_take_bit)
  then have t: "t = uint v" "0 \<le> t" "t < 10 ^ 10" using uv by simp_all
  have f: "format_d v = (if t = 0 then str ''0'' else rev (dec_chars t))"
  proof -
    have "(ucast v :: s32) = 0 \<longleftrightarrow> t = 0" unfolding t_def by (metis signed_0 signed_word_eqI)
    then show ?thesis using t(2) by (simp add: format_d_def Let_def t_def [symmetric])
  qed
  have ne: "t \<noteq> 0 \<Longrightarrow> dec_chars t \<noteq> []" by (subst dec_chars.simps) simp
  show dig: "\<forall>ch \<in> set (format_d v). is_digit ch"
    using dec_chars_digits [OF t(2)] by (auto simp: f is_digit_def)
  show "plain (format_d v)" using dig digits_plain ne by (auto simp: plain_def f)
  show "length (format_d v) \<le> 10" using dec_chars_length [OF t(2,3)] by (simp add: f)
  have "foldl add_digit (of_int 0) (format_d v) = of_int (dec_value (format_d v))"
    using foldl_add_digit [OF dig, of 0] by (simp add: dec_value_def)
  moreover have "dec_value (format_d v) = t"
    using dec_chars_value [OF t(2)] by (auto simp: f dec_value_def)
  ultimately show "foldl add_digit 0 (format_d v) = v" using t(1) by simp
qed

lemma length_arg_line: "length (arg_line ds) \<le> (\<Sum>d \<leftarrow> ds. length d + 1)"
  by (induction ds rule: arg_line.induct) auto

lemma parse_init_words:
  assumes "cstr m cmd (str ''init '' @ arg_line ds)" "ds \<noteq> []" "\<forall>d \<in> set ds. plain d" "length (arg_line ds) < 2 ^ 30"
  shows "parse_init m cmd args = store_all 0 (map (foldl add_digit 0) ds) args"
proof -
  obtain d ds' where ds: "ds = d # ds'" using assms(2) by (cases ds) auto
  have al: "arg_line ds = d @ (if ds' = [] then [] else 32 # arg_line ds')" by (cases ds') (simp_all add: ds)
  have "cstr m (cmd + of_nat (0 + length (str ''init ''))) (arg_line ds)"
    by (rule cstr_drop) (use assms(1) in simp)
  then have "cstr m (cmd + of_nat 5) (d @ (if ds' = [] then [] else 32 # arg_line ds'))" by (simp add: al)
  from parse_args [OF this, of 0 0 args] assms(3,4) al ds show ?thesis by (auto simp: parse_init_def plain_def)
qed

subsection \<open>Commands\<close>

datatype command = Empty | Help | Clear | Reboot | Init | Stats | Invalid

definition command_of :: "u8 list \<Rightarrow> command" where
  "command_of s =
     (if s = [] then Empty else if s = str ''help'' then Help else if s = str ''clear'' then Clear
      else if s = str ''exit'' \<or> s = str ''shutdown'' then Reboot
      else if take 4 s = str ''init'' then Init else if s = str ''stats'' then Stats else Invalid)"

definition shell_words :: "string set" where
  "shell_words = {''help'', ''clear'', ''exit'', ''shutdown'', ''init'', ''stats''}"

definition run_command ::
  "command \<Rightarrow> device \<Rightarrow> user_regs \<Rightarrow> u64 \<Rightarrow> u64 \<Rightarrow> init_args \<Rightarrow> io \<Rightarrow> 'a kernel_scheme \<Rightarrow> 'a kernel_scheme turn option" where
  "run_command c dev cpu rflags command args h s =
     (case c of
        Empty \<Rightarrow> Some (Next args h s)
      | Help \<Rightarrow> Some (Next args h (dsh_help s))
      | Clear \<Rightarrow> Some (Next args h (s\<lparr>console := console s @ serial_write clear_screen\<rparr>))
      | Reboot \<Rightarrow> map_option (\<lambda>h'. Halted h' s) (kbd_reboot dev h)
      | Init \<Rightarrow> run_init cpu rflags command args h s
      | Stats \<Rightarrow> Some (Next args h (shell_stats s))
      | Invalid \<Rightarrow> Some (Next args h (printf ''Invalid command\<newline>'' [] s)))"

lemma memcmp_prefix:
  assumes "cstr m p s" "cstr m q (c1 # c2 # c3 # c4 # t)"
  shows "memcmp m p q 4 = 0 \<longleftrightarrow> take 4 s = [c1, c2, c3, c4]"
proof -
  have q: "m (q + of_nat i) = [c1, c2, c3, c4] ! i" "[c1, c2, c3, c4] ! i \<noteq> 0" if "i < 4" for i
    using assms(2) that by (auto simp: less_Suc_eq eval_nat_numeral add.commute)
  have eq: "memcmp m p q 4 = 0 \<longleftrightarrow> (\<forall>i < 4. m (p + of_nat i) = [c1, c2, c3, c4] ! i)"
    using memcmp_spec [of 4 m p q] q by simp
  note p = assms(1) [unfolded cstr_iff]
  show ?thesis
  proof
    assume "memcmp m p q 4 = 0"
    then have all: "m (p + of_nat i) = [c1, c2, c3, c4] ! i" if "i < 4" for i using eq that by blast
    have len: "4 \<le> length s"
    proof (rule ccontr)
      assume "\<not> 4 \<le> length s"
      then show False using all [of "length s"] q(2) [of "length s"] p by simp
    qed
    show "take 4 s = [c1, c2, c3, c4]"
      by (rule nth_equalityI) (use len all p in auto)
  next
    assume t: "take 4 s = [c1, c2, c3, c4]"
    then have "length (take 4 s) = 4" by simp
    then have len: "4 \<le> length s" by simp
    have "m (p + of_nat i) = [c1, c2, c3, c4] ! i" if "i < 4" for i
      using p that len t [symmetric] by simp
    then show "memcmp m p q 4 = 0" using eq by blast
  qed
qed

subsection \<open>From the line to the registers of the program\<close>

definition args_list :: "init_args \<Rightarrow> u64 list" where
  "args_list a = [arg_rdi a, arg_rsi a, arg_rcx a, arg_rdx a, arg_r8 a]"

text \<open>Where a C function finds its first five integer arguments (the System V calling convention).\<close>

definition c_args :: "user_regs \<Rightarrow> u64 list" where
  "c_args r = [rdi r, rsi r, rdx r, rcx r, r8 r]"

lemma store_arg_list: "n < 5 \<Longrightarrow> \<exists>a. store_arg n v args = Some a \<and> args_list a = (args_list args)[n := v]"
  by (auto simp: store_arg_def args_list_def less_Suc_eq eval_nat_numeral)

lemma store_all_list:
  "n + length vs \<le> 5 \<Longrightarrow>
    \<exists>a. store_all n vs args = Some a \<and> args_list a = take n (args_list args) @ vs @ drop (n + length vs) (args_list args)"
proof (induction vs arbitrary: n args)
  case (Cons v vs)
  then obtain a where a: "store_arg n v args = Some a" "args_list a = (args_list args)[n := v]"
    using store_arg_list [of n v args] by auto
  obtain b where "store_all (Suc n) vs a = Some b"
    "args_list b = take (Suc n) (args_list a) @ vs @ drop (Suc n + length vs) (args_list a)"
    using Cons.IH [of "Suc n" a] Cons.prems by auto
  moreover have "length (args_list args) = 5" by (simp add: args_list_def)
  ultimately show ?case using a Cons.prems by (simp add: take_Suc_conv_app_nth)
qed simp

lemma arg_line_numbers:
  assumes "\<forall>v \<in> set vs. v < 2 ^ 31" "length vs \<le> 5"
  shows "\<forall>d \<in> set (map format_d vs). plain d" "length (arg_line (map format_d vs)) \<le> 55"
    "map (foldl add_digit 0) (map format_d vs) = vs"
proof -
  show "\<forall>d \<in> set (map format_d vs). plain d" using format_d_digits(2) assms(1) by auto
  show "map (foldl add_digit 0) (map format_d vs) = vs" using format_d_digits(1) assms(1) by (simp add: map_idI)
  have "(\<Sum>d \<leftarrow> map format_d vs. length d + 1) \<le> (\<Sum>d \<leftarrow> vs. 11)"
    unfolding map_map o_def by (rule sum_list_mono) (use format_d_digits(3) assms(1) in auto)
  then show "length (arg_line (map format_d vs)) \<le> 55"
    using length_arg_line [of "map format_d vs"] assms(2) by (simp add: sum_list_triv)
qed

lemma parse_init_numbers:
  assumes "vs \<noteq> []" "length vs \<le> 5" "\<forall>v \<in> set vs. v < 2 ^ 31" "cstr m cmd (str ''init '' @ arg_line (map format_d vs))"
  obtains a where "parse_init m cmd args = Some a" "args_list a = vs @ drop (length vs) (args_list args)"
proof -
  note N = arg_line_numbers [OF assms(3,2)]
  have "parse_init m cmd args = store_all 0 vs args"
    using parse_init_words [OF assms(4) _ N(1), of args] assms(1) N(2,3) by simp
  then show thesis using store_all_list [of 0 vs args] assms(2) that by auto
qed

lemma exec_init_registers:
  obtains rg s' where "exec_init cpu rflags c args s = Inr (Iret rg, s')" "c_args rg = [arg_rdi args, arg_rsi args, arg_rdx args, arg_rcx args, arg_r8 args]"
    "entry_rip rg = CODE_START" "entry_rsp rg = STACK_START" "current s' = Some c"
proof -
  obtain os tp s2 where e: "exec_code c (printf ''Setting up init process ...\<newline>'' [] s) = (os, tp, s2)" by (metis prod.exhaust)
  define s4 where "s4 = exec_stack os c (exec_data os c s2)"
  obtain r s5 where p: "install_os_pts (pgd (the_ctx s4 c)) s4 = (r, s5)" by fastforce
  then have "r = 0" by (auto simp: install_os_pts_def Let_def split_beta)
  with p show thesis
    by (intro that) (simp add: exec_init_def e s4_def [symmetric] Let_def, simp_all add: c_args_def set_current_ctx_def)
qed

text \<open>C32: The shell refines \<open>run_command\<close>: when the serial line delivers a
  line of fewer than 1024 characters, a turn of the loop stores it in the command buffer as a
  string, changes no other memory, consumes exactly that line, and runs the command that
  \<open>command_of\<close> assigns to it.\<close>

theorem dsh_turn_dispatch:
  fixes s0 :: "'a kernel_scheme"
  assumes dev: "responsive RCVRDY dev" "types inp dev"
    and line: "\<forall>i < length (s @ 13 # t @ [10]). inp (length (received h) + i) = (s @ 13 # t @ [10]) ! i"
      "length s < 1024" "0 \<notin> set s" "13 \<notin> set s" "10 \<notin> set t"
    and lit: "\<forall>w \<in> shell_words. cstr (mem s0) (lit w) (str w) \<and> (\<forall>i \<le> length w. 1024 \<le> unat (lit w + of_nat i - command))"
  shows "\<exists>m h'. cstr m command s \<and> (\<forall>x. 1024 \<le> unat (x - command) \<longrightarrow> m x = mem s0 x) \<and>
    received h' = received h @ s @ 13 # t @ [10] \<and>
    dsh_turn dev lit cpu rflags command args h s0 =
      run_command (command_of s) dev cpu rflags command args h' ((printf ''GemOS# '' [] s0)\<lparr>mem := m\<rparr>)"
proof -
  have l31: "length s < 2 ^ 31" using line(2) by simp
  obtain m h' where r: "serial_read dev command (mem s0) h = Some (m, h')" "cstr m command s"
    "\<forall>x. length s < unat (x - command) \<longrightarrow> m x = mem s0 x" "received h' = received h @ s @ 13 # t @ [10]"
    using serial_read_types [OF dev l31 line(1,3,4,5)] by blast
  have keep: "m x = mem s0 x" if "1024 \<le> unat (x - command)" for x using r(3) that line(2) by simp
  have w: "cstr m (lit w) (str w)" if "w \<in> shell_words" for w
    using lit that keep by (simp add: cstr_iff)
  have cmp: "strcmp m command (lit w) = Some (if s = str w then 0 else - 1)" if "w \<in> shell_words" for w
    by (rule strcmp_cstr [OF r(2) w [OF that] l31])
  have in_words: "''help'' \<in> shell_words" "''clear'' \<in> shell_words" "''exit'' \<in> shell_words" "''shutdown'' \<in> shell_words"
    "''init'' \<in> shell_words" "''stats'' \<in> shell_words" by (simp_all add: shell_words_def)
  have init: "memcmp m command (lit ''init'') 4 = 0 \<longleftrightarrow> take 4 s = str ''init''"
    using memcmp_prefix [OF r(2), of "lit ''init''" 105 110 105 116 "[]"] w [OF in_words(5)] by simp
  have empty: "m command = 0 \<longleftrightarrow> s = []" using r(2) by (cases s) auto
  have "dsh_turn dev lit cpu rflags command args h s0 =
      run_command (command_of s) dev cpu rflags command args h' ((printf ''GemOS# '' [] s0)\<lparr>mem := m\<rparr>)"
    using init empty by (simp add: dsh_turn_def r(1) cmp in_words command_of_def run_command_def Let_def)
  then show ?thesis using r(2,4) keep by blast
qed

definition demo_lit :: "string \<Rightarrow> u64" where
  "demo_lit w = (if w = ''help'' then 2000 else if w = ''clear'' then 2100 else if w = ''exit'' then 2200
     else if w = ''shutdown'' then 2300 else if w = ''init'' then 2400 else 2500)"

definition demo_words :: memory where
  "demo_words = put_bytes (put_bytes (put_bytes (put_bytes (put_bytes (put_bytes (\<lambda>_. 0) 2000 (str ''help'')) 2100 (str ''clear''))
     2200 (str ''exit'')) 2300 (str ''shutdown'')) 2400 (str ''init'')) 2500 (str ''stats'')"

lemma demo_words:
  assumes "w \<in> shell_words"
  shows "cstr demo_words (demo_lit w) (str w)" "i \<le> length w \<Longrightarrow> 1024 \<le> unat (demo_lit w + of_nat i - 100)"
proof -
  show "cstr demo_words (demo_lit w) (str w)"
    using assms unfolding shell_words_def by (elim insertE emptyE) (simp_all add: demo_words_def demo_lit_def)
  have "demo_lit w \<in> (\<lambda>n. of_nat (n + 100)) ` {1900, 2000, 2100, 2200, 2300, 2400 :: nat}"
    by (simp add: demo_lit_def)
  then obtain n where n: "demo_lit w = of_nat (n + 100)" "n \<in> {1900, 2000, 2100, 2200, 2300, 2400}" by (elim imageE)
  then have n': "1024 \<le> n" "n \<le> 2400" by auto
  assume "i \<le> length w"
  then have "i \<le> 8" using assms by (auto simp: shell_words_def)
  then have "unat (of_nat (n + i) :: u64) = n + i" using n'(2) by (intro unat_of_nat_small) simp
  moreover have "demo_lit w + of_nat i - 100 = of_nat (n + i)" unfolding n(1) by simp
  moreover have "1024 \<le> n + i" using n'(1) by simp
  ultimately show "1024 \<le> unat (demo_lit w + of_nat i - 100)" by (simp only:)
qed

theorem dsh_turn_dispatch_witness:
  "\<exists>m h'. dsh_turn (ready_uart (\<lambda>i. (str ''stats'' @ [13, 10]) ! i)) demo_lit zero_regs 0 100 \<lparr>arg_rdi = 0, arg_rsi = 0, arg_rcx = 0, arg_rdx = 0, arg_r8 = 0\<rparr>
     [] (zero_kernel\<lparr>mem := demo_words\<rparr>) =
   Some (Next \<lparr>arg_rdi = 0, arg_rsi = 0, arg_rcx = 0, arg_rdx = 0, arg_r8 = 0\<rparr> h'
     (shell_stats ((printf ''GemOS# '' [] (zero_kernel\<lparr>mem := demo_words\<rparr>))\<lparr>mem := m\<rparr>)))"
proof -
  have r: "responsive RCVRDY (ready_uart inp)" "types inp (ready_uart inp)" for inp by (rule ready_uart)+
  have lit: "\<forall>w \<in> shell_words. cstr (mem (zero_kernel\<lparr>mem := demo_words\<rparr>)) (demo_lit w) (str w) \<and>
      (\<forall>i \<le> length w. 1024 \<le> unat (demo_lit w + of_nat i - 100))"
    using demo_words by simp
  have c: "command_of (str ''stats'') = Stats" by (simp add: command_of_def)
  have "\<exists>m h'. cstr m 100 (str ''stats'') \<and> (\<forall>x. 1024 \<le> unat (x - 100) \<longrightarrow> m x = mem (zero_kernel\<lparr>mem := demo_words\<rparr>) x) \<and>
      received h' = received [] @ str ''stats'' @ 13 # [] @ [10] \<and>
      dsh_turn (ready_uart (\<lambda>i. (str ''stats'' @ [13, 10]) ! i)) demo_lit zero_regs 0 100
        \<lparr>arg_rdi = 0, arg_rsi = 0, arg_rcx = 0, arg_rdx = 0, arg_r8 = 0\<rparr> [] (zero_kernel\<lparr>mem := demo_words\<rparr>) =
      run_command (command_of (str ''stats'')) (ready_uart (\<lambda>i. (str ''stats'' @ [13, 10]) ! i)) zero_regs 0 100
        \<lparr>arg_rdi = 0, arg_rsi = 0, arg_rcx = 0, arg_rdx = 0, arg_r8 = 0\<rparr> h'
        ((printf ''GemOS# '' [] (zero_kernel\<lparr>mem := demo_words\<rparr>))\<lparr>mem := m\<rparr>)"
    by (rule dsh_turn_dispatch [OF r _ _ _ _ _ lit]) auto
  then show ?thesis unfolding c run_command_def by auto
qed

text \<open>C33: Printing and parsing: for one to five numbers below \<open>2 ^ 31\<close>, a
  command line with their decimal representations as \<open>%d\<close> prints them is parsed to
  exactly these numbers; the arguments that the line does not give keep their values from the
  previous command.\<close>

theorem parse_init_roundtrip:
  assumes "vs \<noteq> []" "length vs \<le> 5" "\<forall>v \<in> set vs. v < 2 ^ 31" "cstr m cmd (str ''init '' @ arg_line (map format_d vs))"
  shows "map_option args_list (parse_init m cmd args) = Some (vs @ drop (length vs) (args_list args))"
  by (rule parse_init_numbers [OF assms, of args]) simp

theorem parse_init_roundtrip_witness:
  "map_option args_list (parse_init (put_bytes (\<lambda>_. 0) 300 (str ''init '' @ arg_line (map format_d [1, 2]))) 300
     \<lparr>arg_rdi = 9, arg_rsi = 9, arg_rcx = 9, arg_rdx = 9, arg_r8 = 9\<rparr>) = Some [1, 2, 9, 9, 9]"
proof -
  have e: "str ''init '' @ arg_line (map format_d [1, 2]) = str ''init 1 2''"
    by (simp add: format_d_def dec_chars.simps signed_divide_int_def signed_modulo_int_def)
  have "cstr (put_bytes (\<lambda>_. 0) 300 (str ''init '' @ arg_line (map format_d [1, 2]))) 300 (str ''init '' @ arg_line (map format_d [1, 2]))"
    unfolding e by simp
  from parse_init_roundtrip [OF _ _ _ this, of "\<lparr>arg_rdi = 9, arg_rsi = 9, arg_rcx = 9, arg_rdx = 9, arg_r8 = 9\<rparr>"]
  show ?thesis by (simp add: args_list_def)
qed

text \<open>C34: The \<open>init\<close> command with five arguments: a context in an unused slot
  becomes the current one, and execution continues at \<open>CODE_START\<close> with the arguments
  in the argument registers of the C calling convention, except that the third and the fourth are
  swapped, since \<open>struct init_args\<close> has \<open>rcx\<close> before
  \<open>rdx\<close>.\<close>

theorem init_command_starts:
  fixes s :: "'a kernel_scheme"
  assumes "mm_inv s" "can_take OS_PT_REG s" "sched_inv s" "i < MAX_PROCESSES" "state (the_ctx s i) = UNUSED"
    and "length vs = 5" "\<forall>v \<in> set vs. v < 2 ^ 31" "cstr (mem s) command (str ''init '' @ arg_line (map format_d vs))"
    and "\<forall>i < 61. frame_of (command + of_nat i) = page_frame OS_DS_REG d" "region_reserved OS_DS_REG \<le> d" "d < region_pages OS_DS_REG"
  shows "\<exists>n rg s'. run_init cpu rflags command args h s = Some (Started (Inr (Iret rg, s'))) \<and>
    state (the_ctx s n) = UNUSED \<and> current s' = Some n \<and> entry_rip rg = CODE_START \<and>
    c_args rg = [vs ! 0, vs ! 1, vs ! 3, vs ! 2, vs ! 4]"
proof -
  obtain n s1 where g: "get_new_ctx s = (Some n, s1)" by (rule get_new_ctx_Some [OF assms(3-5)])
  note G = get_new_ctx_inv [OF g assms(3)]
  obtain pfn s2 where p: "os_pfn_alloc OS_PT_REG s1 = (pfn, s2)" by fastforce
  have s1: "mem s1 = mem s" "pglists s1 = pglists s" by (simp_all add: G(4) upd_ctx_def)
  have inv: "mm_inv s1" "can_take OS_PT_REG s1" using assms(1,2) by (simp_all add: mm_inv_def can_take_def s1)
  obtain k where k: "k < region_pages OS_PT_REG"
    "\<And>a. frame_of a \<noteq> page_frame OS_PT_REG k \<Longrightarrow> frame_of a \<notin> bmap_frames \<Longrightarrow> mem s2 a = mem s1 a"
    by (rule os_pfn_alloc_contract [OF inv p]) blast
  define s3 where "s3 = upd_ctx n (\<lambda>ctx. ctx\<lparr>state := NEW, ctx_type := EXEC_CTX_USER, used_mem := 0, pgd := 0,
                os_stack_pfn := pfn, os_rsp := osmap (ucast (pfn + 1)),
                ctx_name := copy_name (str ''init'') (ctx_name ctx), mms := user_segments (mms ctx)\<rparr>) s2"
  have c: "create_context (str ''init'') EXEC_CTX_USER s = Inr (n, s3)"
    by (simp add: create_context_def g p s3_def)
  have mem3: "mem s3 (command + of_nat i) = mem s (command + of_nat i)" if "i < 61" for i
  proof -
    have "page_frame OS_DS_REG d \<noteq> page_frame OS_PT_REG k" using page_frame_inj [OF assms(11) k(1)] by auto
    moreover have "page_frame OS_DS_REG d \<notin> bmap_frames"
    proof
      assume "page_frame OS_DS_REG d \<in> bmap_frames"
      then obtain r j where "j < region_reserved r" "page_frame OS_DS_REG d = page_frame r j" by (auto simp: bmap_frames_def)
      then show False using page_frame_inj [OF assms(11), of j r] region_bounds(5) [of r] assms(10) by auto
    qed
    ultimately show ?thesis using k(2) [of "command + of_nat i"] assms(9) that s1(1) by (simp add: s3_def)
  qed
  have len: "length (str ''init '' @ arg_line (map format_d vs)) \<le> 60"
    using arg_line_numbers(2) [OF assms(7)] assms(6) by simp
  have "cstr (mem s3) command (str ''init '' @ arg_line (map format_d vs))"
  proof (rule cstr_cong [OF assms(8)])
    fix i assume "i \<le> length (str ''init '' @ arg_line (map format_d vs))"
    then show "mem s3 (command + of_nat i) = mem s (command + of_nat i)" using len by (intro mem3) linarith
  qed
  moreover have "vs \<noteq> []" using assms(6) by auto
  ultimately obtain a where a: "parse_init (mem s3) command args = Some a" "args_list a = vs @ drop (length vs) (args_list args)"
    using parse_init_numbers [of vs "mem s3" command args] assms(6,7) by auto
  obtain rg s' where x: "exec_init cpu rflags n a s3 = Inr (Iret rg, s')"
    "c_args rg = [arg_rdi a, arg_rsi a, arg_rdx a, arg_rcx a, arg_r8 a]" "entry_rip rg = CODE_START" "current s' = Some n"
    by (rule exec_init_registers)
  have "args_list a = vs" using a(2) assms(6) by (simp add: args_list_def)
  then have "c_args rg = [vs ! 0, vs ! 1, vs ! 3, vs ! 2, vs ! 4]" by (auto simp: x(2) args_list_def)
  then show ?thesis using c a(1) x G(2) by (auto simp: run_init_def)
qed

text \<open>A kernel whose page lists are initialised, with a command line in the buffer at \<open>0x807000\<close>.\<close>

definition demo_line :: "u8 list" where
  "demo_line = str ''init '' @ arg_line (map format_d [1, 2, 3, 4, 5])"

definition shell_kernel :: kernel where
  "shell_kernel = init_pagelists (zero_kernel\<lparr>mem := put_bytes (\<lambda>_. 0) 0x807000 demo_line\<rparr>)"

lemma demo_line_eq: "demo_line = str ''init 1 2 3 4 5''"
  by (simp add: demo_line_def format_d_def dec_chars.simps signed_divide_int_def signed_modulo_int_def)

lemma demo_line_length: "length demo_line < 61"
  by (simp add: demo_line_eq)

lemma buffer_frame: "i < 4096 \<Longrightarrow> frame_of (0x807000 + of_nat i) = 0x807"
  using aligned_add(1) [of 12 "0x807000" "of_nat i"] unat_of_nat_small [of i, where ?'a = 64] by (simp add: aligned_def)

lemma buffer_frame_ds: "page_frame OS_DS_REG 7 = 0x807"
  by (simp add: page_frame_def)

lemma buffer_not_bmap: "0x807 \<notin> bmap_frames"
proof
  assume "0x807 \<in> bmap_frames"
  then obtain r j where j: "j < region_reserved r" "page_frame OS_DS_REG 7 = page_frame r j"
    unfolding buffer_frame_ds by (auto simp: bmap_frames_def)
  then show False using page_frame_inj [of 7 OS_DS_REG j r] region_bounds(5) [of r] by auto
qed

lemma shell_kernel_facts:
  "mm_inv shell_kernel" "can_take OS_PT_REG shell_kernel" "cstr (mem shell_kernel) 0x807000 demo_line"
  "ctx_list shell_kernel = replicate MAX_PROCESSES zero_ctx" "current shell_kernel = None"
proof -
  define s where "s = zero_kernel\<lparr>mem := put_bytes (\<lambda>_. 0) 0x807000 demo_line\<rparr>"
  have len: "length demo_line < 2 ^ 64" using demo_line_length by simp
  have out: "mem s a = 0" if "frame_of a \<noteq> 0x807" for a
  proof -
    have "\<not> unat (a - 0x807000) < 2 ^ 12"
      using in_block_iff [of 12 "0x807000" a] that by (simp add: aligned_def)
    then show ?thesis using demo_line_length by (simp add: s_def put_bytes_apply [OF len])
  qed
  have zero: "mem s a = 0" if "frame_of a \<in> bmap_frames" for a using out buffer_not_bmap that by metis
  note B = init_pagelists_boot [of s, OF zero]
  show "mm_inv shell_kernel" using B(1) by (simp add: shell_kernel_def s_def)
  show "can_take OS_PT_REG shell_kernel"
    using page_prefix_can_take(1) [OF B(2), of OS_PT_REG] by (simp add: shell_kernel_def s_def scan_window_def)
  have st: "mem (init_pagelists s) a = mem s a" if "frame_of a \<notin> bmap_frames" for a
    using that by (rule init_pagelists_step(2))
  have "cstr (mem s) 0x807000 demo_line"
    by (simp add: demo_line_eq s_def)
  then show "cstr (mem shell_kernel) 0x807000 demo_line"
    unfolding shell_kernel_def s_def [symmetric]
    by (rule cstr_cong) (use st buffer_not_bmap buffer_frame demo_line_length in simp)
  show "ctx_list shell_kernel = replicate MAX_PROCESSES zero_ctx" "current shell_kernel = None"
    by (simp_all add: shell_kernel_def init_pagelists_eq zero_kernel_def)
qed

theorem init_command_starts_witness:
  "\<exists>n rg s'. run_init zero_regs 0 0x807000 \<lparr>arg_rdi = 0, arg_rsi = 0, arg_rcx = 0, arg_rdx = 0, arg_r8 = 0\<rparr> [] shell_kernel =
      Some (Started (Inr (Iret rg, s'))) \<and> current s' = Some n \<and> c_args rg = [1, 2, 4, 3, 5]"
proof -
  note F = shell_kernel_facts
  have c: "the_ctx shell_kernel i = zero_ctx" if "i < MAX_PROCESSES" for i using F(4) that by (simp add: the_ctx_def)
  have "sched_inv shell_kernel"
    using F(4,5) by (simp add: sched_inv_def c) (simp add: zero_ctx_def)
  moreover have "state (the_ctx shell_kernel 1) = UNUSED" by (simp add: c zero_ctx_def)
  moreover have "length [1, 2, 3, 4, 5 :: u64] = 5" "\<forall>v \<in> set [1, 2, 3, 4, 5 :: u64]. v < 2 ^ 31" by simp_all
  moreover have "cstr (mem shell_kernel) 0x807000 (str ''init '' @ arg_line (map format_d [1, 2, 3, 4, 5]))"
    using F(3) unfolding demo_line_def .
  moreover have "\<forall>i < 61. frame_of (0x807000 + of_nat i) = page_frame OS_DS_REG 7"
    using buffer_frame buffer_frame_ds by simp
  ultimately have "\<exists>n rg s'. run_init zero_regs 0 0x807000 \<lparr>arg_rdi = 0, arg_rsi = 0, arg_rcx = 0, arg_rdx = 0, arg_r8 = 0\<rparr> []
      shell_kernel = Some (Started (Inr (Iret rg, s'))) \<and> state (the_ctx shell_kernel n) = UNUSED \<and> current s' = Some n \<and>
      entry_rip rg = CODE_START \<and> c_args rg = [[1, 2, 3, 4, 5] ! 0, [1, 2, 3, 4, 5] ! 1, [1, 2, 3, 4, 5] ! 3, [1, 2, 3, 4, 5] ! 2, [1, 2, 3, 4, 5] ! 4]"
    by (intro init_command_starts [where i = 1 and d = 7] F(1,2)) simp_all
  then show ?thesis by auto
qed

end
