(* ===== verification/User_Programs.thy ===== *)
theory User_Programs
  imports Shell_Spec Segments
begin

text \<open>
  The user programs of \<open>src/user\<close>, one of which is linked as the init process: \<open>init.c\<close>,
  \<open>init_args.c\<close> and \<open>init_clone.c\<close>. A program is the tree of its system calls and of its stores
  to memory; the answer of the kernel selects the branch. The addresses of local arrays and of
  functions are parameters, since the compiler chooses them.
\<close>

subsection \<open>Programs\<close>

text \<open>\<open>Overrun\<close> is a store past the end of a local array.\<close>

datatype prog = Call s32 "u64 list" "u64 \<Rightarrow> prog" | Put u64 "u8 list" prog | Overrun | Stop

definition u64_bytes :: "u64 \<Rightarrow> u8 list" where
  "u64_bytes v = map (\<lambda>i. ucast (drop_bit (8 * i) v)) [0..<8]"

definition syscall0 :: "s32 \<Rightarrow> (u64 \<Rightarrow> prog) \<Rightarrow> prog" where "syscall0 n k = Call n [] k"
definition syscall1 :: "s32 \<Rightarrow> u64 \<Rightarrow> (u64 \<Rightarrow> prog) \<Rightarrow> prog" where "syscall1 n a k = Call n [a] k"
definition syscall2 :: "s32 \<Rightarrow> u64 \<Rightarrow> u64 \<Rightarrow> (u64 \<Rightarrow> prog) \<Rightarrow> prog" where "syscall2 n a b k = Call n [a, b] k"

definition u_exit :: "s32 \<Rightarrow> (u64 \<Rightarrow> prog) \<Rightarrow> prog" where "u_exit code k = syscall1 1 (scast code) k"
definition u_getpid :: "(u64 \<Rightarrow> prog) \<Rightarrow> prog" where "u_getpid k = syscall0 2 k"
definition u_write :: "u64 \<Rightarrow> s32 \<Rightarrow> (u64 \<Rightarrow> prog) \<Rightarrow> prog" where "u_write p len k = syscall2 3 p (scast len) k"
definition u_expand :: "u32 \<Rightarrow> s32 \<Rightarrow> (u64 \<Rightarrow> prog) \<Rightarrow> prog" where
  "u_expand npages flags k = syscall2 4 (ucast npages) (scast flags) k"
definition u_sleep :: "s32 \<Rightarrow> (u64 \<Rightarrow> prog) \<Rightarrow> prog" where "u_sleep n k = syscall1 7 (scast n) k"
definition u_signal :: "s32 \<Rightarrow> u64 \<Rightarrow> (u64 \<Rightarrow> prog) \<Rightarrow> prog" where "u_signal num handler k = syscall2 8 (scast num) handler k"
definition u_clone :: "u64 \<Rightarrow> u64 \<Rightarrow> (u64 \<Rightarrow> prog) \<Rightarrow> prog" where "u_clone func stack k = syscall2 9 func stack k"
definition u_fork :: "(u64 \<Rightarrow> prog) \<Rightarrow> prog" where "u_fork k = syscall0 10 k"
definition u_stats :: "(u64 \<Rightarrow> prog) \<Rightarrow> prog" where "u_stats k = syscall0 11 k"
definition u_configure :: "u64 \<Rightarrow> (u64 \<Rightarrow> prog) \<Rightarrow> prog" where "u_configure p k = syscall1 12 p k"

text \<open>\<open>init_start\<close>: \<open>main\<close>, then \<open>exit(0)\<close>.\<close>

definition init_start :: "((u64 \<Rightarrow> prog) \<Rightarrow> prog) \<Rightarrow> prog" where
  "init_start main = main (\<lambda>retval. u_exit 0 (\<lambda>_. Stop))"

text \<open>\<open>DECLARE_MSG(pid)\<close>: the message with the character \<open>'0' + (char)pid\<close> in place of its ampersand.\<close>

definition declare_msg :: "string \<Rightarrow> u64 \<Rightarrow> u8 list" where
  "declare_msg text i = (let msg = str text @ [0] in msg[length msg - 3 := 48 + ucast i])"

subsection \<open>\<open>init.c\<close>\<close>

text \<open>\<open>pageset\<close>; \<open>n\<close> is the number of iterations left.\<close>

fun pageset :: "nat \<Rightarrow> u64 \<Rightarrow> u64 \<Rightarrow> prog \<Rightarrow> prog" where
  "pageset 0 p val k = k"
| "pageset (Suc n) p val k = Put p (u64_bytes val) (pageset n (p + 1024) val k)"

text \<open>The inner loop from page \<open>512 - n\<close>, and the outer one with \<open>total_count\<close> rounds left.\<close>

fun touch_pages :: "nat \<Rightarrow> u64 \<Rightarrow> u64 \<Rightarrow> prog \<Rightarrow> prog" where
  "touch_pages 0 ptr ctr k = k"
| "touch_pages (Suc n) ptr ctr k = pageset 4 (ptr + push_bit 12 ctr) 0x1000 (touch_pages n ptr (ctr + 1) k)"

fun touch_rounds :: "nat \<Rightarrow> u64 \<Rightarrow> prog \<Rightarrow> prog" where
  "touch_rounds 0 ptr k = k"
| "touch_rounds (Suc total_count) ptr k = touch_pages 512 ptr 0 (touch_rounds total_count ptr k)"

text \<open>\<open>msg\<close>, \<open>new_config\<close> and \<open>msg'\<close> are the addresses of the local arrays.\<close>

definition init_main :: "u64 \<Rightarrow> u64 \<Rightarrow> u64 \<Rightarrow> (u64 \<Rightarrow> prog) \<Rightarrow> prog" where
  "init_main msg new_config msg' k =
     u_getpid (\<lambda>pid. Put msg (declare_msg ''pid = &\<newline>'' pid) (u_write msg 9 (\<lambda>_.
     Put new_config (u64_bytes 1 @ u64_bytes 8 @ u64_bytes 0 @ u64_bytes 1) (u_configure new_config (\<lambda>_.
     u_fork (\<lambda>pid.
       let last = u_stats (\<lambda>_. k 0) in
       if pid = 0 then
         u_fork (\<lambda>_. u_getpid (\<lambda>mpid. Put msg' (declare_msg ''pid = &\<newline>'' mpid)
           (u_expand 512 1 (\<lambda>ptr. touch_rounds 64 ptr last))))
       else u_sleep 1000 (\<lambda>_. last)))))))"

subsection \<open>\<open>init_args.c\<close>\<close>

text \<open>The digits of \<open>arg1\<close>, last digit first; \<open>None\<close> is a store past the end of \<open>number\<close>.\<close>

function digit_loop :: "u64 \<Rightarrow> nat \<Rightarrow> u8 list \<Rightarrow> (nat \<times> u8 list) option" where
  "digit_loop arg1 ctr number =
     (if arg1 = 0 then Some (ctr, number)
      else if ctr < length number then digit_loop (arg1 div 10) (ctr + 1) (number[ctr := ucast (arg1 mod 10 + 48)])
      else None)"
  by pat_completeness auto
termination digit_loop
proof (relation "measure (\<lambda>(arg1, ctr, number). unat arg1)")
  fix arg1 :: u64 and ctr :: nat and number :: "u8 list"
  assume "arg1 \<noteq> 0"
  then have "0 < unat arg1" by (simp add: unat_gt_0)
  then show "((arg1 div 10, ctr + 1, number[ctr := ucast (arg1 mod 10 + 48)]), arg1, ctr, number)
      \<in> measure (\<lambda>(arg1, ctr, number). unat arg1)" by (simp add: unat_div)
qed simp

declare digit_loop.simps [simp del]

text \<open>\<open>for(ctr2=0; ctr >= 0; ++ctr2, --ctr)\<close>, with \<open>ctr + 1\<close> as the first argument.\<close>

fun copy_digits :: "nat \<Rightarrow> nat \<Rightarrow> u8 list \<Rightarrow> u8 list \<Rightarrow> (nat \<times> u8 list) option" where
  "copy_digits 0 ctr2 number message = Some (ctr2, message)"
| "copy_digits (Suc ctr) ctr2 number message =
     (if 5 + ctr2 < length message then copy_digits ctr (ctr2 + 1) number (message[5 + ctr2 := number ! ctr]) else None)"

text \<open>The message and its length; \<open>number\<close> and \<open>message\<close> are the uninitialised arrays.\<close>

definition args_message :: "u64 \<Rightarrow> u8 list \<Rightarrow> u8 list \<Rightarrow> (nat \<times> u8 list) option" where
  "args_message arg1 number message =
     (let message = message[0 := 65, 1 := 82, 2 := 71, 3 := 49, 4 := 61] in
      Option.bind (digit_loop arg1 0 number) (\<lambda>(ctr, number).
      Option.bind (copy_digits ctr 0 number message) (\<lambda>(ctr2, message).
        let ctr1 = 5 + ctr2 in
        if ctr1 + 1 < length message then Some (ctr1 + 2, message[ctr1 := 10, ctr1 + 1 := 0]) else None)))"

definition init_args_main :: "u64 \<Rightarrow> u8 list \<Rightarrow> u8 list \<Rightarrow> u64 \<Rightarrow> (u64 \<Rightarrow> prog) \<Rightarrow> prog" where
  "init_args_main msg number message arg1 k =
     (case args_message arg1 number message of
        None \<Rightarrow> Overrun
      | Some (ctr1, buf) \<Rightarrow> Put msg buf (u_write msg (of_nat ctr1) (\<lambda>_. k 0)))"

subsection \<open>\<open>init_clone.c\<close>\<close>

abbreviation clone_text :: string where
  "clone_text \<equiv> ''------------------------------- This line is from pid = &\<newline>''"

definition signal_handler :: "u64 \<Rightarrow> (u64 \<Rightarrow> prog) \<Rightarrow> prog" where
  "signal_handler text k =
     u_write text (of_nat (length ''---------------- Give 0.5 marks if there was a segmentation fault prior to this and process exits with code 10. -------------------\<newline>'' + 1))
       (\<lambda>_. u_exit 10 k)"

definition thread1 :: "u64 \<Rightarrow> (u64 \<Rightarrow> prog) \<Rightarrow> prog" where
  "thread1 msg k =
     u_getpid (\<lambda>pid. Put msg (declare_msg clone_text pid)
       (u_write msg 59 (\<lambda>_. u_sleep 10 (\<lambda>_. u_write msg 59 (\<lambda>_. u_exit 2 k)))))"

fun write_again :: "nat \<Rightarrow> u64 \<Rightarrow> prog \<Rightarrow> prog" where
  "write_again 0 msg k = k"
| "write_again (Suc j) msg k = u_write msg 59 (\<lambda>_. write_again j msg k)"

definition thread2 :: "u64 \<Rightarrow> (u64 \<Rightarrow> prog) \<Rightarrow> prog" where
  "thread2 msg k =
     u_getpid (\<lambda>pid. Put msg (declare_msg clone_text pid)
       (u_write msg 59 (\<lambda>_. u_sleep 5 (\<lambda>_. write_again 20 msg (u_exit 3 k)))))"

text \<open>\<open>f1\<close> and \<open>f2\<close> are the addresses of \<open>thread1\<close> and \<open>thread2\<close>.\<close>

definition clone_main :: "u64 \<Rightarrow> u64 \<Rightarrow> u64 \<Rightarrow> (u64 \<Rightarrow> prog) \<Rightarrow> prog" where
  "clone_main msg f1 f2 k =
     u_expand 1 1 (\<lambda>stack1. u_expand 1 1 (\<lambda>stack2.
     Put stack1 (u64_bytes 0) (Put stack2 (u64_bytes 0)
     (u_getpid (\<lambda>pid. Put msg (declare_msg clone_text pid) (u_write msg 59 (\<lambda>_.
     u_clone f1 stack1 (\<lambda>_. u_clone f2 stack2 (\<lambda>_.
     u_sleep 10 (\<lambda>_. u_write msg 59 (\<lambda>_. u_exit 1 (\<lambda>_. k 0)))))))))))) "

lemma message_sizes:
  "length (declare_msg ''pid = &\<newline>'' i) = 9" "length (declare_msg clone_text i) = 59"
  by (simp_all add: declare_msg_def)


subsection \<open>The message of \<open>init_args.c\<close>\<close>

lemma uint_div_10: "uint (v div 10) = uint v sdiv 10" "uint (v mod 10) = uint v smod 10" for v :: u64
  by (simp_all add: uint_div uint_mod sdiv_smod_nonneg)

lemma digit_byte: "ucast (v mod 10 + 48) = (word_of_int (48 + uint v smod 10) :: u8)" for v :: u64
proof -
  define t where "t = uint v smod 10"
  have "v mod 10 = word_of_int t" unfolding t_def uint_div_10(2) [symmetric] by (rule word_of_int_uint [symmetric])
  then have "v mod 10 + 48 = word_of_int (t + 48)" by simp
  moreover have t: "0 \<le> t" "t < 10" by (simp_all add: t_def sdiv_smod_nonneg)
  then have "take_bit LENGTH(64) (t + 48) = t + 48" by (intro take_bit_int_eq_self) simp_all
  ultimately show ?thesis by (simp only: unsigned_of_int) (use t in \<open>simp add: t_def [symmetric] add.commute\<close>)
qed

lemma dec_chars_0 [simp]: "dec_chars 0 = []"
  by (simp add: dec_chars.simps)

lemma dec_chars_Cons:
  "v \<noteq> 0 \<Longrightarrow> dec_chars (uint v) = ucast (v mod 10 + 48) # dec_chars (uint (v div 10))" for v :: u64
  by (subst dec_chars.simps) (simp add: digit_byte uint_div_10 uint_0_iff del: uint_div uint_mod)

lemma digit_loop_result:
  "digit_loop v ctr number =
    (if v = 0 \<or> ctr + length (dec_chars (uint v)) \<le> length number
     then Some (ctr + length (dec_chars (uint v)),
       take ctr number @ dec_chars (uint v) @ drop (ctr + length (dec_chars (uint v))) number)
     else None)"
proof (induction v ctr number rule: digit_loop.induct)
  case (1 v ctr number)
  show ?case
  proof (cases "v = 0")
    case True
    then show ?thesis by (subst digit_loop.simps) (simp add: dec_chars.simps)
  next
    case False
    then show ?thesis
    proof (cases "ctr < length number")
      case True
      then show ?thesis
        using 1 False by (subst digit_loop.simps) (simp add: dec_chars_Cons take_Suc_conv_app_nth)
    next
      case f: False
      then show ?thesis using False by (subst digit_loop.simps) (simp add: dec_chars_Cons)
    qed
  qed
qed

lemma copy_digits_result:
  "\<lbrakk>c \<le> length number; 5 + j + c \<le> length message\<rbrakk> \<Longrightarrow>
    copy_digits c j number message =
      Some (j + c, take (5 + j) message @ rev (take c number) @ drop (5 + j + c) message)"
proof (induction c arbitrary: j message)
  case (Suc c)
  have "copy_digits (Suc c) j number message = copy_digits c (Suc j) number (message[5 + j := number ! c])"
    using Suc.prems by simp
  also have "\<dots> = Some (Suc j + c, take (5 + Suc j) (message[5 + j := number ! c]) @ rev (take c number) @
      drop (5 + Suc j + c) (message[5 + j := number ! c]))"
    by (rule Suc.IH) (use Suc.prems in simp_all)
  also have "take (5 + Suc j) (message[5 + j := number ! c]) = take (5 + j) message @ [number ! c]"
    using take_Suc_conv_app_nth [of "5 + j" "message[5 + j := number ! c]"] Suc.prems by simp
  finally show ?case using Suc.prems by (simp add: take_Suc_conv_app_nth add.assoc)
qed simp

lemma dec_chars_length_ge: "10 ^ k \<le> t \<Longrightarrow> k < length (dec_chars t)"
proof (induction k arbitrary: t)
  case 0
  then show ?case by (subst dec_chars.simps) simp
next
  case (Suc k)
  have t: "0 \<le> t" "t \<noteq> 0" using Suc.prems zero_less_power [of "10 :: int" "Suc k"] by linarith+
  have "10 ^ k \<le> t div 10" using Suc.prems by (simp add: zdiv_mono1 int_one_le_iff_zero_less)
  then have "k < length (dec_chars (t sdiv 10))" using t by (intro Suc.IH) (simp add: sdiv_smod_nonneg)
  then show ?case using t by (subst dec_chars.simps) simp
qed

lemma init_args_message:
  assumes "length number = 10" "length message = 20" "uint arg1 < 10 ^ 10"
  shows "\<exists>n buf. init_args_main msg number message arg1 k = Put msg buf (Call 3 [msg, of_nat n] (\<lambda>_. k 0)) \<and>
    take n buf = str ''ARG1='' @ rev (dec_chars (uint arg1)) @ [10, 0]"
proof -
  let ?d = "dec_chars (uint arg1)"
  have l: "length ?d \<le> 10" using assms(3) by (intro dec_chars_length) simp_all
  define m where "m = message[0 := 65, 1 := 82, 2 := 71, 3 := 49, 4 := 61]"
  have "5 \<le> length message" using assms(2) by simp
  then obtain a b c d e ms where "message = a # b # c # d # e # ms" by (auto simp: numeral_eq_Suc Suc_le_length_iff)
  then have m: "length m = 20" "take 5 m = str ''ARG1=''"
    using assms(2) by (simp_all add: m_def)
  show "\<exists>n buf. init_args_main msg number message arg1 k = Put msg buf (Call 3 [msg, of_nat n] (\<lambda>_. k 0)) \<and>
        take n buf = str ''ARG1='' @ rev ?d @ [10, 0]"
  proof -
    define pre post where "pre = str ''ARG1='' @ rev ?d" and "post = drop (5 + length ?d) m"
    have "2 \<le> length post" using m(1) l by (simp add: post_def)
    then obtain x y ys where post: "post = x # y # ys" by (auto simp: numeral_2_eq_2 Suc_le_length_iff)
    have "digit_loop arg1 0 number = Some (length ?d, ?d @ drop (length ?d) number)"
      using l assms(1) by (simp add: digit_loop_result)
    moreover have "copy_digits (length ?d) 0 (?d @ drop (length ?d) number) m = Some (length ?d, pre @ post)"
      using copy_digits_result [of "length ?d" "?d @ drop (length ?d) number" 0 m] m l by (simp add: pre_def post_def)
    moreover have "length pre = 5 + length ?d" by (simp add: pre_def)
    moreover have "length pre + 1 < length (pre @ post)" by (simp add: post)
    ultimately have "args_message arg1 number message = Some (length pre + 2, pre @ 10 # 0 # ys)"
      unfolding args_message_def m_def [symmetric] Let_def by (simp add: post list_update_append)
    then have "init_args_main msg number message arg1 k =
        Put msg (pre @ 10 # 0 # ys) (Call 3 [msg, scast (of_nat (length pre + 2) :: s32)] (\<lambda>_. k 0))"
      by (simp add: init_args_main_def u_write_def syscall2_def)
    moreover have "scast (of_nat (length pre + 2) :: s32) = (of_nat (length pre + 2) :: u64)"
      using l by (intro scast_index) (simp add: pre_def)
    ultimately show ?thesis
      by (intro exI [of _ "length pre + 2"] exI [of _ "pre @ 10 # 0 # ys"]) (simp add: pre_def)
  qed
qed

lemma dec_chars_last: "0 < t \<Longrightarrow> dec_chars t \<noteq> [] \<and> last (dec_chars t) \<noteq> 48"
proof (induction t rule: dec_chars.induct)
  case (1 t)
  have d: "dec_chars t = (48 + word_of_int (t mod 10)) # dec_chars (t div 10)"
    using 1(2) by (subst dec_chars.simps) (simp add: sdiv_smod_nonneg)
  show ?case
  proof (cases "t div 10 = 0")
    case True
    then have "0 < t mod 10" using 1(2) by presburger
    then have "uint (48 + word_of_int (t mod 10) :: u8) \<noteq> uint (48 :: u8)" using digit_char [of "t mod 10"] by simp
    then show ?thesis using True by (auto simp: d)
  next
    case False
    then have "0 < t div 10" using 1(2) by presburger
    then show ?thesis using 1 by (simp add: d sdiv_smod_nonneg)
  qed
qed

text \<open>C39: The program \<open>init_args.c\<close>: for a first argument between 1 and
  \<open>10 ^ 10 - 1\<close> it makes one \<open>write\<close> whose bytes are \<open>ARG1=\<close>,
  the decimal digits of the argument, a line feed and a zero. For 0, the argument of a plain
  \<open>init\<close>, it writes no digit at all. From \<open>10 ^ 10\<close> on it stores past the
  end of \<open>number\<close>.\<close>

theorem init_args_prints:
  assumes "length number = 10" "length message = 20"
  shows "(arg1 \<noteq> 0 \<and> uint arg1 < 10 ^ 10 \<longrightarrow>
      (\<exists>n buf digits. init_args_main msg number message arg1 k = Put msg buf (Call 3 [msg, of_nat n] (\<lambda>_. k 0)) \<and>
        take n buf = str ''ARG1='' @ digits @ [10, 0] \<and> dec_value digits = uint arg1 \<and>
        (\<forall>ch\<in>set digits. 48 \<le> ch \<and> ch \<le> 57) \<and> digits \<noteq> [] \<and> hd digits \<noteq> 48)) \<and>
    (arg1 = 0 \<longrightarrow> (\<exists>n buf. init_args_main msg number message arg1 k = Put msg buf (Call 3 [msg, of_nat n] (\<lambda>_. k 0)) \<and>
        take n buf = str ''ARG1='' @ [10, 0])) \<and>
    (10 ^ 10 \<le> uint arg1 \<longrightarrow> init_args_main msg number message arg1 k = Overrun)"
proof (intro conjI impI)
  let ?d = "rev (dec_chars (uint arg1))"
  assume a: "arg1 \<noteq> 0 \<and> uint arg1 < 10 ^ 10"
  then have pos: "0 < uint arg1" by (simp add: word_neq_0_conv word_less_def)
  obtain n buf where "init_args_main msg number message arg1 k = Put msg buf (Call 3 [msg, of_nat n] (\<lambda>_. k 0))"
    "take n buf = str ''ARG1='' @ ?d @ [10, 0]" using init_args_message [OF assms] a by blast
  moreover have "dec_value ?d = uint arg1" "\<forall>ch\<in>set ?d. 48 \<le> ch \<and> ch \<le> 57" "?d \<noteq> []" "hd ?d \<noteq> 48"
    using dec_chars_value [of "uint arg1"] dec_chars_digits [of "uint arg1"] dec_chars_last [OF pos] by (simp_all add: hd_rev)
  ultimately show "\<exists>n buf digits. init_args_main msg number message arg1 k = Put msg buf (Call 3 [msg, of_nat n] (\<lambda>_. k 0)) \<and>
        take n buf = str ''ARG1='' @ digits @ [10, 0] \<and> dec_value digits = uint arg1 \<and>
        (\<forall>ch\<in>set digits. 48 \<le> ch \<and> ch \<le> 57) \<and> digits \<noteq> [] \<and> hd digits \<noteq> 48" by blast
next
  assume "arg1 = 0"
  then show "\<exists>n buf. init_args_main msg number message arg1 k = Put msg buf (Call 3 [msg, of_nat n] (\<lambda>_. k 0)) \<and>
        take n buf = str ''ARG1='' @ [10, 0]"
    using init_args_message [OF assms, of arg1] by simp
next
  assume "10 ^ 10 \<le> uint arg1"
  then have "10 < length (dec_chars (uint arg1))" "arg1 \<noteq> 0" using dec_chars_length_ge [of 10 "uint arg1"] by auto
  then show "init_args_main msg number message arg1 k = Overrun"
    using assms by (simp add: init_args_main_def args_message_def Let_def digit_loop_result)
qed

theorem init_args_prints_witness:
  "\<exists>n buf digits. init_args_main 0x7fffffe00 (replicate 10 0) (replicate 20 0) 42 (\<lambda>_. Stop) =
      Put 0x7fffffe00 buf (Call 3 [0x7fffffe00, of_nat n] (\<lambda>_. Stop)) \<and>
    take n buf = str ''ARG1='' @ digits @ [10, 0] \<and> dec_value digits = 42"
  using init_args_prints [of "replicate 10 0" "replicate 20 0" 42 "0x7fffffe00" "\<lambda>_. Stop"] by auto

subsection \<open>The pages that \<open>init.c\<close> touches\<close>

text \<open>The program after the kernel's answers \<open>vs\<close>, and the stores it makes before its next system
  call.\<close>

fun answered :: "u64 list \<Rightarrow> prog \<Rightarrow> prog" where
  "answered [] p = p"
| "answered (v # vs) (Call n as k) = answered vs (k v)"
| "answered (v # vs) (Put a bs p) = answered (v # vs) p"
| "answered (v # vs) p = p"

fun stores :: "prog \<Rightarrow> (u64 \<times> u8 list) list" where
  "stores (Put a bs p) = (a, bs) # stores p"
| "stores p = []"

lemma stores_pageset:
  "stores (pageset n p val k) = map (\<lambda>j. (p + 1024 * of_nat j, u64_bytes val)) [0..<n] @ stores k"
proof (induction n arbitrary: p)
  case (Suc n)
  show ?case unfolding map_upt_Suc by (simp add: Suc.IH algebra_simps)
qed simp

lemma stores_touch_pages:
  "stores (touch_pages n ptr ctr k) =
    concat (map (\<lambda>i. map (\<lambda>j. (ptr + push_bit 12 (ctr + of_nat i) + 1024 * of_nat j, u64_bytes 0x1000)) [0..<4]) [0..<n]) @ stores k"
proof (induction n arbitrary: ctr)
  case (Suc n)
  show ?case
    by (simp add: Suc.IH stores_pageset map_upt_Suc add.assoc del: upt_Suc)
qed simp

definition touched :: "u64 \<Rightarrow> (u64 \<times> u8 list) set" where
  "touched ptr = (\<lambda>(i, j). (ptr + push_bit 12 (of_nat i) + 1024 * of_nat j, u64_bytes 0x1000)) ` ({..<512} \<times> {..<4 :: nat})"

lemma set_table: "set (concat (map (\<lambda>i. map (f i) [0..<m]) [0..<n])) = (\<lambda>(i, j). f i j) ` ({..<n} \<times> {..<m})"
  by auto

lemma stores_touch_rounds:
  "set (stores (touch_rounds n ptr k)) = (if n = 0 then {} else touched ptr) \<union> set (stores k)"
proof (induction n)
  case (Suc n)
  have "set (stores (touch_rounds (Suc n) ptr k)) = touched ptr \<union> set (stores (touch_rounds n ptr k))"
    unfolding touch_rounds.simps stores_touch_pages set_append set_table touched_def by (simp only: add_0)
  then show ?case by (simp add: Suc.IH)
qed simp

lemma touch_address:
  assumes "aligned 12 ptr" "unat ptr < 2 ^ 63" "i < 512" "j < 4"
  shows "unat (ptr + push_bit 12 (of_nat i) + 1024 * of_nat j) = unat ptr + (4096 * i + 1024 * j)"
    "frame_of (ptr + push_bit 12 (of_nat i) + 1024 * of_nat j) = frame_of ptr + of_nat i"
proof -
  have e: "ptr + push_bit 12 (of_nat i) + 1024 * of_nat j = ptr + of_nat (4096 * i + 1024 * j)"
    by (simp add: push_bit_eq_mult algebra_simps)
  show u: "unat (ptr + push_bit 12 (of_nat i) + 1024 * of_nat j) = unat ptr + (4096 * i + 1024 * j)"
    unfolding e using assms(2-4) by (simp add: unat_word_ariths unat_of_nat_small del: of_nat_add of_nat_mult)
  show "frame_of (ptr + push_bit 12 (of_nat i) + 1024 * of_nat j) = frame_of ptr + of_nat i"
  proof -
    have fr: "unat (frame_of x) = unat x div 4096" for x :: u64 by (simp add: unat_drop_bit_eq) (simp add: drop_bit_eq_div)
    have "unat (ptr mod 4096) = unat ptr mod 4096" by (simp add: unat_mod)
    moreover have "ptr mod 4096 = 0" using assms(1) by (simp add: aligned_def take_bit_eq_mod)
    ultimately have "4096 dvd unat ptr" by (simp add: dvd_eq_mod_eq_0)
    then have "(unat ptr + (4096 * i + 1024 * j)) div 4096 = unat ptr div 4096 + i" using assms(4) by (elim dvdE) simp
    moreover have "unat (frame_of ptr + of_nat i) = unat ptr div 4096 + i"
      using assms(2,3) by (simp add: unat_word_ariths unat_of_nat_small fr)
    ultimately show ?thesis by (simp only: word_unat_eq_iff fr u)
  qed
qed


text \<open>The child of the second \<open>fork\<close>, after the kernel's answers: it has expanded its data segment
  at \<open>ptr\<close>.\<close>

definition init_child :: "u64 \<Rightarrow> u64 \<Rightarrow> u64 \<Rightarrow> u64 \<Rightarrow> prog" where
  "init_child msg new_config msg' ptr =
     answered [1, 9, 0, 0, 3, 2, ptr] (init_start (init_main msg new_config msg'))"

lemma init_child_stores:
  "set (stores (init_child msg new_config msg' ptr)) = touched ptr"
proof -
  have "init_child msg new_config msg' ptr = touch_rounds 64 ptr (u_stats (\<lambda>_. u_exit 0 (\<lambda>_. Stop)))"
    by (simp add: init_child_def init_start_def init_main_def u_getpid_def u_write_def u_configure_def u_fork_def u_expand_def
      syscall0_def syscall1_def syscall2_def Let_def)
  then show ?thesis by (simp add: stores_touch_rounds u_stats_def syscall0_def)
qed

text \<open>C40: Program and kernel together: when the kernel grants the \<open>expand\<close> of
  512 pages that the child process of \<open>init.c\<close> requests, the pages that the program's
  stores hit are exactly these 512, every store lies below the new end of the data segment, and a
  write fault at any of its addresses is one that the page fault handler serves.\<close>

theorem init_touches_expanded_pages:
  assumes "c < length (ctx_list s)" "user_layout (mms (the_ctx s c))"
    and "do_expand c 512 1 s = Inr (Return ptr, t)" "ptr \<noteq> 0"
  shows "(\<forall>(a, bs) \<in> set (stores (init_child msg new_config msg' ptr)).
      fault_ok (the_ctx t c) a 6 \<and> length bs = 8 \<and> unat a + 8 \<le> unat (next_free (mms (the_ctx t c) MM_SEG_DATA))) \<and>
    (\<lambda>(a, bs). frame_of a) ` set (stores (init_child msg new_config msg' ptr)) = (\<lambda>i. frame_of ptr + of_nat i) ` {..<512}"
proof -
  define g where "g = mms (the_ctx s c) MM_SEG_DATA"
  have b: "between g" "unat (seg_end g) < 2 ^ 63"
    using user_layout_bounds [OF assms(2), of MM_SEG_DATA] by (simp_all add: g_def)
  have fit: "\<not> next_free g + push_bit PAGE_SHIFT 512 > seg_end g" "ptr = next_free g"
    "t = upd_ctx c (upd_seg MM_SEG_DATA (\<lambda>g. g\<lparr>next_free := next_free g + push_bit PAGE_SHIFT 512\<rparr>)) s"
    using assms(3,4) by (auto simp: do_expand_def map_segment_def g_def [symmetric] Let_def split: if_splits)
  have "(512 :: u64) \<le> MAX_EXPAND_PAGES" by simp
  note G = between_grow [OF b this fit(1)]
  have seg: "seg_start g = DATA_START" "seg_end g = STACK_START - MAX_STACK_SIZE - 1" "aligned 12 ptr" "unat ptr < 2 ^ 63"
    "unat DATA_START \<le> unat ptr"
    using assms(2) b fit(2) by (auto simp: user_layout_def g_def between_def word_le_nat_alt)
  have m: "mms (the_ctx t c) MM_SEG_DATA = g\<lparr>next_free := next_free g + push_bit PAGE_SHIFT 512\<rparr>"
    by (simp add: fit(3) the_ctx_upd assms(1) g_def)
  have nf: "unat (next_free g + push_bit PAGE_SHIFT 512) = unat ptr + 0x200000" using G(2) by (simp add: fit(2))
  have le: "unat (next_free g + push_bit PAGE_SHIFT 512) \<le> unat (seg_end g)" using fit(1) by (simp add: word_less_nat_alt)
  have ok: "fault_ok (the_ctx t c) a 6 \<and> length bs = 8 \<and> unat a + 8 \<le> unat (next_free (mms (the_ctx t c) MM_SEG_DATA))"
    if "(a, bs) \<in> touched ptr" for a bs
  proof -
    from that obtain i j where ij: "i < 512" "j < 4" "a = ptr + push_bit 12 (of_nat i) + 1024 * of_nat j" "bs = u64_bytes 0x1000"
      by (auto simp: touched_def)
    have ua: "unat a = unat ptr + (4096 * i + 1024 * j)" unfolding ij(3) by (rule touch_address(1) [OF seg(3,4) ij(1,2)])
    then have "a < next_free g + push_bit PAGE_SHIFT 512" "unat a + 8 \<le> unat (next_free g + push_bit PAGE_SHIFT 512)"
      using ij(1,2) unfolding word_less_nat_alt nf by linarith+
    moreover have "seg_start g \<le> a" "a \<le> seg_end g" using seg(1,5) ua le nf ij(1,2) by (simp_all add: word_le_nat_alt)
    ultimately show ?thesis by (simp add: fault_ok_def in_seg_def m ij(4) u64_bytes_def)
  qed
  have "(\<lambda>(a, bs). frame_of a) ` touched ptr = (\<lambda>(i, j). frame_of ptr + of_nat i) ` ({..<512} \<times> {..<4 :: nat})"
    unfolding touched_def image_image by (rule image_cong [OF refl]) (auto simp: touch_address(2) [OF seg(3,4)] simp del: of_nat_add)
  also have "\<dots> = (\<lambda>i. frame_of ptr + of_nat i) ` fst ` ({..<512} \<times> {..<4 :: nat})"
    unfolding image_image by (rule image_cong) auto
  also have "fst ` ({..<512 :: nat} \<times> {..<4 :: nat}) = {..<512}" by (auto simp: fst_image_times lessThan_empty_iff)
  finally show ?thesis using ok unfolding init_child_stores by blast
qed

theorem init_touches_expanded_pages_witness:
  "\<exists>t. do_expand 1 512 1 demo_user = Inr (Return 0x180001000, t) \<and> fault_ok (the_ctx t 1) 0x180001400 6"
proof -
  define t where "t = upd_ctx 1 (upd_seg MM_SEG_DATA (\<lambda>g. g\<lparr>next_free := next_free g + push_bit PAGE_SHIFT 512\<rparr>)) demo_user"
  have d: "mms (the_ctx demo_user 1) = demo_mm" unfolding demo_user_ctx(4) by simp
  have e: "do_expand 1 512 1 demo_user = Inr (Return 0x180001000, t)"
    unfolding do_expand_def d t_def by (simp add: map_segment_def)
  have "(0x180001400, u64_bytes 0x1000) \<in> touched 0x180001000"
    unfolding touched_def by (rule image_eqI [of _ _ "(0, 1)"]) simp_all
  moreover have "user_layout (mms (the_ctx demo_user 1))" unfolding d by (rule demo_user_layout)
  ultimately have "fault_ok (the_ctx t 1) 0x180001400 6"
    using init_touches_expanded_pages [OF demo_user_ctx(1) _ e, of 0 0 0] unfolding init_child_stores by fastforce
  then show ?thesis using e by blast
qed

end
