(* ===== verification/Running_Tree.thy ===== *)
theory Running_Tree
  imports Program_Run User_Access
begin

text \<open>
  The page tables of a running program. While it runs, the large page of the interrupt controller is entered
  in its tables; the tree that the teardown visits is the one of the memory with that entry cleared.
\<close>

definition hole :: "u64 \<Rightarrow> 'a kernel_scheme \<Rightarrow> 'a kernel_scheme" where
  "hole ea s = s\<lparr>mem := wr64 (mem s) ea 0\<rparr>"

abbreviation tnodes :: "u64 \<Rightarrow> u64 \<Rightarrow> 'a kernel_scheme \<Rightarrow> (nat \<times> u64) set" where
  "tnodes ea p s \<equiv> set (pt_frames (wr64 (mem s) ea 0) 4 p)"

definition holds :: "u64 \<Rightarrow> u64 set \<Rightarrow> u64 \<Rightarrow> 'a kernel_scheme \<Rightarrow> bool" where
  "holds ea B p s \<longleftrightarrow> builds B p (hole ea s) \<and> aligned 3 ea \<and> (2, frame_of ea) \<in> tnodes ea p s"

lemma hole_outside:
  assumes "aligned 3 ea" "frame_of ea \<notin> bmap_frames"
  shows "mm_inv (hole ea s) = mm_inv s" "taken (hole ea s) = taken s" "stock r n (hole ea s) = stock r n s"
proof -
  have out: "wr64 (mem s) ea 0 a = mem s a" if "frame_of a \<in> bmap_frames" for a
    using that assms(2) by (intro wr64_frame [OF assms(1), of 12]) auto
  have u: "page_used (wr64 (mem s) ea 0) r k = page_used (mem s) r k" if "k < region_pages r" for r k
    by (rule page_used_outside [OF that out])
  show "taken (hole ea s) = taken s" using u by (auto simp: taken_def hole_def)
  have "stock_set r (hole ea s) = stock_set r s" by (rule stock_set_cong) (simp_all add: u hole_def)
  then show "stock r n (hole ea s) = stock r n s" by (simp add: stock_def)
  have "free_set (wr64 (mem s) ea 0) r = free_set (mem s) r" for r using u by (auto simp: free_set_def)
  moreover have "page_used (wr64 (mem s) ea 0) r k = page_used (mem s) r k" if "k < region_reserved r" for r k
    using that region_bounds(5) [of r] by (intro u) simp
  ultimately show "mm_inv (hole ea s) = mm_inv s" by (auto simp: mm_inv_def pgl_inv_def hole_def)
qed

lemma holdsD:
  assumes "holds ea B p s"
  shows "builds B p (hole ea s)" "aligned 3 ea" "(2, frame_of ea) \<in> tnodes ea p s" "frame_of ea \<notin> bmap_frames"
    "mm_inv s" "taken s = B \<union> snd ` tnodes ea p s" "B \<inter> snd ` tnodes ea p s = {}"
    "(4, p) \<in> tnodes ea p s" "mem (hole ea s) = wr64 (mem s) ea 0"
proof -
  show b: "builds B p (hole ea s)" and al: "aligned 3 ea" and n: "(2, frame_of ea) \<in> tnodes ea p s"
    using assms by (simp_all add: holds_def)
  show m: "mem (hole ea s) = wr64 (mem s) ea 0" by (simp add: hole_def)
  show out: "frame_of ea \<notin> bmap_frames" using node_facts(4) [OF b] n m by metis
  show "mm_inv s" "taken s = B \<union> snd ` tnodes ea p s" "B \<inter> snd ` tnodes ea p s = {}"
    using buildsD [OF b] hole_outside(1,2) [OF al out, of s] m by simp_all
  show "(4, p) \<in> tnodes ea p s" by (rule root_in_frames)
qed

lemma hnode_facts:
  assumes "holds ea B p s" "(l, t) \<in> tnodes ea p s"
  shows "own_page (level_region l) t" "unat t < 131072" "t \<in> taken s" "t \<notin> bmap_frames" "t \<notin> B"
  using node_facts [OF holdsD(1) [OF assms(1)], of l t] assms(2) holdsD(9) [OF assms(1)]
    hole_outside(2) [OF holdsD(2,4) [OF assms(1)], of s] by simp_all

lemma hnode_inj: "holds ea B p s \<Longrightarrow> (l, t) \<in> tnodes ea p s \<Longrightarrow> (l', t) \<in> tnodes ea p s \<Longrightarrow> l' = l"
  using node_inj [OF holdsD(1), of ea B p s l t l'] holdsD(9) by metis

lemma other_level:
  assumes "holds ea B p s" "(l, t) \<in> tnodes ea p s" "l \<noteq> 2"
  shows "t \<noteq> frame_of ea"
proof
  assume t: "t = frame_of ea"
  show False using hnode_inj [OF assms(1) holdsD(3) [OF assms(1)] assms(2) [unfolded t]] assms(3) by simp
qed

text \<open>Entries of the other tables are not affected by the hole.\<close>

lemma hole_entry:
  assumes "holds ea B p s" "(l, t) \<in> tnodes ea p s" "t \<noteq> frame_of ea" "i < 512"
  shows "entry_at (wr64 m ea 0) t i = entry_at m t i"
  by (rule entry_at_cong [OF hnode_facts(2) [OF assms(1,2)] assms(4)])
    (use wr64_frame [OF holdsD(2) [OF assms(1)], of 12] assms(3) in simp)

text \<open>An entry that is present leads to a node one level below; two entries of a table lead to different ones.\<close>

lemma child_node:
  assumes "frames_ok (pt_frames m l p)" "(Suc k, t) \<in> set (pt_frames m l p)" "i \<in> set (table_slots (Suc k))" "entry_at m t i AND 1 \<noteq> 0"
  shows "(k, drop_bit 12 (entry_at m t i)) \<in> set (pt_frames m l p)"
proof -
  note inner = frames_ok_inner [OF assms(1,2)]
  have "set (slot_frames m k t i) \<subseteq> set (pt_frames m l p)"
    using frames_ok_Suc(4) [OF conjunct1 [OF inner] assms(3)] inner by blast
  then show ?thesis using root_in_frames slot_frames_present [OF assms(4), of k] by auto
qed

lemma child_inj:
  assumes "frames_ok (pt_frames m l p)" "(Suc k, t) \<in> set (pt_frames m l p)" "i \<in> set (table_slots (Suc k))" "entry_at m t i AND 1 \<noteq> 0"
    "j \<in> set (table_slots (Suc k))" "entry_at m t j AND 1 \<noteq> 0" "drop_bit 12 (entry_at m t i) = drop_bit 12 (entry_at m t j)"
  shows "i = j"
proof (rule ccontr)
  assume "i \<noteq> j"
  have "frames_ok (concat (map (slot_frames m k t) (table_slots (Suc k))))"
    using conjunct1 [OF frames_ok_inner [OF assms(1,2)]] by (simp add: pt_frames.simps(2))
  from frames_ok_disjoint [OF this assms(3,5) \<open>i \<noteq> j\<close>]
  have "snd ` set (pt_frames m k (drop_bit 12 (entry_at m t i))) \<inter> snd ` set (pt_frames m k (drop_bit 12 (entry_at m t j))) = {}"
    by (simp only: slot_frames_present [OF assms(4)] slot_frames_present [OF assms(6)])
  moreover have "drop_bit 12 (entry_at m t i) \<in> snd ` set (pt_frames m k (drop_bit 12 (entry_at m t i)))"
    using image_eqI [OF _ root_in_frames, of _ snd] by simp
  ultimately show False using assms(7) by auto
qed

subsection \<open>A new node\<close>

lemma hole_write:
  assumes "aligned 3 ea" "aligned 3 e1" "frame_of e1 \<noteq> frame_of ea" "m' a = wr64 m e1 v a"
  shows "wr64 m' ea 0 a = wr64 (wr64 m ea 0) e1 v a"
proof (cases "frame_of a = frame_of ea")
  case True
  then have "frame_of a \<noteq> frame_of e1" using assms(3) by simp
  note out = wr64_frame [OF assms(2) _ this]
  have "m' a = m a" using assms(4) out by simp
  from wr64_same [where m' = m' and m = m, OF this] show ?thesis using out by simp
next
  case False
  note out = wr64_frame [OF assms(1) _ False]
  have "wr64 (wr64 m ea 0) e1 v a = wr64 m e1 v a"
    by (rule wr64_same) (use out in simp)
  then show ?thesis using out assms(4) by simp
qed

text \<open>Present entries of the tables above the last level stay.\<close>

definition keeps :: "u64 \<Rightarrow> u64 \<Rightarrow> 'a kernel_scheme \<Rightarrow> 'a kernel_scheme \<Rightarrow> bool" where
  "keeps ea p s s' \<longleftrightarrow> (\<forall>l n. 2 \<le> l \<longrightarrow> (l, n) \<in> tnodes ea p s \<longrightarrow> (l, n) \<in> tnodes ea p s' \<and>
     (\<forall>x<512. entry_at (mem s) n x AND 1 \<noteq> 0 \<longrightarrow> entry_at (mem s') n x = entry_at (mem s) n x))"

lemma keeps_refl [simp]: "keeps ea p s s"
  by (simp add: keeps_def)

lemma keeps_trans: "keeps ea p s s1 \<Longrightarrow> keeps ea p s1 s2 \<Longrightarrow> keeps ea p s s2"
  unfolding keeps_def by (metis (no_types, lifting))

lemma keepsD:
  assumes "keeps ea p s s'" "(l, n) \<in> tnodes ea p s" "2 \<le> l"
  shows "(l, n) \<in> tnodes ea p s'"
    "x < 512 \<Longrightarrow> entry_at (mem s) n x AND 1 \<noteq> 0 \<Longrightarrow> entry_at (mem s') n x = entry_at (mem s) n x"
  using assms unfolding keeps_def by blast+

lemma hole_grow:
  fixes s s' :: "'a kernel_scheme"
  assumes h: "holds ea B p s" and t: "(Suc k, t) \<in> tnodes ea p s" "t \<noteq> frame_of ea" "i \<in> set (table_slots (Suc k))"
    and e: "entry_at (mem s) t i AND 1 = 0" "v AND 1 \<noteq> 0" "drop_bit 12 v = f"
    and f: "f \<notin> taken s" "own_page (level_region k) f" "mm_inv s'" "taken s' = insert f (taken s)"
    and same: "\<And>a. frame_of a \<in> taken s \<Longrightarrow> frame_of a \<notin> bmap_frames \<Longrightarrow>
      mem s' a = wr64 (mem s) (entry_addr (osmap t) (of_nat i)) v a"
    and zero: "0 < k \<Longrightarrow> (\<And>a. frame_of a = f \<Longrightarrow> mem s' a = 0)"
  shows "holds ea B p s'" "tnodes ea p s' = insert (k, f) (tnodes ea p s)" "keeps ea p s s'"
proof -
  note H = holdsD [OF h] and nt = hnode_facts [OF h t(1)]
  note i = table_slots_less [OF t(3)]
  note ea1 = slot_addr [OF nt(2) i]
  note O = hole_outside [OF H(2,4)]
  have m': "mem (hole ea s') = wr64 (mem s') ea 0" by (simp add: hole_def)
  have t': "(Suc k, t) \<in> set (pt_frames (mem (hole ea s)) 4 p)" using t(1) H(9) by simp
  have e': "entry_at (mem (hole ea s)) t i AND 1 = 0" using e(1) hole_entry [OF h t(1,2) i] H(9) by simp
  have fea: "f \<noteq> frame_of ea" using f(1) hnode_facts(3) [OF h H(3)] by auto
  have ne: "frame_of (entry_addr (osmap t) (of_nat i)) \<noteq> frame_of ea" using ea1(2) t(2) by simp
  have tk: "taken (hole ea s) = taken s" "taken (hole ea s') = taken s'" "mm_inv (hole ea s') = mm_inv s'"
    by (rule O(2), rule O(2), rule O(1))
  have same': "mem (hole ea s') a = wr64 (mem (hole ea s)) (entry_addr (osmap t) (of_nat i)) v a"
    if a: "frame_of a \<in> taken (hole ea s)" "frame_of a \<notin> bmap_frames" for a
    unfolding m' H(9) by (rule hole_write [where m' = "mem s'" and m = "mem s", OF H(2) ea1(1) ne same [OF a(1) [unfolded tk(1)] a(2)]])
  have zero': "mem (hole ea s') a = 0" if "0 < k" "frame_of a = f" for a
    using zero [OF that] wr64_frame [OF H(2), of 12 a] that(2) fea by (simp add: m')
  have f': "f \<notin> taken (hole ea s)" "mm_inv (hole ea s')" "taken (hole ea s') = insert f (taken (hole ea s))"
    unfolding tk using f by simp_all
  note G = builds_grow [OF H(1) t' t(3) e' e(2,3) f'(1) f(2) f'(2,3) same' zero']
  show n: "tnodes ea p s' = insert (k, f) (tnodes ea p s)"
    using G(2) unfolding m' H(9) by (metis set_mset_add_mset_insert set_mset_mset)
  show "holds ea B p s'" unfolding holds_def n by (intro conjI G(1) H(2) insertI2 H(3))
  have "entry_at (mem s') q x = entry_at (mem s) q x" if q: "(l, q) \<in> tnodes ea p s" "x < 512" "entry_at (mem s) q x AND 1 \<noteq> 0" for l q x
  proof -
    have "entry_at (mem s') q x = entry_at (wr64 (mem s) (entry_addr (osmap t) (of_nat i)) v) q x"
      by (rule entry_at_cong [OF hnode_facts(2) [OF h q(1)] q(2)]) (use same hnode_facts(3,4) [OF h q(1)] in simp)
    also have "\<dots> = entry_at (mem s) q x"
    proof (cases "q = t")
      case True
      then have "x \<noteq> i" using q(3) e(1) by auto
      then show ?thesis using entry_at_wr64 [OF nt(2) i q(2)] True by simp
    next
      case False
      then show ?thesis
        using entry_at_cong [OF hnode_facts(2) [OF h q(1)] q(2), of "wr64 (mem s) (entry_addr (osmap t) (of_nat i)) v" "mem s"]
          entry_write_other [OF nt(2) i] by auto
    qed
    finally show ?thesis .
  qed
  then show "keeps ea p s s'" by (auto simp: keeps_def n)
qed

lemma stock_less: "stock r n s \<Longrightarrow> m \<le> n \<Longrightarrow> stock r m s"
  by (simp add: stock_def)

subsection \<open>A page fault\<close>

text \<open>One level of \<open>install_page_table\<close>: the entry leads to a table, or a new empty one is entered.\<close>

lemma fault_level_holds:
  fixes s :: "'a kernel_scheme"
  assumes h: "holds ea B p s" "stock OS_PT_REG (Suc n) s"
    and t: "(Suc (Suc k), t) \<in> tnodes ea p s" "t \<noteq> frame_of ea" "i \<in> set (table_slots (Suc (Suc k)))"
    and fl: "drop_bit 12 fl = 0" "bit fl 0"
  obtains f s' where "fault_level fl (osmap t) (of_nat i) s = (osmap f, s')" "holds ea B p s'" "keeps ea p s s'"
    "stock OS_PT_REG n s'" "\<And>n. stock USER_REG n s' = stock USER_REG n s" "same_kernel s s'"
    "(Suc k, f) \<in> tnodes ea p s'" "entry_at (mem s') t i AND 1 \<noteq> 0" "drop_bit 12 (entry_at (mem s') t i) = f"
    "s' = s \<or> (\<forall>j<512. entry_at (mem s') f j = 0)" "s' = s \<longleftrightarrow> entry_at (mem s) t i AND 1 \<noteq> 0"
proof (cases "entry_at (mem s) t i AND 1 = 0")
  case True
  note H = holdsD [OF h(1)] and nt = hnode_facts [OF h(1) t(1)] and i = table_slots_less [OF t(3)]
  have np: "\<not> entry_at (mem s) t i AND 1 \<noteq> 0" using True by simp
  obtain f s' where T: "table_level (\<lambda>e. e AND 1 \<noteq> 0) (\<lambda>e. osmap (ucast (entry_pfn e))) fl (\<lambda>m _. m) (osmap t) (of_nat i) s = (osmap f, s')"
    "mm_inv s'" "stock OS_PT_REG n s'" "\<And>n. stock USER_REG n s' = stock USER_REG n s" "same_kernel s s'"
    "taken s' = insert f (taken s)" "f \<notin> taken s" "own_page OS_PT_REG f" "\<And>a. frame_of a = f \<Longrightarrow> mem s' a = 0"
    "\<And>a. frame_of a \<in> taken s \<Longrightarrow> frame_of a \<notin> bmap_frames \<Longrightarrow>
       mem s' a = wr64 (mem s) (entry_addr (osmap t) (of_nat i)) (osmap f OR fl) a"
    by (rule table_level_alloc [where present = "\<lambda>e. e AND 1 \<noteq> 0" and nxt = "\<lambda>e. osmap (ucast (entry_pfn e))",
          OF H(5) h(2) nt(2-4) i np fl clears_simps(1)]) metis
  note V = entry_value [OF own_page_small [OF T(8)] fl]
  have own: "own_page (level_region (Suc k)) f" using T(8) by (simp add: level_region_def)
  note G = hole_grow [OF h(1) t True V(2,1) T(7) own T(2,6,10,9)]
  have "entry_at (mem s') t i = entry_at (wr64 (mem s) (entry_addr (osmap t) (of_nat i)) (osmap f OR fl)) t i"
    by (rule entry_at_cong [OF nt(2) i]) (use T(10) nt(3,4) in simp)
  also have "\<dots> = osmap f OR fl" using entry_at_wr64 [OF nt(2) i i] by simp
  finally have e: "entry_at (mem s') t i = osmap f OR fl" .
  have "s' \<noteq> s" using T(6,7) by auto
  moreover have "entry_at (mem s') f j = 0" if "j < 512" for j
    by (rule empty_entry [OF T(9) own_page_small [OF T(8)] that])
  ultimately show ?thesis
    using that [of f s'] T(1) G T(3-5) e V True unfolding fault_level_def by simp
next
  case False
  note H = holdsD [OF h(1)] and i = table_slots_less [OF t(3)]
  let ?f = "drop_bit 12 (entry_at (mem s) t i)"
  have e: "entry_at (wr64 (mem s) ea 0) t i = entry_at (mem s) t i" by (rule hole_entry [OF h(1) t(1,2) i])
  have f: "(Suc k, ?f) \<in> tnodes ea p s"
    using child_node [OF buildsD(3) [OF H(1), unfolded H(9)] t(1,3)] False unfolding e by simp
  have "fault_level fl (osmap t) (of_nat i) s = (osmap ?f, s)"
    using False masked_entry(3) [OF hnode_facts(2) [OF h(1) f]] by (simp add: fault_level_def table_level_def Let_def entry_at_def)
  then show ?thesis using that [of ?f s] h stock_less [OF h(2), of n] f False by simp
qed

text \<open>The addresses of the segments of a program, and the slots that the walk takes for them.\<close>

definition user_addr :: "u64 \<Rightarrow> bool" where
  "user_addr a \<longleftrightarrow> CODE_START \<le> a \<and> a < STACK_START"

lemma user_addr_indices:
  assumes "user_addr a"
  shows "pgd_index a = 0" "4 \<le> unat (pud_index a)" "unat (pud_index a) < 32"
proof -
  have u: "2 ^ 32 \<le> unat a" "unat a < 2 ^ 35" using assms by (simp_all add: user_addr_def word_le_nat_alt word_less_nat_alt)
  then have "take_bit 35 a = a" by (simp add: word_unat_eq_iff unsigned_take_bit_eq take_bit_nat_eq_self)
  then have b: "bit a n \<Longrightarrow> n < 35" for n by (metis bit_take_bit_iff)
  show "pgd_index a = 0"
    by (rule bit_word_eqI) (use b in \<open>force simp: bit_index bit_simps\<close>)
  have "pud_index a = drop_bit 30 a"
    by (rule bit_word_eqI) (use b in \<open>force simp: bit_index bit_simps add.commute\<close>)
  then have "unat (pud_index a) = unat a div 2 ^ 30" by (simp add: unat_drop)
  then show "4 \<le> unat (pud_index a)" "unat (pud_index a) < 32" using u by auto
qed

text \<open>Whether the tables have a present entry for the page of \<open>a\<close>, as the processor walks them.\<close>

definition page_present :: "memory \<Rightarrow> u64 \<Rightarrow> u64 \<Rightarrow> bool" where
  "page_present m p a \<longleftrightarrow>
     (let e4 = entry_at m p (unat (pgd_index a));
          e3 = entry_at m (drop_bit 12 e4) (unat (pud_index a));
          e2 = entry_at m (drop_bit 12 e3) (unat (pmd_index a));
          e1 = entry_at m (drop_bit 12 e2) (unat (pte_index a))
      in e4 AND 1 \<noteq> 0 \<and> e3 AND 1 \<noteq> 0 \<and> e2 AND 1 \<noteq> 0 \<and> e1 AND 1 \<noteq> 0)"

text \<open>The table with the large page of the interrupt controller hangs below a slot that no user address uses.\<close>

definition apic_slot :: "u64 \<Rightarrow> u64 \<Rightarrow> memory \<Rightarrow> bool" where
  "apic_slot ea p m \<longleftrightarrow> entry_at m p 0 AND 1 \<noteq> 0 \<and>
     (\<exists>j\<in>{1, 2, 3}. entry_at m (drop_bit 12 (entry_at m p 0)) j AND 1 \<noteq> 0 \<and>
        drop_bit 12 (entry_at m (drop_bit 12 (entry_at m p 0)) j) = frame_of ea)"

lemma apic_root:
  assumes h: "holds ea B p s" and ap: "apic_slot ea p (mem s)"
  shows "(3, drop_bit 12 (entry_at (mem s) p 0)) \<in> tnodes ea p s" "drop_bit 12 (entry_at (mem s) p 0) \<noteq> frame_of ea"
    "p \<noteq> frame_of ea"
proof -
  note H = holdsD [OF h]
  show p: "p \<noteq> frame_of ea" by (rule other_level [OF h H(8)]) simp
  have p4: "(Suc 3, p) \<in> tnodes ea p s" using H(8) by simp
  have e: "entry_at (wr64 (mem s) ea 0) p 0 = entry_at (mem s) p 0" by (rule hole_entry [OF h p4 p]) simp
  have "entry_at (wr64 (mem s) ea 0) p 0 AND 1 \<noteq> 0" using ap e by (simp add: apic_slot_def)
  then show u: "(3, drop_bit 12 (entry_at (mem s) p 0)) \<in> tnodes ea p s"
    using child_node [OF buildsD(3) [OF H(1), unfolded H(9)] p4, of 0] by (simp add: table_slots_def e)
  show "drop_bit 12 (entry_at (mem s) p 0) \<noteq> frame_of ea" by (rule other_level [OF h u]) simp
qed

lemma apic_slot_keeps:
  assumes h: "holds ea B p s" and ap: "apic_slot ea p (mem s)" and k: "keeps ea p s s'"
  shows "apic_slot ea p (mem s')"
proof -
  let ?u = "drop_bit 12 (entry_at (mem s) p 0)"
  have e: "entry_at (mem s') p 0 = entry_at (mem s) p 0"
    using keepsD(2) [OF k holdsD(8) [OF h], of 0] ap by (simp add: apic_slot_def)
  have "entry_at (mem s') ?u j = entry_at (mem s) ?u j" if "j \<in> {1, 2, 3}" "entry_at (mem s) ?u j AND 1 \<noteq> 0" for j
    using keepsD(2) [OF k apic_root(1) [OF h ap], of j] that by auto
  note same = this
  obtain j where j: "j \<in> {1, 2, 3}" "entry_at (mem s) ?u j AND 1 \<noteq> 0" "drop_bit 12 (entry_at (mem s) ?u j) = frame_of ea"
    and p: "entry_at (mem s) p 0 AND 1 \<noteq> 0"
    using ap unfolding apic_slot_def by blast
  show ?thesis unfolding apic_slot_def e using p j(1)
    by (intro conjI bexI [of _ j]) (simp_all only: same [OF j(1,2)] j(2,3) not_False_eq_True)
qed

text \<open>The walk for a user address goes past that table.\<close>

lemma user_child:
  assumes h: "holds ea B p s" and ap: "apic_slot ea p (mem s)" and i: "4 \<le> i" "i < 512"
    and e: "entry_at (mem s) (drop_bit 12 (entry_at (mem s) p 0)) i AND 1 \<noteq> 0"
  shows "(2, drop_bit 12 (entry_at (mem s) (drop_bit 12 (entry_at (mem s) p 0)) i)) \<in> tnodes ea p s"
    "drop_bit 12 (entry_at (mem s) (drop_bit 12 (entry_at (mem s) p 0)) i) \<noteq> frame_of ea"
proof -
  let ?u = "drop_bit 12 (entry_at (mem s) p 0)" and ?m = "wr64 (mem s) ea 0"
  note H = holdsD [OF h] and R = apic_root [OF h ap]
  have u3: "(Suc 2, ?u) \<in> tnodes ea p s" using R(1) by (simp add: numeral_3_eq_3 numeral_2_eq_2)
  have he: "entry_at ?m ?u j = entry_at (mem s) ?u j" if "j < 512" for j by (rule hole_entry [OF h u3 R(2) that])
  obtain j where j: "j \<in> {1, 2, 3}" "entry_at (mem s) ?u j AND 1 \<noteq> 0" "drop_bit 12 (entry_at (mem s) ?u j) = frame_of ea"
    using ap by (auto simp: apic_slot_def)
  have sl: "i \<in> set (table_slots (Suc 2))" "j \<in> set (table_slots (Suc 2))" using i j(1) by (auto simp: table_slots_def)
  have jl: "j < 512" using j(1) by auto
  note ok = buildsD(3) [OF H(1), unfolded H(9)]
  have pe: "entry_at ?m ?u i AND 1 \<noteq> 0" "entry_at ?m ?u j AND 1 \<noteq> 0" using e j(2) he i(2) jl by simp_all
  show "(2, drop_bit 12 (entry_at (mem s) ?u i)) \<in> tnodes ea p s"
    using child_node [OF ok u3 sl(1) pe(1)] he [OF i(2)] by simp
  have "i \<noteq> j" using i(1) j(1) by auto
  then show "drop_bit 12 (entry_at (mem s) ?u i) \<noteq> frame_of ea"
    using child_inj [OF ok u3 sl(1) pe(1) sl(2) pe(2)] he [OF i(2)] he [OF jl] j(3) by auto
qed

text \<open>The three levels above the last: they lead to an empty entry of a last-level table.\<close>

lemma access_flags_entry: "drop_bit 12 (0x5 OR (err AND 0x2) :: u64) = 0" "bit (0x5 OR (err AND 0x2) :: u64) 0"
proof -
  show "drop_bit 12 (0x5 OR (err AND 0x2) :: u64) = 0"
    by (rule bit_word_eqI) (auto simp: bit_simps bit_numeral_rec(1) elim: less_SucE)
  show "bit (0x5 OR (err AND 0x2) :: u64) 0" by (simp add: bit_or_iff)
qed

lemma fault_walk:
  fixes s :: "'a kernel_scheme"
  assumes h: "holds ea B p s" and ap: "apic_slot ea p (mem s)" and st: "stock OS_PT_REG 3 s"
    and a: "user_addr a" "\<not> page_present (mem s) p a" and fl: "drop_bit 12 fl = 0" "bit fl 0"
  obtains b2 s2 b3 s3 t where "fault_level fl (osmap p) (pgd_index a) s = (osmap (drop_bit 12 (entry_at (mem s) p 0)), s)"
    "fault_level fl (osmap (drop_bit 12 (entry_at (mem s) p 0))) (pud_index a) s = (b2, s2)"
    "fault_level fl b2 (pmd_index a) s2 = (osmap t, s3)" "holds ea B p s3" "keeps ea p s s3"
    "\<And>n. stock USER_REG n s3 = stock USER_REG n s" "same_kernel s s3" "(Suc 0, t) \<in> tnodes ea p s3"
    "entry_at (mem s3) t (unat (pte_index a)) AND 1 = 0"
proof -
  note A = user_addr_indices [OF a(1)] and R = apic_root [OF h ap]
  let ?u = "drop_bit 12 (entry_at (mem s) p 0)"
  let ?i3 = "unat (pud_index a)" and ?i2 = "unat (pmd_index a)" and ?i1 = "unat (pte_index a)"
  have ix: "pgd_index a = of_nat 0" "pud_index a = of_nat ?i3" "pmd_index a = of_nat ?i2" by (simp_all add: A(1))
  have lt: "?i3 < 512" "?i2 < 512" "?i1 < 512" using A(3) by simp_all
  have e0: "entry_at (mem s) p 0 AND 1 \<noteq> 0" using ap by (simp add: apic_slot_def)
  have l1: "fault_level fl (osmap p) (of_nat 0) s = (osmap ?u, s)"
    using e0 masked_entry(3) [OF hnode_facts(2) [OF h R(1)]] by (simp add: fault_level_def table_level_def Let_def entry_at_def)
  have u3: "(Suc (Suc 1), ?u) \<in> tnodes ea p s" using R(1) by (simp add: numeral_3_eq_3)
  have s3: "?i3 \<in> set (table_slots (Suc (Suc 1)))" using lt A(2) by (auto simp: table_slots_def)
  have st3: "stock OS_PT_REG (Suc 2) s" using st by simp
  obtain f2 s2 where L2: "fault_level fl (osmap ?u) (of_nat ?i3) s = (osmap f2, s2)" "holds ea B p s2" "keeps ea p s s2"
    "stock OS_PT_REG 2 s2" "\<And>n. stock USER_REG n s2 = stock USER_REG n s" "same_kernel s s2"
    "(Suc 1, f2) \<in> tnodes ea p s2" "entry_at (mem s2) ?u ?i3 AND 1 \<noteq> 0" "drop_bit 12 (entry_at (mem s2) ?u ?i3) = f2"
    "s2 = s \<or> (\<forall>j<512. entry_at (mem s2) f2 j = 0)" "s2 = s \<longleftrightarrow> entry_at (mem s) ?u ?i3 AND 1 \<noteq> 0"
    by (rule fault_level_holds [OF h st3 u3 R(2) s3 fl], rule that; assumption)
  have e02: "entry_at (mem s2) p 0 = entry_at (mem s) p 0" using keepsD(2) [OF L2(3) holdsD(8) [OF h], of 0] e0 by simp
  have f2: "f2 \<noteq> frame_of ea"
    using user_child(2) [OF L2(2) apic_slot_keeps [OF h ap L2(3)] A(2) lt(1)] L2(8,9) unfolding e02 by simp
  have n2: "(Suc (Suc 0), f2) \<in> tnodes ea p s2" using L2(7) by simp
  have s2s: "?i2 \<in> set (table_slots (Suc (Suc 0)))" using lt by (auto simp: table_slots_def)
  have st2: "stock OS_PT_REG (Suc 1) s2" using L2(4) by (simp add: numeral_2_eq_2)
  obtain t s3 where L3: "fault_level fl (osmap f2) (of_nat ?i2) s2 = (osmap t, s3)" "holds ea B p s3" "keeps ea p s2 s3"
    "stock OS_PT_REG 1 s3" "\<And>n. stock USER_REG n s3 = stock USER_REG n s2" "same_kernel s2 s3"
    "(Suc 0, t) \<in> tnodes ea p s3" "entry_at (mem s3) f2 ?i2 AND 1 \<noteq> 0" "drop_bit 12 (entry_at (mem s3) f2 ?i2) = t"
    "s3 = s2 \<or> (\<forall>j<512. entry_at (mem s3) t j = 0)" "s3 = s2 \<longleftrightarrow> entry_at (mem s2) f2 ?i2 AND 1 \<noteq> 0"
    by (rule fault_level_holds [OF L2(2) st2 n2 f2 s2s fl], rule that; assumption)
  have "s3 = s2 \<Longrightarrow> s2 = s \<Longrightarrow> page_present (mem s) p a \<longleftrightarrow> entry_at (mem s3) t ?i1 AND 1 \<noteq> 0"
    using e0 L2(8,9) L3(8,9) by (simp add: page_present_def Let_def A(1))
  then have "entry_at (mem s3) t ?i1 AND 1 = 0"
    using a(2) L2(10) L3(10,11) lt by (cases "s3 = s2"; cases "s2 = s") auto
  then show ?thesis
    using that [of "osmap f2" s2 t s3, folded ix] l1 L2(1) L3(1,2,7) keeps_trans [OF L2(3) L3(3)] L2(5) L3(5)
      same_kernel_trans [OF L2(6) L3(6)] ix by simp
qed

lemma install_page_table_holds:
  fixes s :: "'a kernel_scheme"
  assumes h: "holds ea B p s" and ap: "apic_slot ea p (mem s)" and st: "stock OS_PT_REG 3 s" "stock USER_REG 1 s"
    and a: "user_addr a" "\<not> page_present (mem s) p a" and p: "p = ucast (pgd ctx)"
  shows "holds ea B p (install_page_table ctx a err s)" "keeps ea p s (install_page_table ctx a err s)"
    "same_kernel s (install_page_table ctx a err s)"
proof -
  define fl where "fl = 0x5 OR (err AND 0x2)"
  note fl = access_flags_entry [of err, folded fl_def]
  let ?i = "unat (pte_index a)"
  obtain b2 s2 b3 s3 t where W: "fault_level fl (osmap p) (pgd_index a) s = (osmap (drop_bit 12 (entry_at (mem s) p 0)), s)"
    "fault_level fl (osmap (drop_bit 12 (entry_at (mem s) p 0))) (pud_index a) s = (b2, s2)"
    "fault_level fl b2 (pmd_index a) s2 = (osmap t, s3)" "holds ea B p s3" "keeps ea p s s3"
    "\<And>n. stock USER_REG n s3 = stock USER_REG n s" "same_kernel s s3" "(Suc 0, t) \<in> tnodes ea p s3"
    "entry_at (mem s3) t ?i AND 1 = 0"
    by (rule fault_walk [OF h ap st(1) a fl], rule that; assumption)
  have i: "?i < 512" "?i \<in> set (table_slots (Suc 0))" by (simp_all add: table_slots_def)
  have t: "t \<noteq> frame_of ea" by (rule other_level [OF W(4,8)]) simp
  obtain q s4 where al: "os_pfn_alloc USER_REG s3 = (q, s4)" by fastforce
  let ?v = "osmap (ucast q) OR fl"
  let ?s' = "s4\<lparr>mem := wr64 (mem s4) (entry_addr (osmap t) (of_nat ?i)) ?v\<rparr>"
  have su: "stock USER_REG (Suc 0) s3" using st(2) W(6) by simp
  note nt = hnode_facts [OF W(4,8)]
  note P = page_alloc(1-5) [OF holdsD(5) [OF W(4)] su nt(2-4) i(1) al, where v = ?v]
    page_alloc(6,7) [OF holdsD(5) [OF W(4)] su nt(2-4) i(1) al]
    page_alloc(8) [OF holdsD(5) [OF W(4)] su nt(2-4) i(1) al, where v = ?v]
  note V = entry_value [OF own_page_small [OF P(7)] fl]
  have own: "own_page (level_region 0) (ucast q)" using P(7) by (simp add: level_region_def)
  have nz: "(0::nat) < 0 \<Longrightarrow> mem ?s' x = 0" for x by simp
  note G = hole_grow [OF W(4,8) t i(2) W(9) V(2,1) P(6) own P(1,5,8) nz]
  have eq: "install_page_table ctx a err s = ?s'"
    using W(1-3) al unfolding install_page_table_def Let_def fl_def [symmetric] p [symmetric] by simp
  show "holds ea B p (install_page_table ctx a err s)" unfolding eq by (rule G(1))
  show "keeps ea p s (install_page_table ctx a err s)" unfolding eq by (rule keeps_trans [OF W(5) G(3)])
  show "same_kernel s (install_page_table ctx a err s)" unfolding eq by (rule same_kernel_trans [OF W(7) P(4)])
qed

subsection \<open>Removing a page\<close>

lemma small_entry_pfn:
  assumes "unat (drop_bit 12 e) < 131072"
  shows "ucast (entry_pfn e) = drop_bit 12 e"
  using arg_cong [OF masked_entry(3) [OF assms], of frame_of] frame_of_osmap [OF assms] by simp

lemma user_entry_present: "user_entry e \<Longrightarrow> e AND 1 \<noteq> 0"
  by (auto simp: user_entry_def)

lemma get_user_pte_node:
  assumes h: "holds ea B p s" and ap: "apic_slot ea p (mem s)" and a: "user_addr a" and p: "p = ucast (pgd ctx)"
    and pte: "get_user_pte (mem s) ctx a \<noteq> 0"
  obtains t i where "(1, t) \<in> tnodes ea p s" "t \<noteq> frame_of ea" "i < 512"
    "get_user_pte (mem s) ctx a = entry_addr (osmap t) (of_nat i)" "entry_at (mem s) t i AND 1 \<noteq> 0"
    "(0, drop_bit 12 (entry_at (mem s) t i)) \<in> tnodes ea p s" "page_present (mem s) p a"
proof -
  note H = holdsD [OF h] and A = user_addr_indices [OF a] and R = apic_root [OF h ap]
  note ok = buildsD(3) [OF H(1), unfolded H(9)]
  define e4 where "e4 = entry_at (mem s) p 0"
  define i3 where "i3 = unat (pud_index a)"
  define e3 where "e3 = entry_at (mem s) (drop_bit 12 e4) i3"
  define i2 where "i2 = unat (pmd_index a)"
  define e2 where "e2 = entry_at (mem s) (drop_bit 12 e3) i2"
  define i1 where "i1 = unat (pte_index a)"
  define e1 where "e1 = entry_at (mem s) (drop_bit 12 e2) i1"
  have ix: "pgd_index a = of_nat 0" "pud_index a = of_nat i3" "pmd_index a = of_nat i2" "pte_index a = of_nat i1"
    by (simp_all add: A(1) i3_def i2_def i1_def)
  have lt: "4 \<le> i3" "i3 < 512" "i2 < 512" "i1 < 512" using A(2,3) by (simp_all add: i3_def i2_def i1_def)
  have r4: "rd64 (mem s) (entry_addr (osmap p) (of_nat 0)) = e4" by (simp add: e4_def entry_at_def)
  have b4: "osmap (ucast (entry_pfn e4)) = osmap (drop_bit 12 e4)"
    unfolding e4_def by (rule masked_entry(3) [OF hnode_facts(2) [OF h R(1)]])
  have r3: "rd64 (mem s) (entry_addr (osmap (drop_bit 12 e4)) (of_nat i3)) = e3" by (simp add: e3_def entry_at_def)
  note G = pte [unfolded get_user_pte_def Let_def p [symmetric] ix r4 b4 r3]
  have u4: "user_entry e4" and u3: "user_entry e3" using G by (auto split: if_splits)
  note p3 = user_entry_present [OF u3]
  note C = user_child [OF h ap lt(1,2), folded e4_def, folded e3_def, OF p3]
  have b3: "osmap (ucast (entry_pfn e3)) = osmap (drop_bit 12 e3)" by (rule masked_entry(3) [OF hnode_facts(2) [OF h C(1)]])
  have r2: "rd64 (mem s) (entry_addr (osmap (drop_bit 12 e3)) (of_nat i2)) = e2" by (simp add: e2_def entry_at_def)
  have u2: "user_entry e2" using G u4 u3 unfolding b3 r2 by (auto split: if_splits)
  have n3: "(Suc 1, drop_bit 12 e3) \<in> tnodes ea p s" using C(1) by (simp add: numeral_2_eq_2)
  have he2: "entry_at (wr64 (mem s) ea 0) (drop_bit 12 e3) i2 = e2" unfolding e2_def by (rule hole_entry [OF h n3 C(2) lt(3)])
  have n2: "(1, drop_bit 12 e2) \<in> tnodes ea p s"
    using child_node [OF ok n3, of i2] user_entry_present [OF u2] lt(3) unfolding he2 by (simp add: table_slots_def)
  have b2: "osmap (ucast (entry_pfn e2)) = osmap (drop_bit 12 e2)" by (rule masked_entry(3) [OF hnode_facts(2) [OF h n2]])
  have r1: "rd64 (mem s) (entry_addr (osmap (drop_bit 12 e2)) (of_nat i1)) = e1" by (simp add: e1_def entry_at_def)
  have u1: "user_entry e1" and v: "get_user_pte (mem s) ctx a = entry_addr (osmap (drop_bit 12 e2)) (of_nat i1)"
    using G u4 u3 u2 unfolding get_user_pte_def Let_def p [symmetric] ix r4 b4 r3 b3 r2 b2 r1 by (auto split: if_splits)
  have t: "drop_bit 12 e2 \<noteq> frame_of ea" by (rule other_level [OF h n2]) simp
  have n1: "(Suc 0, drop_bit 12 e2) \<in> tnodes ea p s" using n2 by simp
  have he1: "entry_at (wr64 (mem s) ea 0) (drop_bit 12 e2) i1 = e1" unfolding e1_def by (rule hole_entry [OF h n1 t lt(4)])
  have n0: "(0, drop_bit 12 e1) \<in> tnodes ea p s"
    using child_node [OF ok n1, of i1] user_entry_present [OF u1] lt(4) unfolding he1 by (simp add: table_slots_def)
  have "page_present (mem s) p a"
    using u4 u3 u2 u1 [THEN user_entry_present]
    by (simp add: page_present_def Let_def A(1) i3_def [symmetric] i2_def [symmetric] i1_def [symmetric]
      e4_def [symmetric] e3_def [symmetric] e2_def [symmetric] e1_def [symmetric] user_entry_present)
  then show ?thesis using that [of "drop_bit 12 e2" i1] n2 t lt(4) v n0 user_entry_present [OF u1] by (simp add: e1_def)
qed

lemma release_inv:
  assumes "mm_inv s" "own_page r f" "f \<in> taken s"
  shows "mm_inv (os_pfn_free r f s)"
proof -
  obtain k where k: "region_reserved r \<le> k" "k < region_pages r" "f = page_frame r k" by (rule own_pageE [OF assms(2)])
  have "page_used (mem s) r k" using assms(3) taken_iff [OF k(2), of s] by (simp add: k(3))
  then show ?thesis unfolding k(3) by (rule os_pfn_free_contract(1) [OF assms(1) k(1,2)])
qed

lemma hole_drop:
  fixes s s' :: "'a kernel_scheme"
  assumes h: "holds ea B p s" and t: "(1, t) \<in> tnodes ea p s" "t \<noteq> frame_of ea" "i < 512" "entry_at (mem s) t i AND 1 \<noteq> 0"
    and f: "mm_inv s'" "taken s' = taken s - {drop_bit 12 (entry_at (mem s) t i)}"
    and same: "\<And>a. frame_of a \<notin> bmap_frames \<Longrightarrow> mem s' a = wr64 (mem s) (entry_addr (osmap t) (of_nat i)) 0 a"
  shows "holds ea B p s'" "keeps ea p s s'"
proof -
  note H = holdsD [OF h] and nt = hnode_facts [OF h t(1)]
  note ok = buildsD(3) [OF H(1), unfolded H(9)]
  note ea1 = slot_addr [OF nt(2) t(3)]
  let ?f = "drop_bit 12 (entry_at (mem s) t i)" and ?F = "pt_frames (wr64 (mem s) ea 0) 4 p" and ?F' = "pt_frames (wr64 (mem s') ea 0) 4 p"
  have ne: "frame_of (entry_addr (osmap t) (of_nat i)) \<noteq> frame_of ea" using ea1(2) t(2) by simp
  have e: "entry_at (wr64 (mem s) ea 0) t i = entry_at (mem s) t i" by (rule hole_entry [OF h t(1-3)])
  have w: "wr64 (mem s') ea 0 a = wr64 (wr64 (mem s) ea 0) (entry_addr (osmap t) (of_nat i)) 0 a"
    if "frame_of a \<in> table_frames ?F" for a
  proof -
    have "frame_of a \<notin> bmap_frames" using own_page_not_bmap [OF table_frames_own [OF ok that]] .
    from hole_write [where m' = "mem s'" and m = "mem s", OF H(2) ea1(1) ne same [OF this]] show ?thesis .
  qed
  have e': "entry_at (wr64 (mem s) ea 0) t i AND 1 \<noteq> 0" using t(4) e by simp
  have m: "mset ?F = mset ((0, ?f) # ?F')" using pt_frames_drop [OF ok t(1,3) w e'] by (simp add: e)
  have ok': "frames_ok ([(0, ?f)] @ ?F')" using ok frames_ok_mset [OF m] by simp
  have st: "tnodes ea p s = insert (0, ?f) (tnodes ea p s')" using mset_eq_setD [OF m] by simp
  have fs: "?f \<notin> snd ` tnodes ea p s'" "frames_ok ?F'" using ok' unfolding frames_ok_append by auto
  note O = hole_outside [OF H(2,4)]
  have tk: "taken (hole ea s') = taken s'" "mm_inv (hole ea s') = mm_inv s'" "mem (hole ea s') = wr64 (mem s') ea 0"
    by (rule O(2), rule O(1)) (simp add: hole_def)
  have fB: "?f \<notin> B" using H(7) unfolding st by auto
  have "builds B p (hole ea s')"
    unfolding builds_def tk
  proof (intro conjI)
    show "mm_inv s'" by (rule f(1))
    show "bmap_frames \<subseteq> B" by (rule buildsD(2) [OF H(1)])
    show "frames_ok ?F'" by (rule fs(2))
    show "B \<inter> snd ` tnodes ea p s' = {}" using H(7) unfolding st by auto
    show "taken s' = B \<union> snd ` tnodes ea p s'" unfolding f(2) H(6) st using fs(1) fB by auto
  qed
  moreover have "(2, frame_of ea) \<in> tnodes ea p s'" using H(3) unfolding st by auto
  ultimately show "holds ea B p s'" unfolding holds_def using H(2) by blast
  show "keeps ea p s s'"
    unfolding keeps_def
  proof (intro allI impI conjI)
    fix l n assume l: "2 \<le> l" "(l, n) \<in> tnodes ea p s"
    then show "(l, n) \<in> tnodes ea p s'" unfolding st by auto
    fix x :: nat assume x: "x < 512"
    have nt': "n \<noteq> t" using hnode_inj [OF h l(2)] t(1) l(1) by fastforce
    show "entry_at (mem s') n x = entry_at (mem s) n x"
    proof (rule entry_at_cong [OF hnode_facts(2) [OF h l(2)] x])
      fix a assume a: "frame_of a = n"
      have "frame_of a \<notin> bmap_frames" using hnode_facts(4) [OF h l(2)] a by simp
      from same [OF this] show "mem s' a = mem s a" using entry_write_other [OF nt(2) t(3)] a nt' by simp
    qed
  qed
qed

lemma do_unmap_user_holds:
  fixes s :: "'a kernel_scheme"
  assumes h: "holds ea B p s" and ap: "apic_slot ea p (mem s)" and a: "user_addr a" and p: "p = ucast (pgd ctx)"
  defines "s' \<equiv> snd (do_unmap_user ctx a s)"
  shows "holds ea B p s'" "keeps ea p s s'" "same_kernel s s'"
proof -
  have "holds ea B p s' \<and> keeps ea p s s' \<and> same_kernel s s'"
  proof (cases "get_user_pte (mem s) ctx a = 0")
    case True
    then show ?thesis using h by (simp add: s'_def do_unmap_user_def)
  next
    case False
    obtain t i where T: "(1, t) \<in> tnodes ea p s" "t \<noteq> frame_of ea" "i < 512"
      "get_user_pte (mem s) ctx a = entry_addr (osmap t) (of_nat i)" "entry_at (mem s) t i AND 1 \<noteq> 0"
      "(0, drop_bit 12 (entry_at (mem s) t i)) \<in> tnodes ea p s" "page_present (mem s) p a"
      by (rule get_user_pte_node [OF h ap a p False], rule that; assumption)
    let ?f = "drop_bit 12 (entry_at (mem s) t i)" and ?ea = "entry_addr (osmap t) (of_nat i)"
    note nt = hnode_facts [OF h T(1)] and nf = hnode_facts [OF h T(6)]
    have own: "own_page USER_REG ?f" using nf(1) by (simp add: level_region_def)
    let ?s1 = "os_pfn_free USER_REG ?f s"
    have s': "s' = ?s1\<lparr>mem := wr64 (mem ?s1) ?ea 0\<rparr>"
      using False T(4) small_entry_pfn [OF nf(2)] by (simp add: s'_def do_unmap_user_def Let_def entry_at_def)
    note S = release_spec [OF mm_inv_pools [OF holdsD(5) [OF h]] own]
    note ea1 = slot_addr [OF nt(2) T(3)]
    have i1: "mm_inv ?s1" by (rule release_inv [OF holdsD(5) [OF h] own nf(3)])
    have out: "wr64 (mem ?s1) ?ea 0 a = mem ?s1 a" if "frame_of a \<in> bmap_frames" for a
      using that nt(4) ea1(2) by (intro wr64_frame [OF ea1(1), of 12]) auto
    note U = mem_update_outside [OF i1, of "\<lambda>m. wr64 m ?ea 0", OF out]
    have s2: "s' = mem_update (\<lambda>m. wr64 m ?ea 0) ?s1" unfolding s' by (cases ?s1) simp
    have "mm_inv s'" "taken s' = taken s - {?f}" using U(1,2) S(2) unfolding s2 by simp_all
    moreover have "mem s' a = wr64 (mem s) ?ea 0 a" if "frame_of a \<notin> bmap_frames" for a
      unfolding s' using wr64_same [of "mem ?s1" a "mem s" ?ea 0] S(3) [OF that] by simp
    moreover have "same_kernel s s'"
      unfolding s2 by (rule same_kernel_trans [OF _ same_kernel_update]) (subst S(5), rule same_kernel_pgl)
    ultimately show ?thesis using hole_drop [OF h T(1-3,5)] by blast
  qed
  then show "holds ea B p s'" "keeps ea p s s'" "same_kernel s s'" by blast+
qed

subsection \<open>Stores of the program\<close>

lemma phys_frame:
  assumes "unat (drop_bit 12 e) < 131072"
  shows "frame_of (phys e a) = drop_bit 12 e"
  using frame_of_osmap [OF assms] small_entry_pfn [OF assms] by (simp add: phys_def drop_bit_or drop_bit_take_bit)

definition user_store :: "memory \<Rightarrow> exec_context \<Rightarrow> memory \<Rightarrow> bool" where
  "user_store m ctx m' \<longleftrightarrow> (\<forall>x. m' x \<noteq> m x \<longrightarrow> (\<exists>a e. user_addr a \<and> user_map m ctx a = Some e \<and> x = phys e a))"

lemma user_store_frame:
  assumes h: "holds ea B p s" and ap: "apic_slot ea p (mem s)" and p: "p = ucast (pgd ctx)"
    and st: "user_store (mem s) ctx m" "m x \<noteq> mem s x"
  shows "(0, frame_of x) \<in> tnodes ea p s"
proof -
  obtain a e where a: "user_addr a" "user_map (mem s) ctx a = Some e" "x = phys e a" using st by (auto simp: user_store_def)
  have pte: "get_user_pte (mem s) ctx a \<noteq> 0" "e = rd64 (mem s) (get_user_pte (mem s) ctx a)"
    using a(2) by (auto simp: user_map_def Let_def split: if_splits)
  obtain t i where T: "(1, t) \<in> tnodes ea p s" "t \<noteq> frame_of ea" "i < 512"
    "get_user_pte (mem s) ctx a = entry_addr (osmap t) (of_nat i)" "entry_at (mem s) t i AND 1 \<noteq> 0"
    "(0, drop_bit 12 (entry_at (mem s) t i)) \<in> tnodes ea p s" "page_present (mem s) p a"
    by (rule get_user_pte_node [OF h ap a(1) p pte(1)], rule that; assumption)
  have "e = entry_at (mem s) t i" using pte(2) T(4) by (simp add: entry_at_def)
  then show ?thesis using phys_frame [OF hnode_facts(2) [OF h T(6)], of a] a(3) T(6) by simp
qed

lemma outside_holds:
  assumes h: "holds ea B p s"
    and same: "\<And>x. frame_of x \<in> bmap_frames \<or> (\<exists>l. 0 < l \<and> (l, frame_of x) \<in> tnodes ea p s) \<Longrightarrow> m x = mem s x"
  shows "holds ea B p (s\<lparr>mem := m\<rparr>)" "keeps ea p s (s\<lparr>mem := m\<rparr>)"
proof -
  note H = holdsD [OF h]
  note ok = buildsD(3) [OF H(1), unfolded H(9)]
  have out: "frame_of x \<in> bmap_frames \<Longrightarrow> (\<lambda>_. m) (mem s) x = mem s x" for x using same by simp
  note U = mem_update_outside [OF H(5), of "\<lambda>_. m", OF out]
  have T: "pt_frames (wr64 m ea 0) 4 p = pt_frames (wr64 (mem s) ea 0) 4 p"
  proof (rule pt_frames_cong [OF ok])
    fix x assume "frame_of x \<in> table_frames (pt_frames (wr64 (mem s) ea 0) 4 p)"
    then have "m x = mem s x" using same by (auto simp: table_frames_def)
    from wr64_same [where m' = m and m = "mem s", OF this] show "wr64 m ea 0 x = wr64 (mem s) ea 0 x" .
  qed
  have n: "tnodes ea p (s\<lparr>mem := m\<rparr>) = tnodes ea p s" by (simp add: T)
  note O = hole_outside [OF H(2,4)]
  have tk: "taken (hole ea (s\<lparr>mem := m\<rparr>)) = taken (s\<lparr>mem := m\<rparr>)" "mm_inv (hole ea (s\<lparr>mem := m\<rparr>)) = mm_inv (s\<lparr>mem := m\<rparr>)"
    "mem (hole ea (s\<lparr>mem := m\<rparr>)) = wr64 m ea 0"
    by (rule O(2), rule O(1)) (simp add: hole_def)
  have inv: "mm_inv (s\<lparr>mem := m\<rparr>)" "taken (s\<lparr>mem := m\<rparr>) = taken s" using U(1,2) by - (assumption | simp)+
  have "builds B p (hole ea (s\<lparr>mem := m\<rparr>))"
    unfolding builds_def tk T inv(2)
    by (intro conjI inv(1) buildsD(2) [OF H(1)] ok H(7) H(6))
  then show "holds ea B p (s\<lparr>mem := m\<rparr>)" unfolding holds_def n by (intro conjI H(2,3))
  show "keeps ea p s (s\<lparr>mem := m\<rparr>)"
    unfolding keeps_def n
  proof (intro allI impI conjI)
    fix l q x assume q: "2 \<le> l" "(l, q) \<in> tnodes ea p s"
    then show "(l, q) \<in> tnodes ea p s" by blast
    assume x: "x < (512 :: nat)"
    show "entry_at (mem (s\<lparr>mem := m\<rparr>)) q x = entry_at (mem s) q x"
    proof (rule entry_at_cong [OF hnode_facts(2) [OF h q(2)] x])
      fix a assume "frame_of a = q"
      then have "0 < l \<and> (l, frame_of a) \<in> tnodes ea p s" using q by simp
      then have "m a = mem s a" using same [of a] by blast
      then show "mem (s\<lparr>mem := m\<rparr>) a = mem s a" by simp
    qed
  qed
qed

lemma user_store_holds:
  assumes h: "holds ea B p s" and ap: "apic_slot ea p (mem s)" and p: "p = ucast (pgd ctx)"
    and st: "user_store (mem s) ctx m"
  shows "holds ea B p (s\<lparr>mem := m\<rparr>)" "keeps ea p s (s\<lparr>mem := m\<rparr>)"
proof -
  note F = user_store_frame [OF h ap p st]
  have same: "m x = mem s x" if "frame_of x \<in> bmap_frames \<or> (\<exists>l. 0 < l \<and> (l, frame_of x) \<in> tnodes ea p s)" for x
    using F [of x] that hnode_facts(4) [OF h, of 0 "frame_of x"] hnode_inj [OF h, of _ "frame_of x" 0] by (metis less_numeral_extra(3))
  show "holds ea B p (s\<lparr>mem := m\<rparr>)" "keeps ea p s (s\<lparr>mem := m\<rparr>)" by (rule outside_holds [OF h same], assumption)+
qed

text \<open>Stores to the memory of devices.\<close>

lemma device_holds:
  assumes h: "holds ea B p s" and dev: "\<And>x. unat (frame_of x) < 131072 \<Longrightarrow> m x = mem s x"
  shows "holds ea B p (s\<lparr>mem := m\<rparr>)" "keeps ea p s (s\<lparr>mem := m\<rparr>)"
proof -
  have same: "m x = mem s x" if "frame_of x \<in> bmap_frames \<or> (\<exists>l. 0 < l \<and> (l, frame_of x) \<in> tnodes ea p s)" for x
    using that
  proof (elim disjE exE conjE)
    assume "frame_of x \<in> bmap_frames"
    then obtain r where "unat (frame_of x) < region_base r + region_reserved r" by (auto simp: bmap_frames_iff)
    then have "unat (frame_of x) < 131072" using region_bounds(3,5) [of r] by simp
    then show ?thesis by (rule dev)
  next
    fix l assume "(l, frame_of x) \<in> tnodes ea p s"
    from hnode_facts(2) [OF h this] show ?thesis by (rule dev)
  qed
  show "holds ea B p (s\<lparr>mem := m\<rparr>)" "keeps ea p s (s\<lparr>mem := m\<rparr>)" by (rule outside_holds [OF h same], assumption)+
qed

end
