(* ===== verification/Program_Memory.thy ===== *)
theory Program_Memory
  imports Running_Tree
begin

text \<open>
  A program that runs alone, from the shell and back: whatever it stores, faults in, requests and returns, and
  however often the timer interrupts it, its exit gives back exactly the frames that its start took.
\<close>

subsection \<open>A program that runs alone\<close>

lemma apic_path:
  assumes "apic_mapped m p base ea" "0x40000000 \<le> base" "base < 0x100000000"
  obtains j t where "j \<in> {1, 2, 3}" "pud_index (push_bit 21 (drop_bit 21 base)) = of_nat j" "t = frame_of ea"
    "entry_at m p 0 AND 1 \<noteq> 0" "entry_at m (drop_bit 12 (entry_at m p 0)) j AND 1 \<noteq> 0"
    "drop_bit 12 (entry_at m (drop_bit 12 (entry_at m p 0)) j) = t" "own_page OS_PT_REG (drop_bit 12 (entry_at m p 0))"
    "own_page OS_PT_REG t" "ea = entry_addr (osmap t) (pmd_index (push_bit 21 (drop_bit 21 base)))" "rd64 m ea AND 1 \<noteq> 0"
proof -
  let ?a = "push_bit 21 (drop_bit 21 base)"
  note A = apic_indices [OF assms(2,3)]
  define j where "j = unat (pud_index ?a)"
  have j: "j \<in> {1, 2, 3}" "pud_index ?a = of_nat j" using A(2) by (auto simp: j_def)
  note M = assms(1) [unfolded apic_mapped_def Let_def A(1) unat_0, folded j_def]
  let ?t = "drop_bit 12 (entry_at m (drop_bit 12 (entry_at m p 0)) j)"
  have own: "own_page OS_PT_REG ?t" using M by blast
  have ea: "ea = entry_addr (osmap ?t) (pmd_index ?a)" using M by blast
  have "frame_of ea = ?t" using slot_addr(2) [OF own_page_small [OF own], of "unat (pmd_index ?a)"] ea by simp
  then show ?thesis by (intro that [of j ?t] j ea own refl; (use M in blast)?) (rule sym)
qed

lemma apic_mapped_slot:
  assumes "apic_mapped m p base ea" "0x40000000 \<le> base" "base < 0x100000000"
  shows "apic_slot ea p m"
  by (rule apic_path [OF assms]) (auto simp: apic_slot_def)

lemma apic_mapped_keeps:
  assumes h: "holds ea B p s" and k: "keeps ea p s s'" and ap: "apic_mapped (mem s) p base ea" "0x40000000 \<le> base" "base < 0x100000000"
  shows "apic_mapped (mem s') p base ea"
proof -
  let ?a = "push_bit 21 (drop_bit 21 base)" and ?u = "drop_bit 12 (entry_at (mem s) p 0)"
  obtain j t where P: "j \<in> {1, 2, 3}" "pud_index ?a = of_nat j" "t = frame_of ea"
    "entry_at (mem s) p 0 AND 1 \<noteq> 0" "entry_at (mem s) ?u j AND 1 \<noteq> 0"
    "drop_bit 12 (entry_at (mem s) ?u j) = t" "own_page OS_PT_REG ?u"
    "own_page OS_PT_REG t" "ea = entry_addr (osmap t) (pmd_index ?a)" "rd64 (mem s) ea AND 1 \<noteq> 0"
    by (rule apic_path [OF ap], rule that; assumption)
  note H = holdsD [OF h] and R = apic_root [OF h apic_mapped_slot [OF ap]]
  have l: "unat (pmd_index ?a) < 512" "j < 512" "unat (of_nat j :: u64) = j" using P(1) by auto
  have e4: "entry_at (mem s') p 0 = entry_at (mem s) p 0" using keepsD(2) [OF k H(8), of 0] P(4) by simp
  have e3: "entry_at (mem s') ?u j = entry_at (mem s) ?u j" using keepsD(2) [OF k R(1), of j] P(5) l(2) by simp
  have ea: "rd64 m ea = entry_at m (frame_of ea) (unat (pmd_index ?a))" for m
    unfolding entry_at_def P(3) [symmetric] by (simp add: P(9) [symmetric])
  have "rd64 (mem s') ea = rd64 (mem s) ea" using keepsD(2) [OF k H(3) _ l(1)] P(10) unfolding ea by simp
  then show ?thesis
    unfolding apic_mapped_def Let_def apic_indices(1) [OF ap(2,3)] unat_0 P(2) l(3) e4 e3 P(6)
    using P(4,5,7-10) by simp
qed

text \<open>What a program that runs alone in context \<open>c\<close> since state \<open>s0\<close> keeps: \<open>B\<close> are the frames outside its tree.\<close>

definition solo :: "nat \<Rightarrow> u64 \<Rightarrow> u64 set \<Rightarrow> 'a kernel_scheme \<Rightarrow> 'a kernel_scheme \<Rightarrow> bool" where
  "solo c ea B s0 s \<longleftrightarrow> current s = Some c \<and> c < length (ctx_list s) \<and> tracks c s0 s \<and> os_pmd_pfn s = os_pmd_pfn s0 \<and>
     pgd (the_ctx s c) = pgd (the_ctx s0 c) \<and> pid (the_ctx s c) = pid (the_ctx s0 c) \<and> user_layout (mms (the_ctx s c)) \<and>
     holds ea B (ucast (pgd (the_ctx s c))) s \<and> apic_mapped (mem s) (ucast (pgd (the_ctx s c))) (apic_base s) ea \<and>
     0x40000000 \<le> apic_base s \<and> apic_base s < 0x100000000"

lemma soloD:
  assumes "solo c ea B s0 s"
  shows "current s = Some c" "c < length (ctx_list s)" "tracks c s0 s" "os_pmd_pfn s = os_pmd_pfn s0"
    "pgd (the_ctx s c) = pgd (the_ctx s0 c)" "user_layout (mms (the_ctx s c))" "holds ea B (ucast (pgd (the_ctx s c))) s"
    "apic_mapped (mem s) (ucast (pgd (the_ctx s c))) (apic_base s) ea" "0x40000000 \<le> apic_base s" "apic_base s < 0x100000000"
    "apic_slot ea (ucast (pgd (the_ctx s c))) (mem s)" "pid (the_ctx s c) = pid (the_ctx s0 c)"
proof -
  show r: "current s = Some c" "c < length (ctx_list s)" "tracks c s0 s" "os_pmd_pfn s = os_pmd_pfn s0"
    "pgd (the_ctx s c) = pgd (the_ctx s0 c)" "user_layout (mms (the_ctx s c))" "holds ea B (ucast (pgd (the_ctx s c))) s"
    "apic_mapped (mem s) (ucast (pgd (the_ctx s c))) (apic_base s) ea" "0x40000000 \<le> apic_base s" "apic_base s < 0x100000000"
    using assms unfolding solo_def by blast+
  show "pid (the_ctx s c) = pid (the_ctx s0 c)" using assms unfolding solo_def by blast
  show "apic_slot ea (ucast (pgd (the_ctx s c))) (mem s)" by (rule apic_mapped_slot [OF r(8-10)])
qed

lemma solo_space:
  assumes "solo c ea B s0 s" "holds ea B (ucast (pgd (the_ctx s c))) s'" "keeps ea (ucast (pgd (the_ctx s c))) s s'" "same_kernel s s'"
  shows "solo c ea B s0 s'"
proof -
  note S = soloD [OF assms(1)] and K = same_kernelD [OF assms(4)]
  show ?thesis
    unfolding solo_def K(8) unfolding K(1-3,6)
    by (intro conjI S assms(2) tracks_same [OF S(3) assms(4)] apic_mapped_keeps [OF S(7) assms(3) S(8-10)])
qed

lemma holds_same:
  assumes "mem s' = mem s" "pglists s' = pglists s"
  shows "holds ea B p s' = holds ea B p s"
proof -
  have "mem (hole ea s') = mem (hole ea s)" "pglists (hole ea s') = pglists (hole ea s)" using assms by (simp_all add: hole_def)
  then have "builds B p (hole ea s') = builds B p (hole ea s)" by (simp add: builds_def mm_inv_def taken_def)
  then show ?thesis by (simp add: holds_def assms(1))
qed

text \<open>Changes of the rest of the kernel's state.\<close>

lemma solo_upd:
  assumes "solo c ea B s0 s" "\<And>x. os_stack_pfn (f x) = os_stack_pfn x" "\<And>x. pgd (f x) = pgd x" "\<And>x. pid (f x) = pid x"
    "user_layout (mms (f (the_ctx s c)))"
  shows "solo c ea B s0 (upd_ctx c f s)"
proof -
  note S = soloD [OF assms(1)]
  have u: "the_ctx (upd_ctx c f s) c = f (the_ctx s c)" using S(2) by (simp add: the_ctx_upd)
  have l: "c < length (ctx_list s0)" using tracks_length [OF S(3)] S(2) by simp
  have h: "holds ea B p (upd_ctx c f s) = holds ea B p s" for p by (rule holds_same) (simp_all add: upd_ctx_def)
  show ?thesis
    unfolding solo_def u assms(3,4) h using S tracks_upd [OF S(3) l assms(2)] assms(5) by (simp add: upd_ctx_def)
qed

lemma solo_same:
  assumes "solo c ea B s0 s" "mem s' = mem s" "pglists s' = pglists s" "ctx_list s' = ctx_list s" "current s' = current s"
    "os_pmd_pfn s' = os_pmd_pfn s" "apic_base s' = apic_base s"
  shows "solo c ea B s0 s'"
proof -
  have x: "the_ctx s' c = the_ctx s c" using assms(4) by (simp add: the_ctx_def)
  have t: "tracks c s0 s' = tracks c s0 s" by (simp add: tracks_def x assms(4,7))
  show ?thesis using assms(1) unfolding solo_def x t holds_same [OF assms(2,3)] assms(2-7) .
qed

lemma up_loop_inv:
  assumes "up_loop body lim v s = Inr s'" "P s" "\<And>a s. P s \<Longrightarrow> v \<le> a \<Longrightarrow> a < lim \<Longrightarrow> P (body a s)"
  shows "P s'"
  using assms
proof (induction body lim v s rule: up_loop.induct)
  case (1 body lim v s)
  show ?case
  proof (cases "v < lim")
    case True
    then have l: "\<not> v + 4096 < v" "up_loop body lim (v + 4096) (body v s) = Inr s'"
      using 1(2) by (simp_all add: up_loop.simps [of body lim v s] split: if_splits)
    show ?thesis
      by (rule "1.IH" [OF True l]) (use 1(3,4) True l(1) in \<open>auto simp: not_less intro: order_trans\<close>)
  next
    case False
    then show ?thesis using 1(2,3) by (simp add: up_loop.simps [of body lim v s])
  qed
qed

lemma layout_user_addr:
  assumes "user_layout mm" "k \<in> {MM_SEG_RODATA, MM_SEG_DATA}" "seg_start (mm k) \<le> a" "a < seg_end (mm k)"
  shows "user_addr a"
  using assms unfolding user_layout_def user_addr_def by (auto simp: word_le_nat_alt word_less_nat_alt)

lemma layout_fault_addr:
  assumes "user_layout (mms ctx)" "fault_ok ctx a err"
  shows "user_addr a"
  using assms unfolding user_layout_def fault_ok_def in_seg_def user_addr_def between_def
  by (auto simp: word_le_nat_alt word_less_nat_alt split: if_splits)

lemma do_expand_solo:
  assumes s: "solo c ea B s0 s" and ex: "do_expand c n t s = Inr (fl, s')"
  shows "solo c ea B s0 s'"
proof (cases "(if n > MAX_EXPAND_PAGES then None else map_segment t)")
  case None
  then show ?thesis using s ex by (simp add: do_expand_def)
next
  case (Some k)
  note S = soloD [OF s]
  define g where "g = mms (the_ctx s c) k"
  have k: "n \<le> MAX_EXPAND_PAGES" "k \<in> {MM_SEG_RODATA, MM_SEG_DATA}" using Some map_segment_cases by blast+
  note b = user_layout_bounds [OF S(6) k(2), folded g_def]
  show ?thesis
  proof (cases "next_free g + push_bit PAGE_SHIFT n > seg_end g")
    case True
    then show ?thesis using s ex Some by (simp add: do_expand_def g_def)
  next
    case False
    let ?f = "upd_seg k (\<lambda>g. g\<lparr>next_free := next_free g + push_bit PAGE_SHIFT n\<rparr>)"
    have s': "s' = upd_ctx c ?f s" using ex Some False by (simp add: do_expand_def g_def)
    have "user_layout ((mms (the_ctx s c))(k := g\<lparr>next_free := next_free g + push_bit PAGE_SHIFT n\<rparr>))"
      using user_layout_upd [OF S(6) k(2)] between_grow(1) [OF b(1,2) k(1) False] by (simp add: g_def)
    then show ?thesis unfolding s' by (intro solo_upd [OF s]) (simp_all add: g_def)
  qed
qed

lemma unmap_solo:
  assumes "solo c ea B s0 s" "user_addr a"
  shows "solo c ea B s0 (snd (do_unmap_user (the_ctx s c) a s))"
proof -
  note S = soloD [OF assms(1)]
  note U = do_unmap_user_holds [OF S(7,11) assms(2) refl]
  show ?thesis by (rule solo_space [OF assms(1) U])
qed

lemma do_shrink_solo:
  assumes s: "solo c ea B s0 s" and ex: "do_shrink c n t s = Inr (fl, s')"
  shows "solo c ea B s0 s'"
proof (cases "(if n > MAX_EXPAND_PAGES then None else map_segment t)")
  case None
  then show ?thesis using s ex by (simp add: do_shrink_def)
next
  case (Some k)
  note S = soloD [OF s]
  define g where "g = mms (the_ctx s c) k"
  define nf where "nf = next_free g - push_bit PAGE_SHIFT n"
  have k: "n \<le> MAX_EXPAND_PAGES" "k \<in> {MM_SEG_RODATA, MM_SEG_DATA}" using Some map_segment_cases by blast+
  note b = user_layout_bounds [OF S(6) k(2), folded g_def]
  show ?thesis
  proof (cases "nf < seg_start g")
    case True
    then show ?thesis using s ex Some by (simp add: do_shrink_def g_def nf_def)
  next
    case False
    let ?s1 = "upd_ctx c (upd_seg k (\<lambda>g. g\<lparr>next_free := nf\<rparr>)) s"
    have l: "up_loop (\<lambda>address s. snd (do_unmap_user (the_ctx s c) address s)) (next_free g) nf ?s1 = Inr s'"
      using ex Some False by (auto simp: do_shrink_def Let_def g_def nf_def result_simps)
    have "user_layout ((mms (the_ctx s c))(k := g\<lparr>next_free := nf\<rparr>))"
      using user_layout_upd [OF S(6) k(2)] between_cut(1) [OF b(1,3) k(1)] False by (simp add: g_def nf_def)
    then have s1: "solo c ea B s0 ?s1" by (intro solo_upd [OF s]) (simp_all add: g_def)
    have addr: "user_addr a" if "nf \<le> a" "a < next_free g" for a
    proof (rule layout_user_addr [OF S(6) k(2)])
      show "seg_start (mms (the_ctx s c) k) \<le> a" using False that(1) by (simp add: g_def not_less)
      show "a < seg_end (mms (the_ctx s c) k)" using that(2) b(1) less_le_trans by (auto simp: g_def between_def)
    qed
    show ?thesis by (rule up_loop_inv [where P = "solo c ea B s0", OF l s1]) (use unmap_solo addr in blast)
  qed
qed

lemma page_fault_solo:
  assumes s: "solo c ea B s0 s" and f: "fault_ok (the_ctx s c) a err" "\<not> page_present (mem s) (ucast (pgd (the_ctx s c))) a"
    and st: "stock OS_PT_REG 3 s" "stock USER_REG 1 s" and pf: "do_page_fault mmu a rg err s = Inr (fl, s')"
  shows "solo c ea B s0 s'"
proof -
  note S = soloD [OF s]
  let ?s1 = "s\<lparr>stats := (stats s)\<lparr>page_faults := page_faults (stats s) + 1\<rparr>\<rparr>"
  have x: "the_ctx ?s1 c = the_ctx s c" by (simp add: the_ctx_def)
  have s': "s' = install_page_table (the_ctx s c) a err ?s1"
    using pf S(1) f(1) by (simp add: do_page_fault_def get_current_ctx_def Let_def x)
  have s1: "solo c ea B s0 ?s1" by (rule solo_same [OF s]) simp_all
  have st1: "stock OS_PT_REG 3 ?s1" "stock USER_REG 1 ?s1" using st by (simp_all add: stock_def stock_set_def)
  have p1: "\<not> page_present (mem ?s1) (ucast (pgd (the_ctx s c))) a" using f(2) by simp
  note S1 = soloD [OF s1, unfolded x]
  note I = install_page_table_holds [OF S1(7,11) st1 layout_fault_addr [OF S1(6) f(1)] p1 refl, where err = err]
  show ?thesis unfolding s' by (rule solo_space [OF s1 _ _ I(3)]) (simp_all only: x I(1,2))
qed

lemma printf_kernel [simp]: "os_pmd_pfn (printf f as s) = os_pmd_pfn s" "apic_base (printf f as s) = apic_base s"
  using same_kernelD(3,6) [OF same_kernel_printf] by blast+

lemma if_eqE: "(if b then x else y) = z \<Longrightarrow> (x = z \<Longrightarrow> P) \<Longrightarrow> (y = z \<Longrightarrow> P) \<Longrightarrow> P"
  by (simp split: if_splits)

lemma syscall_solo:
  assumes s: "solo c ea B s0 s" and n: "n \<notin> {1, 7, 9, 10}" and sc: "do_syscall mmu rg n x y s = Inr (fl, s')"
  shows "solo c ea B s0 s'"
proof -
  note S = soloD [OF s]
  define t where "t = upd_ctx c (regs_update (\<lambda>_. rg)) s"
  define u where "u = t\<lparr>stats := (stats t)\<lparr>syscalls := syscalls (stats t) + 1\<rparr>\<rparr>"
  have "solo c ea B s0 t" unfolding t_def by (rule solo_upd [OF s]) (simp_all add: S(6))
  then have s2: "solo c ea B s0 u" unfolding u_def by (rule solo_same) simp_all
  have pr: "solo c ea B s0 (printf f as v) = solo c ea B s0 v" for f as and v :: "'a kernel_scheme"
    using solo_same [of c ea B s0 v "printf f as v"] solo_same [of c ea B s0 "printf f as v" v]
      same_kernelD(3,6) [OF same_kernel_printf, of f as v] by auto
  have n': "(n = 1) = False" "(n = 7) = False" "(n = 9) = False" "(n = 10) = False" using n by simp_all
  note eq = sc [unfolded do_syscall_def get_current_ctx_def S(1) option.case Let_def, folded t_def, folded u_def,
      unfolded n' if_False]
  consider "s' = u" | "do_write mmu (the_ctx u c) x y u = Inr (fl, s')"
    | "do_expand c x (ucast y) u = Inr (fl, s')" | "do_shrink c x (ucast y) u = Inr (fl, s')"
    | "do_alarm (ucast x) u = Inr (fl, s')" | "do_signal (ucast x) y u = Inr (fl, s')"
    | "s' = print_stats u"
    | "bind_err (user_read mmu x 32 u) (\<lambda>bs. Inr (Return 0, u\<lparr>config := configs_of_bytes bs\<rparr>)) = Inr (fl, s')"
    using eq
    by (elim if_eqE) (rule that(1), simp, erule that(2), erule that(3), erule that(4), erule that(5), erule that(6),
      rule that(7), simp, erule that(8), rule that(1), simp)
  then show ?thesis
  proof cases
    case 1 then show ?thesis using s2 by simp
  next
    case 2 then show ?thesis using s2 by (auto simp: do_write_def print_user_def bind_err_Inr pr split: if_splits
        intro!: solo_same [OF s2])
  next
    case 3 then show ?thesis by (rule do_expand_solo [OF s2])
  next
    case 4 then show ?thesis by (rule do_shrink_solo [OF s2])
  next
    case 5
    note S2 = soloD [OF s2]
    show ?thesis using 5 S2(1) s2
      by (auto simp: do_alarm_def get_current_ctx_def split: if_splits intro!: solo_upd [OF s2] S2(6))
  next
    case 6
    note S2 = soloD [OF s2]
    show ?thesis using 6 S2(1) s2
      by (auto simp: do_signal_def get_current_ctx_def split: option.splits intro!: solo_upd [OF s2] S2(6))
  next
    case 7 then show ?thesis using s2 by (auto simp: print_stats_def pr)
  next
    case 8 then show ?thesis by (auto simp: bind_err_Inr intro!: solo_same [OF s2])
  qed
qed

subsection \<open>Timer interrupts\<close>

definition alone :: "nat \<Rightarrow> 'a kernel_scheme \<Rightarrow> bool" where
  "alone c s \<longleftrightarrow> 0 < c \<and> c < MAX_PROCESSES \<and> length (ctx_list s) = MAX_PROCESSES \<and> pid (the_ctx s c) = of_nat c \<and>
     state (the_ctx s 0) = READY \<and> (\<forall>i<MAX_PROCESSES. 0 < i \<longrightarrow> i \<noteq> c \<longrightarrow> state (the_ctx s i) = UNUSED)"

lemma alone_others:
  assumes "alone c s0" "tracks c s0 s" "i \<noteq> c" "i < MAX_PROCESSES"
  shows "the_ctx s i = the_ctx s0 i" "state (the_ctx s i) = (if i = 0 then READY else UNUSED)"
proof -
  have "ctx_list s = (ctx_list s0)[c := the_ctx s c]" using assms(2) by (simp add: tracks_def)
  then show x: "the_ctx s i = the_ctx s0 i" using assms(3) by (metis nth_list_update_neq the_ctx_def)
  show "state (the_ctx s i) = (if i = 0 then READY else UNUSED)" unfolding x using assms(1,3,4) by (simp add: alone_def)
qed

lemma sleep_tick_rest:
  "os_stack_pfn (sleep_tick x) = os_stack_pfn x" "pgd (sleep_tick x) = pgd x" "pid (sleep_tick x) = pid x"
  "mms (sleep_tick x) = mms x" "ticks_to_alarm (sleep_tick x) = ticks_to_alarm x"
  by (simp_all add: sleep_tick_def)

lemma alone_sleep_account:
  assumes "alone c s0" "tracks c s0 s"
  shows "sleep_account s = upd_ctx c sleep_tick s"
proof -
  have l: "length (ctx_list s) = MAX_PROCESSES" using tracks_length [OF assms(2)] assms(1) by (simp add: alone_def)
  have "map sleep_tick (ctx_list s) = (ctx_list s)[c := sleep_tick (ctx_list s ! c)]"
  proof (rule nth_equalityI)
    fix i assume "i < length (map sleep_tick (ctx_list s))"
    then have i: "i < MAX_PROCESSES" using l by simp
    show "map sleep_tick (ctx_list s) ! i = (ctx_list s)[c := sleep_tick (ctx_list s ! c)] ! i"
    proof (cases "i = c")
      case False
      from alone_others(2) [OF assms False i] have "sleep_tick (ctx_list s ! i) = ctx_list s ! i"
        by (auto simp: sleep_tick_def the_ctx_def split: if_splits)
      then show ?thesis using i l False by simp
    qed (use i l in simp)
  qed simp
  then show ?thesis by (simp add: sleep_account_def upd_ctx_def)
qed

lemma next_ready_alone:
  assumes "0 < c" "c < MAX_PROCESSES" "is_ready s c" "\<And>i. 0 < i \<Longrightarrow> i < MAX_PROCESSES \<Longrightarrow> i \<noteq> c \<Longrightarrow> \<not> is_ready s i"
  shows "next_ready c s = c"
proof -
  have "c \<in> set (round_robin c)" using assms(1,2) by (auto simp: round_robin_def simp del: upt_Suc)
  then have "find (is_ready s) (round_robin c) \<noteq> None" unfolding find_None_iff using assms(3) by blast
  then obtain i where i: "find (is_ready s) (round_robin c) = Some i" by blast
  then have r: "is_ready s i" "i \<in> set (round_robin c)" unfolding find_Some_iff by (elim exE conjE, simp, elim exE conjE, simp)
  then have "0 < i" "i < MAX_PROCESSES" using assms(1,2) by (auto simp: round_robin_def simp del: upt_Suc)
  then have "i = c" using assms(4) r(1) by blast
  then show ?thesis using i by (simp add: next_ready_def)
qed

lemma solo_state: "solo c ea B s0 s \<Longrightarrow> solo c ea B s0 (upd_ctx c (state_update f) s)"
  by (rule solo_upd) (simp_all add: soloD(6))

lemma ack_irq_device:
  fixes s :: "'a kernel_scheme"
  assumes "0x40000000 \<le> apic_base s" "apic_base s < 0x100000000" "unat (frame_of x) < 131072"
  shows "mem (ack_irq s) x = mem s x"
proof -
  have x: "unat x < 2 ^ 29" using assms(3) by (simp add: unat_drop)
  have "x \<noteq> apic_base s + k" if "unat k < 2 ^ 12" for k
  proof
    assume e: "x = apic_base s + k"
    have "unat (apic_base s + k) = unat (apic_base s) + unat k"
      using assms(2) that by (intro unat_add_lem [THEN iffD1]) (simp add: word_less_nat_alt)
    then show False using x assms(1) e by (simp add: word_le_nat_alt)
  qed
  then show ?thesis by (simp add: ack_irq_def wr32_def add.assoc)
qed

lemma tick_solo:
  assumes s: "solo c ea B s0 s" and a: "alone c s0" and al: "ticks_to_alarm (the_ctx s c) \<noteq> 1"
    and t: "handle_timer_tick mmu rg s = Inr (fl, s')"
  shows "solo c ea B s0 s'"
proof -
  note S = soloD [OF s]
  define s1 where "s1 = upd_ctx c sleep_tick s"
  have s1: "solo c ea B s0 s1" unfolding s1_def
    by (rule solo_upd [OF s]) (simp_all add: sleep_tick_rest S(6))
  have x1: "the_ctx s1 c = sleep_tick (the_ctx s c)" using S(2) by (simp add: s1_def the_ctx_upd)
  define s2 where "s2 = (if 0 < ticks_to_alarm (the_ctx s1 c)
    then upd_ctx c (\<lambda>ctx. ctx\<lparr>ticks_to_alarm := ticks_to_alarm ctx - 1\<rparr>) s1 else s1)"
  have s2: "solo c ea B s0 s2" using s1 soloD(6) [OF s1] by (auto simp: s2_def intro!: solo_upd [OF s1])
  have "ticks_to_alarm (the_ctx s1 c) - 1 \<noteq> 0 \<or> ticks_to_alarm (the_ctx s1 c) = 0"
    using al by (simp add: x1 sleep_tick_rest)
  then have "do_sleep_and_alarm_account mmu rg s = Inr (Return rg, s2)"
    using S(1,2) soloD(2) [OF s1]
    by (auto simp: do_sleep_and_alarm_account_def get_current_ctx_def alone_sleep_account [OF a S(3)] s1_def [symmetric]
        s2_def the_ctx_upd word_gt_0)
  then have p: "preempt c rg s2 = Inr (fl, s')" using t S(1) by (simp add: handle_timer_tick_def get_current_ctx_def result_simps)
  define s3 where "s3 = upd_ctx c (state_update (\<lambda>_. READY)) (s2\<lparr>stats := (stats s2)\<lparr>ticks := ticks (stats s2) + 1\<rparr>\<rparr>)"
  have "solo c ea B s0 (s2\<lparr>stats := (stats s2)\<lparr>ticks := ticks (stats s2) + 1\<rparr>\<rparr>)" by (rule solo_same [OF s2]) simp_all
  then have s3: "solo c ea B s0 s3" unfolding s3_def by (rule solo_state)
  note S3 = soloD [OF s3]
  have a': "0 < c" "c < MAX_PROCESSES" "pid (the_ctx s3 c) = of_nat c" using a S3(12) by (simp_all add: alone_def)
  have "is_ready s3 c" using soloD(2) [OF s2] by (simp add: is_ready_def s3_def the_ctx_upd)
  moreover have "\<not> is_ready s3 i" if "0 < i" "i < MAX_PROCESSES" "i \<noteq> c" for i
    using alone_others(2) [OF a S3(3) that(3,2)] that(1) by (simp add: is_ready_def)
  ultimately have "next_ready c s3 = c" by (rule next_ready_alone [OF a'(1,2)])
  then have "pick_next_context c s3 = Inr (c, s3)" using pick_next_context_eq [OF a'(3,2)] by simp
  then have s': "s' = ack_irq s3" using p by (simp add: preempt_def Let_def s3_def [symmetric])
  note D = device_holds [OF S3(7), of "mem (ack_irq s3)", OF ack_irq_device [OF S3(9,10)]]
  have e: "ack_irq s3 = s3\<lparr>mem := mem (ack_irq s3)\<rparr>" by (simp add: ack_irq_def)
  show ?thesis unfolding s' by (subst e) (rule solo_space [OF s3 D same_kernel_write])
qed

subsection \<open>Runs\<close>

text \<open>One step of a program that runs alone: a store to pages mapped for the user, a fault on a page that is
  not present and that a segment allows, a system call that returns to the caller, a timer interrupt with no
  alarm due.\<close>

inductive program_step :: "mmu \<Rightarrow> 'a kernel_scheme \<Rightarrow> 'a kernel_scheme \<Rightarrow> bool" for mmu where
  store: "\<lbrakk>current s = Some c; user_store (mem s) (the_ctx s c) m\<rbrakk> \<Longrightarrow> program_step mmu s (s\<lparr>mem := m\<rparr>)"
| fault: "\<lbrakk>current s = Some c; fault_ok (the_ctx s c) a err; \<not> page_present (mem s) (ucast (pgd (the_ctx s c))) a;
     stock OS_PT_REG 3 s; stock USER_REG 1 s; do_page_fault mmu a rg err s = Inr (fl, s')\<rbrakk> \<Longrightarrow> program_step mmu s s'"
| call: "\<lbrakk>n \<notin> {1, 7, 9, 10}; do_syscall mmu rg n x y s = Inr (fl, s')\<rbrakk> \<Longrightarrow> program_step mmu s s'"
| tick: "\<lbrakk>current s = Some c; ticks_to_alarm (the_ctx s c) \<noteq> 1; do_irq mmu rg s = Inr (fl, s')\<rbrakk> \<Longrightarrow> program_step mmu s s'"

lemma program_step_solo:
  assumes "program_step mmu s s'" "solo c ea B s0 s" "alone c s0"
  shows "solo c ea B s0 s'"
proof -
  note S = soloD [OF assms(2)]
  show ?thesis using assms(1)
  proof cases
    case (store c' m)
    then have "c' = c" using S(1) by simp
    then have st: "user_store (mem s) (the_ctx s c) m" using store by simp
    note H = user_store_holds [OF S(7,11) refl st]
    show ?thesis unfolding store(1) by (rule solo_space [OF assms(2) H same_kernel_write])
  next
    case (fault c' a err rg fl)
    then have "c' = c" using S(1) by simp
    then show ?thesis using fault page_fault_solo [OF assms(2)] by blast
  next
    case (call n rg x y fl)
    then show ?thesis by (intro syscall_solo [OF assms(2)])
  next
    case (tick c' rg fl)
    then have "c' = c" using S(1) by simp
    then show ?thesis using tick tick_solo [OF assms(2,3)] by (simp add: do_irq_def)
  qed
qed

lemma program_run_solo:
  assumes "(program_step mmu)\<^sup>*\<^sup>* s s'" "solo c ea B s0 s" "alone c s0"
  shows "solo c ea B s0 s'"
  using assms by (induction rule: rtranclp_induct) (auto intro: program_step_solo)

lemma exit_call_solo:
  assumes "solo c ea B s0 s"
  obtains u where "solo c ea B s0 u" "do_syscall mmu rg 1 x y s = bind_result (do_exit u) (\<lambda>_ s'. Inr (Return 0, s'))"
proof -
  note S = soloD [OF assms]
  define t where "t = upd_ctx c (regs_update (\<lambda>_. rg)) s"
  define u where "u = t\<lparr>stats := (stats t)\<lparr>syscalls := syscalls (stats t) + 1\<rparr>\<rparr>"
  have "solo c ea B s0 t" unfolding t_def by (rule solo_upd [OF assms]) (simp_all add: S(6))
  then have "solo c ea B s0 u" unfolding u_def by (rule solo_same) simp_all
  moreover have "do_syscall mmu rg 1 x y s = bind_result (do_exit u) (\<lambda>_ s'. Inr (Return 0, s'))"
    unfolding do_syscall_def get_current_ctx_def S(1) option.case Let_def t_def [symmetric] u_def [symmetric] by simp
  ultimately show ?thesis by (rule that)
qed

text \<open>A program that has just been started is in this situation.\<close>

lemma launch_solo:
  fixes s :: "'a kernel_scheme"
  assumes inv: "mm_inv s" "sched_inv s" "current s = None" "stock OS_PT_REG 11 s" "stock USER_REG 10 s"
    and idle: "state (the_ctx s 0) = READY" "\<And>i. 0 < i \<Longrightarrow> i < MAX_PROCESSES \<Longrightarrow> state (the_ctx s i) = UNUSED"
    and apic: "0x40000000 \<le> apic_base s" "apic_base s < 0x100000000"
  obtains c s1 rg s2 ea B where "create_context (str ''init'') EXEC_CTX_USER s = Inr (c, s1)"
    "exec_init cpu rflags c args s1 = Inr (Iret rg, s2)" "solo c ea B s2 s2" "alone c s2" "c < MAX_PROCESSES"
    "ctx_list s2 = (ctx_list s)[c := the_ctx s2 c]"
    "B = insert (os_pmd_pfn s2) (insert (ucast (os_stack_pfn (the_ctx s2 c))) (taken s))"
    "own_page OS_PT_REG (ucast (os_stack_pfn (the_ctx s2 c)))" "ucast (os_stack_pfn (the_ctx s2 c)) \<notin> taken s"
    "own_page OS_PT_REG (os_pmd_pfn s2)" "os_pmd_pfn s2 \<notin> insert (ucast (os_stack_pfn (the_ctx s2 c))) (taken s)"
proof -
  have st: "stock OS_PT_REG (Suc 10) s" using inv(4) by simp
  have u1: "1 < MAX_PROCESSES" "state (the_ctx s 1) = UNUSED" using idle(2) by simp_all
  obtain c s1 where C: "create_context (str ''init'') EXEC_CTX_USER s = Inr (c, s1)" "mm_inv s1" "stock OS_PT_REG 10 s1"
    "\<And>k. stock USER_REG k s1 = stock USER_REG k s" "ctx_list s1 = (ctx_list s)[c := the_ctx s1 c]" "apic_base s1 = apic_base s"
    "mms (the_ctx s1 c) = user_segments (mms (the_ctx s c))" "own_page OS_PT_REG (ucast (os_stack_pfn (the_ctx s1 c)))"
    "ucast (os_stack_pfn (the_ctx s1 c)) \<notin> taken s" "taken s1 = insert (ucast (os_stack_pfn (the_ctx s1 c))) (taken s)"
    "c < MAX_PROCESSES" "state (the_ctx s c) = UNUSED"
    by (rule create_context_frames [OF inv(1) st inv(2) u1, where name = "str ''init''" and ty = EXEC_CTX_USER], rule that; assumption)
  note K = create_context_inv [OF inv(2) C(1)]
  have l: "length (ctx_list s) = MAX_PROCESSES" by (rule sched_invD(1) [OF inv(2)])
  have l1: "c < length (ctx_list s1)" using C(5,11) l by (metis length_list_update)
  have su: "stock USER_REG 10 s1" using C(4) inv(5) by simp
  have segs: "seg_start (mms (the_ctx s1 c) MM_SEG_CODE) = CODE_START" "seg_start (mms (the_ctx s1 c) MM_SEG_DATA) = DATA_START"
    "seg_end (mms (the_ctx s1 c) MM_SEG_STACK) = STACK_START" by (simp_all add: C(7))
  have apic1: "0x40000000 \<le> apic_base s1" "apic_base s1 < 0x100000000" using apic by (simp_all add: C(6))
  obtain ea s2 rg where E: "exec_init cpu rflags c args s1 = Inr (Iret rg, s2)" "mm_inv s2"
    "apic_mapped (mem s2) (ucast (pgd (the_ctx s2 c))) (apic_base s2) ea"
    "frames_ok (pt_frames (wr64 (mem s2) ea 0) 4 (ucast (pgd (the_ctx s2 c))))"
    "own_page OS_PT_REG (os_pmd_pfn s2)" "os_pmd_pfn s2 \<notin> snd ` set (pt_frames (wr64 (mem s2) ea 0) 4 (ucast (pgd (the_ctx s2 c))))"
    "taken s1 \<inter> insert (os_pmd_pfn s2) (snd ` set (pt_frames (wr64 (mem s2) ea 0) 4 (ucast (pgd (the_ctx s2 c))))) = {}"
    "taken s2 = taken s1 \<union> insert (os_pmd_pfn s2) (snd ` set (pt_frames (wr64 (mem s2) ea 0) 4 (ucast (pgd (the_ctx s2 c)))))"
    "tracks c s1 s2" "current s2 = Some c" "state (the_ctx s2 c) = RUNNING" "aligned 3 ea"
    "(2, frame_of ea) \<in> set (pt_frames (wr64 (mem s2) ea 0) 4 (ucast (pgd (the_ctx s2 c))))"
    by (rule exec_init_frames [OF C(2,3) su l1 segs apic1, where cpu = cpu and rflags = rflags and args = args], rule that; assumption)
  let ?p = "ucast (pgd (the_ctx s2 c)) :: u64" and ?k = "ucast (os_stack_pfn (the_ctx s2 c)) :: u64"
  define F where "F = pt_frames (wr64 (mem s2) ea 0) 4 ?p"
  define B where "B = insert (os_pmd_pfn s2) (insert ?k (taken s))"
  note E4 = E(4,6-8,13) [folded F_def]
  have cur1: "current s1 = None" using K(2) inv(3) by simp
  have inv2: "sched_inv s2" by (rule exec_init_inv(1) [OF K(1) E(1) cur1 K(3,4)])
  obtain mm where mm: "layouts s2 = (layouts s)[c := (EXEC_CTX_USER, mm)]" "user_layout mm" "c < length (ctx_list s)"
    by (rule launch_layout [OF inv(2) C(1) E(1)])
  have l2: "length (ctx_list s2) = MAX_PROCESSES" by (rule sched_invD(1) [OF inv2])
  have "layouts s2 ! c = (EXEC_CTX_USER, mm)" using mm(1,3) l by (simp add: layouts_def)
  then have lay: "user_layout (mms (the_ctx s2 c))" using mm(2) layouts_nth [of c s2] l2 C(11) by simp
  have k2: "?k = ucast (os_stack_pfn (the_ctx s1 c))" "ctx_list s2 = (ctx_list s)[c := the_ctx s2 c]" "apic_base s2 = apic_base s"
    using E(9) C(5,6) unfolding tracks_def by (simp, metis list_update_overwrite, simp)
  have t1: "taken s1 = insert ?k (taken s)" "?k \<notin> taken s" "own_page OS_PT_REG ?k" using C(8-10) k2(1) by simp_all
  have bm: "bmap_frames \<subseteq> taken s" by (rule page_pool.own_used [OF inv(1)])
  have d: "os_pmd_pfn s2 \<notin> insert ?k (taken s)" using E4(3) unfolding t1(1) by blast
  have out: "frame_of ea \<notin> bmap_frames"
    using E4(1,5) own_page_not_bmap by (fastforce simp: frames_ok_def)
  note O = hole_outside [OF E(12) out]
  have tk: "taken (hole ea s2) = taken s2" "mm_inv (hole ea s2) = mm_inv s2" "mem (hole ea s2) = wr64 (mem s2) ea 0"
    by (rule O(2), rule O(1)) (simp add: hole_def)
  have "builds B ?p (hole ea s2)"
    unfolding builds_def tk F_def [symmetric]
  proof (intro conjI E(2) E4(1))
    show "bmap_frames \<subseteq> B" using bm by (auto simp: B_def)
    show "B \<inter> snd ` set F = {}" using E4(2,3) unfolding t1(1) B_def by blast
    show "taken s2 = B \<union> snd ` set F" unfolding E4(4) t1(1) B_def by blast
  qed
  then have "holds ea B ?p s2" unfolding holds_def using E(12,13) by blast
  then have "solo c ea B s2 s2"
    unfolding solo_def using E(3,10) C(11) l2 tracks_refl lay apic k2(3) by simp
  moreover have "alone c s2"
    unfolding alone_def
  proof (intro conjI allI impI)
    have c0: "0 < c" using C(12) idle(1) by (metis gr0I process_state.distinct(3))
    then show "0 < c" .
    show "c < MAX_PROCESSES" by (rule C(11))
    show "length (ctx_list s2) = MAX_PROCESSES" by (rule l2)
    show "pid (the_ctx s2 c) = of_nat c" using sched_invD(2) [OF inv2 C(11)] E(11) by simp
    have other: "the_ctx s2 i = the_ctx s i" if "i \<noteq> c" for i using k2(2) that by (metis nth_list_update_neq the_ctx_def)
    show "state (the_ctx s2 0) = READY" using other [of 0] c0 idle(1) by simp
    show "state (the_ctx s2 i) = UNUSED" if "i < MAX_PROCESSES" "0 < i" "i \<noteq> c" for i
      using other [OF that(3)] idle(2) [OF that(2,1)] by simp
  qed
  ultimately show ?thesis using that [OF C(1) E(1) _ _ C(11) k2(2) B_def t1(3,2) E(5) d] by blast
qed

text \<open>C10: A whole run. From an idle kernel in the allocator's invariant, with 11 page-table
  frames and 10 user frames in stock, \<open>create_context\<close> and \<open>exec_init\<close>
  start a program. After any number of its steps, which are stores to its mapped pages, faults on
  pages not present that a segment allows (while enough frames are in stock for the page and its
  tables), system calls that return to the caller (\<open>expand\<close>, \<open>shrink\<close>,
  \<open>write\<close> and others) and timer interrupts with no alarm due, its \<open>exit\<close>
  returns to the shell with no current context and the slot unused. Exactly the frames that were in
  use before the start are in use again. The kernel stack is released by \<open>do_exit\<close> and
  again by \<open>do_cleanup\<close>, so the count of free page-table frames is one too
  high.\<close>

theorem program_gives_back_its_memory:
  fixes s :: "'a kernel_scheme"
  assumes "mm_inv s" "sched_inv s" "current s = None" "stock OS_PT_REG 11 s" "stock USER_REG 10 s"
    and "state (the_ctx s 0) = READY" "\<And>i. 0 < i \<Longrightarrow> i < MAX_PROCESSES \<Longrightarrow> state (the_ctx s i) = UNUSED"
    and "0x40000000 \<le> apic_base s" "apic_base s < 0x100000000"
  shows "\<exists>c s1 rg s2. create_context (str ''init'') EXEC_CTX_USER s = Inr (c, s1) \<and>
    exec_init cpu rflags c args s1 = Inr (Iret rg, s2) \<and>
    (\<forall>s3 rg' x y. (program_step mmu)\<^sup>*\<^sup>* s2 s3 \<longrightarrow>
      (\<exists>s4. do_syscall mmu rg' 1 x y s3 = Inr (Shell, s4) \<and> current s4 = None \<and> state (the_ctx s4 c) = UNUSED \<and>
        (\<forall>i. i \<noteq> c \<longrightarrow> the_ctx s4 i = the_ctx s i) \<and> taken s4 = taken s \<and>
        (\<forall>r. free_pages (pglists s4 r) = free_pages (pglists s r) + (if r = OS_PT_REG then 1 else 0))))"
proof -
  obtain c s1 rg s2 ea B where L: "create_context (str ''init'') EXEC_CTX_USER s = Inr (c, s1)"
    "exec_init cpu rflags c args s1 = Inr (Iret rg, s2)" "solo c ea B s2 s2" "alone c s2" "c < MAX_PROCESSES"
    "ctx_list s2 = (ctx_list s)[c := the_ctx s2 c]"
    "B = insert (os_pmd_pfn s2) (insert (ucast (os_stack_pfn (the_ctx s2 c))) (taken s))"
    "own_page OS_PT_REG (ucast (os_stack_pfn (the_ctx s2 c)))" "ucast (os_stack_pfn (the_ctx s2 c)) \<notin> taken s"
    "own_page OS_PT_REG (os_pmd_pfn s2)" "os_pmd_pfn s2 \<notin> insert (ucast (os_stack_pfn (the_ctx s2 c))) (taken s)"
    by (rule launch_solo [OF assms(1-6) _ assms(8,9), where cpu = cpu and rflags = rflags and args = args],
      rule assms(7), assumption, assumption, rule that; assumption)
  have "\<exists>s4. do_syscall mmu rg' 1 x y s3 = Inr (Shell, s4) \<and> current s4 = None \<and> state (the_ctx s4 c) = UNUSED \<and>
        (\<forall>i. i \<noteq> c \<longrightarrow> the_ctx s4 i = the_ctx s i) \<and> taken s4 = taken s \<and>
        (\<forall>r. free_pages (pglists s4 r) = free_pages (pglists s r) + (if r = OS_PT_REG then 1 else 0))"
    if run: "(program_step mmu)\<^sup>*\<^sup>* s2 s3" for s3 rg' x y
  proof -
    obtain u where U: "solo c ea B s2 u" "do_syscall mmu rg' 1 x y s3 = bind_result (do_exit u) (\<lambda>_ s'. Inr (Return 0, s'))"
      by (rule exit_call_solo [OF program_run_solo [OF run L(3,4)], where mmu = mmu and rg = rg' and x = x and y = y])
    note S = soloD [OF U(1)] and H = holdsD [OF soloD(7) [OF U(1)]]
    have k: "os_stack_pfn (the_ctx u c) = os_stack_pfn (the_ctx s2 c)" using S(3) by (simp add: tracks_def)
    note ok = buildsD(3) [OF H(1), unfolded H(9)]
    have others: "the_ctx u i = the_ctx s i" if "i \<noteq> c" for i
      using S(3) L(6) that unfolding tracks_def by (metis list_update_overwrite nth_list_update_neq the_ctx_def)
    have un: "state (the_ctx u i) = UNUSED" if "0 < i" "i < MAX_PROCESSES" "i \<noteq> c" for i
      using others [OF that(3)] assms(7) [OF that(1,2)] by simp
    obtain s4 where X: "do_exit u = Inr (Shell, s4)" "current s4 = None"
      "ctx_list s4 = (ctx_list u)[c := (the_ctx u c)\<lparr>state := UNUSED\<rparr>]" "taken s4 = taken s"
      "\<And>r. free_pages (pglists s4 r) = free_pages (pglists s r) + (if r = OS_PT_REG then 1 else 0)" "\<not> mm_inv s4"
      by (rule exit_gives_back [OF assms(1) H(5) S(1,2) un S(9,8) L(8-11) [folded k, folded S(4)] ok refl
            H(7) [unfolded L(7), folded k, folded S(4)] H(6) [unfolded L(7), folded k, folded S(4)]]; (assumption | rule that; assumption))
    have "the_ctx s4 i = the_ctx s i" if "i \<noteq> c" for i
      using others [OF that] X(3) that by (simp add: the_ctx_def)
    moreover have "state (the_ctx s4 c) = UNUSED" using X(3) S(2) by (simp add: the_ctx_def)
    ultimately show ?thesis using X(1,2,4,5) by (simp add: U(2) result_simps)
  qed
  then show ?thesis using L(1,2) by blast
qed

theorem program_gives_back_its_memory_witness:
  "\<exists>c s1 rg s2 v s3 s4. create_context (str ''init'') EXEC_CTX_USER idle_kernel = Inr (c, s1) \<and>
     exec_init zero_regs 0x202 c \<lparr>arg_rdi = 0, arg_rsi = 0, arg_rcx = 0, arg_rdx = 0, arg_r8 = 0\<rparr> s1 = Inr (Iret rg, s2) \<and>
     do_syscall walk_mmu rg 4 512 1 s2 = Inr (Return v, s3) \<and>
     do_syscall walk_mmu rg 1 0 0 s3 = Inr (Shell, s4) \<and> taken s4 = taken idle_kernel"
proof -
  have free: "state (the_ctx idle_kernel i) = UNUSED" if "0 < i" "i < MAX_PROCESSES" for i
    using idle_kernel_ctx(2) [OF that] by (simp add: zero_ctx_def)
  have idle: "current idle_kernel = None" "state (the_ctx idle_kernel 0) = READY"
    "0x40000000 \<le> apic_base idle_kernel" "apic_base idle_kernel < 0x100000000"
    by (simp_all add: idle_kernel_ctx(1,4,5))
  let ?a = "\<lparr>arg_rdi = 0, arg_rsi = 0, arg_rcx = 0, arg_rdx = 0, arg_r8 = 0\<rparr> :: init_args"
  note R = program_gives_back_its_memory [OF idle_kernel_inv(1,2) idle(1) idle_kernel_inv(3,5) idle(2) _ idle(3,4), OF free,
      where cpu = zero_regs and rflags = "0x202" and args = ?a and mmu = walk_mmu]
  then obtain c s1 rg s2 where P: "create_context (str ''init'') EXEC_CTX_USER idle_kernel = Inr (c, s1)"
    "exec_init zero_regs 0x202 c ?a s1 = Inr (Iret rg, s2)"
    "\<And>s3 rg' x y. (program_step walk_mmu)\<^sup>*\<^sup>* s2 s3 \<Longrightarrow>
       \<exists>s4. do_syscall walk_mmu rg' 1 x y s3 = Inr (Shell, s4) \<and> taken s4 = taken idle_kernel"
    by fastforce
  have "current s2 = Some c"
    using exec_init_inv(3) [OF create_context_inv(1) [OF idle_kernel_inv(2) P(1)] P(2)] create_context_inv(2-4) [OF idle_kernel_inv(2) P(1)] idle(1)
    by simp
  then have "\<exists>v s3. do_syscall walk_mmu rg 4 512 1 s2 = Inr (Return v, s3)"
    by (simp add: do_syscall_def get_current_ctx_def Let_def do_expand_def map_segment_def)
  then obtain v s3 where E: "do_syscall walk_mmu rg 4 512 1 s2 = Inr (Return v, s3)" by blast
  have "program_step walk_mmu s2 s3" by (rule program_step.call [OF _ E]) simp
  then show ?thesis using P E by blast
qed

end
