(* ===== verification/Spec2Isabelle.thy ===== *)
theory Spec2Isabelle
  imports Fair_Runs Fork_Space Boot User_Programs Descriptors User_Access Small_Objects Shell_Spec Keyboard Program_Memory
begin

text \<open>
  A model of gemOS, a small teaching kernel for x86-64, and the proofs of what makes it correct. The
  sources are the C files under \<open>src/src\<close>; \<open>boot_64.S\<close> and \<open>link64.ld\<close> are not C.

  \<^bold>\<open>The program and the theories.\<close> The kernel runs on one processor with interrupts off. Physical
  memory is a function from addresses to bytes (\<open>Phys_Mem\<close>), and everything the kernel reads back
  from memory as bytes is in it: bitmaps, page tables, list nodes, descriptor tables, strings. C
  integers are words of their width. The state grows by record extension: \<open>machine\<close> (memory and
  console), \<open>page_state\<close> (page lists), \<open>alloc_state\<close> (nodes and size classes), \<open>kernel\<close> (process
  table, current context, statistics, configuration, \<open>cr3\<close> and the stack in the task state segment),
  \<open>desc_state\<close> (descriptor tables).

  \<^item> \<open>Prelude\<close>, \<open>Phys_Mem\<close>: words, aligned addresses and frames; bytes, 32- and 64-bit accesses,
    \<open>bzero\<close> and \<open>memcpy\<close> of \<open>lib.c\<close>.
  \<^item> \<open>Console\<close>, \<open>Decimal\<close>: \<open>vprintf\<close> and \<open>printf\<close> (\<open>lib.c\<close>); \<open>%d\<close> prints the decimal value.
  \<^item> \<open>Cstring\<close>: \<open>strlen\<close>, \<open>strcat\<close>, \<open>strcmp\<close>, \<open>memcmp\<close>, \<open>sprintf\<close> (\<open>lib.c\<close>) on strings in memory; they
    agree with operations on lists.
  \<^item> \<open>Serial\<close>, \<open>Keyboard\<close>: the drivers of \<open>serial.c\<close> and \<open>kbd.c\<close> over the history of port accesses,
    with the device as a parameter; the serial driver refines the console model.
  \<^item> \<open>Page_Alloc\<close>, \<open>Page_Bitmap\<close>, \<open>Page_Pool\<close>: the page allocator of \<open>memory.c\<close>, its bitmaps, and its
    invariant \<open>mm_inv\<close> with the locale \<open>frame_alloc\<close>, the contract of an allocator of frames, which the
    page tables rely on.
  \<^item> \<open>Os_Alloc\<close>, \<open>Node_Lists\<close>, \<open>Small_Objects\<close>: list nodes, linked lists and size classes (\<open>memory.c\<close>,
    \<open>lib.c\<close>); the locale \<open>fifo\<close> is the contract of a queue, which the lists in memory meet.
  \<^item> \<open>Page_Table\<close>, \<open>Page_Tree\<close>, \<open>Frame_Store\<close>, \<open>Address_Space\<close>: the four-level tables (\<open>entry.c\<close>,
    \<open>context.c\<close>, \<open>apic.c\<close>). \<open>Page_Tree\<close> is the theory of such trees in memory, \<open>Frame_Store\<close> the locale
    that connects it with the allocator, \<open>Address_Space\<close> what mapping and unmapping do.
  \<^item> \<open>Table_Frames\<close>, \<open>Space_Build\<close>, \<open>Teardown\<close>, \<open>Program_Run\<close>: the frames that a tree of page tables owns, in
    the order in which \<open>pt_cleanup\<close> visits them; how \<open>exec_init\<close> builds the tree, and what \<open>pt_cleanup\<close>,
    \<open>do_cleanup\<close> and \<open>do_exit\<close> release.
  \<^item> \<open>Table_Copy\<close>, \<open>Kernel_Entries\<close>, \<open>Page_Fork\<close>, \<open>Fork_Space\<close>: \<open>install_ptable\<close> and \<open>install_os_pts\<close> in terms of
    user mappings, one round of the loops of \<open>copy_mm\<close> and a list of rounds, and \<open>do_fork\<close> as a whole: the
    space of the child is a copy of the parent's (\<open>space_copied\<close>, \<open>forked_space\<close>).
  \<^item> \<open>Running_Tree\<close>, \<open>Program_Memory\<close>: what faults, unmapping and stores do to the tree of a running program,
    the steps \<open>program_step\<close> of a program that runs alone, and its run from the shell and back.
  \<^item> \<open>Context\<close>, \<open>Schedule\<close>, \<open>Timer\<close>, \<open>Process\<close>, \<open>Signals\<close>, \<open>Syscall\<close>: the operations of \<open>context.c\<close>,
    \<open>schedule.c\<close>, \<open>entry.c\<close> and \<open>do_gp\<close> of \<open>idt.c\<close>. An operation returns a \<open>kerror\<close> where the C code
    would go wrong, or how it ends: it returns, it leaves to the user (\<open>Iret\<close>) or to the shell.
  \<^item> \<open>Sched_Inv\<close>, \<open>Kernel_Steps\<close>, \<open>Segments\<close>, \<open>Fairness\<close>, \<open>Fair_Runs\<close>, \<open>Lifecycle\<close>, \<open>User_Access\<close>: the
    invariants of the process table and of the segments, the step relation \<open>kstep\<close> of the kernel with
    arbitrary programs, and the behaviour of scheduling, process operations and accesses to user memory.
    \<open>Fairness\<close> is about the timer interrupt, \<open>Fair_Runs\<close> about whole runs of \<open>kstep\<close>.
  \<^item> \<open>Shell\<close>, \<open>Shell_Spec\<close>: \<open>shell.c\<close>, and what each command does.
  \<^item> \<open>Descriptors\<close>, \<open>Boot\<close>: \<open>idt.c\<close>, \<open>init_apic\<close> of \<open>apic.c\<close> and \<open>main.c\<close>, and the state that boot leaves.
  \<^item> \<open>User_Programs\<close>: the programs under \<open>user\<close> as trees of system calls and stores.

  \<^bold>\<open>What the properties show.\<close> Memory: allocation returns a fresh frame and keeps the invariant; a page
  fault maps exactly one page, and unmapping undoes it; the segments keep their layout in every
  reachable state; a program takes fresh frames only, and its exit releases exactly the frames it
  took; the child of a fork has tables of its own, shares the parent's code and read-only pages and has
  copies of its data pages and of the topmost stack page. Processes: the process table is well-formed in
  every reachable state; in every run of the kernel a ready process runs at the latest after the
  fifteenth timer interrupt, whatever system calls and faults come in between; a sleeper wakes on time;
  a switch saves and restores exactly the registers; fork, clone, exit and signals do what they promise.
  Devices and shell: the drivers return exactly when the device answers, and transfer exactly the bytes they are given; a typed line runs
  the command it means, and \<open>init\<close> passes its arguments to the program. Boot: every table is where
  the processor expects it. Where the code does something else than it means to, the property says
  what it does (the size classes, the window that the page allocator scans, the third and fourth
  argument of a program, the stack that is released twice, the stack pages below the topmost that
  fork does not copy, the nodes that are never counted, the argument 0 that prints no digit).

  \<^bold>\<open>Loops.\<close> Loops bounded by a counter are recursive functions on it; loops over the pages of a range
  end or yield \<open>NoReturn\<close> when the address wraps around, which the layout of segments excludes. The
  scheduler's search has fuel 17: it visits at most the 15 user slots, once, so the fuel does not run
  out (\<open>pick_next_context_nearest\<close>). \<open>pt_cleanup\<close> has depth 5, one for each level and one for the page
  itself; \<open>pt_cleanup_gives_back\<close> shows that it is enough for every tree whose frames lie in the page
  regions, outside which the page of the interrupt controller is. Loops that poll a device, search nodes or
  read strings without a bound are partial functions whose value \<open>None\<close> is a loop that never ends.

  \<^bold>\<open>Parameters.\<close> The devices, the registers that assembly reads, the addresses of functions and
  string literals, and the address translation that the processor performs for accesses to user
  memory by the kernel (\<open>mmu\<close>) are arguments of the definitions that use them.

  \<^bold>\<open>Not modelled.\<close> The assembly of \<open>boot_64.S\<close> (mode switch, first page tables, entry stubs: the handlers
  start from the register frame that the stubs push); cache and TLB maintenance; nested faults of the
  kernel, which are errors of the model; \<open>dprintf\<close>, which is not compiled in; \<open>read_idt\<close>, \<open>read_gdt\<close>,
  \<open>rand_rdtsc\<close> and the commands of the shell under \<open>#if 0\<close>, which are not used. The return of the shell's
  loop after a program has ended starts a new loop.
\<close>

end
